(* ===== verification/Prelude.thy ===== *)
theory Prelude
  imports Main "HOL-Library.Word"
begin

text \<open>
  Shared vocabulary of the development: the machine integers of the C sources, the
  outcomes a C function can have besides returning (a failed \<^verbatim>\<open>assert\<close>, an access outside an
  object, a loop that never ends), byte buffers with checked reads and writes, and the
  little-endian layout of integers in a buffer.

  A C function that reads or writes memory is a HOL function into \<open>'a outcome\<close>: \<open>Inr\<close> is
  the normal return, \<open>Inl\<close> names the fault. Results of type \<^verbatim>\<open>result_t\<close> (SUCCESS and
  FAILURE) are ordinary values inside \<open>Inr\<close>; they are not faults.
\<close>

unbundle bit_operations_syntax

section \<open>Machine integers\<close>

type_synonym byte = "8 word"
type_synonym u16 = "16 word"
type_synonym u32 = "32 word"
type_synonym u64 = "64 word"

named_theorems outcome_simps \<open>evaluation of the outcome monad\<close>
named_theorems buffer_simps \<open>reads after writes in byte buffers\<close>

lemma unat_drop_bit_div: "unat (drop_bit n (w :: 'a::len word)) = unat w div 2 ^ n"
  by (subst unat_drop_bit_eq) (simp only: drop_bit_eq_div)

lemma unat_byte_less: "unat (b :: byte) < 256"
proof -
  have "unat b < 2 ^ LENGTH(8)" by (rule unsigned_less)
  then show ?thesis by simp
qed

lemma unat_drop_bit_less:
  "drop_bit n (w :: 'a::len word) \<noteq> 0 \<Longrightarrow> 0 < n \<Longrightarrow> unat (drop_bit n w) < unat w"
proof -
  assume "drop_bit n w \<noteq> 0" and "0 < n"
  then have "w \<noteq> 0" by (cases "w = 0") simp_all
  then have "unat w \<noteq> 0" by (simp only: unat_eq_zero simp_thms)
  moreover have "(1 :: nat) < 2 ^ n" using \<open>0 < n\<close> by (rule one_less_power [OF _ , rotated]) simp
  ultimately show ?thesis by (simp add: div_less_dividend unat_drop_bit_div)
qed

lemma drop_bit_eq_0_iff_unat:
  "drop_bit n (w :: 'a::len word) = 0 \<longleftrightarrow> unat w < 2 ^ n"
proof -
  have "drop_bit n w = 0 \<longleftrightarrow> unat (drop_bit n w) = 0" by (simp only: unat_eq_zero)
  then show ?thesis by (simp add: unat_drop_bit_div div_eq_0_iff)
qed

named_theorems mask_bits \<open>the bits of the masks the sources use\<close>

text \<open>
  The simplifier moves a bit of a word numeral to the integers, where these rules apply.
\<close>

lemma bit_int_mask [mask_bits]:
  "bit (0x7f :: int) n \<longleftrightarrow> n < 7" "bit (0xff :: int) n \<longleftrightarrow> n < 8"
  "bit (0x0f :: int) n \<longleftrightarrow> n < 4" "bit (0x3f :: int) n \<longleftrightarrow> n < 6"
proof -
  have "(0x7f :: int) = mask 7" "(0xff :: int) = mask 8" "(0x0f :: int) = mask 4" "(0x3f :: int) = mask 6"
    by (simp_all add: mask_eq_exp_minus_1)
  then show "bit (0x7f :: int) n \<longleftrightarrow> n < 7" "bit (0xff :: int) n \<longleftrightarrow> n < 8"
    "bit (0x0f :: int) n \<longleftrightarrow> n < 4" "bit (0x3f :: int) n \<longleftrightarrow> n < 6"
    by (simp_all only: bit_mask_iff) (auto simp: possible_bit_def)
qed

lemma bit_int_0x80 [mask_bits]: "bit (0x80 :: int) n \<longleftrightarrow> n = 7"
proof -
  have "(0x80 :: int) = 2 ^ 7" by simp
  then show ?thesis by (simp only: bit_exp_iff) (auto simp: possible_bit_def)
qed

section \<open>Outcomes\<close>

datatype fault =
    Assertion_failed  \<comment> \<open>\<^verbatim>\<open>assert\<close> is false: the process aborts\<close>
  | Out_of_bounds     \<comment> \<open>an access outside the object a pointer points into\<close>
  | Signed_overflow   \<comment> \<open>arithmetic on a signed type leaves its range\<close>
  | Division_by_zero
  | Null_dereference
  | Spins_forever     \<comment> \<open>a busy-wait loop that no other thread can end\<close>
  | Indeterminate     \<comment> \<open>the value of an object that was never written\<close>

type_synonym 'a outcome = "fault + 'a"

definition obind :: "'a outcome \<Rightarrow> ('a \<Rightarrow> 'b outcome) \<Rightarrow> 'b outcome" where
  "obind m f = (case m of Inl e \<Rightarrow> Inl e | Inr x \<Rightarrow> f x)"

definition c_assert :: "bool \<Rightarrow> unit outcome" where
  "c_assert b = (if b then Inr () else Inl Assertion_failed)"

lemma obind_simps [simp, outcome_simps]:
  "obind (Inr x) f = f x"
  "obind (Inl e) f = Inl e"
  by (simp_all add: obind_def)

lemma obind_assoc: "obind (obind m f) g = obind m (\<lambda>x. obind (f x) g)"
  by (simp add: obind_def split: sum.splits)

lemma obind_eq_Inr_iff: "obind m f = Inr y \<longleftrightarrow> (\<exists>x. m = Inr x \<and> f x = Inr y)"
  by (simp add: obind_def split: sum.splits)

lemma obind_InrE [elim]:
  assumes "obind m f = Inr y"
  obtains x where "m = Inr x" and "f x = Inr y"
  using assms by (auto simp: obind_eq_Inr_iff)

lemma obind_cong [fundef_cong]:
  "m = m' \<Longrightarrow> (\<And>x. m' = Inr x \<Longrightarrow> f x = f' x) \<Longrightarrow> obind m f = obind m' f'"
  by (cases m') auto

lemma c_assert_simps [simp, outcome_simps]:
  "c_assert True = Inr ()"
  "c_assert False = Inl Assertion_failed"
  by (simp_all add: c_assert_def)

lemma c_assert_eq_Inr_iff [simp]: "c_assert b = Inr u \<longleftrightarrow> b"
  by (cases u) (simp add: c_assert_def)

section \<open>Byte buffers\<close>

text \<open>
  A pointer into an object is the list of bytes from that address to the end of the object,
  so \<open>drop n\<close> is pointer arithmetic and reading past the end is a fault.
\<close>

definition mem_get :: "byte list \<Rightarrow> nat \<Rightarrow> byte outcome" where
  "mem_get m i = (if i < length m then Inr (m ! i) else Inl Out_of_bounds)"

definition mem_set :: "byte list \<Rightarrow> nat \<Rightarrow> byte \<Rightarrow> byte list outcome" where
  "mem_set m i b = (if i < length m then Inr (m[i := b]) else Inl Out_of_bounds)"

definition fetch :: "byte list \<Rightarrow> nat \<Rightarrow> nat \<Rightarrow> byte list" where
  "fetch m off n = take n (drop off m)"

definition store :: "byte list \<Rightarrow> nat \<Rightarrow> byte list \<Rightarrow> byte list" where
  "store m off bs = take off m @ bs @ drop (off + length bs) m"

definition mem_read :: "byte list \<Rightarrow> nat \<Rightarrow> nat \<Rightarrow> byte list outcome" where
  "mem_read m off n = (if off + n \<le> length m then Inr (fetch m off n) else Inl Out_of_bounds)"

text \<open>\<open>mem_write m off bs\<close> is \<^verbatim>\<open>memcpy(m + off, bs, length bs)\<close>.\<close>

definition mem_write :: "byte list \<Rightarrow> nat \<Rightarrow> byte list \<Rightarrow> byte list outcome" where
  "mem_write m off bs = (if off + length bs \<le> length m then Inr (store m off bs) else Inl Out_of_bounds)"

lemma mem_get_in [simp]: "i < length m \<Longrightarrow> mem_get m i = Inr (m ! i)"
  by (simp add: mem_get_def)

lemma mem_set_in [simp]: "i < length m \<Longrightarrow> mem_set m i b = Inr (m[i := b])"
  by (simp add: mem_set_def)

lemma mem_read_in [simp]: "off + n \<le> length m \<Longrightarrow> mem_read m off n = Inr (fetch m off n)"
  by (simp add: mem_read_def)

lemma mem_write_in [simp]: "off + length bs \<le> length m \<Longrightarrow> mem_write m off bs = Inr (store m off bs)"
  by (simp add: mem_write_def)

lemma mem_get_eq_Inr_iff: "mem_get m i = Inr b \<longleftrightarrow> i < length m \<and> b = m ! i"
  by (auto simp: mem_get_def)

lemma mem_set_eq_Inr_iff: "mem_set m i b = Inr m' \<longleftrightarrow> i < length m \<and> m' = m[i := b]"
  by (auto simp: mem_set_def)

lemma mem_read_eq_Inr_iff: "mem_read m off n = Inr bs \<longleftrightarrow> off + n \<le> length m \<and> bs = fetch m off n"
  by (auto simp: mem_read_def)

lemma mem_write_eq_Inr_iff:
  "mem_write m off bs = Inr m' \<longleftrightarrow> off + length bs \<le> length m \<and> m' = store m off bs"
  by (auto simp: mem_write_def)

lemma length_fetch [simp]: "off + n \<le> length m \<Longrightarrow> length (fetch m off n) = n"
  by (simp add: fetch_def)

lemma length_store [simp]: "off + length bs \<le> length m \<Longrightarrow> length (store m off bs) = length m"
  by (simp add: store_def)

lemma fetch_all [simp]: "fetch m 0 (length m) = m"
  by (simp add: fetch_def)

lemma fetch_nth: "i < n \<Longrightarrow> off + n \<le> length m \<Longrightarrow> fetch m off n ! i = m ! (off + i)"
  by (simp add: fetch_def)

lemma store_nth:
  assumes "off + length bs \<le> length m" and "i < length m"
  shows "store m off bs ! i = (if off \<le> i \<and> i < off + length bs then bs ! (i - off) else m ! i)"
  using assms by (auto simp: store_def nth_append)

lemma fetch_store_same [simp, buffer_simps]:
  assumes "off + length bs \<le> length m" and "n = length bs"
  shows "fetch (store m off bs) off n = bs"
  using assms by (simp add: fetch_def store_def)

lemma fetch_store_disjoint [buffer_simps]:
  assumes "off + length bs \<le> length m" and "off' + n \<le> off \<or> off + length bs \<le> off'"
    and "off' + n \<le> length m"
  shows "fetch (store m off bs) off' n = fetch m off' n"
proof (rule nth_equalityI)
  show "length (fetch (store m off bs) off' n) = length (fetch m off' n)"
    using assms by simp
  fix i
  assume "i < length (fetch (store m off bs) off' n)"
  then have "i < n" using assms by simp
  then show "fetch (store m off bs) off' n ! i = fetch m off' n ! i"
    using assms by (auto simp: fetch_nth store_nth)
qed

lemma drop_store_after:
  "off + length bs \<le> length m \<Longrightarrow> off + length bs \<le> k \<Longrightarrow> drop k (store m off bs) = drop k m"
  by (rule nth_equalityI) (auto simp: store_nth)

section \<open>Little-endian integers\<close>

definition le_bytes :: "nat \<Rightarrow> 'a::len word \<Rightarrow> byte list" where
  "le_bytes n w = map (\<lambda>i. ucast (drop_bit (8 * i) w)) [0..<n]"

fun le_word :: "byte list \<Rightarrow> 'a::len word" where
  "le_word [] = 0"
| "le_word (b # bs) = ucast b OR push_bit 8 (le_word bs)"

lemma length_le_bytes [simp]: "length (le_bytes n w) = n"
  by (simp add: le_bytes_def)

lemma bit_le_word:
  "bit (le_word bs :: 'a::len word) k \<longleftrightarrow>
     k < LENGTH('a) \<and> k < 8 * length bs \<and> bit (bs ! (k div 8)) (k mod 8)"
proof (induction bs arbitrary: k)
  case Nil
  then show ?case by simp
next
  case (Cons b bs)
  show ?case
  proof (cases "k < 8")
    case True
    then show ?thesis by (auto simp: bit_simps)
  next
    case False
    then obtain j where "k = 8 + j" by (metis le_add_diff_inverse not_less)
    moreover have "(8 + j) div 8 = Suc (j div 8)" by simp
    moreover have "\<not> bit b (8 + j)" using bit_imp_le_length [of b "8 + j"] by auto
    ultimately show ?thesis using Cons.IH [of j] by (auto simp: bit_simps)
  qed
qed

lemma le_word_bytes [simp]:
  assumes "LENGTH('a::len) \<le> 8 * n"
  shows "le_word (le_bytes n (w :: 'a word)) = w"
  by (rule bit_word_eqI) (use assms in \<open>auto simp: bit_le_word le_bytes_def bit_simps\<close>)

end
