(* ===== verification/Varint.thy ===== *)
theory Varint
  imports Prelude
begin

text \<open>
  Variable-length integers, src/varint.c: \<^verbatim>\<open>varint_put\<close>, \<^verbatim>\<open>varint_put_len\<close>, \<^verbatim>\<open>varint_get\<close>,
  \<^verbatim>\<open>varint_get_len\<close> and the stub \<^verbatim>\<open>varint_cmp\<close>. Seven bits per byte, least significant group
  first, bit 7 marks a continuation; the ninth byte carries eight bits.

  The first part holds the definitions, the second the lemmas on the one- to eight-byte
  encodings, the third the nine-byte case, whose loop in \<^verbatim>\<open>varint_put\<close> counts downwards.
\<close>

section \<open>The functions of src/varint.c\<close>

text \<open>
  The loop \<^verbatim>\<open>for (i = 0; i < 8; --i)\<close> of the nine-byte case, with \<open>i\<close> a \<^verbatim>\<open>uint16_t\<close>: \<open>--i\<close>
  wraps from 0 to 65535. The result is the buffer and what is left of the value.
\<close>

function varint_put_wide :: "u16 \<Rightarrow> byte list \<Rightarrow> u64 \<Rightarrow> (byte list \<times> u64) outcome" where
  "varint_put_wide i dst value =
     (if i < 8 then
        obind (mem_set dst (unat i) (ucast (value AND 0x7f) OR 0x80)) (\<lambda>dst.
        varint_put_wide (i - 1) dst (drop_bit 7 value))
      else Inr (dst, value))"
  by pat_completeness auto
termination
proof (relation "measure (\<lambda>(i, dst, value). unat (i + 1))")
  fix i :: u16 and dst dst' :: "byte list" and val :: u64
  assume "i < 8"
  then have "unat i < 8" by (simp add: word_less_nat_alt)
  then have "unat (i + 1) = Suc (unat i)" by (simp add: unat_word_ariths)
  then show "((i - 1, dst', drop_bit 7 val), i, dst, val) \<in> measure (\<lambda>(i, dst, value). unat (i + 1))"
    by simp
qed simp

declare varint_put_wide.simps [simp del]

text \<open>The loop \<^verbatim>\<open>do { ... } while (value > 0)\<close> of the general case.\<close>

function varint_put_loop :: "nat \<Rightarrow> byte list \<Rightarrow> u64 \<Rightarrow> (byte list \<times> nat) outcome" where
  "varint_put_loop i dst value =
     obind (mem_set dst i (ucast (value AND 0x7f) OR 0x80)) (\<lambda>dst.
       let value = drop_bit 7 value in
       if value > 0 then varint_put_loop (i + 1) dst value else Inr (dst, i + 1))"
  by pat_completeness auto
termination
proof (relation "measure (\<lambda>(i, dst, value). unat value)")
  fix i :: nat and dst dst' :: "byte list" and val v :: u64
  assume "v = drop_bit 7 val" and "0 < v"
  then show "((i + 1, dst', v), i, dst, val) \<in> measure (\<lambda>(i, dst, value). unat value)"
    by (simp only: in_measure prod.case) (rule unat_drop_bit_less; simp)
qed simp

declare varint_put_loop.simps [simp del]

definition varint_put :: "byte list \<Rightarrow> u64 \<Rightarrow> (byte list \<times> u16) outcome" where
  "varint_put dst value =
     (if value AND (push_bit 56 0xff) \<noteq> 0 then
        obind (varint_put_wide 0 dst value) (\<lambda>(dst, value).
        obind (mem_set dst 8 (ucast (value AND 0xff))) (\<lambda>dst.
        Inr (dst, 9)))
      else
        obind (varint_put_loop 0 dst value) (\<lambda>(dst, i).
        obind (mem_get dst (i - 1)) (\<lambda>last.
        obind (mem_set dst (i - 1) (last AND 0x7f)) (\<lambda>dst.
        obind (c_assert (i \<le> 9)) (\<lambda>_.
        Inr (dst, of_nat i))))))"

function varint_put_len_loop :: "nat \<Rightarrow> u64 \<Rightarrow> nat" where
  "varint_put_len_loop i value =
     (let i = i + 1; value = drop_bit 7 value in
      if value \<noteq> 0 \<and> i < 9 then varint_put_len_loop i value else i)"
  by pat_completeness auto
termination
  by (relation "measure (\<lambda>(i, value). 9 - i)") auto

declare varint_put_len_loop.simps [simp del]

definition varint_put_len :: "u64 \<Rightarrow> u16" where
  "varint_put_len value = of_nat (varint_put_len_loop 0 value)"

function varint_get_loop :: "byte list \<Rightarrow> nat \<Rightarrow> u64 \<Rightarrow> (u64 \<times> nat) outcome" where
  "varint_get_loop src i result =
     obind (mem_get src i) (\<lambda>c.
       let result = (if i < 8 then result OR push_bit (7 * i) (ucast (c AND 0x7f))
                     else result OR push_bit (7 * 8) (ucast c));
           i = i + 1 in
       if c AND 0x80 = 0 \<or> i \<ge> 9 then Inr (result, i) else varint_get_loop src i result)"
  by pat_completeness auto
termination
  by (relation "measure (\<lambda>(src, i, result). 9 - i)") auto

declare varint_get_loop.simps [simp del]

definition varint_get :: "byte list \<Rightarrow> (u64 \<times> u16) outcome" where
  "varint_get src =
     obind (varint_get_loop src 0 0) (\<lambda>(result, i).
     obind (c_assert (i \<le> 9)) (\<lambda>_. Inr (result, of_nat i)))"

function varint_get_len_loop :: "byte list \<Rightarrow> nat \<Rightarrow> nat outcome" where
  "varint_get_len_loop src i =
     (if i < 8 then
        obind (mem_get src i) (\<lambda>c.
        if c AND 0x80 > 0 then varint_get_len_loop src (i + 1) else Inr i)
      else Inr i)"
  by pat_completeness auto
termination
  by (relation "measure (\<lambda>(src, i). 8 - i)") auto

declare varint_get_len_loop.simps [simp del]

definition varint_get_len :: "byte list \<Rightarrow> u16 outcome" where
  "varint_get_len src = obind (varint_get_len_loop src 0) (\<lambda>i. Inr (of_nat i + 1))"

definition varint_cmp :: "byte list \<Rightarrow> byte list \<Rightarrow> int" where
  "varint_cmp a b = 0"

section \<open>The encoding as a specification\<close>

text \<open>
  The byte sequence a value below \<open>2 ^ 56\<close> is encoded as, and the nine bytes the format
  has for a larger one.
\<close>

function vint_bytes :: "u64 \<Rightarrow> byte list" where
  "vint_bytes v = (if drop_bit 7 v = 0 then [ucast v]
     else (ucast (v AND 0x7f) OR 0x80) # vint_bytes (drop_bit 7 v))"
  by pat_completeness auto
termination
proof (relation "measure unat")
  fix v :: u64
  assume "drop_bit 7 v \<noteq> 0"
  then show "(drop_bit 7 v, v) \<in> measure unat"
    by (simp only: in_measure) (rule unat_drop_bit_less; simp)
qed simp

declare vint_bytes.simps [simp del]

definition vint_bytes9 :: "u64 \<Rightarrow> byte list" where
  "vint_bytes9 v = map (\<lambda>i. ucast (drop_bit (7 * i) v AND 0x7f) OR 0x80) [0..<8] @ [ucast (drop_bit 56 v)]"

lemma vint_bytes_nonempty [simp]: "vint_bytes v \<noteq> []"
  by (subst vint_bytes.simps) simp

lemma length_vint_bytes_le: "unat v < 2 ^ (7 * k) \<Longrightarrow> 0 < k \<Longrightarrow> length (vint_bytes v) \<le> k"
proof (induction k arbitrary: v)
  case 0
  then show ?case by simp
next
  case (Suc k)
  show ?case
  proof (cases "drop_bit 7 v = 0")
    case True
    then show ?thesis by (subst vint_bytes.simps) simp
  next
    case False
    then have "128 \<le> unat v" by (simp add: drop_bit_eq_0_iff_unat)
    with Suc.prems have "0 < k" by (cases k) auto
    moreover have "unat (drop_bit 7 v) < 2 ^ (7 * k)"
      using Suc.prems by (simp add: drop_bit_eq_div unat_div power_add less_mult_imp_div_less mult.commute)
    ultimately have "length (vint_bytes (drop_bit 7 v)) \<le> k" using Suc.IH by blast
    with False show ?thesis by (subst vint_bytes.simps) simp
  qed
qed

lemma wide_test_iff: "(v :: u64) AND (push_bit 56 0xff) \<noteq> 0 \<longleftrightarrow> 2 ^ 56 \<le> unat v"
proof -
  have m: "(0xff :: u64) = mask 8" by (simp add: mask_eq_exp_minus_1)
  have "v AND (push_bit 56 0xff) = push_bit 56 (drop_bit 56 v)"
    unfolding m by (rule bit_word_eqI) (auto simp: bit_simps)
  moreover have "push_bit 56 (drop_bit 56 v) = 0 \<longleftrightarrow> drop_bit 56 v = 0"
  proof
    assume z: "push_bit 56 (drop_bit 56 v) = 0"
    show "drop_bit 56 v = 0"
    proof (rule bit_word_eqI)
      fix n
      assume "n < LENGTH(64)"
      moreover have "\<not> bit (push_bit 56 (drop_bit 56 v)) (56 + n)" using z by simp
      ultimately show "bit (drop_bit 56 v) n = bit (0 :: u64) n"
        using bit_imp_le_length [of v "56 + n"] by (auto simp: bit_simps)
    qed
  qed simp
  ultimately show ?thesis by (auto simp: drop_bit_eq_0_iff_unat)
qed

section \<open>Encoding\<close>

text \<open>The do-while loop writes \<open>vint_bytes\<close>, with the continuation bit also set on the last byte.\<close>

lemma last_byte_mask: "(ucast (v AND 0x7f) OR 0x80 :: byte) AND 0x7f = ucast v" if "drop_bit 7 v = 0" for v :: u64
proof (rule bit_word_eqI)
  fix n :: nat
  assume "n < LENGTH(8)"
  have "\<not> bit (drop_bit 7 v) (n - 7)" using that by simp
  then have "7 \<le> n \<Longrightarrow> \<not> bit v n" by (simp add: bit_simps)
  with \<open>n < LENGTH(8)\<close> show "bit ((ucast (v AND 0x7f) OR 0x80 :: byte) AND 0x7f) n = bit (ucast v :: byte) n"
    by (cases "n < 7") (auto simp: bit_simps mask_bits)
qed

lemma varint_put_loop_correct:
  assumes "i + length (vint_bytes v) \<le> length dst"
  shows "\<exists>dst'. varint_put_loop i dst v = Inr (dst', i + length (vint_bytes v)) \<and>
    length dst' = length dst \<and>
    dst'[i + length (vint_bytes v) - 1 := dst' ! (i + length (vint_bytes v) - 1) AND 0x7f]
      = take i dst @ vint_bytes v @ drop (i + length (vint_bytes v)) dst"
  using assms
proof (induction v arbitrary: i dst rule: vint_bytes.induct)
  case (1 v)
  let ?c = "ucast (v AND 0x7f) OR 0x80 :: byte"
  have i: "i < length dst" using "1.prems" by (cases "vint_bytes v") auto
  show ?case
  proof (cases "drop_bit 7 v = 0")
    case True
    then have "vint_bytes v = [ucast v]" by (subst vint_bytes.simps) simp
    moreover have "dst[i := ucast v] = take i dst @ [ucast v] @ drop (i + 1) dst"
      using i by (simp add: upd_conv_take_nth_drop)
    ultimately show ?thesis
      using True i by (subst varint_put_loop.simps) (simp add: Let_def last_byte_mask)
  next
    case False
    let ?w = "drop_bit 7 v" and ?d = "dst[i := ?c]"
    have b: "vint_bytes v = ?c # vint_bytes ?w" using False by (subst vint_bytes.simps) simp
    have "i + 1 + length (vint_bytes ?w) \<le> length ?d" using "1.prems" by (simp add: b)
    from "1.IH" [OF False this] obtain dst' where
      d: "varint_put_loop (i + 1) ?d ?w = Inr (dst', i + 1 + length (vint_bytes ?w))"
         "length dst' = length ?d"
         "dst'[i + 1 + length (vint_bytes ?w) - 1 := dst' ! (i + 1 + length (vint_bytes ?w) - 1) AND 0x7f]
           = take (i + 1) ?d @ vint_bytes ?w @ drop (i + 1 + length (vint_bytes ?w)) ?d"
      by blast
    have "take (i + 1) ?d = take i dst @ [?c]" using i by (simp add: take_Suc_conv_app_nth)
    with d i False show ?thesis
      by (subst varint_put_loop.simps) (simp add: Let_def b word_gt_0)
  qed
qed

lemma varint_put_correct:
  assumes "unat v < 2 ^ 56" and "length (vint_bytes v) \<le> length dst"
  shows "varint_put dst v =
    Inr (vint_bytes v @ drop (length (vint_bytes v)) dst, of_nat (length (vint_bytes v)))"
proof -
  let ?n = "length (vint_bytes v)"
  from varint_put_loop_correct [of 0 v dst] assms(2) obtain dst' where
    d: "varint_put_loop 0 dst v = Inr (dst', ?n)" "length dst' = length dst"
       "dst'[?n - 1 := dst' ! (?n - 1) AND 0x7f] = vint_bytes v @ drop ?n dst"
    by auto
  have "?n \<le> 8" using length_vint_bytes_le [of v 8] assms(1) by simp
  moreover have "?n - 1 < length dst'" using assms(2) d(2) by (cases "vint_bytes v") auto
  moreover have "\<not> v AND (push_bit 56 0xff) \<noteq> 0" using assms(1) by (simp only: wide_test_iff)
  ultimately show ?thesis using d by (simp only: varint_put_def if_False) simp
qed

lemma varint_put_len_loop_correct:
  "i + length (vint_bytes v) \<le> 9 \<Longrightarrow> varint_put_len_loop i v = i + length (vint_bytes v)"
proof (induction v arbitrary: i rule: vint_bytes.induct)
  case (1 v)
  show ?case
  proof (cases "drop_bit 7 v = 0")
    case True
    then show ?thesis by (subst varint_put_len_loop.simps, subst vint_bytes.simps) simp
  next
    case False
    then have b: "vint_bytes v = (ucast (v AND 0x7f) OR 0x80) # vint_bytes (drop_bit 7 v)"
      by (subst vint_bytes.simps) simp
    moreover have "i + 1 < 9" using "1.prems" b by (cases "vint_bytes (drop_bit 7 v)") auto
    ultimately show ?thesis
      using "1.IH" [OF False, of "i + 1"] "1.prems" False
      by (subst varint_put_len_loop.simps) simp
  qed
qed

lemma varint_put_len_correct:
  "unat v < 2 ^ 56 \<Longrightarrow> varint_put_len v = of_nat (length (vint_bytes v))"
  using length_vint_bytes_le [of v 8] varint_put_len_loop_correct [of 0 v]
  by (simp add: varint_put_len_def)

lemma varint_put_len_loop_bounds: "i < 9 \<Longrightarrow> i < varint_put_len_loop i v \<and> varint_put_len_loop i v \<le> 9"
proof (induction i v rule: varint_put_len_loop.induct)
  case (1 i v)
  from "1.IH" [OF refl refl] "1.prems" show ?case
    by (subst (1 2) varint_put_len_loop.simps) (auto simp: Let_def)
qed

section \<open>Decoding\<close>

lemma take_bit_step:
  fixes v :: u64
  assumes "c = ucast (drop_bit (7 * i) v AND 0x7f) \<or> c = ucast (drop_bit (7 * i) v AND 0x7f) OR 0x80"
  shows "take_bit (7 * i) v OR push_bit (7 * i) (ucast (c AND 0x7f :: byte)) = take_bit (7 * (i + 1)) v"
proof (rule bit_word_eqI)
  fix n :: nat
  assume n: "n < LENGTH(64)"
  have "7 * i \<le> n \<Longrightarrow> n < 7 * i + 7 \<Longrightarrow> bit (c AND 0x7f) (n - 7 * i) = bit v n"
    using assms by (auto simp: bit_simps mask_bits)
  moreover have "7 * i + 7 \<le> n \<Longrightarrow> \<not> bit (c AND 0x7f) (n - 7 * i)"
    by (auto simp: bit_simps mask_bits)
  ultimately show "bit (take_bit (7 * i) v OR push_bit (7 * i) (ucast (c AND 0x7f :: byte))) n
      = bit (take_bit (7 * (i + 1)) v) n"
    using n by (cases "n < 7 * i + 7") (auto simp: bit_simps)
qed

lemma continuation_bit [simp]: "(ucast (w AND 0x7f) OR 0x80 :: byte) AND 0x80 \<noteq> 0" for w :: u64
proof
  assume "(ucast (w AND 0x7f) OR 0x80 :: byte) AND 0x80 = 0"
  then have "\<not> bit ((ucast (w AND 0x7f) OR 0x80 :: byte) AND 0x80) 7" by simp
  then show False by (simp add: bit_simps mask_bits)
qed

lemma no_continuation_bit: "drop_bit 7 w = 0 \<Longrightarrow> (ucast w :: byte) AND 0x80 = 0" for w :: u64
proof -
  assume "drop_bit 7 w = 0"
  then have "\<not> bit (drop_bit 7 w) 0" by simp
  then have "\<not> bit w 7" by (simp add: bit_simps)
  then show ?thesis by (intro bit_word_eqI) (auto simp: bit_simps mask_bits)
qed

lemma small_byte: "drop_bit 7 w = 0 \<Longrightarrow> w AND 0x7f = w" for w :: u64
proof (rule bit_word_eqI)
  fix n :: nat
  assume "drop_bit 7 w = 0"
  then have "\<not> bit (drop_bit 7 w) (n - 7)" by simp
  then have "7 \<le> n \<Longrightarrow> \<not> bit w n" by (simp add: bit_simps)
  then show "bit (w AND 0x7f) n = bit w n"
    by (cases "n < 7") (auto simp: bit_simps mask_bits)
qed

lemma varint_get_loop_correct:
  assumes "src = pre @ vint_bytes w @ rest" and "i = length pre" and "w = drop_bit (7 * i) v"
    and "i + length (vint_bytes w) \<le> 8"
  shows "varint_get_loop src i (take_bit (7 * i) v) = Inr (v, i + length (vint_bytes w))"
  using assms
proof (induction w arbitrary: i pre rule: vint_bytes.induct)
  case (1 w)
  let ?c = "src ! i"
  have i: "i < 8" "i < length src" using "1.prems" by (cases "vint_bytes w"; simp)+
  show ?case
  proof (cases "drop_bit 7 w = 0")
    case True
    then have b: "vint_bytes w = [ucast w]" by (subst vint_bytes.simps) simp
    then have c: "?c = ucast w" using "1.prems"(1,2) by (simp add: nth_append)
    have "drop_bit (7 * i + 7) v = 0" using True "1.prems"(3) by (simp add: add.commute)
    then have v: "take_bit (7 * (i + 1)) v = v"
      by (metis add_0 bits_ident mult_Suc_right add.commute Suc_eq_plus1 push_bit_of_0)
    have "?c = ucast (drop_bit (7 * i) v AND 0x7f)"
      using c "1.prems"(3) small_byte [OF True] by simp
    then have "take_bit (7 * i) v OR push_bit (7 * i) (ucast (?c AND 0x7f)) = v"
      using take_bit_step [of ?c i v] v by simp
    then show ?thesis
      using i b c True by (subst varint_get_loop.simps) (simp add: no_continuation_bit)
  next
    case False
    let ?w = "drop_bit 7 w"
    have b: "vint_bytes w = (ucast (w AND 0x7f) OR 0x80) # vint_bytes ?w"
      using False by (subst vint_bytes.simps) simp
    have c: "?c = ucast (w AND 0x7f) OR 0x80" using "1.prems"(1,2) by (simp add: nth_append b)
    have "take_bit (7 * i) v OR push_bit (7 * i) (ucast (?c AND 0x7f)) = take_bit (7 * (i + 1)) v"
      by (rule take_bit_step) (use c "1.prems"(3) in simp)
    moreover have "varint_get_loop src (i + 1) (take_bit (7 * (i + 1)) v) = Inr (v, i + 1 + length (vint_bytes ?w))"
      by (rule "1.IH" [OF False, of "pre @ [?c]"]) (use "1.prems" b c in \<open>auto simp: add.commute\<close>)
    ultimately show ?thesis
      using i b c by (subst varint_get_loop.simps) (simp add: Let_def)
  qed
qed

lemma varint_get_correct:
  assumes "unat v < 2 ^ 56"
  shows "varint_get (vint_bytes v @ rest) = Inr (v, of_nat (length (vint_bytes v)))"
  using varint_get_loop_correct [of "vint_bytes v @ rest" "[]" v rest 0 v]
    length_vint_bytes_le [of v 8] assms
  by (simp add: varint_get_def)

text \<open>What decoding reads: the bytes it reports and no others, at most nine.\<close>

lemma varint_get_loop_reads:
  assumes "varint_get_loop src i r = Inr (x, n)" and "i < 9"
  shows "i < n \<and> n \<le> 9 \<and> n \<le> length src \<and> varint_get_len_loop src i = Inr (n - 1)"
  using assms
proof (induction src i r rule: varint_get_loop.induct)
  case (1 src i r)
  have i: "i < length src"
    using "1.prems"(1) by (subst (asm) varint_get_loop.simps) (auto simp: mem_get_eq_Inr_iff)
  show ?case
  proof (cases "src ! i AND 0x80 = 0 \<or> i + 1 \<ge> 9")
    case True
    then have "n = i + 1" using "1.prems"(1) i
      by (subst (asm) varint_get_loop.simps) (auto simp: Let_def split: if_splits)
    then show ?thesis using True i "1.prems"(2)
      by (subst varint_get_len_loop.simps) auto
  next
    case False
    with "1.prems"(1) i obtain r' where "varint_get_loop src (i + 1) r' = Inr (x, n)"
      and "r' = (if i < 8 then r OR push_bit (7 * i) (ucast (src ! i AND 0x7f))
        else r OR push_bit (7 * 8) (ucast (src ! i)))"
      by (subst (asm) varint_get_loop.simps) (auto simp: Let_def)
    with "1.IH" [of "src ! i" r' "i + 1"] i False
    show ?thesis by (subst varint_get_len_loop.simps) (auto simp: word_gt_0)
  qed
qed

lemma varint_get_loop_cong:
  assumes "varint_get_loop src i r = Inr (x, n)" and "i < 9" and "take n src' = take n src"
  shows "varint_get_loop src' i r = Inr (x, n)"
  using assms
proof (induction src i r rule: varint_get_loop.induct)
  case (1 src i r)
  have reads: "i < n" "n \<le> length src"
    using varint_get_loop_reads [OF "1.prems"(1,2)] by auto
  then have "i < length src" "i < length src'"
    using arg_cong [OF "1.prems"(3), of length] by auto
  moreover have "src' ! i = src ! i" using "1.prems"(3) reads by (metis nth_take)
  moreover note "1.prems"(1)
  ultimately show ?case
    using "1.IH" [OF _ refl refl, of "src ! i"] "1.prems"(3)
    by (subst varint_get_loop.simps, subst (asm) varint_get_loop.simps)
      (auto simp: Let_def split: if_splits)
qed

lemma varint_get_loop_total: "9 \<le> length src \<Longrightarrow> i < 9 \<Longrightarrow> \<exists>x n. varint_get_loop src i r = Inr (x, n)"
proof (induction src i r rule: varint_get_loop.induct)
  case (1 src i r)
  show ?case
  proof (cases "src ! i AND 0x80 = 0 \<or> i + 1 \<ge> 9")
    case True
    with "1.prems" show ?thesis by (subst varint_get_loop.simps) (auto simp: Let_def)
  next
    case False
    with "1.prems" "1.IH" [OF _ refl refl, of "src ! i"] show ?thesis
      by (subst varint_get_loop.simps) (auto simp: Let_def)
  qed
qed

lemma varint_get_iff_loop:
  "varint_get src = Inr (x, n) \<longleftrightarrow> (\<exists>k. varint_get_loop src 0 0 = Inr (x, k) \<and> n = of_nat k)"
proof (cases "varint_get_loop src 0 0")
  case (Inr p)
  with varint_get_loop_reads [of src 0 0 "fst p" "snd p"] show ?thesis
    by (cases p) (auto simp: varint_get_def)
qed (simp add: varint_get_def)

lemma unat_of_nat_small [simp]: "k \<le> 9 \<Longrightarrow> unat (of_nat k :: u16) = k"
  by (simp add: unat_of_nat)

lemma varint_get_reads:
  assumes "varint_get src = Inr (x, n)"
  shows "0 < unat n" and "unat n \<le> 9" and "unat n \<le> length src" and "varint_get_len src = Inr n"
proof -
  from assms obtain k where k: "varint_get_loop src 0 0 = Inr (x, k)" "n = of_nat k"
    by (auto simp: varint_get_iff_loop)
  then show "0 < unat n" "unat n \<le> 9" "unat n \<le> length src" "varint_get_len src = Inr n"
    using varint_get_loop_reads [of src 0 0 x k] by (auto simp: varint_get_len_def of_nat_diff)
qed

lemma varint_get_cong:
  assumes "varint_get src = Inr (x, n)" and "take (unat n) src' = take (unat n) src"
  shows "varint_get src' = Inr (x, n)"
proof -
  from assms(1) obtain k where k: "varint_get_loop src 0 0 = Inr (x, k)" "n = of_nat k"
    by (auto simp: varint_get_iff_loop)
  moreover have "unat n = k" using varint_get_loop_reads [OF k(1)] k(2) by simp
  ultimately show ?thesis
    using varint_get_loop_cong [OF k(1)] assms(2) by (auto simp: varint_get_iff_loop)
qed

lemma varint_get_total: "9 \<le> length src \<Longrightarrow> \<exists>x n. varint_get src = Inr (x, n)"
  using varint_get_loop_total [of src 0 0] by (fastforce simp: varint_get_iff_loop)

section \<open>The nine-byte format\<close>

lemma length_vint_bytes9 [simp]: "length (vint_bytes9 v) = 9"
  by (simp add: vint_bytes9_def)

lemma vint_bytes9_nth: "i < 8 \<Longrightarrow> vint_bytes9 v ! i = ucast (drop_bit (7 * i) v AND 0x7f) OR 0x80"
  by (simp add: vint_bytes9_def nth_append)

lemma vint_bytes9_last: "vint_bytes9 v ! 8 = ucast (drop_bit 56 v)"
  by (simp add: vint_bytes9_def nth_append)

lemma top_byte: "take_bit 56 v OR push_bit 56 (ucast (ucast (drop_bit 56 v) :: byte)) = v" for v :: u64
  by (rule bit_word_eqI) (auto simp: bit_simps)

lemma varint_get_loop_wide:
  assumes "take 9 src = vint_bytes9 v" and "9 \<le> length src" and "i \<le> 8"
  shows "varint_get_loop src i (take_bit (7 * i) v) = Inr (v, 9)"
  using assms(3)
proof (induction i rule: inc_induct)
  case base
  have "src ! 8 = ucast (drop_bit 56 v)"
    using assms(1,2) vint_bytes9_last by (metis lessI nth_take eval_nat_numeral(3))
  then show ?case using assms(2) by (subst varint_get_loop.simps) (simp add: top_byte)
next
  case (step i)
  have c: "src ! i = ucast (drop_bit (7 * i) v AND 0x7f) OR 0x80"
    using assms(1) vint_bytes9_nth [of i v] step.hyps by (metis less_SucI nth_take eval_nat_numeral(3))
  moreover have "take_bit (7 * i) v OR push_bit (7 * i) (ucast (src ! i AND 0x7f)) = take_bit (7 * Suc i) v"
    using take_bit_step [of "src ! i" i v] c by simp
  ultimately show ?case
    using step assms(2) by (subst varint_get_loop.simps) (simp add: Let_def)
qed

lemma varint_get_wide: "varint_get (vint_bytes9 v @ rest) = Inr (v, 9)"
  using varint_get_loop_wide [of "vint_bytes9 v @ rest" v 0] by (simp add: varint_get_def)

lemma varint_put_wide_correct:
  assumes "2 ^ 56 \<le> unat v" and "9 \<le> length dst"
  shows "varint_put dst v =
    Inr (dst[0 := ucast (v AND 0x7f) OR 0x80, 8 := ucast (drop_bit 7 v AND 0xff)], 9)"
proof -
  have "varint_put_wide 0 dst v = Inr (dst[0 := ucast (v AND 0x7f) OR 0x80], drop_bit 7 v)"
    using assms(2) by (cases dst; (subst varint_put_wide.simps, subst varint_put_wide.simps, simp))
  moreover have "v AND (push_bit 56 0xff) \<noteq> 0" using assms(1) by (simp only: wide_test_iff)
  ultimately show ?thesis
    using assms(2) by (simp only: varint_put_def if_True) simp
qed

lemma varint_round:
  assumes "unat v < 2 ^ 56" and "9 \<le> length dst"
  shows "\<exists>dst' n. varint_put dst v = Inr (dst', n) \<and> varint_get dst' = Inr (v, n) \<and>
    varint_get_len dst' = Inr n \<and> n = varint_put_len v \<and>
    length dst' = length dst \<and> drop (unat n) dst' = drop (unat n) dst"
proof -
  let ?n = "length (vint_bytes v)" and ?d = "vint_bytes v @ drop (length (vint_bytes v)) dst"
  have n: "?n \<le> 8" using length_vint_bytes_le [of v 8] assms(1) by simp
  then have "varint_put dst v = Inr (?d, of_nat ?n)"
    using varint_put_correct assms by simp
  moreover have g: "varint_get ?d = Inr (v, of_nat ?n)" by (rule varint_get_correct [OF assms(1)])
  moreover note varint_get_reads(4) [OF g] varint_put_len_correct [OF assms(1)]
  ultimately show ?thesis using n assms(2) by auto
qed

section \<open>Properties\<close>

text \<open>
  C33: Round trip. Every value below \<open>2 ^ 56\<close> written by \<open>varint_put\<close> into a buffer of
  nine or more bytes is read back by \<open>varint_get\<close>; the lengths reported by
  \<open>varint_put\<close>, \<open>varint_put_len\<close>, \<open>varint_get\<close> and \<open>varint_get_len\<close> all agree, and the
  bytes of the buffer after the encoding are left alone.
\<close>

theorem varint_roundtrip:
  assumes "unat v < 2 ^ 56" and "9 \<le> length dst"
  shows "\<exists>dst' n. varint_put dst v = Inr (dst', n) \<and> varint_get dst' = Inr (v, n) \<and>
    varint_get_len dst' = Inr n \<and> n = varint_put_len v \<and>
    length dst' = length dst \<and> drop (unat n) dst' = drop (unat n) dst"
  by (rule varint_round [OF assms])

theorem varint_roundtrip_witness:
  "\<exists>dst' n. varint_put (replicate 9 0xff) 300 = Inr (dst', n) \<and> varint_get dst' = Inr (300, n) \<and>
    varint_get_len dst' = Inr n \<and> n = varint_put_len 300 \<and>
    length dst' = length (replicate 9 (0xff :: byte)) \<and>
    drop (unat n) dst' = drop (unat n) (replicate 9 0xff)"
  by (rule varint_roundtrip) simp_all

text \<open>
  C34: Bounds of decoding. On a buffer of nine or more bytes, whatever they are,
  \<open>varint_get\<close> returns: it consumes between one and nine bytes, \<open>varint_get_len\<close> reports
  the same number, and the result depends on no byte after the ones consumed.
\<close>

theorem varint_get_bounded:
  assumes "9 \<le> length src"
  shows "\<exists>x n. varint_get src = Inr (x, n) \<and> 1 \<le> unat n \<and> unat n \<le> 9 \<and>
    varint_get_len src = Inr n \<and> (\<forall>rest. varint_get (take (unat n) src @ rest) = Inr (x, n))"
proof -
  from varint_get_total [OF assms] obtain x n where g: "varint_get src = Inr (x, n)" by blast
  then have "varint_get (take (unat n) src @ rest) = Inr (x, n)" for rest
    using varint_get_reads(3) [OF g] by (auto intro!: varint_get_cong [OF g])
  with g varint_get_reads [OF g] show ?thesis by (auto simp: Suc_le_eq)
qed

theorem varint_get_bounded_witness:
  "\<exists>x n. varint_get (replicate 9 0xff) = Inr (x, n) \<and> 1 \<le> unat n \<and> unat n \<le> 9 \<and>
    varint_get_len (replicate 9 0xff) = Inr n \<and>
    (\<forall>rest. varint_get (take (unat n) (replicate 9 0xff) @ rest) = Inr (x, n))"
  by (rule varint_get_bounded) simp

text \<open>
  Decoding covers the whole 64-bit range: the nine-byte encoding of any value (eight
  groups of seven bits with the continuation bit, then the top byte) is read back by
  \<open>varint_get\<close> exactly, with length nine, and \<open>varint_put_len\<close> reserves between one and nine
  bytes for every value.
\<close>

theorem varint_get_full_range:
  "varint_get (vint_bytes9 v @ rest) = Inr (v, 9) \<and> varint_get_len (vint_bytes9 v @ rest) = Inr 9 \<and>
   1 \<le> unat (varint_put_len v) \<and> unat (varint_put_len v) \<le> 9"
  using varint_get_wide [of v rest] varint_get_reads(4) [OF varint_get_wide [of v rest]]
    varint_put_len_loop_bounds [of 0 v]
  by (simp add: varint_put_len_def Suc_le_eq)

text \<open>
  C35: The nine-byte case of \<open>varint_put\<close>. For a value of \<open>2 ^ 56\<close> or more only bytes 0 and 8
  of the buffer are written, because the loop counts its index down from zero: bytes 1 to 7
  keep whatever the buffer held. Written into a zeroed buffer, every such value is
  therefore read back as its low seven bits, with length two, and not as itself.
\<close>

theorem varint_put_wide_drops_bytes:
  assumes "2 ^ 56 \<le> unat v" and "9 \<le> length dst"
  shows "\<exists>dst'. varint_put dst v = Inr (dst', 9) \<and> length dst' = length dst \<and>
    (\<forall>i. i \<noteq> 0 \<longrightarrow> i \<noteq> 8 \<longrightarrow> i < length dst \<longrightarrow> dst' ! i = dst ! i) \<and>
    (dst ! 1 = 0 \<longrightarrow> varint_get dst' = Inr (v AND 0x7f, 2) \<and> v AND 0x7f \<noteq> v)"
proof -
  let ?c = "ucast (v AND 0x7f) OR 0x80 :: byte"
  let ?d = "dst[0 := ?c, 8 := ucast (drop_bit 7 v AND 0xff)]"
  have "varint_get ?d = Inr (v AND 0x7f, 2)" if "dst ! 1 = 0"
  proof -
    have "?d ! 0 = ?c" "?d ! 1 = 0" "1 < length dst"
      using assms(2) that by (cases dst; auto simp: nth_list_update)+
    moreover have "ucast (?c AND 0x7f) = v AND 0x7f"
      by (rule bit_word_eqI) (auto simp: bit_simps mask_bits)
    ultimately have "varint_get_loop ?d 0 0 = Inr (v AND 0x7f, 2)"
      using assms(2) by (cases dst; (subst varint_get_loop.simps, subst varint_get_loop.simps, simp add: Let_def))
    then show ?thesis by (simp add: varint_get_def)
  qed
  moreover have "v AND 0x7f \<noteq> v"
  proof
    assume "v AND 0x7f = v"
    moreover have "unat (v AND 0x7f) \<le> unat (0x7f :: u64)"
      by (rule word_and_le1 [THEN word_le_nat_alt [THEN iffD1]])
    ultimately show False using assms(1) by simp
  qed
  ultimately show ?thesis
    using varint_put_wide_correct [OF assms] by (auto simp: nth_list_update)
qed

theorem varint_put_wide_drops_bytes_witness:
  "\<exists>dst'. varint_put (replicate 9 0) (push_bit 56 1) = Inr (dst', 9) \<and>
    length dst' = length (replicate 9 (0 :: byte)) \<and>
    (\<forall>i. i \<noteq> 0 \<longrightarrow> i \<noteq> 8 \<longrightarrow> i < length (replicate 9 (0 :: byte)) \<longrightarrow> dst' ! i = replicate 9 0 ! i) \<and>
    (replicate 9 (0 :: byte) ! 1 = 0 \<longrightarrow>
      varint_get dst' = Inr (push_bit 56 1 AND 0x7f, 2) \<and> push_bit 56 1 AND 0x7f \<noteq> (push_bit 56 1 :: u64))"
  by (rule varint_put_wide_drops_bytes) simp_all

end
