(* ===== verification/Blob.thy ===== *)
theory Blob
  imports Varint "HOL-Library.List_Lexorder"
begin

text \<open>
  Length-prefixed byte strings, src/blob.c and the record of include/blob.h: comparison
  (\<^verbatim>\<open>blob_cmp\<close>), serialisation (\<^verbatim>\<open>blob_put\<close>, \<^verbatim>\<open>blob_put_len\<close>) and the in-place view of a
  serialised blob (\<^verbatim>\<open>blob_get\<close>, \<^verbatim>\<open>blob_get_len\<close>).
\<close>

section \<open>The functions of src/blob.c\<close>

text \<open>\<open>bdata\<close> is the memory from the pointer to the end of the object it points into.\<close>

record blob_t =
  bsize :: u64
  bdata :: "byte list"

text \<open>
  The standard library's \<^verbatim>\<open>memcmp\<close>: bytes compare as unsigned. The C standard fixes only the
  sign of the result; -1 and 1 stand for the two signs.
\<close>

fun memcmp :: "byte list \<Rightarrow> byte list \<Rightarrow> nat \<Rightarrow> int outcome" where
  "memcmp a b 0 = Inr 0"
| "memcmp a b (Suc n) =
     obind (mem_get a 0) (\<lambda>x. obind (mem_get b 0) (\<lambda>y.
       if x < y then Inr (-1) else if y < x then Inr 1 else memcmp (drop 1 a) (drop 1 b) n))"

definition blob_cmp :: "blob_t \<Rightarrow> blob_t \<Rightarrow> int outcome" where
  "blob_cmp a b =
     obind (memcmp (bdata a) (bdata b) (unat (if bsize a < bsize b then bsize a else bsize b))) (\<lambda>ret.
       if ret = 0 then
         if bsize a < bsize b then Inr (-1)
         else if bsize a > bsize b then Inr 1
         else Inr ret
       else Inr ret)"

definition blob_put :: "byte list \<Rightarrow> blob_t \<Rightarrow> (byte list \<times> u64) outcome" where
  "blob_put dst blob =
     obind (varint_put dst (bsize blob)) (\<lambda>(dst, vint_len).
     obind (mem_read (bdata blob) 0 (unat (bsize blob))) (\<lambda>bytes.
     obind (mem_write dst (unat vint_len) bytes) (\<lambda>dst.
     Inr (dst, ucast vint_len + bsize blob))))"

definition blob_put_len :: "blob_t \<Rightarrow> u64" where
  "blob_put_len blob = ucast (varint_put_len (bsize blob)) + bsize blob"

definition blob_get :: "byte list \<Rightarrow> (blob_t \<times> u64) outcome" where
  "blob_get src =
     obind (varint_get src) (\<lambda>(sz, vint_len).
     Inr (\<lparr>bsize = sz, bdata = drop (unat vint_len) src\<rparr>, ucast vint_len + sz))"

definition blob_get_len :: "byte list \<Rightarrow> u64 outcome" where
  "blob_get_len src =
     obind (varint_get src) (\<lambda>(blob_len, vint_len). Inr (ucast vint_len + blob_len))"

text \<open>\<^verbatim>\<open>strlen(value) + 1\<close> bytes: the terminating zero is part of the blob.\<close>

definition blob_from_string :: "byte list \<Rightarrow> blob_t" where
  "blob_from_string s = (let n = length (takeWhile (\<lambda>c. c \<noteq> 0) s) in
     \<lparr>bsize = of_nat n + 1, bdata = s\<rparr>)"

section \<open>The byte string a blob stands for\<close>

definition blob_valid :: "blob_t \<Rightarrow> bool" where
  "blob_valid b \<longleftrightarrow> unat (bsize b) \<le> length (bdata b)"

definition blob_bytes :: "blob_t \<Rightarrow> byte list" where
  "blob_bytes b = take (unat (bsize b)) (bdata b)"

lemma length_blob_bytes [simp]: "blob_valid b \<Longrightarrow> length (blob_bytes b) = unat (bsize b)"
  by (simp add: blob_valid_def blob_bytes_def)

text \<open>The three-way comparison that \<open>blob_cmp\<close> should compute.\<close>

definition lex_cmp :: "'a::linorder list \<Rightarrow> 'a list \<Rightarrow> int" where
  "lex_cmp xs ys = (if xs < ys then -1 else if ys < xs then 1 else 0)"

lemma lex_cmp_simps [simp]:
  "lex_cmp [] [] = 0"
  "lex_cmp [] (y # ys) = -1"
  "lex_cmp (x # xs) [] = 1"
  "lex_cmp (x # xs) (y # ys) = (if x < y then -1 else if y < x then 1 else lex_cmp xs ys)"
  by (auto simp: lex_cmp_def)

lemma memcmp_correct:
  assumes "n \<le> length a" and "n \<le> length b"
  shows "memcmp a b n = Inr (lex_cmp (take n a) (take n b))"
  using assms
proof (induction a b n rule: memcmp.induct)
  case (2 a b n)
  then obtain x a' y b' where "a = x # a'" "b = y # b'" by (cases a; cases b) auto
  with 2 show ?case by auto
qed simp

definition tie_break :: "int \<Rightarrow> nat \<Rightarrow> nat \<Rightarrow> int" where
  "tie_break r m n = (if r = 0 then if m < n then -1 else if n < m then 1 else r else r)"

lemma tie_break_simps [simp]:
  "tie_break (-1) m n = -1" "tie_break 1 m n = 1" "tie_break r (Suc m) (Suc n) = tie_break r m n"
  "tie_break 0 0 0 = 0" "tie_break 0 0 (Suc n) = -1" "tie_break 0 (Suc m) 0 = 1"
  by (simp_all add: tie_break_def)

lemma lex_cmp_take:
  "tie_break (lex_cmp (take (min (length xs) (length ys)) xs) (take (min (length xs) (length ys)) ys))
     (length xs) (length ys) = lex_cmp xs ys"
proof (induction xs arbitrary: ys)
  case Nil
  then show ?case by (cases ys) auto
next
  case (Cons x xs)
  then show ?case by (cases ys) auto
qed

lemma blob_cmp_correct:
  assumes "blob_valid a" and "blob_valid b"
  shows "blob_cmp a b = Inr (lex_cmp (blob_bytes a) (blob_bytes b))"
proof -
  define n where "n = unat (if bsize a < bsize b then bsize a else bsize b)"
  have n: "n = min (length (blob_bytes a)) (length (blob_bytes b))"
    using assms by (simp add: n_def min_def word_less_nat_alt)
  have "n \<le> length (bdata a)" "n \<le> length (bdata b)"
    using assms by (auto simp: n_def blob_valid_def word_less_nat_alt)
  then have "memcmp (bdata a) (bdata b) n = Inr (lex_cmp (take n (bdata a)) (take n (bdata b)))"
    by (rule memcmp_correct)
  moreover have "take n (bdata a) = take n (blob_bytes a)" "take n (bdata b) = take n (blob_bytes b)"
    by (auto simp: n_def blob_bytes_def word_less_nat_alt min_def)
  ultimately have m: "memcmp (bdata a) (bdata b) n
      = Inr (lex_cmp (take n (blob_bytes a)) (take n (blob_bytes b)))" by simp
  have "bsize a < bsize b \<longleftrightarrow> length (blob_bytes a) < length (blob_bytes b)"
    "bsize b < bsize a \<longleftrightarrow> length (blob_bytes b) < length (blob_bytes a)"
    using assms by (simp_all add: word_less_nat_alt)
  then have "blob_cmp a b = Inr (tie_break (lex_cmp (take n (blob_bytes a)) (take n (blob_bytes b)))
      (length (blob_bytes a)) (length (blob_bytes b)))"
    unfolding blob_cmp_def n_def [symmetric] m obind_simps by (simp add: tie_break_def)
  then show ?thesis by (simp add: n lex_cmp_take)
qed

section \<open>Serialisation\<close>

lemma unat_ucast_16_64 [simp]: "unat (ucast (w :: u16) :: u64) = unat w"
  by (simp add: unsigned_ucast_eq take_bit_nat_eq_self_iff) (rule less_le_trans [OF unsigned_less], simp)

lemma unat_blob_put_len:
  assumes "unat (bsize b) < 2 ^ 56"
  shows "unat (blob_put_len b) = length (vint_bytes (bsize b)) + unat (bsize b)"
proof -
  have n: "length (vint_bytes (bsize b)) \<le> 8" using length_vint_bytes_le [of "bsize b" 8] assms by simp
  then have "unat (varint_put_len (bsize b)) = length (vint_bytes (bsize b))"
    using varint_put_len_correct [OF assms] by simp
  with n assms show ?thesis by (simp add: blob_put_len_def unat_word_ariths)
qed

lemma blob_put_correct:
  assumes "unat (bsize b) < 2 ^ 56" and "blob_valid b" and "unat (blob_put_len b) \<le> length dst"
  shows "blob_put dst b =
    Inr (vint_bytes (bsize b) @ blob_bytes b @ drop (unat (blob_put_len b)) dst, blob_put_len b)"
proof -
  let ?n = "length (vint_bytes (bsize b))"
  have n: "?n \<le> 8" using length_vint_bytes_le [of "bsize b" 8] assms by simp
  note len = unat_blob_put_len [OF assms(1)]
  have u: "unat (of_nat ?n :: u16) = ?n" using n by simp
  have "varint_put dst (bsize b) = Inr (vint_bytes (bsize b) @ drop ?n dst, of_nat ?n)"
    by (rule varint_put_correct) (use assms len in simp_all)
  moreover have "mem_read (bdata b) 0 (unat (bsize b)) = Inr (blob_bytes b)"
    using assms(2) by (simp add: blob_valid_def blob_bytes_def fetch_def)
  moreover have "mem_write (vint_bytes (bsize b) @ drop ?n dst) ?n (blob_bytes b)
    = Inr (vint_bytes (bsize b) @ blob_bytes b @ drop (unat (blob_put_len b)) dst)"
    using assms len by (simp add: store_def add.commute)
  moreover have "blob_put_len b = ucast (of_nat ?n :: u16) + bsize b"
    by (simp add: blob_put_len_def varint_put_len_correct [OF assms(1)])
  ultimately show ?thesis by (simp add: blob_put_def u)
qed

lemma blob_get_correct:
  assumes "unat sz < 2 ^ 56"
  shows "blob_get (vint_bytes sz @ rest) =
    Inr (\<lparr>bsize = sz, bdata = rest\<rparr>, ucast (varint_put_len sz) + sz)"
proof -
  have "length (vint_bytes sz) \<le> 8" using length_vint_bytes_le [of sz 8] assms by simp
  then show ?thesis
    by (simp add: blob_get_def varint_get_correct [OF assms] varint_put_len_correct [OF assms])
qed

lemma blob_get_len_get: "blob_get_len src = obind (blob_get src) (\<lambda>(_, n). Inr n)"
  by (cases "varint_get src") (auto simp: blob_get_len_def blob_get_def)

lemma blob_get_len_reads:
  assumes "blob_get_len src = Inr n"
  obtains sz k where "varint_get src = Inr (sz, k)" and "n = ucast k + sz"
  using assms by (auto simp: blob_get_len_def)

section \<open>Properties\<close>

text \<open>
  C36: \<open>blob_cmp\<close> is the lexicographic order on the byte strings of its arguments: for
  arguments whose size does not exceed their memory it returns (it reads no byte past the
  shorter one), negative, positive or zero exactly when the first is smaller, larger or
  equal. Hence it is a total order: swapping the arguments negates the result and
  \<open>\<le>\<close> is transitive.
\<close>

theorem blob_cmp_lexicographic:
  assumes "blob_valid a" and "blob_valid b"
  shows "\<exists>r. blob_cmp a b = Inr r \<and> (r < 0 \<longleftrightarrow> blob_bytes a < blob_bytes b) \<and>
    (r > 0 \<longleftrightarrow> blob_bytes b < blob_bytes a) \<and> (r = 0 \<longleftrightarrow> blob_bytes a = blob_bytes b) \<and>
    blob_cmp b a = Inr (- r)"
  using blob_cmp_correct [OF assms] blob_cmp_correct [OF assms(2,1)]
  by (auto simp: lex_cmp_def)

theorem blob_cmp_lexicographic_witness:
  "let a = \<lparr>bsize = 2, bdata = [1, 2, 9]\<rparr>; b = \<lparr>bsize = 3, bdata = [1, 2, 3]\<rparr> in
    \<exists>r. blob_cmp a b = Inr r \<and> (r < 0 \<longleftrightarrow> blob_bytes a < blob_bytes b) \<and>
    (r > 0 \<longleftrightarrow> blob_bytes b < blob_bytes a) \<and> (r = 0 \<longleftrightarrow> blob_bytes a = blob_bytes b) \<and>
    blob_cmp b a = Inr (- r)"
  unfolding Let_def by (rule blob_cmp_lexicographic) (simp_all add: blob_valid_def)

text \<open>
  C37: Round trip of a serialised blob. A blob shorter than \<open>2 ^ 56\<close> bytes written by
  \<open>blob_put\<close> into a buffer with room for \<open>blob_put_len\<close> bytes is read back by \<open>blob_get\<close>
  with its size and its bytes; \<open>blob_put\<close>, \<open>blob_put_len\<close>, \<open>blob_get\<close> and \<open>blob_get_len\<close>
  agree on the number of bytes, and the rest of the buffer is left alone.
\<close>

theorem blob_roundtrip:
  assumes "blob_valid b" and "unat (bsize b) < 2 ^ 56" and "unat (blob_put_len b) \<le> length dst"
  shows "\<exists>dst' b'. blob_put dst b = Inr (dst', blob_put_len b) \<and>
    blob_get dst' = Inr (b', blob_put_len b) \<and> blob_get_len dst' = Inr (blob_put_len b) \<and>
    bsize b' = bsize b \<and> blob_valid b' \<and> blob_bytes b' = blob_bytes b \<and>
    drop (unat (blob_put_len b)) dst' = drop (unat (blob_put_len b)) dst"
proof -
  let ?rest = "blob_bytes b @ drop (unat (blob_put_len b)) dst"
  let ?d = "vint_bytes (bsize b) @ ?rest" and ?b = "\<lparr>bsize = bsize b, bdata = ?rest\<rparr>"
  have "blob_put dst b = Inr (?d, blob_put_len b)" by (rule blob_put_correct) (use assms in simp_all)
  moreover have "blob_get ?d = Inr (?b, blob_put_len b)"
    by (simp add: blob_get_correct [OF assms(2)] blob_put_len_def)
  moreover have "blob_valid ?b" "blob_bytes ?b = blob_bytes b"
    using assms(1) by (simp_all add: blob_valid_def blob_bytes_def)
  moreover have "drop (unat (blob_put_len b)) ?d = drop (unat (blob_put_len b)) dst"
    using unat_blob_put_len [OF assms(2)] assms(1) by simp
  ultimately show ?thesis by (auto simp: blob_get_len_get)
qed

theorem blob_roundtrip_witness:
  "let b = blob_from_string [104, 101, 108, 108, 111, 0]; dst = replicate 7 0 in
    \<exists>dst' b'. blob_put dst b = Inr (dst', blob_put_len b) \<and>
    blob_get dst' = Inr (b', blob_put_len b) \<and> blob_get_len dst' = Inr (blob_put_len b) \<and>
    bsize b' = bsize b \<and> blob_valid b' \<and> blob_bytes b' = blob_bytes b \<and>
    drop (unat (blob_put_len b)) dst' = drop (unat (blob_put_len b)) dst"
  unfolding Let_def
proof (rule blob_roundtrip)
  have s: "bsize (blob_from_string [104, 101, 108, 108, 111, 0]) = 6" by (simp add: blob_from_string_def)
  then show "unat (bsize (blob_from_string [104, 101, 108, 108, 111, 0])) < 2 ^ 56" by simp
  show "blob_valid (blob_from_string [104, 101, 108, 108, 111, 0])"
    by (simp add: blob_valid_def blob_from_string_def)
  have "vint_bytes 6 = [6]" by (subst vint_bytes.simps) simp
  then show "unat (blob_put_len (blob_from_string [104, 101, 108, 108, 111, 0])) \<le> length (replicate 7 (0 :: byte))"
    using s by (simp add: unat_blob_put_len)
qed

end
