(* ===== verification/Errors.thy ===== *)
theory Errors
  imports Prelude
begin

text \<open>
  The thread-local error trace, src/error.c, and the macros of include/error.h that report
  into it: \<^verbatim>\<open>failure\<close>, \<^verbatim>\<open>ensure\<close>, \<^verbatim>\<open>try\<close>, \<^verbatim>\<open>handle\<close> / \<^verbatim>\<open>forward\<close>, and the guard of \<^verbatim>\<open>errdefer\<close>
  (include/deffer.h). The state of one thread is a record; the frame array beyond
  \<open>error_count\<close> is kept, as the C array keeps it.
\<close>

section \<open>State and functions of src/error.c\<close>

record error_frame =
  efile :: string
  efunc :: string
  eline :: u32
  ecode :: int
  emsg :: string  \<comment> \<open>the characters of \<^verbatim>\<open>char msg[128]\<close> before the first zero\<close>

record error_state =
  error_list :: "error_frame list"  \<comment> \<open>the \<^verbatim>\<open>MAX_ERRORS\<close> slots of the array\<close>
  error_count :: u32
  error_code :: int

definition MAX_ERRORS :: nat where "MAX_ERRORS = 32"

definition MSG_SIZE :: nat where "MSG_SIZE = 128"

definition null_frame :: error_frame where
  "null_frame = \<lparr>efile = '''', efunc = '''', eline = 0, ecode = 0, emsg = ''''\<rparr>"

text \<open>The static initialisers: a zeroed array, no errors, no code.\<close>

definition error_init :: error_state where
  "error_init = \<lparr>error_list = replicate MAX_ERRORS null_frame, error_count = 0, error_code = 0\<rparr>"

text \<open>\<^verbatim>\<open>__FILE__\<close>, \<^verbatim>\<open>__FUNCTION__\<close>, \<^verbatim>\<open>__LINE__\<close> of a report.\<close>

type_synonym site = "string \<times> string \<times> u32"

definition error_push :: "error_state \<Rightarrow> string \<Rightarrow> string \<Rightarrow> u32 \<Rightarrow> int \<Rightarrow> error_state outcome" where
  "error_push es fl fn ln cd =
     obind (c_assert (cd \<noteq> 0)) (\<lambda>_.
     let es = es\<lparr>error_code := cd\<rparr> in
     if unat (error_count es) \<ge> MAX_ERRORS then Inr es
     else
       let n = unat (error_count es);
           frame = (error_list es ! n)\<lparr>efile := fl, efunc := fn, eline := ln, ecode := cd, emsg := ''''\<rparr> in
       Inr (es\<lparr>error_list := (error_list es)[n := frame], error_count := error_count es + 1\<rparr>))"

text \<open>The index of the frame \<^verbatim>\<open>error_trace_nth\<close> points to, \<open>None\<close> for the null pointer.\<close>

definition error_trace_nth :: "error_state \<Rightarrow> u32 \<Rightarrow> nat option" where
  "error_trace_nth es n =
     (if n \<ge> error_count es \<or> unat (error_count es) \<ge> MAX_ERRORS then None else Some (unat n))"

text \<open>
  \<open>mt\<close> is the formatted message. \<^verbatim>\<open>vsnprintf\<close> writes at most \<open>size - 1\<close> characters and a zero
  to the start of \<^verbatim>\<open>frame->msg\<close>, so the string before the call is replaced.
\<close>

definition error_append_message :: "error_state \<Rightarrow> string \<Rightarrow> error_state outcome" where
  "error_append_message es mt =
     obind (c_assert (error_count es > 0)) (\<lambda>_.
     case error_trace_nth es (error_count es - 1) of
       None \<Rightarrow> Inr es
     | Some i \<Rightarrow>
         let frame = error_list es ! i; offset = length (emsg frame) in
         if offset \<ge> MSG_SIZE then Inr es
         else Inr (es\<lparr>error_list := (error_list es)
           [i := frame\<lparr>emsg := take (MSG_SIZE - offset - 1) mt\<rparr>]\<rparr>))"

definition error_get_code :: "error_state \<Rightarrow> int" where
  "error_get_code es = error_code es"

definition error_trace_length :: "error_state \<Rightarrow> u32" where
  "error_trace_length es =
     (if unat (error_count es) < MAX_ERRORS then error_count es else of_nat MAX_ERRORS)"

definition error_clear :: "error_state \<Rightarrow> error_state" where
  "error_clear es = es\<lparr>error_code := 0, error_count := 0\<rparr>"

section \<open>The reporting macros of include/error.h\<close>

datatype result = SUCCESS | FAILURE

definition EINVAL :: int where "EINVAL = 22"
definition ENOMEM :: int where "ENOMEM = 12"
definition ENOENT :: int where "ENOENT = 2"
definition EEXIST :: int where "EEXIST = 17"

text \<open>\<^verbatim>\<open>failure(code, msg(...))\<close>: push a frame, set its message, return FAILURE.\<close>

definition failure :: "site \<Rightarrow> int \<Rightarrow> string \<Rightarrow> error_state \<Rightarrow> (result \<times> error_state) outcome" where
  "failure site cd mt es =
     (case site of (fl, fn, ln) \<Rightarrow>
     obind (error_push es fl fn ln cd) (\<lambda>es.
     obind (error_append_message es mt) (\<lambda>es.
     Inr (FAILURE, es))))"

text \<open>
  \<^verbatim>\<open>try(expr)\<close> and \<^verbatim>\<open>forward()\<close>: on FAILURE of the expression report again, with the code that
  is current.
\<close>

definition try_fail :: "site \<Rightarrow> string \<Rightarrow> error_state \<Rightarrow> (result \<times> error_state) outcome" where
  "try_fail site mt es = failure site (error_get_code es) mt es"

text \<open>The guard at the start of every \<^verbatim>\<open>errdefer\<close> handler: run it only if an error code is set.\<close>

definition errdefer_runs :: "error_state \<Rightarrow> bool" where
  "errdefer_runs es \<longleftrightarrow> error_get_code es \<noteq> 0"

section \<open>Invariant\<close>

definition error_wf :: "error_state \<Rightarrow> bool" where
  "error_wf es \<longleftrightarrow> length (error_list es) = MAX_ERRORS \<and> unat (error_count es) \<le> MAX_ERRORS \<and>
     (\<forall>f \<in> set (error_list es). length (emsg f) < MSG_SIZE) \<and>
     (error_count es > 0 \<longrightarrow> error_code es \<noteq> 0)"

text \<open>The frames the trace holds, oldest first.\<close>

definition error_frames :: "error_state \<Rightarrow> error_frame list" where
  "error_frames es = take (unat (error_count es)) (error_list es)"

lemma error_wf_init: "error_wf error_init"
  by (simp add: error_wf_def error_init_def MAX_ERRORS_def MSG_SIZE_def null_frame_def)

lemma error_wf_clear: "error_wf es \<Longrightarrow> error_wf (error_clear es)"
  by (simp add: error_wf_def error_clear_def)

lemma unat_Suc_u32: "unat (w :: u32) < MAX_ERRORS \<Longrightarrow> unat (w + 1) = Suc (unat w)"
  by (simp add: MAX_ERRORS_def unat_word_ariths)

lemma error_push_correct:
  assumes "error_wf es" and "cd \<noteq> 0"
  shows "\<exists>es'. error_push es fl fn ln cd = Inr es' \<and> error_wf es' \<and> error_code es' = cd \<and>
    error_count es' > 0 \<and>
    error_frames es' = (if unat (error_count es) < MAX_ERRORS
      then error_frames es @ [\<lparr>efile = fl, efunc = fn, eline = ln, ecode = cd, emsg = ''''\<rparr>]
      else error_frames es)"
proof (cases "unat (error_count es) < MAX_ERRORS")
  case True
  let ?n = "unat (error_count es)" and ?f = "\<lparr>efile = fl, efunc = fn, eline = ln, ecode = cd, emsg = ''''\<rparr>"
  have fr: "f\<lparr>efile := fl, efunc := fn, eline := ln, ecode := cd, emsg := ''''\<rparr> = ?f" for f :: error_frame
    by (cases f) simp
  have len: "?n < length (error_list es)" using True assms(1) by (simp add: error_wf_def)
  have "\<forall>f \<in> set ((error_list es)[?n := ?f]). length (emsg f) < MSG_SIZE"
    using assms(1) by (auto simp: error_wf_def MSG_SIZE_def dest!: set_update_subset_insert [THEN subsetD])
  moreover have "take (Suc ?n) ((error_list es)[?n := ?f]) = take ?n (error_list es) @ [?f]"
    using len by (simp add: take_Suc_conv_app_nth)
  moreover have "error_count es + 1 > 0"
    using unat_Suc_u32 [OF True] by (simp add: word_less_nat_alt)
  ultimately show ?thesis
    using True assms
    by (simp add: error_push_def Let_def error_wf_def error_frames_def unat_Suc_u32 fr)
next
  case False
  then have "error_count es > 0" by (simp add: word_less_nat_alt MAX_ERRORS_def)
  with False assms show ?thesis by (simp add: error_push_def Let_def error_wf_def error_frames_def)
qed

lemma error_append_correct:
  assumes "error_wf es" and "error_count es > 0"
  shows "\<exists>es'. error_append_message es mt = Inr es' \<and> error_wf es' \<and>
    error_code es' = error_code es \<and> error_count es' = error_count es \<and>
    error_frames es' = (if unat (error_count es) < MAX_ERRORS
      then butlast (error_frames es) @
        [(last (error_frames es))\<lparr>emsg := take (MSG_SIZE - length (emsg (last (error_frames es))) - 1) mt\<rparr>]
      else error_frames es)"
proof (cases "unat (error_count es) < MAX_ERRORS")
  case True
  let ?n = "unat (error_count es)" and ?l = "error_list es"
  let ?f = "(?l ! (?n - 1))\<lparr>emsg := take (MSG_SIZE - length (emsg (?l ! (?n - 1))) - 1) mt\<rparr>"
  have n: "0 < ?n" "?n - 1 < length ?l" "?n \<le> length ?l"
    using assms True by (auto simp: error_wf_def word_less_nat_alt)
  have pred: "unat (error_count es - 1) = ?n - 1"
    using n(1) by (simp add: unat_sub word_le_nat_alt)
  have nth: "error_trace_nth es (error_count es - 1) = Some (?n - 1)"
    using True n(1) pred by (simp add: error_trace_nth_def word_le_nat_alt)
  have "length (emsg (?l ! (?n - 1))) < MSG_SIZE" using assms(1) n(2) by (simp add: error_wf_def)
  then have app: "error_append_message es mt = Inr (es\<lparr>error_list := ?l[?n - 1 := ?f]\<rparr>)"
    using assms(2) by (simp add: error_append_message_def nth Let_def)
  have "\<forall>f \<in> set (?l[?n - 1 := ?f]). length (emsg f) < MSG_SIZE"
    using assms(1) by (auto simp: error_wf_def MSG_SIZE_def dest!: set_update_subset_insert [THEN subsetD])
  moreover have "take ?n (?l[?n - 1 := ?f]) = take (?n - 1) ?l @ [?f]"
    using n by (metis Suc_pred' length_list_update nth_list_update_eq take_Suc_conv_app_nth take_update_cancel order_refl)
  moreover have "error_frames es = take (?n - 1) ?l @ [?l ! (?n - 1)]"
    using n by (metis Suc_pred' error_frames_def take_Suc_conv_app_nth)
  ultimately show ?thesis
    using True assms app by (simp add: error_wf_def) (simp add: error_frames_def)
next
  case False
  then have "error_trace_nth es (error_count es - 1) = None" by (simp add: error_trace_nth_def)
  with False assms show ?thesis by (simp add: error_append_message_def)
qed

lemma failure_correct:
  assumes "error_wf es" and "cd \<noteq> 0"
  shows "\<exists>es'. failure (fl, fn, ln) cd mt es = Inr (FAILURE, es') \<and> error_wf es' \<and>
    error_code es' = cd \<and> error_count es' > 0"
proof -
  from error_push_correct [OF assms] obtain es1 where
    "error_push es fl fn ln cd = Inr es1" "error_wf es1" "error_code es1 = cd" "error_count es1 > 0"
    by blast
  with error_append_correct [of es1 mt] show ?thesis by (auto simp: failure_def)
qed

lemma try_fail_correct:
  assumes "error_wf es" and "error_code es \<noteq> 0"
  shows "\<exists>es'. try_fail site mt es = Inr (FAILURE, es') \<and> error_wf es' \<and>
    error_code es' = error_code es \<and> error_count es' > 0"
  using failure_correct [OF assms] by (cases site) (auto simp: try_fail_def error_get_code_def)

section \<open>Properties\<close>

text \<open>
  C38: Every report keeps the trace well formed and sets the code. From a well-formed state
  \<open>failure\<close> with a nonzero code returns FAILURE; the current code is the reported one,
  so a following \<^verbatim>\<open>try\<close> forwards it and \<^verbatim>\<open>errdefer\<close> handlers run; while fewer than 31
  frames are held exactly one is appended, with the site, the code and the message (cut to
  127 characters). The 32nd frame stays without its message, and a full trace is left as
  it is.
\<close>

theorem failure_appends_frame:
  assumes "error_wf es" and "cd \<noteq> 0"
  shows "\<exists>es'. failure (fl, fn, ln) cd mt es = Inr (FAILURE, es') \<and> error_wf es' \<and>
    error_get_code es' = cd \<and> errdefer_runs es' \<and>
    (if unat (error_count es) < 31 then error_frames es' = error_frames es @
       [\<lparr>efile = fl, efunc = fn, eline = ln, ecode = cd, emsg = take 127 mt\<rparr>]
     else if unat (error_count es) = 31 then error_frames es' = error_frames es @
       [\<lparr>efile = fl, efunc = fn, eline = ln, ecode = cd, emsg = ''''\<rparr>]
     else error_frames es' = error_frames es)"
proof -
  from error_push_correct [OF assms] obtain es1 where
    p: "error_push es fl fn ln cd = Inr es1" "error_wf es1" "error_code es1 = cd" "error_count es1 > 0"
      "error_frames es1 = (if unat (error_count es) < MAX_ERRORS
        then error_frames es @ [\<lparr>efile = fl, efunc = fn, eline = ln, ecode = cd, emsg = ''''\<rparr>]
        else error_frames es)"
    by blast
  have c: "error_count es1 = (if unat (error_count es) < MAX_ERRORS then error_count es + 1 else error_count es)"
    using p(1) assms(2) by (auto simp: error_push_def Let_def split: if_splits)
  from error_append_correct [OF p(2,4)] obtain es2 where
    a: "error_append_message es1 mt = Inr es2" "error_wf es2" "error_code es2 = error_code es1"
      "error_frames es2 = (if unat (error_count es1) < MAX_ERRORS
        then butlast (error_frames es1) @
          [(last (error_frames es1))\<lparr>emsg := take (MSG_SIZE - length (emsg (last (error_frames es1))) - 1) mt\<rparr>]
        else error_frames es1)"
    by blast
  have "unat (error_count es1) < MAX_ERRORS \<longleftrightarrow> unat (error_count es) < 31"
    using c unat_Suc_u32 [of "error_count es"] by (auto simp: MAX_ERRORS_def)
  with p a assms(2) show ?thesis
    by (simp add: failure_def error_get_code_def errdefer_runs_def MAX_ERRORS_def MSG_SIZE_def)
qed

theorem failure_appends_frame_witness:
  "\<exists>es'. failure (''f.c'', ''f'', 7) 2 ''gone'' error_init = Inr (FAILURE, es') \<and> error_wf es' \<and>
    error_get_code es' = 2 \<and> errdefer_runs es' \<and>
    (if unat (error_count error_init) < 31 then error_frames es' = error_frames error_init @
       [\<lparr>efile = ''f.c'', efunc = ''f'', eline = 7, ecode = 2, emsg = take 127 ''gone''\<rparr>]
     else if unat (error_count error_init) = 31 then error_frames es' = error_frames error_init @
       [\<lparr>efile = ''f.c'', efunc = ''f'', eline = 7, ecode = 2, emsg = ''''\<rparr>]
     else error_frames es' = error_frames error_init)"
  by (rule failure_appends_frame [OF error_wf_init]) simp


text \<open>
  Messages do not accumulate. A second \<open>error_append_message\<close> on the same frame does not
  extend the message, it replaces it: the message is the new text, cut so that old and new
  text together would have fitted the buffer.
\<close>

theorem error_append_replaces:
  assumes "error_wf es" and "0 < unat (error_count es)" and "unat (error_count es) < 32"
  shows "\<exists>es1 es2. error_append_message es t1 = Inr es1 \<and> error_append_message es1 t2 = Inr es2 \<and>
    emsg (last (error_frames es2)) = take (127 - length (emsg (last (error_frames es1)))) t2 \<and>
    butlast (error_frames es2) = butlast (error_frames es)"
proof -
  have c: "error_count es > 0" using assms(2) by (simp add: word_less_nat_alt)
  from error_append_correct [OF assms(1) c, of t1] obtain es1 where
    a: "error_append_message es t1 = Inr es1" "error_wf es1" "error_count es1 = error_count es"
      "butlast (error_frames es1) = butlast (error_frames es)"
    using assms(3) by (auto simp: MAX_ERRORS_def)
  moreover from error_append_correct [of es1 t2] a c assms(3) show ?thesis
    by (auto simp: MAX_ERRORS_def MSG_SIZE_def)
qed

theorem error_append_replaces_witness:
  "let es = error_init\<lparr>error_count := 1, error_code := 2\<rparr> in
    \<exists>es1 es2. error_append_message es ''no memory'' = Inr es1 \<and> error_append_message es1 '', size = 3'' = Inr es2 \<and>
    emsg (last (error_frames es2)) = take (127 - length (emsg (last (error_frames es1)))) '', size = 3'' \<and>
    butlast (error_frames es2) = butlast (error_frames es)"
  unfolding Let_def
  by (rule error_append_replaces)
    (simp_all add: error_wf_def error_init_def MAX_ERRORS_def MSG_SIZE_def null_frame_def)

end
