(* ===== verification/Page.thy ===== *)
theory Page
  imports Blob Errors
begin

text \<open>
  The slotted page of src/btree.c: a page is a byte buffer that starts with \<^verbatim>\<open>header_t\<close>
  (12 bytes), continues with an array of 16-bit cell pointers, and keeps the payloads the
  cells point to at its end, growing downwards. This theory translates the static functions
  on one page: \<^verbatim>\<open>key_compare\<close>, the \<^verbatim>\<open>payload_*\<close> accessors, \<^verbatim>\<open>page_find_pointer\<close>,
  \<^verbatim>\<open>page_compact\<close>, \<^verbatim>\<open>page_insert_payload\<close>, \<^verbatim>\<open>page_insert_leaf\<close>, \<^verbatim>\<open>page_insert_inner\<close> and
  \<^verbatim>\<open>page_split\<close>. Their properties are in the theories PageLayout, PageInsert and PageSplit.

  Integers in a page are little-endian, as on every platform the Makefile supports.
\<close>

section \<open>Header, cells and payloads\<close>

type_synonym page_id_t = u32

record header_t =
  cell_count :: u16
  data_start :: u16
  free_space :: u16
  flags :: u16
  right :: page_id_t

definition sizeof_header :: nat where "sizeof_header = 12"

definition PAGE_FLAG_LEAF :: u16 where "PAGE_FLAG_LEAF = 1"
definition PAGE_FLAG_TABLE :: u16 where "PAGE_FLAG_TABLE = 2"
definition PAGE_FLAG_INDEX_UUID :: u16 where "PAGE_FLAG_INDEX_UUID = 4"

definition page_is_leaf :: "u16 \<Rightarrow> bool" where
  "page_is_leaf fl \<longleftrightarrow> fl AND PAGE_FLAG_LEAF \<noteq> 0"

definition page_is_inner :: "u16 \<Rightarrow> bool" where
  "page_is_inner fl \<longleftrightarrow> fl AND PAGE_FLAG_LEAF = 0"

definition page_is_table :: "u16 \<Rightarrow> bool" where
  "page_is_table fl \<longleftrightarrow> fl AND PAGE_FLAG_TABLE \<noteq> 0"

definition page_is_index_uuid :: "u16 \<Rightarrow> bool" where
  "page_is_index_uuid fl \<longleftrightarrow> fl AND PAGE_FLAG_INDEX_UUID \<noteq> 0"

definition page_flags_package :: "bool \<Rightarrow> u16 \<Rightarrow> u16" where
  "page_flags_package leaf type = (if leaf then PAGE_FLAG_LEAF else 0) OR type"

text \<open>\<^verbatim>\<open>page_get_header\<close>: the header at the start of the page, read and written as a whole.\<close>

definition header_of :: "byte list \<Rightarrow> header_t" where
  "header_of page = \<lparr>cell_count = le_word (fetch page 0 2), data_start = le_word (fetch page 2 2),
     free_space = le_word (fetch page 4 2), flags = le_word (fetch page 6 2),
     right = le_word (fetch page 8 4)\<rparr>"

definition header_bytes :: "header_t \<Rightarrow> byte list" where
  "header_bytes h = le_bytes 2 (cell_count h) @ le_bytes 2 (data_start h) @ le_bytes 2 (free_space h) @
     le_bytes 2 (flags h) @ le_bytes 4 (right h)"

definition page_get_header :: "byte list \<Rightarrow> header_t outcome" where
  "page_get_header page = (if sizeof_header \<le> length page then Inr (header_of page) else Inl Out_of_bounds)"

definition page_put_header :: "byte list \<Rightarrow> header_t \<Rightarrow> byte list outcome" where
  "page_put_header page h = mem_write page 0 (header_bytes h)"

text \<open>\<^verbatim>\<open>page_get_cells(page)[index]\<close>, read and written.\<close>

definition cell_at :: "byte list \<Rightarrow> nat \<Rightarrow> u16" where
  "cell_at page i = le_word (fetch page (sizeof_header + 2 * i) 2)"

definition page_get_cell :: "byte list \<Rightarrow> nat \<Rightarrow> u16 outcome" where
  "page_get_cell page i =
     (if sizeof_header + 2 * i + 2 \<le> length page then Inr (cell_at page i) else Inl Out_of_bounds)"

definition page_set_cell :: "byte list \<Rightarrow> nat \<Rightarrow> u16 \<Rightarrow> byte list outcome" where
  "page_set_cell page i w = mem_write page (sizeof_header + 2 * i) (le_bytes 2 w)"

text \<open>\<^verbatim>\<open>page_get_payload\<close>: the offset of the payload in the page.\<close>

definition page_get_payload :: "byte list \<Rightarrow> u16 \<Rightarrow> nat outcome" where
  "page_get_payload page index =
     obind (page_get_cell page (unat index)) (\<lambda>off.
     if unat off \<le> length page then Inr (unat off) else Inl Out_of_bounds)"

definition page_get_space :: "byte list \<Rightarrow> u16 outcome" where
  "page_get_space page =
     obind (page_get_header page) (\<lambda>header.
     Inr (data_start header - 12 - 2 * cell_count header))"

text \<open>
  Accessors of one payload. A payload is the memory from its first byte to the end of the
  page. In an inner page it is a page id followed by a key, in a leaf a key followed by a
  value; a key is a varint, or 16 bytes in a UUID index.
\<close>

definition ptr_add :: "byte list \<Rightarrow> nat \<Rightarrow> byte list outcome" where
  "ptr_add p n = (if n \<le> length p then Inr (drop n p) else Inl Out_of_bounds)"

definition payload_get_page_id :: "byte list \<Rightarrow> page_id_t outcome" where
  "payload_get_page_id payload = obind (mem_read payload 0 4) (\<lambda>bs. Inr (le_word bs))"

definition payload_get_key_len :: "u16 \<Rightarrow> byte list \<Rightarrow> u16 outcome" where
  "payload_get_key_len fl key = (if page_is_index_uuid fl then Inr 16 else varint_get_len key)"

definition payload_get_key_ptr :: "u16 \<Rightarrow> byte list \<Rightarrow> byte list outcome" where
  "payload_get_key_ptr fl payload = (if page_is_inner fl then ptr_add payload 4 else Inr payload)"

definition payload_get_key :: "u16 \<Rightarrow> byte list \<Rightarrow> blob_t outcome" where
  "payload_get_key fl payload =
     obind (payload_get_key_ptr fl payload) (\<lambda>p.
     obind (payload_get_key_len fl p) (\<lambda>n.
     Inr \<lparr>bsize = ucast n, bdata = p\<rparr>))"

definition payload_get_value_ptr :: "u16 \<Rightarrow> byte list \<Rightarrow> byte list outcome" where
  "payload_get_value_ptr fl payload =
     obind (c_assert (page_is_leaf fl)) (\<lambda>_.
     if page_is_index_uuid fl then ptr_add payload 16
     else obind (varint_get_len payload) (\<lambda>n. ptr_add payload (unat n)))"

definition payload_get_value_len :: "u16 \<Rightarrow> byte list \<Rightarrow> u16 outcome" where
  "payload_get_value_len fl val =
     obind (c_assert (page_is_leaf fl)) (\<lambda>_.
     if page_is_index_uuid fl then Inr 4
     else obind (blob_get_len val) (\<lambda>n. Inr (ucast n)))"

definition payload_get_len :: "u16 \<Rightarrow> byte list \<Rightarrow> u16 outcome" where
  "payload_get_len fl payload =
     (if page_is_inner fl then
        obind (ptr_add payload 4) (\<lambda>p.
        obind (payload_get_key_len fl p) (\<lambda>n. Inr (n + 4)))
      else
        obind (payload_get_key_len fl payload) (\<lambda>key_len.
        obind (ptr_add payload (unat key_len)) (\<lambda>p.
        obind (payload_get_value_len fl p) (\<lambda>n. Inr (key_len + n)))))"

definition payload_put_len :: "u16 \<Rightarrow> blob_t \<Rightarrow> blob_t \<Rightarrow> u16" where
  "payload_put_len fl key val =
     (if page_is_inner fl then ucast (bsize key) + 4 else ucast (bsize key) + ucast (bsize val))"

section \<open>Keys and search\<close>

text \<open>\<^verbatim>\<open>(int)(a_value - b_value)\<close>: the difference of two 64-bit values cut to 32 bits.\<close>

definition key_compare :: "byte list \<Rightarrow> byte list \<Rightarrow> int outcome" where
  "key_compare a b =
     obind (varint_get a) (\<lambda>(a_value, _).
     obind (varint_get b) (\<lambda>(b_value, _).
     Inr (sint (ucast (a_value - b_value) :: 32 word))))"

function find_pointer_loop :: "byte list \<Rightarrow> header_t \<Rightarrow> byte list \<Rightarrow> nat \<Rightarrow> (bool \<times> u16) outcome" where
  "find_pointer_loop page header key i =
     (if i < unat (cell_count header) then
        obind (page_get_payload page (of_nat i)) (\<lambda>payload.
        obind (payload_get_key_ptr (flags header) (drop payload page)) (\<lambda>p.
        obind (key_compare p key) (\<lambda>ret.
        if ret = 0 then Inr (True, of_nat i)
        else if ret > 0 then Inr (False, of_nat i)
        else find_pointer_loop page header key (i + 1))))
      else Inr (False, cell_count header))"
  by pat_completeness auto
termination
  by (relation "measure (\<lambda>(page, header, key, i). unat (cell_count header) - i)") auto

declare find_pointer_loop.simps [simp del]

definition page_find_pointer :: "byte list \<Rightarrow> blob_t \<Rightarrow> (bool \<times> u16) outcome" where
  "page_find_pointer page key =
     obind (page_get_header page) (\<lambda>header. find_pointer_loop page header (bdata key) 0)"

section \<open>Compaction\<close>

text \<open>
  The loop of \<^verbatim>\<open>page_compact\<close>. The header does not change in it, since cells lie behind
  the header. \<open>buffer\<close> starts out indeterminate in C; every byte read from it has been
  written before, here it starts out zero.
\<close>

function compact_loop ::
  "byte list \<Rightarrow> header_t \<Rightarrow> byte list \<Rightarrow> u16 \<Rightarrow> nat \<Rightarrow> (byte list \<times> byte list \<times> u16) outcome" where
  "compact_loop page header buffer ds i =
     (if i < unat (cell_count header) then
        obind (page_get_payload page (of_nat i)) (\<lambda>payload.
        obind (payload_get_len (flags header) (drop payload page)) (\<lambda>size.
        let ds = ds - size in
        obind (mem_read page payload (unat size)) (\<lambda>bs.
        obind (mem_write buffer (unat ds) bs) (\<lambda>buffer.
        obind (page_set_cell page i ds) (\<lambda>page.
        compact_loop page header buffer ds (i + 1))))))
      else Inr (page, buffer, ds))"
  by pat_completeness auto
termination
  by (relation "measure (\<lambda>(page, header, buffer, ds, i). unat (cell_count header) - i)") auto

declare compact_loop.simps [simp del]

definition page_compact :: "byte list \<Rightarrow> u16 \<Rightarrow> byte list outcome" where
  "page_compact page page_size =
     obind (page_get_header page) (\<lambda>header.
     obind (compact_loop page header (replicate (unat page_size) 0) page_size 0) (\<lambda>(page, buffer, ds).
     obind (mem_read buffer (unat ds) (unat page_size - unat ds)) (\<lambda>bs.
     obind (mem_write page (unat ds) bs) (\<lambda>page.
     page_put_header page (header\<lparr>data_start := ds,
       free_space := page_size - ds - 12 - 2 * cell_count header\<rparr>)))))"

section \<open>Insertion\<close>

text \<open>
  \<^verbatim>\<open>page_insert_payload\<close>: the page with room for the payload, and the offset of that room.
  The byte count of the \<^verbatim>\<open>memmove\<close> is negative, hence huge, when \<open>index\<close> is beyond the last
  cell.
\<close>

definition page_insert_payload :: "byte list \<Rightarrow> u16 \<Rightarrow> u16 \<Rightarrow> u64 \<Rightarrow> (byte list \<times> nat) outcome" where
  "page_insert_payload page page_size index payload_size =
     obind (page_get_header page) (\<lambda>header.
     let total_size = payload_size + 2 in
     obind (c_assert (ucast (free_space header) \<ge> total_size)) (\<lambda>_.
     obind (page_get_space page) (\<lambda>space.
     obind (if ucast space < total_size then page_compact page page_size else Inr page) (\<lambda>page.
     obind (page_get_header page) (\<lambda>header.
     obind (if index \<noteq> cell_count header then
              if index > cell_count header then Inl Out_of_bounds
              else
                obind (mem_read page (sizeof_header + 2 * unat index) (2 * (unat (cell_count header) - unat index)))
                  (\<lambda>bs. mem_write page (sizeof_header + 2 * (unat index + 1)) bs)
            else Inr page) (\<lambda>page.
     let payload_start = data_start header - ucast payload_size in
     obind (page_set_cell page (unat index) payload_start) (\<lambda>page.
     obind (page_put_header page (header\<lparr>data_start := payload_start,
              free_space := free_space header - ucast total_size, cell_count := cell_count header + 1\<rparr>)) (\<lambda>page.
     Inr (page, unat payload_start)))))))))"

definition page_insert_leaf ::
  "byte list \<Rightarrow> u16 \<Rightarrow> blob_t \<Rightarrow> blob_t \<Rightarrow> error_state \<Rightarrow> (result \<times> byte list \<times> error_state) outcome" where
  "page_insert_leaf page page_size key val es =
     obind (page_find_pointer page key) (\<lambda>(found, index).
     if found then
       obind (failure (''src/btree.c'', ''page_insert_leaf'', 265) EEXIST ''key already exists on leaf page'' es)
         (\<lambda>(r, es). Inr (r, page, es))
     else
       obind (page_insert_payload page page_size index (bsize key + bsize val)) (\<lambda>(page, ptr).
       obind (mem_read (bdata key) 0 (unat (bsize key))) (\<lambda>kbs.
       obind (mem_write page ptr kbs) (\<lambda>page.
       obind (mem_read (bdata val) 0 (unat (bsize val))) (\<lambda>vbs.
       obind (mem_write page (ptr + unat (bsize key)) vbs) (\<lambda>page.
       Inr (SUCCESS, page, es)))))))"

text \<open>
  The end of \<^verbatim>\<open>btree_lookup\<close>, when the leaf is reached: the offset of the value in the page,
  or ENOENT. \<^verbatim>\<open>leaf_lookup\<close> returns that pointer as the memory from there to the page's end.
\<close>

definition leaf_lookup ::
  "byte list \<Rightarrow> blob_t \<Rightarrow> error_state \<Rightarrow> (result \<times> byte list \<times> error_state) outcome" where
  "leaf_lookup page key es =
     obind (page_find_pointer page key) (\<lambda>(found, index).
     if \<not> found then
       obind (failure (''src/btree.c'', ''btree_lookup'', 474) ENOENT ''key not found on leaf page'' es)
         (\<lambda>(r, es). Inr (r, [], es))
     else
       obind (page_get_header page) (\<lambda>header.
       obind (page_get_payload page index) (\<lambda>payload.
       obind (payload_get_value_ptr (flags header) (drop payload page)) (\<lambda>p.
       Inr (SUCCESS, p, es)))))"

definition page_insert_inner :: "byte list \<Rightarrow> u16 \<Rightarrow> u16 \<Rightarrow> blob_t \<Rightarrow> page_id_t \<Rightarrow> byte list outcome" where
  "page_insert_inner page page_size index key page_id =
     obind (page_get_header page) (\<lambda>header.
     if index = cell_count header then
       obind (page_insert_payload page page_size index (bsize key + 4)) (\<lambda>(page, ptr).
       obind (page_get_header page) (\<lambda>header.
       obind (mem_write page ptr (le_bytes 4 (right header))) (\<lambda>page.
       obind (mem_read (bdata key) 0 (unat (bsize key))) (\<lambda>kbs.
       obind (mem_write page (ptr + 4) kbs) (\<lambda>page.
       obind (page_get_header page) (\<lambda>header.
       page_put_header page (header\<lparr>right := page_id\<rparr>)))))))
     else
       obind (page_get_payload page index) (\<lambda>next.
       obind (page_insert_payload page page_size index (bsize key + 4)) (\<lambda>(page, ptr).
       obind (mem_read page next 4) (\<lambda>bs.
       obind (mem_write page ptr bs) (\<lambda>page.
       obind (mem_read (bdata key) 0 (unat (bsize key))) (\<lambda>kbs.
       obind (mem_write page (ptr + 4) kbs) (\<lambda>page.
       mem_write page next (le_bytes 4 page_id))))))))"

section \<open>Splitting\<close>

text \<open>
  The loop of \<^verbatim>\<open>page_split\<close>: the payloads of \<open>page\<close> from index \<open>i\<close> on are copied to
  \<open>next\<close>.
\<close>

function split_loop ::
  "byte list \<Rightarrow> header_t \<Rightarrow> byte list \<Rightarrow> u16 \<Rightarrow> nat \<Rightarrow> nat \<Rightarrow> (byte list \<times> u16) outcome" where
  "split_loop page header next ds split i =
     (if i < unat (cell_count header) then
        obind (page_get_payload page (of_nat i)) (\<lambda>payload.
        obind (payload_get_len (flags header) (drop payload page)) (\<lambda>size.
        let ds = ds - size in
        obind (mem_read page payload (unat size)) (\<lambda>bs.
        obind (mem_write next (unat ds) bs) (\<lambda>next.
        obind (page_set_cell next (i - split) ds) (\<lambda>next.
        split_loop page header next ds split (i + 1))))))
      else Inr (next, ds))"
  by pat_completeness auto
termination
  by (relation "measure (\<lambda>(page, header, next, ds, split, i). unat (cell_count header) - i)") auto

declare split_loop.simps [simp del]

definition page_split ::
  "byte list \<Rightarrow> byte list \<Rightarrow> page_id_t \<Rightarrow> u16 \<Rightarrow> (byte list \<times> byte list \<times> u16) outcome" where
  "page_split page next next_id page_size =
     obind (page_get_header page) (\<lambda>page_header.
     let split = cell_count page_header div 2 in
     obind (split_loop page page_header next page_size (unat split) (unat split)) (\<lambda>(next, ds).
     let count = cell_count page_header - split in
     obind (page_put_header next \<lparr>cell_count = count, data_start = ds,
       free_space = ds - 12 - 2 * count, flags = flags page_header, right = right page_header\<rparr>) (\<lambda>next.
     obind (page_put_header page (page_header\<lparr>cell_count := split, right := next_id\<rparr>)) (\<lambda>page.
     obind (page_compact page page_size) (\<lambda>page.
     Inr (page, next, split))))))"

end
