(* ===== verification/PageLayout.thy ===== *)
theory PageLayout
  imports Page
begin

text \<open>
  What a page stands for. \<open>page_rep ps page fl r pls\<close> says that the buffer \<open>page\<close> of \<open>ps\<close>
  bytes holds the payloads \<open>pls\<close>, in the order of its cells, with flags \<open>fl\<close> and right
  link \<open>r\<close>: the payloads lie between \<open>data_start\<close> and the end, fill that region
  completely, do not overlap each other, and each can be measured by \<open>payload_get_len\<close>.
  It says nothing about \<open>free_space\<close>; \<open>free_exact\<close> says that this field is the room
  between the cells and the payloads.
\<close>

section \<open>Reading back what was written\<close>

lemma length_header_bytes [simp]: "length (header_bytes h) = 12"
  by (simp add: header_bytes_def)

lemma header_bytes_fetch:
  "fetch (header_bytes h) 0 2 = le_bytes 2 (cell_count h)"
  "fetch (header_bytes h) 2 2 = le_bytes 2 (data_start h)"
  "fetch (header_bytes h) 4 2 = le_bytes 2 (free_space h)"
  "fetch (header_bytes h) 6 2 = le_bytes 2 (flags h)"
  "fetch (header_bytes h) 8 4 = le_bytes 4 (right h)"
  by (simp_all add: header_bytes_def fetch_def)

lemma fetch_store_inside:
  assumes "off + length bs \<le> length m" and "off \<le> o'" and "o' + n \<le> off + length bs"
  shows "fetch (store m off bs) o' n = fetch bs (o' - off) n"
proof (rule nth_equalityI)
  show "length (fetch (store m off bs) o' n) = length (fetch bs (o' - off) n)"
    using assms by simp
  fix i
  assume "i < length (fetch (store m off bs) o' n)"
  then have "i < n" using assms by simp
  then show "fetch (store m off bs) o' n ! i = fetch bs (o' - off) n ! i"
    using assms by (simp add: fetch_nth store_nth)
qed

lemma fetch_fetch: "a + n \<le> length m \<Longrightarrow> b + k \<le> n \<Longrightarrow> fetch (fetch m a n) b k = fetch m (a + b) k"
  by (rule nth_equalityI) (simp_all add: fetch_nth add.assoc)

lemma header_of_put [buffer_simps]: "12 \<le> length page \<Longrightarrow> header_of (store page 0 (header_bytes h)) = h"
  by (simp add: header_of_def fetch_store_inside header_bytes_fetch)

lemma header_of_store_after [buffer_simps]:
  "12 \<le> off \<Longrightarrow> off + length bs \<le> length page \<Longrightarrow> header_of (store page off bs) = header_of page"
  by (simp add: header_of_def fetch_store_disjoint)

lemma cell_at_put_header [buffer_simps]:
  "12 + 2 * i + 2 \<le> length page \<Longrightarrow> cell_at (store page 0 (header_bytes h)) i = cell_at page i"
  by (simp add: cell_at_def fetch_store_disjoint sizeof_header_def)

lemma cell_at_store_after [buffer_simps]:
  "12 + 2 * i + 2 \<le> off \<Longrightarrow> off + length bs \<le> length page \<Longrightarrow> cell_at (store page off bs) i = cell_at page i"
  by (simp add: cell_at_def fetch_store_disjoint sizeof_header_def)

lemma cell_at_set [buffer_simps]:
  assumes "12 + 2 * i + 2 \<le> length page" and "12 + 2 * j + 2 \<le> length page"
  shows "cell_at (store page (sizeof_header + 2 * i) (le_bytes 2 w)) j = (if j = i then w else cell_at page j)"
proof (cases i j rule: linorder_cases)
  case less
  then have "sizeof_header + 2 * i + 2 \<le> sizeof_header + 2 * j" by simp
  with less assms show ?thesis by (simp add: cell_at_def fetch_store_disjoint sizeof_header_def)
next
  case greater
  then have "sizeof_header + 2 * j + 2 \<le> sizeof_header + 2 * i" by simp
  with greater assms show ?thesis by (simp add: cell_at_def fetch_store_disjoint sizeof_header_def)
qed (use assms in \<open>simp add: cell_at_def sizeof_header_def\<close>)

section \<open>Payloads that can be measured\<close>

definition payload_ok :: "u16 \<Rightarrow> byte list \<Rightarrow> bool" where
  "payload_ok fl bs \<longleftrightarrow> length bs < 2 ^ 16 \<and>
     (\<forall>rest. payload_get_len fl (bs @ rest) = Inr (of_nat (length bs)))"

lemma varint_get_append: "varint_get src = Inr r \<Longrightarrow> varint_get (src @ rest) = Inr r"
  using varint_get_reads(3) [of src "fst r" "snd r"] varint_get_cong [of src "fst r" "snd r" "src @ rest"]
  by (cases r) simp

lemma fetch_drop: "fetch m off (length bs) = bs \<Longrightarrow> off + length bs \<le> length m \<Longrightarrow>
  drop off m = bs @ drop (off + length bs) m"
  by (metis add.commute append_take_drop_id drop_drop fetch_def)

lemma payload_ok_get_len:
  assumes "payload_ok fl bs" and "fetch page off (length bs) = bs" and "off + length bs \<le> length page"
  shows "payload_get_len fl (drop off page) = Inr (of_nat (length bs))"
  using assms by (simp add: payload_ok_def fetch_drop)

lemma payload_ok_unat [simp]: "payload_ok fl bs \<Longrightarrow> unat (of_nat (length bs) :: u16) = length bs"
  by (simp add: payload_ok_def unat_of_nat)

section \<open>Pages\<close>

abbreviation off_at :: "byte list \<Rightarrow> nat \<Rightarrow> nat" where
  "off_at page i \<equiv> unat (cell_at page i)"

text \<open>Cell \<open>i\<close> points at the payload \<open>bs\<close>, at or above \<open>lo\<close>.\<close>

definition slot_ok :: "u16 \<Rightarrow> byte list \<Rightarrow> nat \<Rightarrow> nat \<Rightarrow> byte list \<Rightarrow> bool" where
  "slot_ok fl page lo i bs \<longleftrightarrow> payload_ok fl bs \<and> lo \<le> off_at page i \<and>
     off_at page i + length bs \<le> length page \<and> fetch page (off_at page i) (length bs) = bs"

definition total :: "byte list list \<Rightarrow> nat" where
  "total pls = sum_list (map length pls)"

definition disjoint_slots :: "byte list \<Rightarrow> byte list list \<Rightarrow> bool" where
  "disjoint_slots page pls \<longleftrightarrow> (\<forall>i < length pls. \<forall>j < length pls. i \<noteq> j \<longrightarrow>
     off_at page i + length (pls ! i) \<le> off_at page j \<or> off_at page j + length (pls ! j) \<le> off_at page i)"

definition page_rep :: "nat \<Rightarrow> byte list \<Rightarrow> u16 \<Rightarrow> page_id_t \<Rightarrow> byte list list \<Rightarrow> bool" where
  "page_rep ps page fl r pls \<longleftrightarrow>
     length page = ps \<and> ps < 2 ^ 16 \<and>
     flags (header_of page) = fl \<and> right (header_of page) = r \<and>
     unat (cell_count (header_of page)) = length pls \<and>
     unat (data_start (header_of page)) + total pls = ps \<and>
     12 + 2 * length pls \<le> unat (data_start (header_of page)) \<and>
     (\<forall>i < length pls. slot_ok fl page (unat (data_start (header_of page))) i (pls ! i)) \<and>
     disjoint_slots page pls"

definition room :: "byte list \<Rightarrow> nat" where
  "room page = unat (data_start (header_of page)) - 12 - 2 * unat (cell_count (header_of page))"

definition free_exact :: "byte list \<Rightarrow> bool" where
  "free_exact page \<longleftrightarrow> unat (free_space (header_of page)) = room page"

lemma total_simps [simp]:
  "total [] = 0" "total (p # ps) = length p + total ps" "total (ps @ qs) = total ps + total qs"
  by (simp_all add: total_def)

lemma total_take_Suc: "i < length pls \<Longrightarrow> total (take (Suc i) pls) = total (take i pls) + length (pls ! i)"
  by (simp add: take_Suc_conv_app_nth)

lemma total_take_le: "total (take i pls) \<le> total pls"
  by (metis append_take_drop_id le_add1 total_simps(3))

lemma page_get_header_in [simp]: "12 \<le> length page \<Longrightarrow> page_get_header page = Inr (header_of page)"
  by (simp add: page_get_header_def sizeof_header_def)

lemma page_get_payload_in:
  "12 + 2 * unat i + 2 \<le> length page \<Longrightarrow> off_at page (unat i) \<le> length page \<Longrightarrow>
   page_get_payload page i = Inr (off_at page (unat i))"
  by (simp add: page_get_payload_def page_get_cell_def sizeof_header_def)

lemma page_put_header_in [simp]:
  "12 \<le> length page \<Longrightarrow> page_put_header page h = Inr (store page 0 (header_bytes h))"
  by (simp add: page_put_header_def)

lemma page_set_cell_in [simp]:
  "12 + 2 * i + 2 \<le> length page \<Longrightarrow>
   page_set_cell page i w = Inr (store page (sizeof_header + 2 * i) (le_bytes 2 w))"
  by (simp add: page_set_cell_def sizeof_header_def)

text \<open>A write keeps a slot if it touches neither the cell nor the payload.\<close>

lemma slot_ok_store:
  assumes "slot_ok fl page lo i bs" and "off + length w \<le> length page"
    and "12 + 2 * i + 2 \<le> off \<or> off + length w \<le> 12 + 2 * i" and "12 + 2 * i + 2 \<le> length page"
    and "off_at page i + length bs \<le> off \<or> off + length w \<le> off_at page i" and "lo' \<le> off_at page i"
  shows "slot_ok fl (store page off w) lo' i bs"
proof -
  have "cell_at (store page off w) i = cell_at page i"
    using assms(2-4) by (simp add: cell_at_def fetch_store_disjoint sizeof_header_def)
  moreover have "fetch (store page off w) (off_at page i) (length bs) = fetch page (off_at page i) (length bs)"
    by (rule fetch_store_disjoint) (use assms(1,2,5) in \<open>simp_all add: slot_ok_def\<close>)
  ultimately show ?thesis using assms(1,2,6) by (simp only: slot_ok_def length_store simp_thms)
qed

section \<open>Search\<close>

text \<open>
  The key of a payload of a table page, and the comparison the search makes: the payload's
  key with the sought one, as 32-bit differences.
\<close>

definition key_pos :: "u16 \<Rightarrow> nat" where
  "key_pos fl = (if page_is_inner fl then 4 else 0)"

definition payload_key :: "u16 \<Rightarrow> byte list \<Rightarrow> u64 \<Rightarrow> bool" where
  "payload_key fl bs k \<longleftrightarrow> key_pos fl \<le> length bs \<and> (\<exists>n. varint_get (drop (key_pos fl) bs) = Inr (k, n))"

definition cmp32 :: "u64 \<Rightarrow> u64 \<Rightarrow> int" where
  "cmp32 a b = sint (ucast (a - b) :: 32 word)"

lemma ucast_word_of_int_32: "ucast (word_of_int x :: u64) = (word_of_int x :: 32 word)"
  by (rule bit_word_eqI) (simp add: bit_simps)

lemma cmp32_small:
  assumes "unat a < 2 ^ 31" and "unat b < 2 ^ 31"
  shows "cmp32 a b = int (unat a) - int (unat b)"
proof -
  define x where "x = int (unat a) - int (unat b)"
  have "m < 2 ^ 31 \<Longrightarrow> n < 2 ^ 31 \<Longrightarrow> - (2 ^ 31) \<le> int m - int n \<and> int m - int n < 2 ^ 31" for m n :: nat
    by simp
  then have "- (2 ^ 31) \<le> x" "x < 2 ^ 31" using assms unfolding x_def by blast+
  moreover have "ucast (a - b) = (word_of_int x :: 32 word)"
  proof -
    have "a - b = word_of_int x" by (simp add: x_def)
    then show ?thesis by (simp add: ucast_word_of_int_32)
  qed
  ultimately have "cmp32 a b = x"
    by (simp add: cmp32_def signed_of_int signed_take_bit_int_eq_self)
  then show ?thesis by (simp only: x_def)
qed

lemma cmp32_zero_iff: "cmp32 a b = 0 \<longleftrightarrow> unat a mod 2 ^ 32 = unat b mod 2 ^ 32"
proof -
  have "(ucast (a - b) :: 32 word) = ucast (word_of_int (uint a - uint b) :: u64)"
    by (simp only: word_sub_wi)
  also have "\<dots> = word_of_int (uint a) - word_of_int (uint b)"
    by (simp only: ucast_word_of_int_32 wi_hom_sub)
  also have "\<dots> = ucast a - ucast b"
    by (simp only: ucast_word_of_int_32 [symmetric] word_of_int_uint)
  finally have d: "(ucast (a - b) :: 32 word) = ucast a - ucast b" .
  have "sint w = 0 \<longleftrightarrow> w = 0" for w :: "32 word"
    by (metis signed_0 signed_word_eqI)
  then have "cmp32 a b = 0 \<longleftrightarrow> (ucast a :: 32 word) - ucast b = 0"
    by (simp only: cmp32_def d)
  also have "\<dots> \<longleftrightarrow> unat (ucast a :: 32 word) = unat (ucast b :: 32 word)" by (simp only: right_minus_eq word_unat_eq_iff [of "ucast a" "ucast b"])
  also have "\<dots> \<longleftrightarrow> unat a mod 2 ^ 32 = unat b mod 2 ^ 32"
    by (simp add: unsigned_ucast_eq take_bit_eq_mod)
  finally show ?thesis .
qed

lemma cmp32_wrap:
  assumes "unat b + 2 ^ 31 < unat a" and "unat a < unat b + 2 ^ 32"
  shows "cmp32 a b < 0"
proof -
  define x where "x = int (unat a) - int (unat b) - 2 ^ 32"
  have "n + 2 ^ 31 < m \<Longrightarrow> m < n + 2 ^ 32 \<Longrightarrow> - (2 ^ 31) \<le> int m - int n - 2 ^ 32 \<and> int m - int n - 2 ^ 32 < 0"
    for m n :: nat by simp
  then have x: "- (2 ^ 31) \<le> x" "x < 0" using assms unfolding x_def by blast+
  have "ucast (a - b) = (word_of_int x :: 32 word)"
  proof -
    have "a - b = word_of_int (x + 2 ^ 32)" by (simp add: x_def)
    moreover have "(word_of_int (x + 2 ^ 32) :: 32 word) = word_of_int x"
      by (simp add: word_of_int_eq_iff take_bit_eq_mod)
    ultimately show ?thesis by (simp only: ucast_word_of_int_32)
  qed
  then have "cmp32 a b = x"
    using x by (simp add: cmp32_def signed_of_int signed_take_bit_int_eq_self)
  with x show ?thesis by simp
qed

lemma cmp32_refl [simp]: "cmp32 k k = 0"
  by (simp add: cmp32_def)

lemma drop_payload: "fetch page off (length bs) = bs \<Longrightarrow> off + length bs \<le> length page \<Longrightarrow> n \<le> length bs \<Longrightarrow>
  drop n (drop off page) = drop n bs @ drop (off + length bs) page"
  by (simp only: fetch_drop drop_append) simp

text \<open>One comparison of the search, on a slot whose key is known.\<close>

lemma slot_compare:
  assumes "slot_ok fl page lo i bs" and "payload_key fl bs k" and "varint_get key = Inr (k', n')"
  shows "obind (payload_get_key_ptr fl (drop (off_at page i) page)) (\<lambda>p. key_compare p key) = Inr (cmp32 k k')"
proof -
  let ?off = "off_at page i"
  from assms(1) have bs: "fetch page ?off (length bs) = bs" "?off + length bs \<le> length page"
    by (simp_all add: slot_ok_def)
  from assms(2) obtain n where n: "varint_get (drop (key_pos fl) bs) = Inr (k, n)" and kp: "key_pos fl \<le> length bs"
    by (auto simp: payload_key_def)
  have "varint_get (drop (key_pos fl) (drop ?off page)) = Inr (k, n)"
    using varint_get_append [OF n] drop_payload [OF bs kp] by simp
  moreover have "payload_get_key_ptr fl (drop ?off page) = Inr (drop (key_pos fl) (drop ?off page))"
    using bs kp by (auto simp: payload_get_key_ptr_def key_pos_def ptr_add_def)
  ultimately show ?thesis using assms(3) by (simp add: key_compare_def cmp32_def)
qed

text \<open>The position the search ends at: the first key that is not smaller.\<close>

fun search_pos :: "u64 list \<Rightarrow> u64 \<Rightarrow> nat" where
  "search_pos [] k = 0"
| "search_pos (x # xs) k = (if cmp32 x k \<ge> 0 then 0 else Suc (search_pos xs k))"

lemma search_pos_le: "search_pos ks k \<le> length ks"
  by (induction ks) auto

definition keys_of :: "u16 \<Rightarrow> byte list list \<Rightarrow> u64 list \<Rightarrow> bool" where
  "keys_of fl pls ks \<longleftrightarrow> length ks = length pls \<and> (\<forall>i < length pls. payload_key fl (pls ! i) (ks ! i))"

lemma unat_of_nat_u16: "i \<le> unat (n :: u16) \<Longrightarrow> unat (of_nat i :: u16) = i"
proof -
  assume "i \<le> unat n"
  also have "unat n < 2 ^ 16" using unsigned_less [of n] by simp
  finally show ?thesis by (simp add: unat_of_nat)
qed

lemma find_pointer_loop_correct:
  assumes "unat (cell_count h) = length pls" and "\<forall>j < length pls. slot_ok (flags h) page lo j (pls ! j)"
    and "12 + 2 * length pls \<le> length page" and "keys_of (flags h) pls ks" and "varint_get key = Inr (k, n)"
    and "i \<le> length pls"
  shows "find_pointer_loop page h key i =
    (let p = i + search_pos (drop i ks) k in Inr (p < length ks \<and> cmp32 (ks ! p) k = 0, of_nat p))"
  using assms(6)
proof (induction "length pls - i" arbitrary: i)
  case 0
  then have i: "i = length pls" "length ks = length pls" using assms(4) by (simp_all add: keys_of_def)
  then have "find_pointer_loop page h key i = Inr (False, cell_count h)"
    by (subst find_pointer_loop.simps) (simp add: assms(1))
  also have "cell_count h = of_nat i" unfolding i(1) by (simp flip: assms(1))
  finally show ?case using i by (simp add: Let_def)
next
  case (Suc m)
  then have i: "i < length pls" "i < length ks" using assms(4) by (simp_all add: keys_of_def)
  have sl: "slot_ok (flags h) page lo i (pls ! i)" using assms(2) i by simp
  have u: "unat (of_nat i :: u16) = i" using unat_of_nat_u16 [of i "cell_count h"] i assms(1) by simp
  have "page_get_payload page (of_nat i) = Inr (off_at page i)"
    using page_get_payload_in [of "of_nat i" page] sl i assms(3) by (simp add: u slot_ok_def)
  moreover have "payload_key (flags h) (pls ! i) (ks ! i)" using assms(4) i by (simp add: keys_of_def)
  note slot_compare [OF sl this assms(5)]
  moreover have "drop i ks = ks ! i # drop (Suc i) ks" using i by (simp add: Cons_nth_drop_Suc)
  ultimately show ?case
    using i assms(1) Suc.hyps(1) [of "Suc i"] Suc.hyps(2)
    by (subst find_pointer_loop.simps) (auto simp: Let_def obind_assoc [symmetric])
qed

lemma page_repD:
  assumes "page_rep ps page fl r pls"
  shows "length page = ps" "ps < 2 ^ 16" "12 + 2 * length pls \<le> length page" "12 \<le> length page"
    "flags (header_of page) = fl" "right (header_of page) = r"
    "unat (cell_count (header_of page)) = length pls"
    "unat (data_start (header_of page)) + total pls = ps"
    "12 + 2 * length pls \<le> unat (data_start (header_of page))"
    "i < length pls \<Longrightarrow> slot_ok fl page (unat (data_start (header_of page))) i (pls ! i)"
    "disjoint_slots page pls"
  using assms by (auto simp: page_rep_def)

lemma page_find_pointer_correct:
  assumes "page_rep ps page fl r pls" and "keys_of fl pls ks" and "varint_get (bdata key) = Inr (k, n)"
  shows "page_find_pointer page key =
    Inr (search_pos ks k < length ks \<and> cmp32 (ks ! search_pos ks k) k = 0, of_nat (search_pos ks k))"
  using find_pointer_loop_correct [of "header_of page" pls page "unat (data_start (header_of page))" ks "bdata key" k n 0]
    page_repD [OF assms(1)] assms(2,3)
  by (simp add: page_find_pointer_def Let_def)

section \<open>Search on sorted keys\<close>

lemma search_pos_sorted:
  assumes "sorted ks" and "\<forall>x \<in> set ks. unat x < 2 ^ 31" and "unat k < 2 ^ 31"
  shows "search_pos ks k = length (filter (\<lambda>x. x < k) ks)"
  using assms
proof (induction ks)
  case (Cons x ks)
  have c: "cmp32 x k \<ge> 0 \<longleftrightarrow> k \<le> x"
    using cmp32_small [of x k] Cons.prems by (simp add: word_le_def)
  show ?case
  proof (cases "k \<le> x")
    case True
    then have "filter (\<lambda>y. y < k) ks = []"
      using Cons.prems(1) by (force simp: filter_empty_conv)
    with True c show ?thesis by (simp add: not_less)
  next
    case False
    with c Cons show ?thesis by (simp add: not_le)
  qed
qed simp

lemma search_pos_found:
  assumes "sorted ks" and "\<forall>x \<in> set ks. unat x < 2 ^ 31" and "unat k < 2 ^ 31"
  shows "search_pos ks k < length ks \<and> cmp32 (ks ! search_pos ks k) k = 0 \<longleftrightarrow> k \<in> set ks"
  using assms
proof (induction ks)
  case (Cons x ks)
  have c: "cmp32 x k \<ge> 0 \<longleftrightarrow> k \<le> x" "cmp32 x k = 0 \<longleftrightarrow> x = k"
    using cmp32_small [of x k] Cons.prems by (simp_all add: word_le_def word_uint_eq_iff)
  show ?case
  proof (cases "k \<le> x")
    case True
    then show ?thesis using Cons.prems(1) c by force
  next
    case False
    with c Cons show ?thesis by auto
  qed
qed simp

text \<open>
  On a page whose payloads hold strictly increasing keys below \<open>2 ^ 31\<close>,
  \<^verbatim>\<open>page_find_pointer\<close> reports whether the sought key is one of them and returns as index the
  number of keys smaller than it: the cell that holds the key, or the one to insert it at.
\<close>

theorem page_find_pointer_sorted:
  assumes "page_rep ps page fl r pls" and "keys_of fl pls ks" and "sorted ks"
    and "\<forall>x \<in> set ks. unat x < 2 ^ 31" and "varint_get (bdata key) = Inr (k, n)" and "unat k < 2 ^ 31"
  shows "page_find_pointer page key = Inr (k \<in> set ks, of_nat (length (filter (\<lambda>x. x < k) ks)))"
  using page_find_pointer_correct [OF assms(1,2,5)] search_pos_sorted [OF assms(3,4,6)]
    search_pos_found [OF assms(3,4,6)]
  by simp

text \<open>
  C32: \<^verbatim>\<open>key_compare\<close> cuts the difference of two keys to 32 bits. Keys below \<open>2 ^ 31\<close> compare
  as their difference, but any two keys that differ by a multiple of \<open>2 ^ 32\<close> compare equal,
  and for keys that differ by more than \<open>2 ^ 31\<close> the sign is wrong.
\<close>

theorem key_compare_truncates:
  assumes "unat a < 2 ^ 56" and "unat b < 2 ^ 56"
  shows "\<exists>c. key_compare (vint_bytes a) (vint_bytes b) = Inr c \<and>
    (c = 0 \<longleftrightarrow> unat a mod 2 ^ 32 = unat b mod 2 ^ 32) \<and>
    (unat a < 2 ^ 31 \<longrightarrow> unat b < 2 ^ 31 \<longrightarrow> c = int (unat a) - int (unat b)) \<and>
    (unat b + 2 ^ 31 < unat a \<longrightarrow> unat a < unat b + 2 ^ 32 \<longrightarrow> c < 0)"
proof -
  have "key_compare (vint_bytes a) (vint_bytes b) = Inr (cmp32 a b)"
    using varint_get_correct [OF assms(1), of "[]"] varint_get_correct [OF assms(2), of "[]"]
    by (simp add: key_compare_def cmp32_def)
  then show ?thesis using cmp32_zero_iff cmp32_small cmp32_wrap by blast
qed

theorem key_compare_truncates_witness:
  "\<exists>c. key_compare (vint_bytes 0x100000001) (vint_bytes 1) = Inr c \<and>
    (c = 0 \<longleftrightarrow> unat (0x100000001 :: u64) mod 2 ^ 32 = unat (1 :: u64) mod 2 ^ 32) \<and>
    (unat (0x100000001 :: u64) < 2 ^ 31 \<longrightarrow> unat (1 :: u64) < 2 ^ 31 \<longrightarrow>
       c = int (unat (0x100000001 :: u64)) - int (unat (1 :: u64))) \<and>
    (unat (1 :: u64) + 2 ^ 31 < unat (0x100000001 :: u64) \<longrightarrow>
       unat (0x100000001 :: u64) < unat (1 :: u64) + 2 ^ 32 \<longrightarrow> c < 0)"
  by (rule key_compare_truncates) simp_all

end
