(* ===== verification/PageInsert.thy ===== *)
theory PageInsert
  imports PageLayout
begin

text \<open>
  Insertion into a page: what \<open>page_insert_payload\<close>, \<open>page_insert_leaf\<close> and
  \<open>page_insert_inner\<close> do to the payloads a page holds. Starting from a page whose
  \<open>free_space\<close> field is exact, an insertion either fits, and then the new payload stands at
  its index while every other one keeps its bytes, or the assertion on \<open>free_space\<close> fails.
\<close>

section \<open>The payloads of table pages\<close>

definition leaf_entry :: "u64 \<times> byte list \<Rightarrow> byte list" where
  "leaf_entry e = vint_bytes (fst e) @ vint_bytes (of_nat (length (snd e))) @ snd e"

definition inner_entry :: "page_id_t \<Rightarrow> u64 \<Rightarrow> byte list" where
  "inner_entry c k = le_bytes 4 c @ vint_bytes k"

lemma varint_get_len_vint: "unat k < 2 ^ 56 \<Longrightarrow> varint_get_len (vint_bytes k @ rest) = Inr (of_nat (length (vint_bytes k)))"
  using varint_get_reads(4) [OF varint_get_correct] by blast

lemma vint_len_8: "unat k < 2 ^ 56 \<Longrightarrow> length (vint_bytes k) \<le> 8"
  using length_vint_bytes_le [of k 8] by simp

lemma of_nat_u64_u16: "(ucast (of_nat n :: u64) :: u16) = of_nat n"
  by (rule bit_word_eqI) (simp add: bit_simps)

lemma of_nat_u16_u64: "n < 2 ^ 16 \<Longrightarrow> (ucast (of_nat n :: u16) :: u64) = of_nat n"
  by (simp add: word_unat_eq_iff unat_of_nat unsigned_ucast_eq take_bit_eq_mod)

lemma blob_len_u16: "m < 2 ^ 16 \<Longrightarrow>
  (ucast (ucast (of_nat m :: u16) + of_nat n :: u64) :: u16) = of_nat m + of_nat n"
  using of_nat_u64_u16 [of "m + n"] by (simp add: of_nat_u16_u64)

definition entry_ok :: "u64 \<times> byte list \<Rightarrow> bool" where
  "entry_ok e \<longleftrightarrow> unat (fst e) < 2 ^ 56 \<and> length (snd e) + 16 < 2 ^ 16"

lemma unat_len_u64: "n < 2 ^ 16 \<Longrightarrow> unat (of_nat n :: u64) = n"
  by (simp add: unat_of_nat)

lemma payload_ok_leaf:
  assumes "page_is_leaf fl" and "\<not> page_is_index_uuid fl" and "entry_ok e"
  shows "payload_ok fl (leaf_entry e)"
proof -
  obtain k v where e: "e = (k, v)" by (cases e)
  let ?n = "of_nat (length v) :: u64"
  have k: "unat k < 2 ^ 56" and v: "length v + 16 < 2 ^ 16" using assms(3) by (simp_all add: e entry_ok_def)
  have n: "unat ?n = length v" using v by (intro unat_len_u64) simp
  have n56: "unat ?n < 2 ^ 56" using v n by simp
  have "length (leaf_entry e) < 2 ^ 16"
    using vint_len_8 [OF k] vint_len_8 [OF n56] v by (simp add: leaf_entry_def e)
  moreover have "payload_get_len fl (leaf_entry e @ rest) = Inr (of_nat (length (leaf_entry e)))" for rest
  proof -
    have "payload_get_value_len fl (vint_bytes ?n @ v @ rest) = Inr (of_nat (length (vint_bytes ?n)) + of_nat (length v))"
      using varint_get_correct [OF n56, of "v @ rest"] assms(1,2) vint_len_8 [OF n56]
      by (simp add: payload_get_value_len_def blob_get_len_def blob_len_u16)
    moreover have "page_is_inner fl = False" using assms(1) by (simp add: page_is_inner_def page_is_leaf_def)
    ultimately show ?thesis
      using varint_get_len_vint [OF k, of "vint_bytes ?n @ v @ rest"] assms(2) vint_len_8 [OF k]
      by (simp add: payload_get_len_def payload_get_key_len_def ptr_add_def leaf_entry_def e add.assoc)
  qed
  ultimately show ?thesis by (simp add: payload_ok_def)
qed

lemma payload_ok_inner:
  assumes "page_is_inner fl" and "\<not> page_is_index_uuid fl" and "unat k < 2 ^ 56"
  shows "payload_ok fl (inner_entry c k)"
  using varint_get_len_vint [OF assms(3)] vint_len_8 [OF assms(3)] assms(1,2)
  by (simp add: payload_ok_def payload_get_len_def payload_get_key_len_def ptr_add_def inner_entry_def add.commute)

lemma payload_key_leaf: "page_is_leaf fl \<Longrightarrow> entry_ok e \<Longrightarrow> payload_key fl (leaf_entry e) (fst e)"
  using varint_get_correct [of "fst e"]
  by (auto simp: payload_key_def key_pos_def page_is_leaf_def page_is_inner_def leaf_entry_def entry_ok_def)

lemma payload_key_inner: "page_is_inner fl \<Longrightarrow> unat k < 2 ^ 56 \<Longrightarrow> payload_key fl (inner_entry c k) k"
  using varint_get_correct [of k "[]"]
  by (auto simp: payload_key_def key_pos_def inner_entry_def)

section \<open>Making room for a payload\<close>

text \<open>The \<^verbatim>\<open>memmove\<close> of the cells behind the new one.\<close>

lemma cell_at_shift:
  assumes "i \<le> n" and "12 + 2 * (n + 1) \<le> length page" and "j \<le> n"
  shows "cell_at (store page (sizeof_header + 2 * (i + 1)) (fetch page (sizeof_header + 2 * i) (2 * (n - i)))) j =
    (if j \<le> i then cell_at page j else cell_at page (j - 1))"
proof -
  let ?w = "fetch page (sizeof_header + 2 * i) (2 * (n - i))"
  have len: "length ?w = 2 * (n - i)" using assms by (simp add: sizeof_header_def)
  show ?thesis
  proof (cases "j \<le> i")
    case True
    then have "fetch (store page (sizeof_header + 2 * (i + 1)) ?w) (sizeof_header + 2 * j) 2 =
        fetch page (sizeof_header + 2 * j) 2"
      using assms len by (intro fetch_store_disjoint) (simp_all add: sizeof_header_def)
    with True show ?thesis by (simp add: cell_at_def)
  next
    case False
    then obtain d where j: "j = i + 1 + d" by (metis add.commute add_Suc_right le_Suc_ex not_less_eq_eq plus_1_eq_Suc)
    then have "fetch (store page (sizeof_header + 2 * (i + 1)) ?w) (sizeof_header + 2 * j) 2 =
        fetch ?w (2 * d) 2"
      using assms len by (subst fetch_store_inside) (simp_all add: sizeof_header_def)
    also have "\<dots> = fetch page (sizeof_header + 2 * i + 2 * d) 2"
      using assms j by (intro fetch_fetch) (simp_all add: sizeof_header_def)
    finally show ?thesis by (simp add: cell_at_def j add.assoc)
  qed
qed

definition shift_cells :: "byte list \<Rightarrow> u16 \<Rightarrow> u16 \<Rightarrow> byte list outcome" where
  "shift_cells page index count =
     (if index \<noteq> count then
        if index > count then Inl Out_of_bounds
        else obind (mem_read page (sizeof_header + 2 * unat index) (2 * (unat count - unat index)))
          (\<lambda>bs. mem_write page (sizeof_header + 2 * (unat index + 1)) bs)
      else Inr page)"

lemma shift_cells_correct:
  assumes "unat index \<le> unat count" and "12 + 2 * (unat count + 1) \<le> length page"
  obtains page' where "shift_cells page index count = Inr page'" and "length page' = length page"
    and "header_of page' = header_of page"
    and "\<And>j. j \<le> unat count \<Longrightarrow> cell_at page' j = (if j \<le> unat index then cell_at page j else cell_at page (j - 1))"
    and "\<And>off n. 12 + 2 * (unat count + 1) \<le> off \<Longrightarrow> off + n \<le> length page \<Longrightarrow> fetch page' off n = fetch page off n"
proof -
  let ?i = "unat index" and ?n = "unat count"
  let ?w = "fetch page (sizeof_header + 2 * ?i) (2 * (?n - ?i))"
  let ?p = "store page (sizeof_header + 2 * (?i + 1)) ?w"
  have len: "length ?w = 2 * (?n - ?i)" using assms by (simp add: sizeof_header_def)
  show thesis
  proof (cases "index = count")
    case True
    then show thesis by (intro that [of page]) (auto simp: shift_cells_def)
  next
    case False
    with assms have "shift_cells page index count = Inr ?p"
      using len by (simp add: shift_cells_def sizeof_header_def word_less_nat_alt)
    moreover have "length ?p = length page" using assms len by (simp add: sizeof_header_def)
    moreover have "header_of ?p = header_of page"
      by (rule header_of_store_after) (use assms len in \<open>simp_all add: sizeof_header_def\<close>)
    moreover have "fetch ?p off n = fetch page off n"
      if "12 + 2 * (?n + 1) \<le> off" "off + n \<le> length page" for off n
      using that assms len by (intro fetch_store_disjoint) (simp_all add: sizeof_header_def, linarith?)
    ultimately show thesis using cell_at_shift [OF assms] by (intro that [of ?p]) blast+
  qed
qed

text \<open>What the page looks like when the space is there: no compaction takes place.\<close>

definition made_room :: "byte list \<Rightarrow> nat \<Rightarrow> nat \<Rightarrow> byte list \<Rightarrow> bool" where
  "made_room page i sz page' \<longleftrightarrow>
     (let h = header_of page; ds = unat (data_start h) in
      length page' = length page \<and>
      header_of page' = h\<lparr>data_start := of_nat (ds - sz), free_space := free_space h - of_nat (sz + 2),
        cell_count := cell_count h + 1\<rparr> \<and>
      (\<forall>j \<le> unat (cell_count h). cell_at page' j =
         (if j < i then cell_at page j else if j = i then of_nat (ds - sz) else cell_at page (j - 1))) \<and>
      (\<forall>off n. ds \<le> off \<longrightarrow> off + n \<le> length page \<longrightarrow> fetch page' off n = fetch page off n))"

lemma page_insert_payload_shift:
  "page_insert_payload page page_size index payload_size =
     obind (page_get_header page) (\<lambda>header.
     let total_size = payload_size + 2 in
     obind (c_assert (ucast (free_space header) \<ge> total_size)) (\<lambda>_.
     obind (page_get_space page) (\<lambda>space.
     obind (if ucast space < total_size then page_compact page page_size else Inr page) (\<lambda>page.
     obind (page_get_header page) (\<lambda>header.
     obind (shift_cells page index (cell_count header)) (\<lambda>page.
     let payload_start = data_start header - ucast payload_size in
     obind (page_set_cell page (unat index) payload_start) (\<lambda>page.
     obind (page_put_header page (header\<lparr>data_start := payload_start,
              free_space := free_space header - ucast total_size, cell_count := cell_count header + 1\<rparr>)) (\<lambda>page.
     Inr (page, unat payload_start)))))))))"
  by (simp only: page_insert_payload_def shift_cells_def)

lemma word_total_u16: "unat (sz :: u64) + 2 \<le> unat (fs :: u16) \<longleftrightarrow> sz + 2 \<le> ucast fs" if "unat sz < 2 ^ 63" for sz fs
proof -
  have "unat (sz + 2) = unat sz + 2"
    using that by (intro trans [OF unat_plus_simple [THEN iffD1]]) (simp_all add: no_olen_add_nat)
  then show ?thesis by (simp add: word_le_nat_alt unsigned_ucast_eq)
qed

lemma page_rep_words:
  assumes "page_rep ps page fl r pls"
  shows "cell_count (header_of page) = of_nat (length pls)"
    and "data_start (header_of page) = of_nat (ps - total pls)"
    and "room page = ps - total pls - 12 - 2 * length pls"
    and "unat (data_start (header_of page)) = ps - total pls"
proof -
  note D = page_repD [OF assms]
  show "cell_count (header_of page) = of_nat (length pls)" by (simp flip: D(7))
  show ds: "unat (data_start (header_of page)) = ps - total pls" using D(8) by simp
  then show "data_start (header_of page) = of_nat (ps - total pls)" by (simp flip: ds)
  show "room page = ps - total pls - 12 - 2 * length pls" by (simp add: room_def ds D(7))
qed

lemma unat_of_nat_u16_lt: "n < 2 ^ 16 \<Longrightarrow> unat (of_nat n :: u16) = n"
  by (simp add: unat_of_nat)

lemma page_get_space_room:
  assumes "page_rep ps page fl r pls"
  shows "page_get_space page = Inr (of_nat (room page))"
  using page_repD [OF assms] page_rep_words [OF assms]
  by (simp add: page_get_space_def of_nat_diff)

lemma ucast_of_unat: "(ucast (w :: u64) :: u16) = of_nat (unat w)"
  using of_nat_u64_u16 [of "unat w"] by simp

lemma word_total_ucast: "(ucast (sz + 2 :: u64) :: u16) = of_nat (unat sz + 2)"
  using of_nat_u64_u16 [of "unat sz + 2"] by (simp add: add.commute)

lemma page_insert_payload_room:
  assumes rep: "page_rep ps page fl r pls" and i: "unat index \<le> length pls"
    and sz: "unat sz + 2 \<le> room page" and free: "unat sz + 2 \<le> unat (free_space (header_of page))"
  shows "\<exists>page'. page_insert_payload page (of_nat ps) index sz =
      Inr (page', ps - total pls - unat sz) \<and> made_room page (unat index) (unat sz) page'"
proof -
  note D = page_repD [OF rep] and W = page_rep_words [OF rep]
  let ?h = "header_of page"
  let ?ds = "ps - total pls"
  have b: "unat sz + 2 + 12 + 2 * length pls \<le> ?ds" "unat sz < 2 ^ 16" "?ds < 2 ^ 16" "room page < 2 ^ 16"
    using sz D(2) W(3) by simp_all
  define p where "p = ?ds - unat sz"
  have "p + unat sz = ?ds" using b unfolding p_def by linarith
  then have p: "unat (of_nat p :: u16) = p" "p + unat sz = ?ds" using b(3) by (simp_all add: unat_of_nat)
  have start: "data_start ?h - ucast sz = of_nat p"
    unfolding W(2) ucast_of_unat p_def using b by (simp add: of_nat_diff)
  have "\<not> ucast (of_nat (room page) :: u16) < sz + 2"
    using sz b word_total_u16 [of sz "of_nat (room page)"] by (simp add: unat_of_nat not_less)
  moreover have "sz + 2 \<le> ucast (free_space ?h)"
    using free b word_total_u16 [of sz] by simp
  moreover have pre: "unat index \<le> unat (cell_count ?h)" "12 + 2 * (unat (cell_count ?h) + 1) \<le> length page"
    using i b(1) D(1,7) by simp_all
  obtain q where q: "shift_cells page index (cell_count ?h) = Inr q" "length q = length page"
    "header_of q = ?h"
    "\<And>j. j \<le> length pls \<Longrightarrow> cell_at q j = (if j \<le> unat index then cell_at page j else cell_at page (j - 1))"
    "\<And>off n. 12 + 2 * (length pls + 1) \<le> off \<Longrightarrow> off + n \<le> length page \<Longrightarrow> fetch q off n = fetch page off n"
    by (rule shift_cells_correct [OF pre, unfolded D(7)]) (rule that)
  ultimately have ins: "page_insert_payload page (of_nat ps) index sz =
      Inr (store (store q (sizeof_header + 2 * unat index) (le_bytes 2 (of_nat p :: u16))) 0
        (header_bytes (?h\<lparr>data_start := of_nat p,
          free_space := free_space ?h - of_nat (unat sz + 2), cell_count := cell_count ?h + 1\<rparr>)),
        p)" (is "_ = Inr (store ?c 0 (header_bytes ?h'), _)")
    using D(1,4) i b p page_get_space_room [OF rep]
    by (simp add: page_insert_payload_shift Let_def start word_total_ucast unat_of_nat sizeof_header_def)
  have c: "length ?c = length page" using q(2) i b(1) D(1) by (simp add: sizeof_header_def)
  have cells: "cell_at ?c j = (if j = unat index then of_nat p else cell_at q j)"
    if "j \<le> length pls" for j
    by (rule cell_at_set) (use that i b(1) D(1) q(2) in simp_all)
  have "fetch ?c off n = fetch q off n" if "?ds \<le> off" "off + n \<le> length page" for off n
    by (rule fetch_store_disjoint) (use that i b(1) q(2) in \<open>simp_all add: sizeof_header_def\<close>)
  then have region: "fetch (store ?c 0 (header_bytes ?h')) off n = fetch page off n"
    if "?ds \<le> off" "off + n \<le> length page" for off n
    using that c b(1) q(5) by (subst fetch_store_disjoint) simp_all
  have "made_room page (unat index) (unat sz) (store ?c 0 (header_bytes ?h'))"
    unfolding made_room_def Let_def W(4) p_def [symmetric]
    using D(1,4,7) c i b(1) cells q(4) region by (simp add: header_of_put cell_at_put_header)
  with ins show ?thesis unfolding p_def by blast
qed

section \<open>Filling the room\<close>

definition insert_at :: "nat \<Rightarrow> 'a \<Rightarrow> 'a list \<Rightarrow> 'a list" where
  "insert_at i x xs = take i xs @ x # drop i xs"

lemma length_insert_at [simp]: "length (insert_at i x xs) = Suc (length xs)"
  by (simp add: insert_at_def)

lemma insert_at_nth: "i \<le> length xs \<Longrightarrow> j \<le> length xs \<Longrightarrow>
  insert_at i x xs ! j = (if j < i then xs ! j else if j = i then x else xs ! (j - 1))"
  by (auto simp: insert_at_def nth_append nth_Cons')

lemma total_insert_at [simp]: "total (insert_at i x pls) = length x + total pls"
  by (metis ab_semigroup_add_class.add_ac(1) add.commute append_take_drop_id insert_at_def total_simps(2,3))

lemma map_insert_at: "map f (insert_at i x xs) = insert_at i (f x) (map f xs)"
  by (simp add: insert_at_def take_map drop_map)

text \<open>Where entry \<open>j\<close> of the longer list was before, for \<open>j \<noteq> i\<close>.\<close>

definition skip :: "nat \<Rightarrow> nat \<Rightarrow> nat" where
  "skip i j = (if j < i then j else j - 1)"

lemma skip_facts:
  assumes "i \<le> n" and "j \<le> n" and "j \<noteq> i"
  shows "skip i j < n" and "k \<noteq> i \<Longrightarrow> k \<noteq> j \<Longrightarrow> skip i k \<noteq> skip i j"
  using assms by (auto simp: skip_def)

lemma insert_at_skip: "i \<le> length xs \<Longrightarrow> j \<le> length xs \<Longrightarrow> j \<noteq> i \<Longrightarrow> insert_at i x xs ! j = xs ! skip i j"
  by (simp add: insert_at_nth skip_def)

text \<open>
  If every old entry keeps its offset and the new one lies below all of them, the entries
  remain disjoint.
\<close>

lemma disjoint_slots_insert:
  assumes "disjoint_slots page pls" and "i \<le> length pls"
    and old: "\<And>j. j \<le> length pls \<Longrightarrow> j \<noteq> i \<Longrightarrow> off_at q j = off_at page (skip i j)"
    and above: "\<And>c. c < length pls \<Longrightarrow> off_at q i + length bs \<le> off_at page c"
  shows "disjoint_slots q (insert_at i bs pls)"
  unfolding disjoint_slots_def
proof (intro allI impI)
  fix a b
  assume "a < length (insert_at i bs pls)" "b < length (insert_at i bs pls)" "a \<noteq> b"
  then have le: "a \<le> length pls" "b \<le> length pls" "a \<noteq> b" by simp_all
  have new: "insert_at i bs pls ! i = bs" using assms(2) by (simp add: insert_at_nth)
  consider "a = i" "b \<noteq> i" | "a \<noteq> i" "b = i" | "a \<noteq> i" "b \<noteq> i" using le(3) by blast
  then show "off_at q a + length (insert_at i bs pls ! a) \<le> off_at q b \<or>
      off_at q b + length (insert_at i bs pls ! b) \<le> off_at q a"
  proof cases
    case 1
    then show ?thesis using above [OF skip_facts(1) [OF assms(2) le(2)]] old [OF le(2)] by (simp add: new)
  next
    case 2
    then show ?thesis using above [OF skip_facts(1) [OF assms(2) le(1)]] old [OF le(1)] by (simp add: new)
  next
    case 3
    have "skip i a \<noteq> skip i b" using skip_facts(2) [OF assms(2) le(2)] 3 le(3) by blast
    then show ?thesis
      using assms(1) skip_facts(1) [OF assms(2) le(1)] skip_facts(1) [OF assms(2) le(2)] 3
      by (simp only: disjoint_slots_def old [OF le(1)] old [OF le(2)] insert_at_skip [OF assms(2)] le not_False_eq_True)
  qed
qed

lemma page_insert_place:
  assumes rep: "page_rep ps page fl r pls" and sz: "length bs + 2 \<le> room page" and made: "made_room page i (length bs) p1"
    and p_def: "p = ps - total pls - length bs"
  shows "p + length bs = ps - total pls" and "14 + 2 * length pls \<le> p" and "p < 2 ^ 16" and "total pls \<le> ps"
    and "length p1 = ps"
    and "header_of (store p1 p bs) = (header_of page)\<lparr>data_start := of_nat p,
      free_space := free_space (header_of page) - of_nat (length bs + 2), cell_count := cell_count (header_of page) + 1\<rparr>"
    and "j \<le> length pls \<Longrightarrow> cell_at (store p1 p bs) j =
      (if j < i then cell_at page j else if j = i then of_nat p else cell_at page (j - 1))"
    and "ps - total pls \<le> off \<Longrightarrow> off + n \<le> ps \<Longrightarrow> fetch (store p1 p bs) off n = fetch page off n"
proof -
  note D = page_repD [OF rep] and W = page_rep_words [OF rep]
  show p: "p + length bs = ps - total pls" "14 + 2 * length pls \<le> p" "p < 2 ^ 16" "total pls \<le> ps"
    using sz W(3) D(2,8) unfolding p_def by simp_all
  note made = made [unfolded made_room_def Let_def W(4) p_def [symmetric] D(7)]
  show len: "length p1 = ps" using made D(1) by simp
  show "header_of (store p1 p bs) = (header_of page)\<lparr>data_start := of_nat p,
      free_space := free_space (header_of page) - of_nat (length bs + 2), cell_count := cell_count (header_of page) + 1\<rparr>"
    using made p len by (subst header_of_store_after) simp_all
  show "cell_at (store p1 p bs) j = (if j < i then cell_at page j else if j = i then of_nat p else cell_at page (j - 1))"
    if "j \<le> length pls" using made that p len by (simp add: cell_at_store_after)
  show "fetch (store p1 p bs) off n = fetch page off n" if "ps - total pls \<le> off" "off + n \<le> ps"
  proof -
    have "fetch (store p1 p bs) off n = fetch p1 off n" using that p len by (intro fetch_store_disjoint) simp_all
    also have "\<dots> = fetch page off n" using made that D(1) by simp
    finally show ?thesis .
  qed
qed

lemma page_insert_fill:
  assumes rep: "page_rep ps page fl r pls" and i: "i \<le> length pls" and ok: "payload_ok fl bs"
    and sz: "length bs + 2 \<le> room page" and made: "made_room page i (length bs) p1"
  shows "page_rep ps (store p1 (ps - total pls - length bs) bs) fl r (insert_at i bs pls)"
    and "free_space (header_of (store p1 (ps - total pls - length bs) bs)) =
      free_space (header_of page) - of_nat (length bs + 2)"
proof -
  note D = page_repD [OF rep] and W = page_rep_words [OF rep]
  let ?h = "header_of page"
  define p where "p = ps - total pls - length bs"
  note P = page_insert_place [OF rep sz made p_def]
  note p = P(1-4) and len = P(5) and hq = P(6)
  let ?q = "store p1 p bs"
  show "free_space (header_of (store p1 (ps - total pls - length bs) bs)) = free_space ?h - of_nat (length bs + 2)"
    using hq by (simp add: p_def)
  have new: "off_at ?q i = p" and old: "\<And>j. j \<le> length pls \<Longrightarrow> j \<noteq> i \<Longrightarrow> off_at ?q j = off_at page (skip i j)"
    using i p(3) P(7) by (simp_all add: skip_def unat_of_nat)
  have slots: "slot_ok fl ?q p j (insert_at i bs pls ! j)" if j: "j \<le> length pls" for j
  proof (cases "j = i")
    case True
    then show ?thesis using new i ok p len by (simp add: slot_ok_def insert_at_nth)
  next
    case False
    have "slot_ok fl page (unat (data_start ?h)) (skip i j) (pls ! skip i j)" by (rule D(10) [OF skip_facts(1) [OF i j False]])
    then show ?thesis
      unfolding slot_ok_def old [OF j False] insert_at_skip [OF i j False] using P(8) W(4) D(1) p len by simp
  qed
  have disj: "disjoint_slots ?q (insert_at i bs pls)"
    by (rule disjoint_slots_insert [OF D(11) i old])
      (use D(10) W(4) p(1) new in \<open>simp_all add: slot_ok_def\<close>)
  have "cell_count ?h + 1 = of_nat (Suc (length pls))" by (simp only: W(1) of_nat_Suc add.commute)
  moreover have "Suc (length pls) < 2 ^ 16" using p(2,3) by simp
  ultimately have count: "unat (cell_count ?h + 1) = Suc (length pls)" by (simp only: unat_of_nat_u16_lt)
  have lq: "length ?q = ps" and sum: "p + total (insert_at i bs pls) = ps" using p(1,4) len by simp_all
  show "page_rep ps (store p1 (ps - total pls - length bs) bs) fl r (insert_at i bs pls)"
    unfolding p_def [symmetric] page_rep_def hq
  proof (intro conjI allI impI)
    fix j
    assume "j < length (insert_at i bs pls)"
    then show "slot_ok fl ?q (unat (data_start (?h\<lparr>data_start := of_nat p,
        free_space := free_space ?h - of_nat (length bs + 2), cell_count := cell_count ?h + 1\<rparr>))) j
        (insert_at i bs pls ! j)"
      using slots [of j] p(3) by (simp add: unat_of_nat)
  qed (use D(2,5,6) p(2,3) lq disj count sum in \<open>simp_all add: unat_of_nat del: total_insert_at\<close>)
qed

lemma page_insert_free:
  assumes rep: "page_rep ps page fl r pls" and fe: "free_exact page" and i: "i \<le> length pls"
    and ok: "payload_ok fl bs" and sz: "length bs + 2 \<le> room page" and made: "made_room page i (length bs) p1"
  shows "free_exact (store p1 (ps - total pls - length bs) bs)"
proof -
  let ?q = "store p1 (ps - total pls - length bs) bs"
  note F = page_insert_fill [OF rep i ok sz made]
  have "unat (free_space (header_of page)) = room page" using fe by (simp add: free_exact_def)
  then have "free_space (header_of page) = of_nat (room page)" by (metis of_nat_unat ucast_id)
  then have "free_space (header_of ?q) = of_nat (room page - (length bs + 2))"
    using sz by (simp only: F(2) of_nat_diff)
  moreover have "room page < 2 ^ 16" using page_rep_words(3) [OF rep] page_repD(2) [OF rep] by simp
  ultimately have "unat (free_space (header_of ?q)) = room page - (length bs + 2)"
    by (simp only: unat_of_nat_u16_lt)
  moreover have "room ?q = room page - (length bs + 2)"
    using page_rep_words(3) [OF F(1)] page_rep_words(3) [OF rep] by simp
  ultimately show ?thesis by (simp add: free_exact_def)
qed

text \<open>No space: the assertion fails before anything is written.\<close>

lemma page_insert_payload_full:
  assumes "page_rep ps page fl r pls" and "unat (free_space (header_of page)) < unat sz + 2" and "unat sz < 2 ^ 63"
  shows "page_insert_payload page page_size index sz = Inl Assertion_failed"
  using page_repD [OF assms(1)] word_total_u16 [OF assms(3), of "free_space (header_of page)"] assms(2)
  by (simp add: page_insert_payload_def Let_def c_assert_def)

section \<open>Insertion into a leaf\<close>

lemma store_store_append:
  assumes "off + length a + length b \<le> length m"
  shows "store (store m off a) (off + length a) b = store m off (a @ b)"
  using assms by (intro nth_equalityI) (auto simp: store_nth nth_append)

lemma fetch_blob_bytes: "fetch (bdata b) 0 (unat (bsize b)) = blob_bytes b"
  by (simp add: fetch_def blob_bytes_def)

text \<open>What counts is the space that the header claims, and that it is there.\<close>

lemma page_insert_leaf_claimed:
  assumes rep: "page_rep ps page fl r pls"
    and find: "page_find_pointer page key = Inr (False, index)" and i: "unat index \<le> length pls"
    and valid: "blob_valid key" "blob_valid val" and ok: "payload_ok fl (blob_bytes key @ blob_bytes val)"
    and sz: "length (blob_bytes key @ blob_bytes val) + 2 \<le> room page"
    and free: "length (blob_bytes key @ blob_bytes val) + 2 \<le> unat (free_space (header_of page))"
  shows "\<exists>page'. page_insert_leaf page (of_nat ps) key val es = Inr (SUCCESS, page', es) \<and>
    page_rep ps page' fl r (insert_at (unat index) (blob_bytes key @ blob_bytes val) pls) \<and>
    free_space (header_of page') = free_space (header_of page) - of_nat (length (blob_bytes key @ blob_bytes val) + 2) \<and>
    (free_exact page \<longrightarrow> free_exact page')"
proof -
  let ?bs = "blob_bytes key @ blob_bytes val" and ?sz = "bsize key + bsize val"
  let ?p = "ps - total pls - length ?bs"
  have bs: "length ?bs < 2 ^ 16" using ok by (simp add: payload_ok_def)
  have n: "unat (bsize key) + unat (bsize val) = length ?bs" using valid by simp
  have u: "unat ?sz = length ?bs"
    using bs n by (simp add: unat_word_ariths)
  from page_insert_payload_room [OF rep i, of ?sz] obtain p1 where
    ins: "page_insert_payload page (of_nat ps) index ?sz = Inr (p1, ?p)"
    and made: "made_room page (unat index) (length ?bs) p1"
    using sz free unfolding u by auto
  have le: "?p + length ?bs \<le> ps" "length p1 = ps"
    using made page_repD [OF rep] page_rep_words(3) [OF rep] sz by (simp_all add: made_room_def Let_def)
  have rd: "mem_read (bdata key) 0 (unat (bsize key)) = Inr (blob_bytes key)"
    "mem_read (bdata val) 0 (unat (bsize val)) = Inr (blob_bytes val)"
    using valid by (simp_all add: blob_valid_def fetch_blob_bytes)
  have "page_insert_leaf page (of_nat ps) key val es =
      Inr (SUCCESS, store (store p1 ?p (blob_bytes key)) (?p + unat (bsize key)) (blob_bytes val), es)"
    using le valid by (simp add: page_insert_leaf_def find ins rd)
  moreover have "store (store p1 ?p (blob_bytes key)) (?p + unat (bsize key)) (blob_bytes val) = store p1 ?p ?bs"
    using store_store_append [of ?p "blob_bytes key" "blob_bytes val" p1] le valid by simp
  ultimately show ?thesis
    using page_insert_fill [OF rep i ok sz made] page_insert_free [OF rep _ i ok sz made] by simp
qed

lemma page_insert_leaf_fits:
  assumes "page_rep ps page fl r pls" and "free_exact page"
    and "page_find_pointer page key = Inr (False, index)" and "unat index \<le> length pls"
    and "blob_valid key" "blob_valid val" and "payload_ok fl (blob_bytes key @ blob_bytes val)"
    and "length (blob_bytes key @ blob_bytes val) + 2 \<le> room page"
  shows "\<exists>page'. page_insert_leaf page (of_nat ps) key val es = Inr (SUCCESS, page', es) \<and>
    page_rep ps page' fl r (insert_at (unat index) (blob_bytes key @ blob_bytes val) pls) \<and> free_exact page'"
  using page_insert_leaf_claimed [OF assms(1,3-8)] assms(2,8) unfolding free_exact_def by auto

lemma page_insert_leaf_refused:
  assumes "page_rep ps page fl r pls" and "page_find_pointer page key = Inr (False, index)"
    and "blob_valid key" and "blob_valid val" and "length (blob_bytes key @ blob_bytes val) < 2 ^ 16"
    and "unat (free_space (header_of page)) < length (blob_bytes key @ blob_bytes val) + 2"
  shows "page_insert_leaf page page_size key val es = Inl Assertion_failed"
proof -
  have "unat (bsize key + bsize val) = length (blob_bytes key @ blob_bytes val)"
    using assms(3-5) by (simp add: unat_word_ariths)
  then show ?thesis
    using assms page_insert_payload_full [OF assms(1), of "bsize key + bsize val" page_size index]
    by (simp add: page_insert_leaf_def)
qed

lemma page_insert_leaf_full:
  assumes "page_rep ps page fl r pls" and "free_exact page" and "page_find_pointer page key = Inr (False, index)"
    and "blob_valid key" and "blob_valid val" and "length (blob_bytes key @ blob_bytes val) < 2 ^ 16"
    and "room page < length (blob_bytes key @ blob_bytes val) + 2"
  shows "page_insert_leaf page page_size key val es = Inl Assertion_failed"
  using page_insert_leaf_refused [OF assms(1,3-6)] assms(2,7) by (simp add: free_exact_def)

end
