(* ===== verification/KeyedStore.thy ===== *)
theory KeyedStore
  imports Main
begin

text \<open>
  The contract of a container that maps keys to values and refuses to overwrite: a relation
  between the container and the map it stands for, a search and an insertion. A leaf page is
  one (theory PageLeaf), and what it promises to its clients is proved here once.
\<close>

locale keyed_store =
  fixes represents :: "'s \<Rightarrow> ('k \<Rightarrow> 'v option) \<Rightarrow> bool"
    and key_ok :: "'k \<Rightarrow> bool"
    and val_ok :: "'v \<Rightarrow> bool"
    and find :: "'s \<Rightarrow> 'k \<Rightarrow> 'v option"
    and add :: "'s \<Rightarrow> 'k \<Rightarrow> 'v \<Rightarrow> 's option"
  assumes find_represents: "represents s m \<Longrightarrow> key_ok k \<Longrightarrow> find s k = m k"
    and add_represents: "represents s m \<Longrightarrow> key_ok k \<Longrightarrow> val_ok v \<Longrightarrow> add s k v = Some s' \<Longrightarrow>
      represents s' (m(k \<mapsto> v))"
    and add_refuses: "represents s m \<Longrightarrow> key_ok k \<Longrightarrow> m k \<noteq> None \<Longrightarrow> add s k v = None"
begin

lemma find_added: "represents s m \<Longrightarrow> key_ok k \<Longrightarrow> val_ok v \<Longrightarrow> add s k v = Some s' \<Longrightarrow> find s' k = Some v"
  using find_represents [OF add_represents] by simp

lemma find_other: "represents s m \<Longrightarrow> key_ok k \<Longrightarrow> val_ok v \<Longrightarrow> add s k v = Some s' \<Longrightarrow> key_ok k' \<Longrightarrow> k' \<noteq> k \<Longrightarrow>
    find s' k' = find s k'"
  using find_represents [OF add_represents] find_represents by simp

lemma add_twice: "represents s m \<Longrightarrow> key_ok k \<Longrightarrow> val_ok v \<Longrightarrow> add s k v = Some s' \<Longrightarrow> add s' k v' = None"
  using add_refuses [OF add_represents] by simp

text \<open>A sequence of insertions, the first of which stands first in the list.\<close>

primrec add_all :: "('k \<times> 'v) list \<Rightarrow> 's \<Rightarrow> 's option" where
  "add_all [] s = Some s"
| "add_all (e # es) s = (case add s (fst e) (snd e) of None \<Rightarrow> None | Some s' \<Rightarrow> add_all es s')"

lemma add_all_represents:
  assumes "represents s m" and "\<forall>e \<in> set es. key_ok (fst e) \<and> val_ok (snd e)" and "add_all es s = Some s'"
  shows "represents s' (m ++ map_of es) \<and> distinct (map fst es) \<and> dom m \<inter> fst ` set es = {}"
  using assms
proof (induction es arbitrary: s m)
  case (Cons e es)
  then obtain s1 where s1: "add s (fst e) (snd e) = Some s1" "add_all es s1 = Some s'"
    by (auto split: option.splits)
  have ok: "key_ok (fst e)" "val_ok (snd e)" using Cons.prems(2) by simp_all
  have fresh: "m (fst e) = None" using add_refuses [OF Cons.prems(1) ok(1)] s1(1) by (cases "m (fst e)") auto
  have IH: "represents s' (m(fst e \<mapsto> snd e) ++ map_of es) \<and> distinct (map fst es) \<and>
      dom (m(fst e \<mapsto> snd e)) \<inter> fst ` set es = {}"
    by (rule Cons.IH [OF add_represents [OF Cons.prems(1) ok s1(1)] _ s1(2)]) (use Cons.prems(2) in simp)
  then have "insert (fst e) (dom m) \<inter> fst ` set es = {}" by (simp only: dom_fun_upd option.distinct if_False)
  then have d: "fst e \<notin> fst ` set es" "dom m \<inter> fst ` set es = {}" by blast+
  then have "map_of es (fst e) = None" by (simp add: map_of_eq_None_iff)
  then have "m(fst e \<mapsto> snd e) ++ map_of es = m ++ map_of (e # es)"
    by (cases e) (auto simp: map_add_def fun_eq_iff split: option.splits)
  moreover have "dom m \<inter> fst ` set (e # es) = {}" using d(2) fresh by (auto simp: dom_def)
  moreover have "distinct (map fst (e # es))" using IH d(1) by simp
  ultimately show ?case using IH by (simp only: simp_thms)
qed simp

lemma find_after_all:
  assumes "represents s m" and "\<forall>e \<in> set es. key_ok (fst e) \<and> val_ok (snd e)" and "add_all es s = Some s'"
    and "key_ok k"
  shows "find s' k = (m ++ map_of es) k"
  using find_represents [OF conjunct1 [OF add_all_represents [OF assms(1-3)]] assms(4)] .

end

end
