(* ===== verification/PageLeaf.thy ===== *)
theory PageLeaf
  imports PageInsert KeyedStore
begin

text \<open>
  A leaf page of a table as a sorted association list of ids and values, and
  \<open>page_insert_leaf\<close> and the lookup on a leaf as insertion and search in that list. The
  contract of the theory KeyedStore is discharged for them.
\<close>

section \<open>The association list of a leaf\<close>

text \<open>
  Ids below \<open>2 ^ 31\<close>: beyond, \<open>key_compare\<close> does not order them (theorem
  \<open>key_compare_truncates\<close> of the theory PageLayout).
\<close>

definition table_entry :: "u64 \<times> byte list \<Rightarrow> bool" where
  "table_entry e \<longleftrightarrow> unat (fst e) < 2 ^ 31 \<and> length (snd e) + 16 < 2 ^ 16"

definition leaf_page :: "nat \<Rightarrow> u16 \<Rightarrow> page_id_t \<Rightarrow> byte list \<Rightarrow> (u64 \<times> byte list) list \<Rightarrow> bool" where
  "leaf_page ps fl r page al \<longleftrightarrow> page_is_leaf fl \<and> \<not> page_is_index_uuid fl \<and>
     page_rep ps page fl r (map leaf_entry al) \<and> free_exact page \<and>
     sorted (map fst al) \<and> distinct (map fst al) \<and> (\<forall>e \<in> set al. table_entry e)"

text \<open>
  What reading needs of it: after a split the page that keeps the lower half is only this,
  its \<^verbatim>\<open>free_space\<close> is wrong (theory PageSplit).
\<close>

definition leaf_readable :: "nat \<Rightarrow> u16 \<Rightarrow> page_id_t \<Rightarrow> byte list \<Rightarrow> (u64 \<times> byte list) list \<Rightarrow> bool" where
  "leaf_readable ps fl r page al \<longleftrightarrow> page_is_leaf fl \<and> \<not> page_is_index_uuid fl \<and>
     page_rep ps page fl r (map leaf_entry al) \<and>
     sorted (map fst al) \<and> distinct (map fst al) \<and> (\<forall>e \<in> set al. table_entry e)"

lemma leaf_page_readable: "leaf_page ps fl r page al \<Longrightarrow> leaf_readable ps fl r page al"
  by (simp add: leaf_page_def leaf_readable_def)

lemma table_entry_ok: "table_entry e \<Longrightarrow> entry_ok e"
  by (simp add: table_entry_def entry_ok_def)

lemma leaf_keys: "leaf_readable ps fl r page al \<Longrightarrow> keys_of fl (map leaf_entry al) (map fst al)"
  by (simp add: leaf_readable_def keys_of_def payload_key_leaf table_entry_ok)

lemmas leaf_page_keys = leaf_keys [OF leaf_page_readable]

text \<open>The blobs of a key and of a value, as \<^verbatim>\<open>btree_table_insert\<close> builds them.\<close>

definition key_blob :: "blob_t \<Rightarrow> u64 \<Rightarrow> bool" where
  "key_blob b k \<longleftrightarrow> blob_valid b \<and> blob_bytes b = vint_bytes k"

definition val_blob :: "blob_t \<Rightarrow> byte list \<Rightarrow> bool" where
  "val_blob b v \<longleftrightarrow> blob_valid b \<and> blob_bytes b = vint_bytes (of_nat (length v)) @ v"

lemma key_blob_get: "key_blob b k \<Longrightarrow> unat k < 2 ^ 56 \<Longrightarrow>
  varint_get (bdata b) = Inr (k, of_nat (length (vint_bytes k)))"
  using varint_get_correct [of k "drop (unat (bsize b)) (bdata b)"]
  by (simp add: key_blob_def blob_bytes_def) (metis append_take_drop_id)

lemma entry_blobs: "key_blob b k \<Longrightarrow> val_blob c v \<Longrightarrow> blob_bytes b @ blob_bytes c = leaf_entry (k, v)"
  by (simp add: key_blob_def val_blob_def leaf_entry_def)

lemma leaf_find:
  assumes "leaf_readable ps fl r page al" and "key_blob key k" and "unat k < 2 ^ 31"
  shows "page_find_pointer page key =
    Inr (k \<in> fst ` set al, of_nat (length (filter (\<lambda>x. x < k) (map fst al))))"
proof -
  have "unat k < 2 ^ 56" using assms(3) by simp
  note get = key_blob_get [OF assms(2) this]
  have "sorted (map fst al)" "\<forall>x \<in> set (map fst al). unat x < 2 ^ 31"
    using assms(1) by (simp_all add: leaf_readable_def table_entry_def)
  note s = search_pos_sorted [OF this assms(3)] search_pos_found [OF this assms(3)]
  show ?thesis
    using page_find_pointer_correct [of ps page fl r, OF _ leaf_keys [OF assms(1)] get] s assms(1)
    by (simp add: leaf_readable_def)
qed

lemmas leaf_page_find = leaf_find [OF leaf_page_readable]

section \<open>Sorted insertion\<close>

definition leaf_pos :: "u64 \<Rightarrow> (u64 \<times> 'b) list \<Rightarrow> nat" where
  "leaf_pos k al = length (filter (\<lambda>x. x < k) (map fst al))"

lemma leaf_pos_le: "leaf_pos k al \<le> length al"
  unfolding leaf_pos_def by (rule order_trans [OF length_filter_le]) simp

definition leaf_insert :: "u64 \<Rightarrow> 'b \<Rightarrow> (u64 \<times> 'b) list \<Rightarrow> (u64 \<times> 'b) list" where
  "leaf_insert k v al = insert_at (leaf_pos k al) (k, v) al"

lemma set_insert_at [simp]: "set (insert_at i x xs) = insert x (set xs)"
  by (metis Un_insert_right append_take_drop_id insert_at_def list.simps(15) set_append)

lemma filter_less_sorted:
  assumes "sorted (x # xs)" and "\<not> x < (k :: u64)"
  shows "filter (\<lambda>y. y < k) xs = []"
  using assms by (force simp: filter_empty_conv)

lemma leaf_insert_insort: "sorted (map fst al) \<Longrightarrow> k \<notin> fst ` set al \<Longrightarrow>
  leaf_insert k v al = insort_key fst (k, v) al"
proof (induction al)
  case Nil
  then show ?case by (simp add: leaf_insert_def leaf_pos_def insert_at_def)
next
  case (Cons e al)
  then have ne: "fst e \<noteq> k" by auto
  show ?case
  proof (cases "fst e < k")
    case True
    then have "leaf_pos k (e # al) = Suc (leaf_pos k al)" by (simp add: leaf_pos_def)
    then have "leaf_insert k v (e # al) = e # leaf_insert k v al" by (simp add: leaf_insert_def insert_at_def)
    moreover have "\<not> k \<le> fst e" using True by (simp only: not_le)
    ultimately show ?thesis using Cons by simp
  next
    case False
    then have "leaf_pos k (e # al) = 0"
      using filter_less_sorted [of "fst e" "map fst al" k] Cons.prems(1) by (simp add: leaf_pos_def)
    then have "leaf_insert k v (e # al) = (k, v) # e # al" by (simp add: leaf_insert_def insert_at_def)
    moreover have "k \<le> fst e" using False by (simp only: not_less)
    ultimately show ?thesis by simp
  qed
qed

lemma map_of_insort: "k \<notin> fst ` set al \<Longrightarrow> map_of (insort_key fst (k, v) al) = (map_of al)(k \<mapsto> v)"
  by (induction al) (auto simp: fun_eq_iff)

lemma leaf_insert_facts:
  assumes "sorted (map fst al)" and "distinct (map fst al)" and "k \<notin> fst ` set al"
  shows "sorted (map fst (leaf_insert k v al))" and "distinct (map fst (leaf_insert k v al))"
    and "map_of (leaf_insert k v al) = (map_of al)(k \<mapsto> v)"
    and "set (leaf_insert k v al) = insert (k, v) (set al)"
proof -
  note ins = leaf_insert_insort [OF assms(1,3)]
  show "sorted (map fst (leaf_insert k v al))" unfolding ins using assms(1) by (rule sorted_insort_key [THEN iffD2])
  show "map_of (leaf_insert k v al) = (map_of al)(k \<mapsto> v)" unfolding ins by (rule map_of_insort [OF assms(3)])
  show set: "set (leaf_insert k v al) = insert (k, v) (set al)" by (simp add: leaf_insert_def)
  have "map fst (leaf_insert k v al) = insert_at (leaf_pos k al) k (map fst al)"
    by (simp add: leaf_insert_def map_insert_at)
  moreover have "distinct (insert_at n x xs)" if "distinct xs" "x \<notin> set xs" for n and x :: u64 and xs
    unfolding insert_at_def
    using that by (metis append_take_drop_id distinct_append distinct.simps(2) disjoint_insert(1) in_set_dropD in_set_takeD list.simps(15))
  ultimately show "distinct (map fst (leaf_insert k v al))" using assms(2,3) by simp
qed

lemma leaf_readable_insert:
  assumes lp: "leaf_readable ps fl r page al" and key: "key_blob key k" and val: "val_blob val v"
    and k: "unat k < 2 ^ 31" and v: "length v + 16 < 2 ^ 16" and new: "k \<notin> fst ` set al"
  shows "length (leaf_entry (k, v)) + 2 \<le> room page \<Longrightarrow> length (leaf_entry (k, v)) + 2 \<le> unat (free_space (header_of page)) \<Longrightarrow>
      \<exists>page'. page_insert_leaf page (of_nat ps) key val es = Inr (SUCCESS, page', es) \<and>
        leaf_readable ps fl r page' (leaf_insert k v al) \<and>
        free_space (header_of page') = free_space (header_of page) - of_nat (length (leaf_entry (k, v)) + 2) \<and>
        (free_exact page \<longrightarrow> free_exact page')"
    and "unat (free_space (header_of page)) < length (leaf_entry (k, v)) + 2 \<Longrightarrow>
      page_insert_leaf page (of_nat ps) key val es = Inl Assertion_failed"
proof -
  have L: "page_rep ps page fl r (map leaf_entry al)" "page_is_leaf fl" "\<not> page_is_index_uuid fl"
    "sorted (map fst al)" "distinct (map fst al)" "\<forall>e \<in> set al. table_entry e"
    using lp by (simp_all add: leaf_readable_def)
  have "length al < 2 ^ 16" using page_repD(2,3) [OF L(1)] page_repD(1) [OF L(1)] by simp
  then have i: "unat (of_nat (leaf_pos k al) :: u16) = leaf_pos k al"
    using leaf_pos_le [of k al] by (intro unat_of_nat_u16_lt) simp
  have find: "page_find_pointer page key = Inr (False, of_nat (leaf_pos k al))"
    using leaf_find [OF lp key k] new by (simp add: leaf_pos_def)
  have e: "table_entry (k, v)" using k v by (simp add: table_entry_def)
  note eb = entry_blobs [OF key val]
  have ok: "payload_ok fl (leaf_entry (k, v))" by (rule payload_ok_leaf [OF L(2,3) table_entry_ok [OF e]])
  have valid: "blob_valid key" "blob_valid val" using key val by (simp_all add: key_blob_def val_blob_def)
  show "unat (free_space (header_of page)) < length (leaf_entry (k, v)) + 2 \<Longrightarrow>
      page_insert_leaf page (of_nat ps) key val es = Inl Assertion_failed"
    using page_insert_leaf_refused [OF L(1) find valid] ok by (simp add: payload_ok_def eb)
  assume "length (leaf_entry (k, v)) + 2 \<le> room page" "length (leaf_entry (k, v)) + 2 \<le> unat (free_space (header_of page))"
  from page_insert_leaf_claimed [OF L(1) find _ valid, unfolded eb, OF _ ok this, of es] i leaf_pos_le [of k al] obtain page' where
    p: "page_insert_leaf page (of_nat ps) key val es = Inr (SUCCESS, page', es)" "free_exact page \<longrightarrow> free_exact page'"
    "page_rep ps page' fl r (insert_at (leaf_pos k al) (leaf_entry (k, v)) (map leaf_entry al))"
    "free_space (header_of page') = free_space (header_of page) - of_nat (length (leaf_entry (k, v)) + 2)"
    unfolding i by auto
  have "insert_at (leaf_pos k al) (leaf_entry (k, v)) (map leaf_entry al) = map leaf_entry (leaf_insert k v al)"
    by (simp add: leaf_insert_def map_insert_at)
  then have "leaf_readable ps fl r page' (leaf_insert k v al)"
    using leaf_insert_facts [OF L(4,5) new] L(2,3,6) e p(3) by (simp add: leaf_readable_def)
  with p show "\<exists>page'. page_insert_leaf page (of_nat ps) key val es = Inr (SUCCESS, page', es) \<and>
        leaf_readable ps fl r page' (leaf_insert k v al) \<and>
        free_space (header_of page') = free_space (header_of page) - of_nat (length (leaf_entry (k, v)) + 2) \<and>
        (free_exact page \<longrightarrow> free_exact page')" by blast
qed

lemma leaf_page_insert:
  assumes lp: "leaf_page ps fl r page al" and "key_blob key k" and "val_blob val v"
    and "unat k < 2 ^ 31" and "length v + 16 < 2 ^ 16" and "k \<notin> fst ` set al"
  shows "if length (leaf_entry (k, v)) + 2 \<le> room page
    then \<exists>page'. page_insert_leaf page (of_nat ps) key val es = Inr (SUCCESS, page', es) \<and>
      leaf_page ps fl r page' (leaf_insert k v al)
    else page_insert_leaf page (of_nat ps) key val es = Inl Assertion_failed"
proof -
  have "free_exact page" using lp by (simp add: leaf_page_def)
  moreover have "leaf_page ps fl r p xs \<longleftrightarrow> leaf_readable ps fl r p xs \<and> free_exact p" for p xs
    by (auto simp: leaf_page_def leaf_readable_def)
  ultimately show ?thesis
    using leaf_readable_insert [OF leaf_page_readable [OF lp] assms(2-), of es] by (auto simp: free_exact_def)
qed

section \<open>Search in a leaf\<close>

lemma leaf_present:
  assumes "leaf_readable ps fl r page al" and "(k, v) \<in> set al"
  shows "al ! leaf_pos k al = (k, v)" and "leaf_pos k al < length al"
proof -
  have L: "sorted (map fst al)" "distinct (map fst al)"
    using assms(1) by (simp_all add: leaf_readable_def)
  from L assms(2) have "leaf_pos k al < length al \<and> al ! leaf_pos k al = (k, v)"
  proof (induction al)
    case (Cons e al)
    show ?case
    proof (cases "e = (k, v)")
      case True
      then have "leaf_pos k (e # al) = 0"
        using filter_less_sorted [of "fst e" "map fst al" k] Cons.prems(1) by (simp add: leaf_pos_def)
      with True show ?thesis by simp
    next
      case False
      then have m: "(k, v) \<in> set al" using Cons.prems(3) by auto
      then have "k \<in> fst ` set al" by force
      then have "fst e \<le> k" "fst e \<noteq> k" using Cons.prems(1,2) by auto
      then have "leaf_pos k (e # al) = Suc (leaf_pos k al)" by (simp add: leaf_pos_def)
      with Cons m show ?thesis by simp
    qed
  qed simp
  then show "al ! leaf_pos k al = (k, v)" "leaf_pos k al < length al" by blast+
qed

lemmas leaf_page_present = leaf_present [OF leaf_page_readable]

lemma leaf_entry_value:
  assumes "page_is_leaf fl" and "\<not> page_is_index_uuid fl" and "table_entry (k, v)"
  shows "payload_get_value_ptr fl (leaf_entry (k, v) @ rest) = Inr (vint_bytes (of_nat (length v)) @ v @ rest)"
proof -
  have "unat k < 2 ^ 56" using assms(3) by (simp add: table_entry_def)
  then show ?thesis
    using assms varint_get_len_vint [of k "vint_bytes (of_nat (length v)) @ v @ rest"] vint_len_8 [of k]
    by (simp add: payload_get_value_ptr_def leaf_entry_def ptr_add_def)
qed

lemma value_blob_get:
  assumes "length v + 16 < 2 ^ 16"
  shows "\<exists>b n. blob_get (vint_bytes (of_nat (length v)) @ v @ rest) = Inr (b, n) \<and> blob_valid b \<and> blob_bytes b = v"
proof -
  have n: "unat (of_nat (length v) :: u64) = length v" using assms by (intro unat_len_u64) simp
  then have "unat (of_nat (length v) :: u64) < 2 ^ 56" using assms by simp
  from varint_get_correct [OF this, of "v @ rest"] vint_len_8 [OF this] show ?thesis
    using n by (simp add: blob_get_def blob_valid_def blob_bytes_def)
qed

lemma leaf_lookup_present:
  assumes lp: "leaf_readable ps fl r page al" and key: "key_blob key k" and k: "unat k < 2 ^ 31"
    and v: "map_of al k = Some v"
  shows "\<exists>rest. leaf_lookup page key es = Inr (SUCCESS, vint_bytes (of_nat (length v)) @ v @ rest, es)"
proof -
  have L: "page_rep ps page fl r (map leaf_entry al)" "page_is_leaf fl" "\<not> page_is_index_uuid fl"
    "\<forall>e \<in> set al. table_entry e"
    using lp by (simp_all add: leaf_readable_def)
  note D = page_repD [OF L(1)]
  have mem: "(k, v) \<in> set al" using v by (rule map_of_SomeD)
  then have find: "page_find_pointer page key = Inr (True, of_nat (leaf_pos k al))"
    using leaf_find [OF lp key k] by (force simp: leaf_pos_def)
  have e: "table_entry (k, v)" using L(4) mem by blast
  let ?i = "leaf_pos k al" and ?bs = "leaf_entry (k, v)"
  have i: "?i < length al" "al ! ?i = (k, v)" using leaf_present [OF lp mem] by simp_all
  have u: "unat (of_nat ?i :: u16) = ?i"
    using i(1) D(1,2,3) by (intro unat_of_nat_u16_lt) simp
  from D(10) [of ?i] i have s: "off_at page ?i + length ?bs \<le> length page" "fetch page (off_at page ?i) (length ?bs) = ?bs"
    by (simp_all add: slot_ok_def)
  have "page_get_payload page (of_nat ?i) = Inr (off_at page ?i)"
    using page_get_payload_in [of "of_nat ?i" page] s(1) i(1) D(3) by (simp add: u)
  moreover obtain rest where "drop (off_at page ?i) page = ?bs @ rest"
    using fetch_drop [OF s(2,1)] by blast
  ultimately show ?thesis
    using leaf_entry_value [OF L(2,3) e] D(4,5) by (simp add: leaf_lookup_def find)
qed

lemmas leaf_page_lookup = leaf_lookup_present [OF leaf_page_readable]

lemma leaf_lookup_absent:
  assumes "leaf_readable ps fl r page al" and "key_blob key k" and "unat k < 2 ^ 31" and "map_of al k = None" and "error_wf es"
  shows "\<exists>es'. leaf_lookup page key es = Inr (FAILURE, [], es') \<and> error_wf es' \<and> error_code es' = ENOENT"
proof -
  have "page_find_pointer page key = Inr (False, of_nat (leaf_pos k al))"
    using leaf_find [OF assms(1-3)] assms(4) by (simp add: leaf_pos_def map_of_eq_None_iff)
  moreover obtain es' where "failure (''src/btree.c'', ''btree_lookup'', 474) ENOENT ''key not found on leaf page'' es = Inr (FAILURE, es')"
    "error_wf es'" "error_code es' = ENOENT"
    using failure_correct [OF assms(5), of ENOENT] by (fastforce simp: ENOENT_def)
  ultimately show ?thesis by (simp add: leaf_lookup_def)
qed

lemmas leaf_page_lookup_absent = leaf_lookup_absent [OF leaf_page_readable]

lemma leaf_duplicate:
  assumes "leaf_readable ps fl r page al" and "key_blob key k" and "unat k < 2 ^ 31" and "k \<in> fst ` set al" and "error_wf es"
  shows "\<exists>es'. page_insert_leaf page page_size key val es = Inr (FAILURE, page, es') \<and> error_wf es' \<and> error_code es' = EEXIST"
proof -
  have "page_find_pointer page key = Inr (True, of_nat (leaf_pos k al))"
    using leaf_find [OF assms(1-3)] assms(4) by (simp add: leaf_pos_def)
  moreover obtain es' where "failure (''src/btree.c'', ''page_insert_leaf'', 265) EEXIST ''key already exists on leaf page'' es = Inr (FAILURE, es')"
    "error_wf es'" "error_code es' = EEXIST"
    using failure_correct [OF assms(5), of EEXIST] by (fastforce simp: EEXIST_def)
  ultimately show ?thesis by (simp add: page_insert_leaf_def)
qed

lemmas leaf_page_duplicate = leaf_duplicate [OF leaf_page_readable]

section \<open>The space a leaf has\<close>

definition leaf_used :: "(u64 \<times> byte list) list \<Rightarrow> nat" where
  "leaf_used al = sum_list (map (\<lambda>e. length (leaf_entry e) + 2) al)"

lemma leaf_used_simps [simp]:
  "leaf_used [] = 0" "leaf_used (e # al) = length (leaf_entry e) + 2 + leaf_used al"
  "leaf_used (al @ bl) = leaf_used al + leaf_used bl"
  by (simp_all add: leaf_used_def)

lemma leaf_used_total: "leaf_used al = total (map leaf_entry al) + 2 * length al"
  by (induction al) simp_all

lemma leaf_used_insert: "leaf_used (leaf_insert k v al) = length (leaf_entry (k, v)) + 2 + leaf_used al"
  by (simp add: leaf_used_total leaf_insert_def map_insert_at)

lemma leaf_page_room:
  assumes "leaf_page ps fl r page al"
  shows "room page = ps - 12 - leaf_used al" and "12 + leaf_used al \<le> ps"
proof -
  have rep: "page_rep ps page fl r (map leaf_entry al)" using assms by (simp add: leaf_page_def)
  show "room page = ps - 12 - leaf_used al" using page_rep_words(3) [OF rep] by (simp add: leaf_used_total)
  show "12 + leaf_used al \<le> ps" using page_repD(8,9) [OF rep] by (simp add: leaf_used_total)
qed

text \<open>A page as \<^verbatim>\<open>btree_create\<close> sets it up, whatever the bytes behind the header are.\<close>

definition empty_leaf :: "nat \<Rightarrow> u16 \<Rightarrow> byte list \<Rightarrow> byte list" where
  "empty_leaf ps fl page = store page 0 (header_bytes \<lparr>cell_count = 0, data_start = of_nat ps,
     free_space = of_nat ps - 12, flags = fl, right = 0\<rparr>)"

lemma leaf_page_empty:
  assumes "page_is_leaf fl" and "\<not> page_is_index_uuid fl" and "length page = ps" and "12 \<le> ps" and "ps < 2 ^ 16"
  shows "leaf_page ps fl 0 (empty_leaf ps fl page) []"
proof -
  have h: "header_of (empty_leaf ps fl page) = \<lparr>cell_count = 0, data_start = of_nat ps,
     free_space = of_nat ps - 12, flags = fl, right = 0\<rparr>"
    using assms(3,4) by (simp add: empty_leaf_def header_of_put)
  have "of_nat ps - 12 = (of_nat (ps - 12) :: u16)" using assms(4) by (simp add: of_nat_diff)
  then have "unat (of_nat ps - 12 :: u16) = ps - 12" using assms(5) by (simp only: unat_of_nat_u16_lt)
  moreover have "unat (of_nat ps :: u16) = ps" using assms(5) by (rule unat_of_nat_u16_lt)
  moreover have "length (empty_leaf ps fl page) = ps" using assms(3,4) by (simp add: empty_leaf_def)
  ultimately show ?thesis
    using assms by (simp add: leaf_page_def page_rep_def free_exact_def room_def h disjoint_slots_def)
qed

section \<open>The contract of a leaf\<close>

definition key_blob_of :: "u64 \<Rightarrow> blob_t" where
  "key_blob_of k = \<lparr>bsize = of_nat (length (vint_bytes k)), bdata = vint_bytes k\<rparr>"

definition val_blob_of :: "byte list \<Rightarrow> blob_t" where
  "val_blob_of v = (let bs = vint_bytes (of_nat (length v)) @ v in \<lparr>bsize = of_nat (length bs), bdata = bs\<rparr>)"

definition leaf_add :: "nat \<Rightarrow> byte list \<Rightarrow> u64 \<Rightarrow> byte list \<Rightarrow> byte list option" where
  "leaf_add ps page k v =
     (case page_insert_leaf page (of_nat ps) (key_blob_of k) (val_blob_of v) error_init of
        Inr (SUCCESS, page', _) \<Rightarrow> Some page' | _ \<Rightarrow> None)"

definition leaf_get :: "byte list \<Rightarrow> u64 \<Rightarrow> byte list option" where
  "leaf_get page k =
     (case leaf_lookup page (key_blob_of k) error_init of
        Inr (SUCCESS, p, _) \<Rightarrow> (case blob_get p of Inr (b, _) \<Rightarrow> Some (blob_bytes b) | Inl _ \<Rightarrow> None)
      | _ \<Rightarrow> None)"

definition leaf_represents :: "nat \<Rightarrow> u16 \<Rightarrow> page_id_t \<Rightarrow> byte list \<Rightarrow> (u64 \<Rightarrow> byte list option) \<Rightarrow> bool" where
  "leaf_represents ps fl r page m \<longleftrightarrow> (\<exists>al. leaf_page ps fl r page al \<and> m = map_of al)"

definition id_ok :: "u64 \<Rightarrow> bool" where "id_ok k \<longleftrightarrow> unat k < 2 ^ 31"

definition val_ok :: "byte list \<Rightarrow> bool" where "val_ok v \<longleftrightarrow> length v + 16 < 2 ^ 16"

lemma key_blob_of: "id_ok k \<Longrightarrow> key_blob (key_blob_of k) k"
  using vint_len_8 [of k] by (simp add: key_blob_def key_blob_of_def blob_valid_def blob_bytes_def id_ok_def unat_len_u64)

lemma val_blob_of:
  assumes "val_ok v"
  shows "val_blob (val_blob_of v) v"
proof -
  have "unat (of_nat (length v) :: u64) < 2 ^ 56" using assms unat_len_u64 [of "length v"] by (simp add: val_ok_def)
  from vint_len_8 [OF this] have "length (vint_bytes (of_nat (length v)) @ v) < 2 ^ 16" using assms by (simp add: val_ok_def)
  then show ?thesis
    using unat_len_u64 [of "length (vint_bytes (of_nat (length v)) @ v)"]
    unfolding val_blob_def val_blob_of_def Let_def blob_valid_def blob_bytes_def by simp
qed

lemma leaf_add_iff:
  assumes "leaf_page ps fl r page al" and "id_ok k" and "val_ok v" and "k \<notin> fst ` set al"
  shows "leaf_used al + length (leaf_entry (k, v)) + 14 \<le> ps \<Longrightarrow>
      \<exists>page'. leaf_add ps page k v = Some page' \<and> leaf_page ps fl r page' (leaf_insert k v al)"
    and "\<not> leaf_used al + length (leaf_entry (k, v)) + 14 \<le> ps \<Longrightarrow> leaf_add ps page k v = None"
  using leaf_page_insert [OF assms(1) key_blob_of [OF assms(2)] val_blob_of [OF assms(3)] _ _ assms(4), of error_init]
    leaf_page_room [OF assms(1)] assms(2,3)
  by (auto simp: leaf_add_def id_ok_def val_ok_def split: if_splits)

lemma leaf_add_duplicate:
  assumes "leaf_page ps fl r page al" and "id_ok k" and "k \<in> fst ` set al"
  shows "leaf_add ps page k v = None"
proof -
  have "unat k < 2 ^ 31" using assms(2) by (simp add: id_ok_def)
  from leaf_page_duplicate [OF assms(1) key_blob_of [OF assms(2)] this assms(3) error_wf_init,
      of "of_nat ps" "val_blob_of v"]
  show ?thesis by (auto simp: leaf_add_def)
qed

lemma leaf_get_map_of:
  assumes "leaf_page ps fl r page al" and "id_ok k"
  shows "leaf_get page k = map_of al k"
proof (cases "map_of al k")
  case None
  then show ?thesis
    using leaf_page_lookup_absent [OF assms(1) key_blob_of [OF assms(2)] _ None error_wf_init] assms(2)
    by (auto simp: leaf_get_def id_ok_def)
next
  case (Some v)
  have "table_entry (k, v)" using assms(1) map_of_SomeD [OF Some] by (auto simp: leaf_page_def)
  then have "length v + 16 < 2 ^ 16" by (simp add: table_entry_def)
  note get = value_blob_get [OF this]
  have "unat k < 2 ^ 31" using assms(2) by (simp add: id_ok_def)
  from leaf_page_lookup [OF assms(1) key_blob_of [OF assms(2)] this Some, of error_init] obtain rest where
    "leaf_lookup page (key_blob_of k) error_init = Inr (SUCCESS, vint_bytes (of_nat (length v)) @ v @ rest, error_init)"
    by blast
  with get [of rest] Some show ?thesis by (auto simp: leaf_get_def)
qed

interpretation leaf_store: keyed_store "leaf_represents ps fl r" id_ok val_ok leaf_get "leaf_add ps" for ps fl r
proof
  fix s m k
  assume "leaf_represents ps fl r s m" "id_ok k"
  then show "leaf_get s k = m k" by (auto simp: leaf_represents_def leaf_get_map_of)
next
  fix s m k v s'
  assume A: "leaf_represents ps fl r s m" "id_ok k" "val_ok v" "leaf_add ps s k v = Some s'"
  then obtain al where al: "leaf_page ps fl r s al" "m = map_of al" by (auto simp: leaf_represents_def)
  have new: "k \<notin> fst ` set al" using leaf_add_duplicate [OF al(1) A(2), of v] A(4) by auto
  have "leaf_page ps fl r s' (leaf_insert k v al)"
    using leaf_add_iff [OF al(1) A(2,3) new] A(4) by fastforce
  moreover have "map_of (leaf_insert k v al) = m(k \<mapsto> v)"
    using leaf_insert_facts(3) [OF _ _ new] al by (simp add: leaf_page_def)
  ultimately show "leaf_represents ps fl r s' (m(k \<mapsto> v))" by (metis leaf_represents_def)
next
  fix s m k v
  assume A: "leaf_represents ps fl r s m" "id_ok k" "m k \<noteq> None"
  then obtain al where "leaf_page ps fl r s al" "m = map_of al" by (auto simp: leaf_represents_def)
  with A leaf_add_duplicate show "leaf_add ps s k v = None" by (metis map_of_eq_None_iff)
qed

lemma add_all_fits:
  assumes "leaf_page ps fl r page al" and "leaf_used al + leaf_used es + 12 \<le> ps"
    and "distinct (map fst es)" and "fst ` set al \<inter> fst ` set es = {}" and "\<forall>e \<in> set es. id_ok (fst e) \<and> val_ok (snd e)"
  shows "\<exists>page'. keyed_store.add_all (leaf_add ps) es page = Some page'"
  using assms
proof (induction es arbitrary: page al)
  case (Cons e es)
  obtain k v where e: "e = (k, v)" by (cases e)
  have new: "k \<notin> fst ` set al" "id_ok k" "val_ok v" using Cons.prems(4,5) by (auto simp: e)
  have "leaf_used al + length (leaf_entry (k, v)) + 14 \<le> ps" using Cons.prems(2) by (simp add: e)
  from leaf_add_iff(1) [OF Cons.prems(1) new(2,3,1) this] obtain page1 where
    p1: "leaf_add ps page k v = Some page1" "leaf_page ps fl r page1 (leaf_insert k v al)" by blast
  have set: "set (leaf_insert k v al) = insert (k, v) (set al)" by (simp add: leaf_insert_def)
  have "\<exists>page'. keyed_store.add_all (leaf_add ps) es page1 = Some page'"
  proof (rule Cons.IH [OF p1(2)])
    show "leaf_used (leaf_insert k v al) + leaf_used es + 12 \<le> ps"
      using Cons.prems(2) by (simp add: leaf_used_insert e)
    show "fst ` set (leaf_insert k v al) \<inter> fst ` set es = {}"
      unfolding set using Cons.prems(3,4) by (auto simp: e)
  qed (use Cons.prems(3,5) in auto)
  with p1(1) show ?case by (simp add: e leaf_store.add_all.simps)
qed (simp add: leaf_store.add_all.simps)

text \<open>A small page with two entries, on which the witnesses apply their theorems.\<close>

lemma example_leaf: "\<exists>page. leaf_page 64 3 0 page [(5, [8]), (9, [1])]"
proof -
  have "leaf_page 64 3 0 (empty_leaf 64 3 (replicate 64 0)) []"
    by (rule leaf_page_empty) (simp_all add: page_is_leaf_def page_is_index_uuid_def PAGE_FLAG_LEAF_def PAGE_FLAG_INDEX_UUID_def)
  from leaf_add_iff(1) [OF this, of 5 "[8]"] obtain page where
    "leaf_page 64 3 0 page (leaf_insert 5 [8] [])"
    by (auto simp: id_ok_def val_ok_def leaf_entry_def vint_bytes.simps)
  then have "leaf_page 64 3 0 page [(5, [8])]" by (simp add: leaf_insert_def leaf_pos_def insert_at_def)
  from leaf_add_iff(1) [OF this, of 9 "[1]"] obtain page where
    "leaf_page 64 3 0 page (leaf_insert 9 [1] [(5, [8])])"
    by (auto simp: id_ok_def val_ok_def leaf_entry_def vint_bytes.simps)
  then show ?thesis by (auto simp: leaf_insert_def leaf_pos_def insert_at_def)
qed

section \<open>Properties\<close>

text \<open>
  C25: \<^verbatim>\<open>page_insert_leaf\<close> on a leaf with sorted ids: an id that is present leaves the page
  as it is and reports EEXIST; a new id is inserted in order if header, cells and entries
  still fit into the page afterwards; and otherwise the assertion on \<^verbatim>\<open>free_space\<close> aborts. The
  page stays well formed: sorted, without overlaps, and with an exact \<^verbatim>\<open>free_space\<close>.
\<close>

theorem page_insert_leaf_branches:
  assumes "leaf_page ps fl r page al" and "key_blob key k" and "val_blob val v"
    and "id_ok k" and "val_ok v" and "error_wf es"
  shows "(k \<in> fst ` set al \<longrightarrow> (\<exists>es'. page_insert_leaf page (of_nat ps) key val es = Inr (FAILURE, page, es') \<and>
      error_wf es' \<and> error_code es' = EEXIST)) \<and>
    (k \<notin> fst ` set al \<and> 12 + leaf_used ((k, v) # al) \<le> ps \<longrightarrow>
      (\<exists>page'. page_insert_leaf page (of_nat ps) key val es = Inr (SUCCESS, page', es) \<and>
        leaf_page ps fl r page' (insort_key fst (k, v) al))) \<and>
    (k \<notin> fst ` set al \<and> ps < 12 + leaf_used ((k, v) # al) \<longrightarrow>
      page_insert_leaf page (of_nat ps) key val es = Inl Assertion_failed)"
proof (cases "k \<in> fst ` set al")
  case True
  with leaf_page_duplicate [OF assms(1,2) _ True assms(6)] assms(4) show ?thesis by (simp add: id_ok_def)
next
  case False
  have "sorted (map fst al)" using assms(1) by (simp add: leaf_page_def)
  note ins = leaf_insert_insort [OF this False]
  have "unat k < 2 ^ 31" "length v + 16 < 2 ^ 16" using assms(4,5) by (simp_all add: id_ok_def val_ok_def)
  from leaf_page_insert [OF assms(1-3) this False, of es] show ?thesis
    using False leaf_page_room [OF assms(1)] by (auto simp: ins split: if_splits)
qed

text \<open>
  What a leaf stores it returns. Starting from the page \<^verbatim>\<open>btree_create\<close> sets up, a list of
  entries with distinct ids that fits into the page is inserted entry by entry without an
  error, in whatever order the ids come, and afterwards every id is found with the bytes
  of its value and no other id is found.
\<close>

theorem leaf_fill_and_read:
  assumes "page_is_leaf fl" and "\<not> page_is_index_uuid fl" and "length buf = ps" and "ps < 2 ^ 16"
    and "12 + leaf_used es \<le> ps" and "distinct (map fst es)" and "\<forall>e \<in> set es. id_ok (fst e) \<and> val_ok (snd e)"
  shows "\<exists>page. keyed_store.add_all (leaf_add ps) es (empty_leaf ps fl buf) = Some page \<and>
    (\<forall>k. id_ok k \<longrightarrow> leaf_get page k = map_of es k)"
proof -
  have "12 \<le> ps" using assms(5) by simp
  note lp = leaf_page_empty [OF assms(1-3) this assms(4)]
  have "leaf_used [] + leaf_used es + 12 \<le> ps" "fst ` set [] \<inter> fst ` set es = {}" using assms(5) by simp_all
  from add_all_fits [OF lp this(1) assms(6) this(2) assms(7)] obtain page where
    p: "keyed_store.add_all (leaf_add ps) es (empty_leaf ps fl buf) = Some page" by blast
  have "leaf_represents ps fl 0 (empty_leaf ps fl buf) Map.empty"
    using lp by (auto simp: leaf_represents_def)
  from leaf_store.find_after_all [OF this assms(7) p] have "\<forall>k. id_ok k \<longrightarrow> leaf_get page k = map_of es k" by simp
  with p show ?thesis by blast
qed

theorem leaf_fill_and_read_witness:
  "\<exists>page. keyed_store.add_all (leaf_add 64) [(7, [1, 2]), (3, []), (300, [9])]
      (empty_leaf 64 3 (replicate 64 0xcd)) = Some page \<and>
    (\<forall>k. id_ok k \<longrightarrow> leaf_get page k = map_of [(7, [1, 2]), (3, []), (300, [9])] k)"
  by (rule leaf_fill_and_read)
    (simp_all add: page_is_leaf_def page_is_index_uuid_def PAGE_FLAG_LEAF_def PAGE_FLAG_INDEX_UUID_def
      id_ok_def val_ok_def leaf_entry_def vint_bytes.simps)

theorem page_insert_leaf_branches_witness:
  "\<exists>page'. page_insert_leaf (empty_leaf 64 3 (replicate 64 0)) (of_nat 64)
      (key_blob_of 5) (val_blob_of [8]) error_init = Inr (SUCCESS, page', error_init) \<and>
    leaf_page 64 3 0 page' [(5, [8])]"
  using page_insert_leaf_branches [OF leaf_page_empty key_blob_of val_blob_of _ _ error_wf_init,
      of 3 "replicate 64 0" 64 5 "[8]"]
  by (simp add: page_is_leaf_def page_is_index_uuid_def PAGE_FLAG_LEAF_def PAGE_FLAG_INDEX_UUID_def
      id_ok_def val_ok_def leaf_entry_def vint_bytes.simps)

text \<open>The example page, on which the search theorem of the theory PageLayout applies.\<close>

theorem page_find_pointer_sorted_witness:
  "\<exists>page. page_find_pointer page (key_blob_of 9) =
    Inr ((9 :: u64) \<in> set [5, 9], of_nat (length (filter (\<lambda>x. x < 9) [5 :: u64, 9])))"
proof -
  from example_leaf obtain page where lp: "leaf_page 64 3 0 page [(5, [8]), (9, [1])]" by blast
  have get: "varint_get (bdata (key_blob_of 9)) = Inr (9, 1)"
    using varint_get_correct [of 9 "[]"] by (simp add: key_blob_of_def vint_bytes.simps)
  have "page_find_pointer page (key_blob_of 9) =
      Inr ((9 :: u64) \<in> set [5, 9], of_nat (length (filter (\<lambda>x. x < 9) [5 :: u64, 9])))"
    using page_find_pointer_sorted [of 64 page 3 0 "[leaf_entry (5, [8]), leaf_entry (9, [1])]" "[5, 9]", OF _ _ _ _ get]
      lp leaf_page_keys [OF lp]
    by (simp add: leaf_page_def)
  then show ?thesis by blast
qed

end
