(* ===== verification/PageSplit.thy ===== *)
theory PageSplit
  imports PageLeaf
begin

text \<open>
  Compaction and splitting of a page. \<open>page_compact\<close> moves the payloads to the end of the
  page without changing which payloads the page holds, also when the page had gaps between
  them; \<open>page_split\<close> leaves the first half of the payloads in the page and puts the other
  half into the new one. The \<open>free_space\<close> that \<open>page_compact\<close> writes is not the free
  space, and a page it leaves behind accepts an insertion that overwrites its own cells.
\<close>

section \<open>Packed payloads\<close>

text \<open>A page whose payloads can be read, gaps and overlaps allowed.\<close>

definition page_readable :: "nat \<Rightarrow> byte list \<Rightarrow> u16 \<Rightarrow> page_id_t \<Rightarrow> byte list list \<Rightarrow> bool" where
  "page_readable ps page fl r pls \<longleftrightarrow>
     length page = ps \<and> ps < 2 ^ 16 \<and> flags (header_of page) = fl \<and> right (header_of page) = r \<and>
     cell_count (header_of page) = of_nat (length pls) \<and> 12 + 2 * length pls + total pls \<le> ps \<and>
     (\<forall>i < length pls. slot_ok fl page (12 + 2 * length pls) i (pls ! i))"

lemma slot_ok_mono: "slot_ok fl page lo i bs \<Longrightarrow> lo' \<le> lo \<Longrightarrow> slot_ok fl page lo' i bs"
  by (simp add: slot_ok_def)

lemma page_rep_readable: "page_rep ps page fl r pls \<Longrightarrow> page_readable ps page fl r pls"
proof -
  assume rep: "page_rep ps page fl r pls"
  note D = page_repD [OF rep]
  have "slot_ok fl page (12 + 2 * length pls) i (pls ! i)" if "i < length pls" for i
    by (rule slot_ok_mono [OF D(10) [OF that] D(9)])
  then show ?thesis using D(1,2,5,6,8,9) page_rep_words(1) [OF rep] by (simp add: page_readable_def)
qed

text \<open>Where the payload \<open>j\<close> lies when all are packed at the end, the first one last.\<close>

definition packed_at :: "nat \<Rightarrow> byte list list \<Rightarrow> nat \<Rightarrow> nat" where
  "packed_at ps pls j = ps - total (take (Suc j) pls)"

lemma total_take_mono: "i \<le> j \<Longrightarrow> total (take i pls) \<le> total (take j pls)"
  by (metis min.absorb1 take_take total_take_le)

lemma length_concat_total [simp]: "length (concat pls) = total pls"
  by (simp add: length_concat total_def)

lemma total_rev [simp]: "total (rev pls) = total pls"
  by (induction pls) simp_all

lemma concat_rev_split:
  assumes "j < length pls"
  shows "concat (rev pls) = concat (rev (drop (Suc j) pls)) @ pls ! j @ concat (rev (take j pls))"
proof -
  have "pls = take j pls @ pls ! j # drop (Suc j) pls" using assms by (simp add: id_take_nth_drop)
  then have "rev pls = rev (drop (Suc j) pls) @ pls ! j # rev (take j pls)" by (metis rev.simps(2) rev_append append.assoc append_Cons append_Nil)
  then show ?thesis by simp
qed

lemma packed_fetch:
  assumes "drop (ps - total pls) m = concat (rev pls)" and "length m = ps" and "total pls \<le> ps" and j: "j < length pls"
  shows "fetch m (packed_at ps pls j) (length (pls ! j)) = pls ! j"
    and "packed_at ps pls j + length (pls ! j) = ps - total (take j pls)"
proof -
  have t: "total (take (Suc j) pls) + total (drop (Suc j) pls) = total pls"
    by (metis append_take_drop_id total_simps(3))
  then have off: "packed_at ps pls j = (ps - total pls) + total (drop (Suc j) pls)"
    using assms(3) by (simp add: packed_at_def)
  have "drop (packed_at ps pls j) m = drop (total (drop (Suc j) pls)) (concat (rev pls))"
    unfolding off by (metis add.commute assms(1) drop_drop)
  also have "\<dots> = pls ! j @ concat (rev (take j pls))"
    by (subst concat_rev_split [OF j]) simp
  finally show "fetch m (packed_at ps pls j) (length (pls ! j)) = pls ! j" by (simp add: fetch_def)
  show "packed_at ps pls j + length (pls ! j) = ps - total (take j pls)"
    using total_take_Suc [OF j] t assms(3) by (simp add: packed_at_def)
qed

lemma packed_disjoint:
  assumes "\<And>j. j < length pls \<Longrightarrow> off_at m j = packed_at ps pls j" and "total pls \<le> ps"
  shows "disjoint_slots m pls"
proof -
  have lt: "packed_at ps pls b + length (pls ! b) \<le> packed_at ps pls a" if "a < b" "b < length pls" for a b
  proof -
    have "total (take (Suc a) pls) \<le> total (take b pls)" using that by (intro total_take_mono) simp
    moreover have "total (take b pls) + length (pls ! b) \<le> ps"
      using total_take_Suc [OF that(2)] total_take_le [of "Suc b" pls] assms(2) by simp
    ultimately show ?thesis using total_take_Suc [OF that(2)] by (simp add: packed_at_def)
  qed
  show ?thesis
    unfolding disjoint_slots_def
  proof (intro allI impI)
    fix a b
    assume "a < length pls" "b < length pls" "a \<noteq> b"
    then show "off_at m a + length (pls ! a) \<le> off_at m b \<or> off_at m b + length (pls ! b) \<le> off_at m a"
      using lt [of a b] lt [of b a] assms(1) by (cases "a < b") auto
  qed
qed

lemma page_rep_packed:
  assumes "length page = ps" and "ps < 2 ^ 16" and "flags (header_of page) = fl" and "right (header_of page) = r"
    and "cell_count (header_of page) = of_nat (length pls)" and "data_start (header_of page) = of_nat (ps - total pls)"
    and sz: "12 + 2 * length pls + total pls \<le> ps" and ok: "\<forall>p \<in> set pls. payload_ok fl p"
    and cells: "\<And>j. j < length pls \<Longrightarrow> cell_at page j = of_nat (packed_at ps pls j)"
    and region: "drop (ps - total pls) page = concat (rev pls)"
  shows "page_rep ps page fl r pls"
proof -
  have off: "off_at page j = packed_at ps pls j" if "j < length pls" for j
    using cells [OF that] assms(2) by (simp add: unat_of_nat_u16_lt packed_at_def del: of_nat_diff)
  have le: "total pls \<le> ps" using sz by simp
  have ds: "unat (data_start (header_of page)) = ps - total pls"
    using assms(2,6) by (simp add: unat_of_nat_u16_lt del: of_nat_diff)
  have "slot_ok fl page (ps - total pls) j (pls ! j)" if j: "j < length pls" for j
    using packed_fetch [OF region assms(1) le j] ok j off [OF j] assms(1) total_take_le [of "Suc j" pls]
    by (simp add: slot_ok_def) (simp add: packed_at_def)
  moreover have "unat (cell_count (header_of page)) = length pls"
    using assms(2,5) sz by (simp add: unat_of_nat_u16_lt)
  ultimately show ?thesis
    using assms(1-4) ds sz packed_disjoint [OF off le] by (simp add: page_rep_def)
qed

section \<open>Copying payloads to the end of a buffer\<close>

text \<open>One payload is put in front of those already at the end.\<close>

lemma store_front:
  assumes "drop d buf = xs" and "length bs \<le> d" and "d \<le> length buf"
  shows "drop (d - length bs) (store buf (d - length bs) bs) = bs @ xs"
  using assms by (simp add: store_def)

lemma packed_step:
  assumes "drop (ps - total (take i pls)) buf = concat (rev (take i pls))" and "i < length pls"
    and "total (take (Suc i) pls) \<le> ps" and "length buf = ps"
  shows "drop (packed_at ps pls i) (store buf (packed_at ps pls i) (pls ! i)) = concat (rev (take (Suc i) pls))"
proof -
  have t: "total (take (Suc i) pls) = total (take i pls) + length (pls ! i)" by (rule total_take_Suc [OF assms(2)])
  then have "packed_at ps pls i = ps - total (take i pls) - length (pls ! i)" by (simp add: packed_at_def)
  moreover have "drop (ps - total (take i pls) - length (pls ! i))
      (store buf (ps - total (take i pls) - length (pls ! i)) (pls ! i)) = pls ! i @ concat (rev (take i pls))"
    using t assms by (intro store_front) simp_all
  ultimately show ?thesis using assms(2) by (simp add: take_Suc_conv_app_nth)
qed

lemma read_slot:
  assumes "slot_ok fl page lo i bs" and "12 + 2 * i + 2 \<le> length page" and "i < 2 ^ 16"
  shows "page_get_payload page (of_nat i) = Inr (off_at page i)"
    and "payload_get_len fl (drop (off_at page i) page) = Inr (of_nat (length bs))"
    and "mem_read page (off_at page i) (length bs) = Inr bs"
proof -
  have u: "unat (of_nat i :: u16) = i" using assms(3) by (rule unat_of_nat_u16_lt)
  show "page_get_payload page (of_nat i) = Inr (off_at page i)"
    using page_get_payload_in [of "of_nat i" page] assms(1,2) by (simp add: u slot_ok_def)
  have bs: "payload_ok fl bs" "off_at page i + length bs \<le> length page" "fetch page (off_at page i) (length bs) = bs"
    using assms(1) by (simp_all add: slot_ok_def)
  then show "payload_get_len fl (drop (off_at page i) page) = Inr (of_nat (length bs))"
    using payload_ok_get_len by blast
  show "mem_read page (off_at page i) (length bs) = Inr bs" using mem_read_in [OF bs(2)] bs(3) by (simp only:)
qed

text \<open>The state of the loop of \<open>page_compact\<close> before payload \<open>i\<close>.\<close>

definition compact_inv :: "nat \<Rightarrow> u16 \<Rightarrow> byte list list \<Rightarrow> nat \<Rightarrow> byte list \<Rightarrow> byte list \<Rightarrow> bool" where
  "compact_inv ps fl pls i page buffer \<longleftrightarrow>
     length page = ps \<and> length buffer = ps \<and>
     (\<forall>j < length pls. i \<le> j \<longrightarrow> slot_ok fl page (12 + 2 * length pls) j (pls ! j)) \<and>
     (\<forall>j < i. cell_at page j = of_nat (packed_at ps pls j)) \<and>
     drop (ps - total (take i pls)) buffer = concat (rev (take i pls))"

lemma compact_inv_step:
  assumes inv: "compact_inv ps fl pls i page buffer" and i: "i < length pls" and sz: "12 + 2 * length pls + total pls \<le> ps"
  shows "compact_inv ps fl pls (Suc i) (store page (sizeof_header + 2 * i) (le_bytes 2 (of_nat (packed_at ps pls i) :: u16)))
    (store buffer (packed_at ps pls i) (pls ! i))"
proof -
  let ?page = "store page (sizeof_header + 2 * i) (le_bytes 2 (of_nat (packed_at ps pls i) :: u16))"
  have len: "length page = ps" "length buffer = ps" using inv by (simp_all add: compact_inv_def)
  have t: "total (take (Suc i) pls) \<le> total pls" by (rule total_take_le)
  have le: "packed_at ps pls i + length (pls ! i) \<le> ps"
    using total_take_Suc [OF i] t sz by (simp add: packed_at_def)
  have cells: "cell_at ?page j = (if j = i then of_nat (packed_at ps pls i) else cell_at page j)" if "j < length pls" for j
    by (rule cell_at_set) (use i that sz len in simp_all)
  have "slot_ok fl ?page (12 + 2 * length pls) j (pls ! j)" if j: "j < length pls" "Suc i \<le> j" for j
  proof (rule slot_ok_store)
    show "slot_ok fl page (12 + 2 * length pls) j (pls ! j)" using inv j by (simp add: compact_inv_def)
    then have "12 + 2 * length pls \<le> off_at page j" by (simp add: slot_ok_def)
    then show "off_at page j + length (pls ! j) \<le> sizeof_header + 2 * i \<or>
        sizeof_header + 2 * i + length (le_bytes 2 (of_nat (packed_at ps pls i) :: u16)) \<le> off_at page j"
      "12 + 2 * length pls \<le> off_at page j"
      using i by (simp_all add: sizeof_header_def)
  qed (use j sz len in \<open>simp_all add: sizeof_header_def\<close>)
  moreover have "cell_at ?page j = of_nat (packed_at ps pls j)" if "j < Suc i" for j
    using cells [of j] that i inv by (auto simp: compact_inv_def less_Suc_eq)
  moreover have "drop (ps - total (take (Suc i) pls)) (store buffer (packed_at ps pls i) (pls ! i)) = concat (rev (take (Suc i) pls))"
    using packed_step [OF _ i _ len(2)] inv t sz by (simp add: compact_inv_def packed_at_def)
  ultimately show ?thesis using len le i sz by (simp add: compact_inv_def sizeof_header_def)
qed

lemma packed_word:
  assumes "i < length pls" and "total pls \<le> ps"
  shows "(of_nat (ps - total (take i pls)) - of_nat (length (pls ! i)) :: u16) = of_nat (packed_at ps pls i)"
    and "packed_at ps pls i + length (pls ! i) \<le> ps"
proof -
  have t: "total (take (Suc i) pls) = total (take i pls) + length (pls ! i)" by (rule total_take_Suc [OF assms(1)])
  have le: "total (take (Suc i) pls) \<le> ps" using total_take_le [of "Suc i" pls] assms(2) by simp
  then show "packed_at ps pls i + length (pls ! i) \<le> ps" using t by (simp add: packed_at_def)
  have "packed_at ps pls i = ps - total (take i pls) - length (pls ! i)" using t by (simp add: packed_at_def)
  moreover have "length (pls ! i) \<le> ps - total (take i pls)" using t le by simp
  ultimately show "(of_nat (ps - total (take i pls)) - of_nat (length (pls ! i)) :: u16) = of_nat (packed_at ps pls i)"
    by (simp only: of_nat_diff)
qed

lemma compact_loop_correct:
  assumes "compact_inv ps fl pls i page buffer" and "i \<le> length pls"
    and sz: "12 + 2 * length pls + total pls \<le> ps" and ps: "ps < 2 ^ 16"
    and h: "cell_count h = of_nat (length pls)" "flags h = fl" and "header_of page = hp"
  shows "\<exists>page' buffer'. compact_loop page h buffer (of_nat (ps - total (take i pls))) i =
      Inr (page', buffer', of_nat (ps - total pls)) \<and>
    compact_inv ps fl pls (length pls) page' buffer' \<and> header_of page' = hp"
  using assms(1,2,7)
proof (induction "length pls - i" arbitrary: i page buffer)
  case 0
  then have "i = length pls" by simp
  moreover have "unat (cell_count h) = length pls" using h(1) ps sz by (simp add: unat_of_nat_u16_lt)
  ultimately show ?case using "0.prems" by (subst compact_loop.simps) simp
next
  case (Suc n)
  then have i: "i < length pls" by simp
  have len: "length page = ps" "length buffer = ps" using Suc.prems(1) by (simp_all add: compact_inv_def)
  have cc: "unat (cell_count h) = length pls" using h(1) ps sz by (simp add: unat_of_nat_u16_lt)
  have "slot_ok fl page (12 + 2 * length pls) i (pls ! i)" using Suc.prems(1) i by (simp add: compact_inv_def)
  moreover from this have pok: "payload_ok fl (pls ! i)" by (simp add: slot_ok_def)
  ultimately have rd: "page_get_payload page (of_nat i) = Inr (off_at page i)"
    "payload_get_len fl (drop (off_at page i) page) = Inr (of_nat (length (pls ! i)))"
    "mem_read page (off_at page i) (length (pls ! i)) = Inr (pls ! i)"
    using read_slot [of fl page "12 + 2 * length pls" i "pls ! i"] i sz ps len by simp_all
  have tot: "total pls \<le> ps" using sz by simp
  note pw = packed_word [OF i tot]
  have u: "unat (of_nat (packed_at ps pls i) :: u16) = packed_at ps pls i"
    using pw(2) ps by (intro unat_of_nat_u16_lt) simp
  let ?page = "store page (sizeof_header + 2 * i) (le_bytes 2 (of_nat (packed_at ps pls i) :: u16))"
  let ?buffer = "store buffer (packed_at ps pls i) (pls ! i)"
  have step: "compact_loop page h buffer (of_nat (ps - total (take i pls))) i =
      compact_loop ?page h ?buffer (of_nat (packed_at ps pls i)) (Suc i)"
    using rd pw i cc h(2) len sz
    by (subst compact_loop.simps) (simp add: Let_def u payload_ok_unat [OF pok] pw(1) del: of_nat_diff)
  have "header_of ?page = hp"
    using Suc.prems(3) i sz len by (simp add: header_of_store_after sizeof_header_def)
  from Suc.hyps(1) [OF _ compact_inv_step [OF Suc.prems(1) i sz] _ this] Suc.hyps(2) i show ?case
    unfolding step packed_at_def by simp
qed

section \<open>page_compact\<close>

lemma page_compact_correct:
  assumes rd: "page_readable ps page fl r pls" and ok: "\<forall>p \<in> set pls. payload_ok fl p"
  shows "\<exists>page'. page_compact page (of_nat ps) = Inr page' \<and> page_rep ps page' fl r pls \<and>
    free_space (header_of page') = of_nat (total pls) - of_nat (12 + 2 * length pls)"
proof -
  have len: "length page = ps" and ps: "ps < 2 ^ 16" and fl: "flags (header_of page) = fl"
    and r: "right (header_of page) = r" and cc: "cell_count (header_of page) = of_nat (length pls)"
    and sz: "12 + 2 * length pls + total pls \<le> ps"
    and slots: "\<forall>i < length pls. slot_ok fl page (12 + 2 * length pls) i (pls ! i)"
    using rd by (simp_all add: page_readable_def)
  have ups: "unat (of_nat ps :: u16) = ps" using ps by (rule unat_of_nat_u16_lt)
  have "compact_inv ps fl pls 0 page (replicate ps 0)"
    using len slots by (simp add: compact_inv_def)
  from compact_loop_correct [OF this _ sz ps cc fl refl] obtain p1 buf where
    loop: "compact_loop page (header_of page) (replicate ps 0) (of_nat ps) 0 = Inr (p1, buf, of_nat (ps - total pls))"
    and inv: "compact_inv ps fl pls (length pls) p1 buf" and h1: "header_of p1 = header_of page" by auto
  let ?d = "ps - total pls"
  have ud: "unat (of_nat ?d :: u16) = ?d" using ps by (intro unat_of_nat_u16_lt) simp
  have l1: "length p1 = ps" "length buf = ps" using inv by (simp_all add: compact_inv_def)
  have tail: "drop ?d buf = concat (rev pls)" using inv by (simp add: compact_inv_def)
  have fb: "fetch buf ?d (ps - ?d) = concat (rev pls)" using tail l1 sz by (simp add: fetch_def)
  let ?p2 = "store p1 ?d (concat (rev pls))"
  have le: "?d + length (concat (rev pls)) = ps" "12 + 2 * length pls \<le> ?d" using sz by simp_all
  have l2: "length ?p2 = ps" using le l1 by simp
  have h2: "header_of ?p2 = header_of page" using le l1 h1 by (simp add: header_of_store_after)
  define h where "h = (header_of page)\<lparr>data_start := of_nat ?d,
    free_space := of_nat ps - of_nat ?d - 12 - 2 * cell_count (header_of page)\<rparr>"
  let ?p3 = "store ?p2 0 (header_bytes h)"
  have "page_compact page (of_nat ps) = Inr ?p3"
    using len l1 l2 le sz loop fb by (simp add: page_compact_def ups ud h_def h1 h2 del: of_nat_diff)
  moreover have "page_rep ps ?p3 fl r pls"
  proof (rule page_rep_packed [OF _ ps _ _ _ _ sz ok])
    fix j
    assume j: "j < length pls"
    have "cell_at ?p3 j = cell_at ?p2 j" using j sz l2 by (intro cell_at_put_header) simp
    also have "\<dots> = cell_at p1 j" using j le l1 by (intro cell_at_store_after) simp_all
    finally show "cell_at ?p3 j = of_nat (packed_at ps pls j)" using inv j by (simp add: compact_inv_def)
  next
    have "drop ?d ?p3 = drop ?d ?p2" using le l2 by (intro drop_store_after) simp_all
    also have "\<dots> = concat (rev pls)" using le l1 by (simp add: store_def)
    finally show "drop ?d ?p3 = concat (rev pls)" .
  qed (use l2 fl r cc sz in \<open>simp_all add: header_of_put h_def del: of_nat_diff\<close>)
  moreover have "free_space (header_of ?p3) = of_nat (total pls) - of_nat (12 + 2 * length pls)"
    using l2 sz cc by (simp add: header_of_put h_def)
  ultimately show ?thesis by blast
qed

text \<open>The field that \<open>page_compact\<close> should have written.\<close>

lemma compact_free_exact_iff:
  assumes "page_rep ps page fl r pls"
    and "free_space (header_of page) = of_nat (total pls) - of_nat (12 + 2 * length pls)"
  shows "free_exact page \<longleftrightarrow> 2 * total pls = ps"
proof -
  note D = page_repD [OF assms(1)] and W = page_rep_words [OF assms(1)]
  have sz: "12 + 2 * length pls + total pls \<le> ps" using D(8,9) by simp
  have inj: "(of_nat a :: u16) = of_nat b \<longleftrightarrow> a = b" if "a < 2 ^ 16" "b < 2 ^ 16" for a b
    using that unat_of_nat_u16_lt by metis
  have lt: "room page < 2 ^ 16" using W(3) D(2) by simp
  have "unat w = room page \<longleftrightarrow> w = of_nat (room page)" for w :: u16
    by (metis lt of_nat_unat ucast_id unat_of_nat_u16_lt)
  then have "free_exact page \<longleftrightarrow> free_space (header_of page) = of_nat (room page)" by (simp only: free_exact_def)
  also have "of_nat (room page) = (of_nat (ps - total pls) - of_nat (12 + 2 * length pls) :: u16)"
  proof -
    have "room page = ps - total pls - (12 + 2 * length pls)" using W(3) by simp
    moreover have "12 + 2 * length pls \<le> ps - total pls" using sz by simp
    ultimately show ?thesis by (simp only: of_nat_diff)
  qed
  also have "free_space (header_of page) = of_nat (ps - total pls) - of_nat (12 + 2 * length pls) \<longleftrightarrow>
      (of_nat (total pls) :: u16) = of_nat (ps - total pls)"
    unfolding assms(2) by (metis diff_add_cancel)
  also have "\<dots> \<longleftrightarrow> total pls = ps - total pls" using sz D(2) by (intro inj) simp_all
  also have "\<dots> \<longleftrightarrow> 2 * total pls = ps" using sz by auto
  finally show ?thesis .
qed

section \<open>page_split\<close>

text \<open>The state of the loop of \<open>page_split\<close> after \<open>i\<close> payloads were copied into the new page.\<close>

definition split_inv :: "nat \<Rightarrow> byte list list \<Rightarrow> nat \<Rightarrow> byte list \<Rightarrow> bool" where
  "split_inv ps qs i next \<longleftrightarrow> length next = ps \<and>
     (\<forall>j < i. cell_at next j = of_nat (packed_at ps qs j)) \<and>
     drop (ps - total (take i qs)) next = concat (rev (take i qs))"

lemma split_inv_step:
  assumes inv: "split_inv ps qs i next" and i: "i < length qs" and sz: "12 + 2 * length qs + total qs \<le> ps"
  shows "split_inv ps qs (Suc i) (store (store next (packed_at ps qs i) (qs ! i))
    (sizeof_header + 2 * i) (le_bytes 2 (of_nat (packed_at ps qs i) :: u16)))"
proof -
  let ?n1 = "store next (packed_at ps qs i) (qs ! i)"
  let ?n2 = "store ?n1 (sizeof_header + 2 * i) (le_bytes 2 (of_nat (packed_at ps qs i) :: u16))"
  have len: "length next = ps" using inv by (simp add: split_inv_def)
  have le: "packed_at ps qs i + length (qs ! i) \<le> ps" using packed_word(2) [OF i, of ps] sz by simp
  have t: "total (take (Suc i) qs) \<le> total qs" by (rule total_take_le)
  have above: "12 + 2 * length qs \<le> packed_at ps qs i" using t sz by (simp add: packed_at_def)
  have l1: "length ?n1 = ps" using len le by simp
  have "cell_at ?n2 j = of_nat (packed_at ps qs j)" if j: "j < Suc i" for j
  proof -
    have "cell_at ?n2 j = (if j = i then of_nat (packed_at ps qs i) else cell_at ?n1 j)"
      by (rule cell_at_set) (use i j sz l1 in simp_all)
    moreover have "cell_at ?n1 j = cell_at next j"
      using above i j le len by (intro cell_at_store_after) simp_all
    ultimately show ?thesis using inv j by (auto simp: split_inv_def less_Suc_eq)
  qed
  moreover have "drop (packed_at ps qs i) ?n1 = concat (rev (take (Suc i) qs))"
    using packed_step [OF _ i _ len] inv t sz by (simp add: split_inv_def)
  moreover have "drop (packed_at ps qs i) ?n2 = drop (packed_at ps qs i) ?n1"
    using above i l1 sz by (intro drop_store_after) (simp_all add: sizeof_header_def)
  ultimately show ?thesis using l1 i sz by (simp add: split_inv_def packed_at_def sizeof_header_def)
qed

lemma split_loop_correct:
  assumes rd: "page_readable ps page fl r pls" and h: "h = header_of page"
    and split: "s \<le> length pls" and qs: "qs = drop s pls"
    and "split_inv ps qs i next" and "i \<le> length qs"
  shows "\<exists>next'. split_loop page h next (of_nat (ps - total (take i qs))) s (s + i) =
      Inr (next', of_nat (ps - total qs)) \<and> split_inv ps qs (length qs) next'"
  using assms(5,6)
proof (induction "length qs - i" arbitrary: i "next")
  case 0
  then have "i = length qs" by simp
  moreover have "unat (cell_count h) = length pls"
    using rd by (simp add: h page_readable_def unat_of_nat_u16_lt)
  ultimately show ?case using "0.prems" split qs by (subst split_loop.simps) simp
next
  case (Suc n)
  then have i: "i < length qs" by simp
  have R: "length page = ps" "ps < 2 ^ 16" "flags h = fl" "cell_count h = of_nat (length pls)"
    "12 + 2 * length pls + total pls \<le> ps"
    "\<forall>i < length pls. slot_ok fl page (12 + 2 * length pls) i (pls ! i)"
    using rd by (simp_all add: page_readable_def h)
  have tq: "total (take s pls) + total qs = total pls" unfolding qs by (metis append_take_drop_id total_simps(3))
  have sz: "12 + 2 * length qs + total qs \<le> ps" using R(5) tq qs by simp
  have k: "s + i < length pls" "pls ! (s + i) = qs ! i" using i qs by simp_all
  have cc: "unat (cell_count h) = length pls" using R by (simp add: unat_of_nat_u16_lt)
  have slot: "slot_ok fl page (12 + 2 * length pls) (s + i) (qs ! i)" using R(6) k by metis
  then have pok: "payload_ok fl (qs ! i)" by (simp add: slot_ok_def)
  have rdk: "page_get_payload page (of_nat (s + i)) = Inr (off_at page (s + i))"
    "payload_get_len fl (drop (off_at page (s + i)) page) = Inr (of_nat (length (qs ! i)))"
    "mem_read page (off_at page (s + i)) (length (qs ! i)) = Inr (qs ! i)"
    using read_slot [OF slot] k(1) R(1,2,5) by simp_all
  have tot: "total qs \<le> ps" using sz by simp
  note pw = packed_word [OF i tot]
  have u: "unat (of_nat (packed_at ps qs i) :: u16) = packed_at ps qs i"
    using pw(2) R(2) by (intro unat_of_nat_u16_lt) simp
  have len: "length next = ps" using Suc.prems(1) by (simp add: split_inv_def)
  let ?n2 = "store (store next (packed_at ps qs i) (qs ! i)) (sizeof_header + 2 * i)
    (le_bytes 2 (of_nat (packed_at ps qs i) :: u16))"
  have "split_loop page h next (of_nat (ps - total (take i qs))) s (s + i) =
      split_loop page h ?n2 (of_nat (packed_at ps qs i)) s (s + Suc i)"
    using rdk pw cc R(3) len sz i k(1)
    by (subst split_loop.simps) (simp add: Let_def u payload_ok_unat [OF pok] pw(1) del: of_nat_diff of_nat_add)
  with Suc.hyps(1) [OF _ split_inv_step [OF Suc.prems(1) i sz]] Suc.hyps(2) i show ?case
    unfolding packed_at_def by simp
qed

lemma page_readable_take:
  assumes "page_readable ps page fl r pls" and "s \<le> length pls"
  shows "page_readable ps (store page 0 (header_bytes ((header_of page)\<lparr>cell_count := of_nat s, right := r'\<rparr>)))
    fl r' (take s pls)"
proof -
  let ?p = "store page 0 (header_bytes ((header_of page)\<lparr>cell_count := of_nat s, right := r'\<rparr>))"
  have R: "length page = ps" "ps < 2 ^ 16" "flags (header_of page) = fl"
    "12 + 2 * length pls + total pls \<le> ps"
    "\<forall>i < length pls. slot_ok fl page (12 + 2 * length pls) i (pls ! i)"
    using assms(1) by (simp_all add: page_readable_def)
  have "slot_ok fl ?p (12 + 2 * s) i (pls ! i)" if i: "i < s" for i
  proof (rule slot_ok_store)
    show "slot_ok fl page (12 + 2 * length pls) i (pls ! i)" using R(5) i assms(2) by simp
    then have "12 + 2 * length pls \<le> off_at page i" by (simp add: slot_ok_def)
    then show "off_at page i + length (pls ! i) \<le> 0 \<or>
        0 + length (header_bytes ((header_of page)\<lparr>cell_count := of_nat s, right := r'\<rparr>)) \<le> off_at page i"
      "12 + 2 * s \<le> off_at page i" using assms(2) by simp_all
  qed (use i assms(2) R(1,4) in simp_all)
  moreover have "total (take s pls) \<le> total pls" by (rule total_take_le)
  ultimately show ?thesis using R assms(2) by (simp add: page_readable_def header_of_put)
qed

lemma page_split_correct:
  assumes rd: "page_readable ps page fl r pls" and ok: "\<forall>p \<in> set pls. payload_ok fl p" and len: "length nx = ps"
  shows "\<exists>page' next'. page_split page nx nid (of_nat ps) = Inr (page', next', of_nat (length pls div 2)) \<and>
    page_rep ps page' fl nid (take (length pls div 2) pls) \<and>
    page_rep ps next' fl r (drop (length pls div 2) pls) \<and> free_exact next' \<and>
    free_space (header_of page') =
      of_nat (total (take (length pls div 2) pls)) - of_nat (12 + 2 * (length pls div 2))"
proof -
  let ?s = "length pls div 2" and ?h = "header_of page"
  define qs where "qs = drop ?s pls"
  have R: "length page = ps" "ps < 2 ^ 16" "flags ?h = fl" "right ?h = r" "cell_count ?h = of_nat (length pls)"
    "12 + 2 * length pls + total pls \<le> ps"
    using rd by (simp_all add: page_readable_def)
  have cc: "unat (cell_count ?h) = length pls" using R by (simp add: unat_of_nat_u16_lt)
  have us: "unat (cell_count ?h div 2) = ?s" by (simp add: unat_div_distrib cc)
  then have ws: "cell_count ?h div 2 = of_nat ?s" by (metis of_nat_unat ucast_id)
  have tq: "total (take ?s pls) + total qs = total pls" unfolding qs_def by (metis append_take_drop_id total_simps(3))
  have sz: "12 + 2 * length qs + total qs \<le> ps" using R(6) tq by (simp add: qs_def)
  have "split_inv ps qs 0 nx" using len by (simp add: split_inv_def)
  from split_loop_correct [OF rd refl _ qs_def this] obtain n1 where
    loop: "split_loop page ?h nx (of_nat ps) ?s ?s = Inr (n1, of_nat (ps - total qs))" and inv: "split_inv ps qs (length qs) n1"
    by auto
  have l1: "length n1 = ps" using inv by (simp add: split_inv_def)
  have count: "cell_count ?h - of_nat ?s = of_nat (length qs)" by (simp add: R(5) qs_def of_nat_diff)
  then have count2: "2 * cell_count ?h - 2 * of_nat ?s = 2 * of_nat (length qs)"
    by (simp only: count [symmetric] right_diff_distrib)
  define hn where "hn = \<lparr>cell_count = of_nat (length qs), data_start = of_nat (ps - total qs),
    free_space = of_nat (ps - total qs) - 12 - 2 * of_nat (length qs), flags = fl, right = r\<rparr>"
  let ?n2 = "store n1 0 (header_bytes hn)"
  have hn: "header_of ?n2 = hn" using l1 sz by (simp add: header_of_put)
  have ok': "\<forall>p \<in> set qs. payload_ok fl p" "\<forall>p \<in> set (take ?s pls). payload_ok fl p"
    using ok by (auto simp: qs_def dest: in_set_dropD in_set_takeD)
  have rep: "page_rep ps ?n2 fl r qs"
  proof (rule page_rep_packed [OF _ R(2) _ _ _ _ sz ok'(1)])
    fix j
    assume j: "j < length qs"
    have "cell_at ?n2 j = cell_at n1 j" using j sz l1 by (intro cell_at_put_header) simp
    then show "cell_at ?n2 j = of_nat (packed_at ps qs j)" using inv j by (simp add: split_inv_def)
  next
    have "drop (ps - total qs) ?n2 = drop (ps - total qs) n1" using sz l1 by (intro drop_store_after) simp_all
    then show "drop (ps - total qs) ?n2 = concat (rev qs)" using inv by (simp add: split_inv_def)
  qed (use l1 sz hn in \<open>simp_all add: hn_def\<close>)
  have "free_space hn = of_nat (room ?n2)"
    using page_rep_words(3) [OF rep] sz by (simp add: hn_def of_nat_diff)
  moreover have "room ?n2 < 2 ^ 16" using page_rep_words(3) [OF rep] R(2) by simp
  ultimately have fe: "free_exact ?n2" by (simp only: free_exact_def hn unat_of_nat_u16_lt)
  let ?p1 = "store page 0 (header_bytes (?h\<lparr>cell_count := of_nat ?s, right := nid\<rparr>))"
  have half: "page_readable ps ?p1 fl nid (take ?s pls)" by (rule page_readable_take [OF rd]) simp
  from page_compact_correct [OF half ok'(2)] obtain page' where
    pc: "page_compact ?p1 (of_nat ps) = Inr page'" "page_rep ps page' fl nid (take ?s pls)"
    "free_space (header_of page') = of_nat (total (take ?s pls)) - of_nat (12 + 2 * ?s)" by auto
  have "page_split page nx nid (of_nat ps) = Inr (page', ?n2, of_nat ?s)"
    using R(1,3,4,6) l1 sz loop pc(1) us
    by (simp add: page_split_def Let_def ws us count count2 hn_def del: of_nat_diff)
  with pc(2,3) rep fe show ?thesis unfolding qs_def by blast
qed

section \<open>Insertion into a page with a wrong free_space\<close>

lemma page_rep_ok: "page_rep ps page fl r pls \<Longrightarrow> \<forall>p \<in> set pls. payload_ok fl p"
  using page_repD(10) by (fastforce simp: in_set_conv_nth slot_ok_def)

text \<open>
  If \<open>free_space\<close> promises more than there is, the assertion passes, compaction gains
  nothing, and the payload is placed below the end of the cells.
\<close>

lemma page_insert_payload_overrun:
  assumes rep: "page_rep ps page fl r pls" and index: "unat index \<le> length pls"
    and promise: "unat sz + 2 \<le> unat (free_space (header_of page))" and full: "room page < unat sz + 2"
    and inside: "unat sz \<le> ps - total pls" and cells: "14 + 2 * length pls \<le> ps"
  shows "\<exists>page'. page_insert_payload page (of_nat ps) index sz = Inr (page', ps - total pls - unat sz) \<and>
    ps - total pls - unat sz < 12 + 2 * (length pls + 1)"
proof -
  note D = page_repD [OF rep] and W = page_rep_words [OF rep]
  from page_compact_correct [OF page_rep_readable [OF rep] page_rep_ok [OF rep]] obtain p1 where
    pc: "page_compact page (of_nat ps) = Inr p1" and rep1: "page_rep ps p1 fl r pls" by blast
  note D1 = page_repD [OF rep1] and W1 = page_rep_words [OF rep1]
  have b: "unat sz < 2 ^ 16" "unat sz < 2 ^ 63" using inside D(2) by simp_all
  have "room page < 2 ^ 16" using W(3) D(2) by simp
  then have "ucast (of_nat (room page) :: u16) < sz + 2"
    using word_total_u16 [OF b(2), of "of_nat (room page)"] full by (simp add: unat_of_nat_u16_lt not_le)
  moreover have "sz + 2 \<le> ucast (free_space (header_of page))" using promise word_total_u16 [OF b(2)] by simp
  moreover have pre: "unat index \<le> unat (cell_count (header_of p1))" "12 + 2 * (unat (cell_count (header_of p1)) + 1) \<le> length p1"
    using index cells D1(1,7) by simp_all
  obtain q where q: "shift_cells p1 index (cell_count (header_of p1)) = Inr q" "length q = length p1"
    by (rule shift_cells_correct [OF pre]) (rule that)
  define p where "p = ps - total pls - unat sz"
  have p: "unat (of_nat p :: u16) = p" using D(2) unfolding p_def by (intro unat_of_nat_u16_lt) simp
  have start: "data_start (header_of p1) - ucast sz = of_nat p"
    unfolding W1(2) ucast_of_unat p_def by (simp only: of_nat_diff [OF inside])
  have "12 + 2 * unat index + 2 \<le> ps" using index cells by simp
  ultimately have "\<exists>page'. page_insert_payload page (of_nat ps) index sz = Inr (page', p)"
    using D(1,4) D1(1,4) q page_get_space_room [OF rep] pc p
    by (simp add: page_insert_payload_shift Let_def start sizeof_header_def)
  moreover have "p < 12 + 2 * (length pls + 1)" using full W(3) unfolding p_def by simp
  ultimately show ?thesis unfolding p_def by blast
qed

section \<open>Properties\<close>

text \<open>
  C26: \<^verbatim>\<open>page_split\<close> divides a page. The first half of its payloads stays, in order, and the
  page is linked to the new one; the second half is in the new page, which takes over the
  old right link, the flags, and gets an exact \<^verbatim>\<open>free_space\<close>; the index returned is the
  number of payloads that stayed. Both pages are well formed. The \<^verbatim>\<open>free_space\<close> of the page
  that stays is exact only if its payloads fill exactly half of it.
\<close>

theorem page_split_halves:
  assumes "page_rep ps page fl r pls" and "length nx = ps"
  shows "\<exists>page' next'. page_split page nx nid (of_nat ps) = Inr (page', next', of_nat (length pls div 2)) \<and>
    page_rep ps page' fl nid (take (length pls div 2) pls) \<and>
    page_rep ps next' fl r (drop (length pls div 2) pls) \<and> free_exact next' \<and>
    (free_exact page' \<longleftrightarrow> 2 * total (take (length pls div 2) pls) = ps)"
proof -
  let ?s = "length pls div 2"
  from page_split_correct [OF page_rep_readable [OF assms(1)] page_rep_ok [OF assms(1)] assms(2)] obtain page' next' where
    s: "page_split page nx nid (of_nat ps) = Inr (page', next', of_nat ?s)" "page_rep ps page' fl nid (take ?s pls)"
    "page_rep ps next' fl r (drop ?s pls)" "free_exact next'"
    "free_space (header_of page') = of_nat (total (take ?s pls)) - of_nat (12 + 2 * ?s)" by blast
  then have "free_exact page' \<longleftrightarrow> 2 * total (take ?s pls) = ps" by (intro compact_free_exact_iff) simp_all
  with s show ?thesis by blast
qed

theorem page_split_halves_witness:
  "\<exists>page page' next'. page_rep 64 page 3 0 [leaf_entry (5, [8]), leaf_entry (9, [1])] \<and>
    page_split page (replicate 64 0) 9 (of_nat 64) = Inr (page', next', of_nat 1) \<and>
    page_rep 64 page' 3 9 [leaf_entry (5, [8])] \<and> page_rep 64 next' 3 0 [leaf_entry (9, [1])] \<and>
    \<not> free_exact page'"
proof -
  from example_leaf obtain page where rep: "page_rep 64 page 3 0 [leaf_entry (5, [8]), leaf_entry (9, [1])]"
    by (auto simp: leaf_page_def)
  from page_split_halves [OF rep, of "replicate 64 0" 9] show ?thesis
    using rep by (auto simp: leaf_entry_def vint_bytes.simps)
qed

text \<open>
  C28: The left half of a split accepts an insertion that does not fit. When its payloads are
  smaller than its header and cells, the \<^verbatim>\<open>free_space\<close> written by \<^verbatim>\<open>page_compact\<close> wraps around;
  a payload larger than the real room then passes the assertion of \<^verbatim>\<open>page_insert_payload\<close>
  and is given a place that starts inside the header or the cell array.
\<close>

theorem page_split_left_half_overrun:
  assumes "page_rep ps page fl r pls" and "length nx = ps" and "s = length pls div 2"
    and "total (take s pls) < 12 + 2 * s" and "unat index \<le> s"
    and "unat sz \<le> ps - total (take s pls)" and "ps - total (take s pls) < 14 + 2 * s + unat sz"
    and "14 + 2 * s \<le> ps" and "unat sz + 14 + 2 * s \<le> 2 ^ 16"
  shows "\<exists>page' next' page'' at. page_split page nx nid (of_nat ps) = Inr (page', next', of_nat s) \<and>
    page_insert_payload page' (of_nat ps) index sz = Inr (page'', at) \<and>
    at < sizeof_header + 2 * (unat (cell_count (header_of page')) + 1)"
proof -
  let ?t = "take s pls"
  from page_split_correct [OF page_rep_readable [OF assms(1)] page_rep_ok [OF assms(1)] assms(2)] obtain page' next' where
    split: "page_split page nx nid (of_nat ps) = Inr (page', next', of_nat s)" and rep: "page_rep ps page' fl nid ?t"
    and fs: "free_space (header_of page') = of_nat (total ?t) - of_nat (12 + 2 * s)" unfolding assms(3) by blast
  have n: "length ?t = s" using assms(3) by simp
  have small: "12 + 2 * s - total ?t \<le> 2 ^ 16" using assms(9) by simp
  have "free_space (header_of page') = of_nat (2 ^ 16 - (12 + 2 * s - total ?t))"
    unfolding fs using small assms(4) by (simp add: of_nat_diff)
  moreover have "2 ^ 16 - (12 + 2 * s - total ?t) < (2 :: nat) ^ 16" using assms(4) by simp
  ultimately have "unat (free_space (header_of page')) = 2 ^ 16 - (12 + 2 * s - total ?t)"
    using unat_of_nat_u16_lt by metis
  then have "unat sz + 2 \<le> unat (free_space (header_of page'))" using assms(4,9) by simp
  moreover have "room page' < unat sz + 2" using page_rep_words(3) [OF rep] assms(7) n by simp
  ultimately obtain page'' where
    "page_insert_payload page' (of_nat ps) index sz = Inr (page'', ps - total ?t - unat sz)"
    "ps - total ?t - unat sz < 12 + 2 * (s + 1)"
    using page_insert_payload_overrun [OF rep, of index sz, unfolded n] assms(5,6,8) by auto
  moreover have "unat (cell_count (header_of page')) = s" using page_repD(7) [OF rep] n by simp
  ultimately show ?thesis using split by (auto simp: sizeof_header_def)
qed

theorem page_split_left_half_overrun_witness:
  "\<exists>page page' next' page'' at. page_rep 64 page 3 0 [leaf_entry (5, [8]), leaf_entry (9, [1])] \<and>
    page_split page (replicate 64 0) 9 (of_nat 64) = Inr (page', next', of_nat 1) \<and>
    page_insert_payload page' (of_nat 64) 0 52 = Inr (page'', at) \<and>
    at < sizeof_header + 2 * (unat (cell_count (header_of page')) + 1)"
proof -
  from example_leaf obtain page where rep: "page_rep 64 page 3 0 [leaf_entry (5, [8]), leaf_entry (9, [1])]"
    by (auto simp: leaf_page_def)
  have "\<exists>page' next' page'' at. page_split page (replicate 64 0) 9 (of_nat 64) = Inr (page', next', of_nat 1) \<and>
      page_insert_payload page' (of_nat 64) 0 52 = Inr (page'', at) \<and>
      at < sizeof_header + 2 * (unat (cell_count (header_of page')) + 1)"
    by (rule page_split_left_half_overrun [OF rep]) (simp_all add: leaf_entry_def vint_bytes.simps)
  with rep show ?thesis by blast
qed

text \<open>
  \<^verbatim>\<open>page_compact\<close> keeps what a page holds. From a page whose payloads can be read, with
  gaps between them or even overlapping, it makes a well-formed page with the same payloads
  in the same order, so every key that was found before is found at the same index.
\<close>

theorem page_compact_keeps_payloads:
  assumes "page_readable ps page fl r pls" and "keys_of fl pls ks" and "varint_get (bdata key) = Inr (k, n)"
  shows "\<exists>page'. page_compact page (of_nat ps) = Inr page' \<and> page_rep ps page' fl r pls \<and>
    page_find_pointer page' key = page_find_pointer page key"
proof -
  have sl: "\<forall>i < length pls. slot_ok fl page (12 + 2 * length pls) i (pls ! i)"
    using assms(1) by (simp add: page_readable_def)
  then have "\<forall>p \<in> set pls. payload_ok fl p" by (fastforce simp: in_set_conv_nth slot_ok_def)
  from page_compact_correct [OF assms(1) this] obtain page' where
    pc: "page_compact page (of_nat ps) = Inr page'" "page_rep ps page' fl r pls" by blast
  have R: "length page = ps" "flags (header_of page) = fl" "12 + 2 * length pls \<le> ps"
    "unat (cell_count (header_of page)) = length pls"
    using assms(1) by (simp_all add: page_readable_def unat_of_nat_u16_lt)
  have "page_find_pointer page key = page_find_pointer page' key"
    using find_pointer_loop_correct [OF R(4) _ _ _ assms(3), of page "12 + 2 * length pls" ks 0]
      page_find_pointer_correct [OF pc(2) assms(2,3)] sl assms(2) R(1,2,3)
    by (simp add: page_find_pointer_def Let_def)
  with pc show ?thesis by auto
qed

theorem page_compact_keeps_payloads_witness:
  "\<exists>page page'. page_compact page (of_nat 64) = Inr page' \<and>
    page_rep 64 page' 3 0 [leaf_entry (5, [8]), leaf_entry (9, [1])] \<and>
    page_find_pointer page' (key_blob_of 9) = page_find_pointer page (key_blob_of 9)"
proof -
  from example_leaf obtain page where lp: "leaf_page 64 3 0 page [(5, [8]), (9, [1])]" by blast
  then have rd: "page_readable 64 page 3 0 (map leaf_entry [(5, [8]), (9, [1])])"
    by (intro page_rep_readable) (simp add: leaf_page_def)
  have "varint_get (bdata (key_blob_of 9)) = Inr (9, 1)"
    using varint_get_correct [of 9 "[]"] by (simp add: key_blob_of_def vint_bytes.simps)
  from page_compact_keeps_payloads [OF rd leaf_page_keys [OF lp] this] show ?thesis by auto
qed

end
