(* ===== verification/PageInner.thy ===== *)
theory PageInner
  imports PageLeaf
begin

text \<open>
  An inner page of a table as its keys and its children, one more child than keys (the last
  is the header's right link), and \<open>page_insert_inner\<close> as the insertion of a key together
  with the page that a split put to its right.
\<close>

section \<open>Writing into a page without moving anything\<close>

lemma store_prefix:
  assumes "fetch m off (length bs) = bs" and "off + length bs \<le> length m" and "length a \<le> length bs"
  shows "store m off a = store m off (a @ drop (length a) bs)"
proof (rule nth_equalityI)
  show "length (store m off a) = length (store m off (a @ drop (length a) bs))" using assms by simp
next
  fix i
  assume "i < length (store m off a)"
  then have i: "i < length m" using assms(2,3) by simp
  have "m ! i = bs ! (i - off)" if "off \<le> i" "i < off + length bs"
    using fetch_nth [of "i - off" "length bs" off m] that assms(1,2) by simp
  then show "store m off a ! i = store m off (a @ drop (length a) bs) ! i"
    using i assms(2,3) by (auto simp: store_nth nth_append)
qed

lemma page_rep_update:
  assumes rep: "page_rep ps page fl r pls" and i: "i < length pls" and bs: "length bs = length (pls ! i)"
    and ok: "payload_ok fl bs"
  shows "page_rep ps (store page (off_at page i) bs) fl r (pls[i := bs])"
    and "header_of (store page (off_at page i) bs) = header_of page"
proof -
  note D = page_repD [OF rep]
  let ?q = "store page (off_at page i) bs"
  have s: "unat (data_start (header_of page)) \<le> off_at page i" "off_at page i + length bs \<le> ps"
    using D(10) [OF i] bs D(1) by (simp_all add: slot_ok_def)
  show h: "header_of ?q = header_of page" by (rule header_of_store_after) (use s D(1,9) in simp_all)
  have cell: "cell_at ?q j = cell_at page j" if "j < length pls" for j
    by (rule cell_at_store_after) (use s D(1,9) that in simp_all)
  have lens: "length (pls[i := bs] ! j) = length (pls ! j)" for j
    using i bs by (cases "j = i") simp_all
  have "slot_ok fl ?q (unat (data_start (header_of page))) j (pls[i := bs] ! j)" if j: "j < length pls" for j
  proof (cases "j = i")
    case True
    then show ?thesis using s ok i D(1) cell [OF i] by (simp add: slot_ok_def)
  next
    case False
    have dis: "off_at page j + length (pls ! j) \<le> off_at page i \<or> off_at page i + length bs \<le> off_at page j"
      using D(11) i j False bs by (fastforce simp: disjoint_slots_def)
    show ?thesis unfolding nth_list_update_neq [OF False [symmetric]]
      by (rule slot_ok_store [OF D(10) [OF j]]) (use dis s D(1,9) D(10) [OF j] j in \<open>simp_all add: slot_ok_def\<close>)
  qed
  moreover have "disjoint_slots ?q (pls[i := bs])"
    using D(11) by (simp add: disjoint_slots_def lens cell)
  moreover have "total (pls[i := bs]) = total pls"
    using lens by (simp add: total_def) (metis length_list_update list_eq_iff_nth_eq map_equality_iff)
  ultimately show "page_rep ps ?q fl r (pls[i := bs])"
    using D s h by (simp add: page_rep_def)
qed

lemma page_rep_right:
  assumes rep: "page_rep ps page fl r pls"
  shows "page_rep ps (store page 0 (header_bytes ((header_of page)\<lparr>right := r'\<rparr>))) fl r' pls"
    and "free_exact page \<Longrightarrow> free_exact (store page 0 (header_bytes ((header_of page)\<lparr>right := r'\<rparr>)))"
proof -
  note D = page_repD [OF rep]
  let ?w = "header_bytes ((header_of page)\<lparr>right := r'\<rparr>)"
  let ?q = "store page 0 ?w"
  have h: "header_of ?q = (header_of page)\<lparr>right := r'\<rparr>" using D(4) by (rule header_of_put)
  have cell: "cell_at ?q j = cell_at page j" if "j < length pls" for j
    by (rule cell_at_put_header) (use D(3) that in simp)
  have "slot_ok fl ?q (unat (data_start (header_of page))) j (pls ! j)" if j: "j < length pls" for j
    by (rule slot_ok_store [OF D(10) [OF j]]) (use D(3,4,9) D(10) [OF j] j in \<open>simp_all add: slot_ok_def\<close>)
  moreover have "disjoint_slots ?q pls" using D(11) by (simp add: disjoint_slots_def cell)
  moreover have "length ?q = ps" using D(1,4) by simp
  ultimately show "page_rep ps ?q fl r' pls" using D by (simp add: page_rep_def h)
  show "free_exact page \<Longrightarrow> free_exact ?q" by (simp add: free_exact_def room_def h)
qed

section \<open>Keys and children\<close>

definition inner_payloads :: "u64 list \<Rightarrow> page_id_t list \<Rightarrow> byte list list" where
  "inner_payloads ks cs = map2 inner_entry (butlast cs) ks"

definition inner_page :: "nat \<Rightarrow> u16 \<Rightarrow> byte list \<Rightarrow> u64 list \<Rightarrow> page_id_t list \<Rightarrow> bool" where
  "inner_page ps fl page ks cs \<longleftrightarrow> page_is_inner fl \<and> \<not> page_is_index_uuid fl \<and>
     length cs = Suc (length ks) \<and> page_rep ps page fl (last cs) (inner_payloads ks cs) \<and>
     free_exact page \<and> (\<forall>k \<in> set ks. unat k < 2 ^ 56)"

text \<open>What reading needs of it.\<close>

definition inner_readable :: "nat \<Rightarrow> u16 \<Rightarrow> byte list \<Rightarrow> u64 list \<Rightarrow> page_id_t list \<Rightarrow> bool" where
  "inner_readable ps fl page ks cs \<longleftrightarrow> page_is_inner fl \<and> \<not> page_is_index_uuid fl \<and>
     length cs = Suc (length ks) \<and> page_rep ps page fl (last cs) (inner_payloads ks cs) \<and>
     (\<forall>k \<in> set ks. unat k < 2 ^ 56)"

lemma inner_page_readable: "inner_page ps fl page ks cs \<Longrightarrow> inner_readable ps fl page ks cs"
  by (simp add: inner_page_def inner_readable_def)

lemma length_inner_payloads [simp]: "length cs = Suc (length ks) \<Longrightarrow> length (inner_payloads ks cs) = length ks"
  by (simp add: inner_payloads_def)

lemma inner_payloads_nth: "length cs = Suc (length ks) \<Longrightarrow> j < length ks \<Longrightarrow>
  inner_payloads ks cs ! j = inner_entry (cs ! j) (ks ! j)"
  by (simp add: inner_payloads_def nth_butlast)

lemma length_inner_entry [simp]: "length (inner_entry c k) = 4 + length (vint_bytes k)"
  by (simp add: inner_entry_def)

lemma inner_payloads_insert_last:
  assumes "length cs = Suc (length ks)"
  shows "inner_payloads (insert_at (length ks) k ks) (insert_at (Suc (length ks)) c cs) =
    insert_at (length ks) (inner_entry (last cs) k) (inner_payloads ks cs)"
proof -
  obtain xs x where cs: "cs = xs @ [x]" using assms by (cases cs rule: rev_cases) auto
  then have "length xs = length ks" using assms by simp
  then show ?thesis by (simp add: cs inner_payloads_def insert_at_def butlast_append)
qed

lemma inner_payloads_insert_before:
  assumes "length cs = Suc (length ks)" and "i < length ks"
  shows "inner_payloads (insert_at i k ks) (insert_at (Suc i) c cs) =
    (insert_at i (inner_entry (cs ! i) k) (inner_payloads ks cs))[Suc i := inner_entry c (ks ! i)]"
    (is "?l = ?r")
proof (rule nth_equalityI)
  show "length ?l = length ?r" using assms by simp
  fix j
  assume "j < length ?l"
  then have j: "j \<le> length ks" using assms(1) by simp
  have "?l ! j = inner_entry (insert_at (Suc i) c cs ! j) (insert_at i k ks ! j)"
    using assms j by (intro inner_payloads_nth) simp_all
  also have "\<dots> = ?r ! j"
    using assms j by (auto simp: insert_at_nth nth_list_update inner_payloads_nth)
  finally show "?l ! j = ?r ! j" .
qed

lemma last_insert_at: "i < length cs \<Longrightarrow> last (insert_at i c cs) = last cs"
  by (simp add: insert_at_def)

section \<open>page_insert_inner\<close>

lemma inner_entry_written:
  assumes ip: "inner_readable ps fl page ks cs" and key: "key_blob key k" and k: "unat k < 2 ^ 56"
    and i: "unat index \<le> length ks" and fits: "length (inner_entry c k) + 2 \<le> room page"
    and free: "length (inner_entry c k) + 2 \<le> unat (free_space (header_of page))"
  obtains p1 p2 at where
    "page_insert_payload page (of_nat ps) index (bsize key + 4) = Inr (p1, at)"
    "mem_write p1 at (le_bytes 4 c) = Inr (store p1 at (le_bytes 4 c))"
    "mem_read (bdata key) 0 (unat (bsize key)) = Inr (vint_bytes k)"
    "mem_write (store p1 at (le_bytes 4 c)) (at + 4) (vint_bytes k) = Inr p2"
    "page_rep ps p2 fl (last cs) (insert_at (unat index) (inner_entry c k) (inner_payloads ks cs))"
    "free_space (header_of p2) = free_space (header_of page) - of_nat (length (inner_entry c k) + 2)" "right (header_of p1) = last cs" "12 \<le> length p1" "length p1 = ps"
    "unat index < length ks \<Longrightarrow> off_at p2 (Suc (unat index)) = off_at page (unat index)"
    "unat index < length ks \<Longrightarrow> mem_read p1 (off_at page (unat index)) 4 = Inr (le_bytes 4 (cs ! unat index))"
proof -
  let ?i = "unat index" and ?pls = "inner_payloads ks cs" and ?bs = "inner_entry c k"
  have I: "page_is_inner fl" "\<not> page_is_index_uuid fl" "length cs = Suc (length ks)"
    "page_rep ps page fl (last cs) ?pls"
    using ip by (simp_all add: inner_readable_def)
  note D = page_repD [OF I(4)] and W = page_rep_words [OF I(4)]
  have il: "?i \<le> length ?pls" using i I(3) by simp
  have valid: "blob_valid key" "blob_bytes key = vint_bytes k" using key by (simp_all add: key_blob_def)
  have kl: "unat (bsize key) = length (vint_bytes k)" using length_blob_bytes [OF valid(1)] valid(2) by simp
  have u: "unat (bsize key + 4) = length ?bs" using kl vint_len_8 [OF k] by (simp add: unat_word_ariths)
  define pos where "pos = ps - total ?pls - length ?bs"
  from page_insert_payload_room [OF I(4) il, of "bsize key + 4"] fits free obtain p1 where
    ins: "page_insert_payload page (of_nat ps) index (bsize key + 4) = Inr (p1, pos)"
    and made: "made_room page ?i (length ?bs) p1"
    unfolding u pos_def by auto
  have ok: "payload_ok fl ?bs" by (rule payload_ok_inner [OF I(1,2) k])
  have at: "pos + length ?bs = ps - total ?pls" "12 + 2 * (length ks + 1) \<le> pos"
    using fits W(3) I(3) unfolding pos_def by simp_all
  have len: "length p1 = ps" using made D(1) by (simp add: made_room_def Let_def)
  let ?p2 = "store p1 pos ?bs"
  have st: "store (store p1 pos (le_bytes 4 c)) (pos + 4) (vint_bytes k) = ?p2"
    using store_store_append [of pos "le_bytes 4 c" "vint_bytes k" p1] at(1) len unfolding inner_entry_def by simp
  show thesis
  proof (rule that [of p1 pos ?p2])
    show "mem_write (store p1 pos (le_bytes 4 c)) (pos + 4) (vint_bytes k) = Inr ?p2"
      using at(1) len by (simp add: st)
    show "mem_read (bdata key) 0 (unat (bsize key)) = Inr (vint_bytes k)"
      using valid by (simp add: blob_valid_def fetch_blob_bytes)
    show "page_rep ps ?p2 fl (last cs) (insert_at ?i ?bs ?pls)" unfolding pos_def by (rule page_insert_fill(1) [OF I(4) il ok fits made])
    show "free_space (header_of ?p2) = free_space (header_of page) - of_nat (length ?bs + 2)" unfolding pos_def
      by (rule page_insert_fill(2) [OF I(4) il ok fits made])
    show "right (header_of p1) = last cs" using made D(6) by (simp add: made_room_def Let_def)
    show "12 \<le> length p1" using len D(1,4) by simp
    assume lt: "?i < length ks"
    have "cell_at ?p2 (Suc ?i) = cell_at p1 (Suc ?i)"
      using at lt len by (intro cell_at_store_after) simp_all
    also have "\<dots> = cell_at page ?i" using made lt D(7) I(3) by (simp add: made_room_def Let_def)
    finally show "off_at ?p2 (Suc ?i) = off_at page ?i" by simp
    have s: "unat (data_start (header_of page)) \<le> off_at page ?i" "off_at page ?i + length (?pls ! ?i) \<le> ps"
      "fetch page (off_at page ?i) (length (?pls ! ?i)) = ?pls ! ?i"
      using D(10) [of ?i] lt I(3) D(1) by (simp_all add: slot_ok_def)
    have e: "?pls ! ?i = inner_entry (cs ! ?i) (ks ! ?i)" by (rule inner_payloads_nth [OF I(3) lt])
    have le: "off_at page ?i + 4 \<le> ps" using s(2) by (simp add: e)
    then have "fetch p1 (off_at page ?i) 4 = fetch page (off_at page ?i) 4"
      using made s(1) D(1) by (simp add: made_room_def Let_def)
    also have "\<dots> = take 4 (fetch page (off_at page ?i) (length (?pls ! ?i)))" by (simp add: fetch_def e)
    also have "\<dots> = take 4 (?pls ! ?i)" by (simp only: s(3))
    also have "\<dots> = le_bytes 4 (cs ! ?i)" by (simp add: e inner_entry_def)
    finally show "mem_read p1 (off_at page ?i) 4 = Inr (le_bytes 4 (cs ! ?i))" using le len by simp
  qed (use ins at len in simp_all)
qed

lemma page_insert_inner_refused:
  assumes ip: "inner_readable ps fl page ks cs" and key: "key_blob key k" and k: "unat k < 2 ^ 56"
    and i: "unat index \<le> length ks" and full: "unat (free_space (header_of page)) < length (vint_bytes k) + 6"
  shows "page_insert_inner page (of_nat ps) index key pid = Inl Assertion_failed"
proof -
  have I: "length cs = Suc (length ks)" "page_rep ps page fl (last cs) (inner_payloads ks cs)"
    using ip by (simp_all add: inner_readable_def)
  have valid: "blob_valid key" "blob_bytes key = vint_bytes k" using key by (simp_all add: key_blob_def)
  have "unat (bsize key) = length (vint_bytes k)" using length_blob_bytes [OF valid(1)] valid(2) by simp
  then have u: "unat (bsize key + 4) = length (vint_bytes k) + 4" using vint_len_8 [OF k] by (simp add: unat_word_ariths)
  have ins: "page_insert_payload page (of_nat ps) index (bsize key + 4) = Inl Assertion_failed"
    using full vint_len_8 [OF k] by (intro page_insert_payload_full [OF I(2)]) (simp_all add: u)
  show ?thesis
  proof (cases "index = cell_count (header_of page)")
    case True
    then show ?thesis using ins page_repD(4) [OF I(2)] by (simp add: page_insert_inner_def)
  next
    case False
    then have lt: "unat index < length ks" using i page_repD(7) [OF I(2)] I(1) by (auto simp: word_unat_eq_iff)
    then have "off_at page (unat index) + 4 \<le> length page"
      using page_repD(10) [OF I(2), of "unat index"] I(1) by (simp add: slot_ok_def inner_payloads_nth)
    then have "page_get_payload page index = Inr (off_at page (unat index))"
      using page_get_payload_in [of index page] page_repD(3) [OF I(2)] lt I(1) by simp
    then show ?thesis using ins False page_repD(4) [OF I(2)] by (simp add: page_insert_inner_def)
  qed
qed

lemma page_insert_inner_stuck:
  assumes ip: "inner_page ps fl page ks cs" and "key_blob key k" and "unat k < 2 ^ 56"
    and "unat index = length ks" and "room page < length (vint_bytes k) + 6"
  shows "page_insert_inner page (of_nat ps) index key pid = Inl Assertion_failed"
  by (rule page_insert_inner_refused [OF inner_page_readable [OF ip] assms(2,3)])
    (use assms(1,4,5) in \<open>simp_all add: inner_page_def free_exact_def\<close>)

lemma page_insert_inner_last_claimed:
  assumes ip: "inner_readable ps fl page ks cs" and key: "key_blob key k" and k: "unat k < 2 ^ 56"
    and i: "unat index = length ks" and fits: "length (vint_bytes k) + 6 \<le> room page"
    and free: "length (vint_bytes k) + 6 \<le> unat (free_space (header_of page))"
  shows "\<exists>page'. page_insert_inner page (of_nat ps) index key pid = Inr page' \<and>
    inner_readable ps fl page' (insert_at (unat index) k ks) (insert_at (Suc (unat index)) pid cs) \<and>
    free_space (header_of page') = free_space (header_of page) - of_nat (length (vint_bytes k) + 6)"
proof -
  have I: "page_is_inner fl" "\<not> page_is_index_uuid fl" "length cs = Suc (length ks)"
    "page_rep ps page fl (last cs) (inner_payloads ks cs)" "\<forall>k \<in> set ks. unat k < 2 ^ 56"
    using ip by (simp_all add: inner_readable_def)
  have fits': "length (inner_entry (last cs) k) + 2 \<le> room page"
    "length (inner_entry (last cs) k) + 2 \<le> unat (free_space (header_of page))" using fits free by simp_all
  have i': "unat index \<le> length ks" using i by simp
  obtain p1 p2 pos where
    w: "page_insert_payload page (of_nat ps) index (bsize key + 4) = Inr (p1, pos)"
    "mem_write p1 pos (le_bytes 4 (last cs)) = Inr (store p1 pos (le_bytes 4 (last cs)))"
    "mem_read (bdata key) 0 (unat (bsize key)) = Inr (vint_bytes k)"
    "mem_write (store p1 pos (le_bytes 4 (last cs))) (pos + 4) (vint_bytes k) = Inr p2"
    and rep: "page_rep ps p2 fl (last cs) (insert_at (unat index) (inner_entry (last cs) k) (inner_payloads ks cs))"
    and p1: "free_space (header_of p2) = free_space (header_of page) - of_nat (length (inner_entry (last cs) k) + 2)" "right (header_of p1) = last cs" "12 \<le> length p1"
    by (rule inner_entry_written [OF ip key k i' fits']) (rule that)
  let ?q = "store p2 0 (header_bytes ((header_of p2)\<lparr>right := pid\<rparr>))"
  have "index = cell_count (header_of page)"
    using i page_repD(7) [OF I(4)] I(3) by (simp add: word_unat_eq_iff)
  then have "page_insert_inner page (of_nat ps) index key pid = Inr ?q"
    using w p1(2,3) page_repD(4) [OF I(4)] page_repD(4) [OF rep] by (simp add: page_insert_inner_def)
  moreover have "inner_payloads (insert_at (unat index) k ks) (insert_at (Suc (unat index)) pid cs) =
      insert_at (unat index) (inner_entry (last cs) k) (inner_payloads ks cs)"
    unfolding i by (rule inner_payloads_insert_last [OF I(3)])
  moreover have "last (insert_at (Suc (unat index)) pid cs) = pid"
    using I(3) i by (simp add: insert_at_def)
  ultimately show ?thesis
    using I k page_rep_right(1) [OF rep, of pid] p1(1) page_repD(4) [OF rep] by (simp add: inner_readable_def header_of_put add.commute)
qed

lemma page_insert_inner_before_claimed:
  assumes ip: "inner_readable ps fl page ks cs" and key: "key_blob key k" and k: "unat k < 2 ^ 56"
    and i: "unat index < length ks" and fits: "length (vint_bytes k) + 6 \<le> room page"
    and free: "length (vint_bytes k) + 6 \<le> unat (free_space (header_of page))"
  shows "\<exists>page'. page_insert_inner page (of_nat ps) index key pid = Inr page' \<and>
    inner_readable ps fl page' (insert_at (unat index) k ks) (insert_at (Suc (unat index)) pid cs) \<and>
    free_space (header_of page') = free_space (header_of page) - of_nat (length (vint_bytes k) + 6)"
proof -
  let ?i = "unat index"
  have I: "page_is_inner fl" "\<not> page_is_index_uuid fl" "length cs = Suc (length ks)"
    "page_rep ps page fl (last cs) (inner_payloads ks cs)" "\<forall>k \<in> set ks. unat k < 2 ^ 56"
    using ip by (simp_all add: inner_readable_def)
  have fits': "length (inner_entry (cs ! ?i) k) + 2 \<le> room page"
    "length (inner_entry (cs ! ?i) k) + 2 \<le> unat (free_space (header_of page))" using fits free by simp_all
  have i': "?i \<le> length ks" using i by simp
  let ?pls = "insert_at ?i (inner_entry (cs ! ?i) k) (inner_payloads ks cs)"
  obtain p1 p2 pos where
    w: "page_insert_payload page (of_nat ps) index (bsize key + 4) = Inr (p1, pos)"
    "mem_write p1 pos (le_bytes 4 (cs ! ?i)) = Inr (store p1 pos (le_bytes 4 (cs ! ?i)))"
    "mem_read (bdata key) 0 (unat (bsize key)) = Inr (vint_bytes k)"
    "mem_write (store p1 pos (le_bytes 4 (cs ! ?i))) (pos + 4) (vint_bytes k) = Inr p2"
    and rep: "page_rep ps p2 fl (last cs) ?pls" and fe: "free_space (header_of p2) = free_space (header_of page) - of_nat (length (inner_entry (cs ! ?i) k) + 2)"
    and off: "?i < length ks \<Longrightarrow> off_at p2 (Suc ?i) = off_at page ?i"
    and rd: "?i < length ks \<Longrightarrow> mem_read p1 (off_at page ?i) 4 = Inr (le_bytes 4 (cs ! ?i))"
    by (rule inner_entry_written [OF ip key k i' fits']) (rule that)
  note D = page_repD [OF rep]
  have e: "?pls ! Suc ?i = inner_entry (cs ! ?i) (ks ! ?i)"
    using i I(3) by (simp add: insert_at_nth inner_payloads_nth)
  have lt: "Suc ?i < length ?pls" using i I(3) by simp
  have s: "off_at p2 (Suc ?i) + length (?pls ! Suc ?i) \<le> length p2"
    "fetch p2 (off_at p2 (Suc ?i)) (length (?pls ! Suc ?i)) = ?pls ! Suc ?i"
    using D(10) [OF lt] by (simp_all add: slot_ok_def)
  let ?q = "store p2 (off_at page ?i) (le_bytes 4 pid)"
  have q: "?q = store p2 (off_at p2 (Suc ?i)) (inner_entry pid (ks ! ?i))"
    using store_prefix [OF s(2,1), of "le_bytes 4 pid"] off [OF i]
    unfolding e by (simp add: inner_entry_def)
  have ok: "payload_ok fl (inner_entry pid (ks ! ?i))" by (rule payload_ok_inner [OF I(1,2)]) (use I(5) i in simp)
  have l: "length (inner_entry pid (ks ! ?i)) = length (?pls ! Suc ?i)" by (simp add: e)
  note upd = page_rep_update [OF rep lt l ok, folded q]
  have le: "off_at page ?i + 4 \<le> length p2" using s(1) off [OF i] by (simp add: e)
  have P: "unat (cell_count (header_of page)) = length ks" using page_repD(7) [OF I(4)] I(3) by simp
  have "off_at page ?i + 4 \<le> length page"
    using page_repD(10) [OF I(4), of ?i] i I(3) by (simp add: slot_ok_def inner_payloads_nth)
  then have "page_get_payload page index = Inr (off_at page ?i)"
    using page_get_payload_in [of index page] page_repD(3) [OF I(4)] i I(3) by simp
  moreover have "index \<noteq> cell_count (header_of page)" using i P by auto
  ultimately have "page_insert_inner page (of_nat ps) index key pid = Inr ?q"
    using w rd [OF i] le page_repD(4) [OF I(4)] by (simp add: page_insert_inner_def)
  moreover have "inner_payloads (insert_at ?i k ks) (insert_at (Suc ?i) pid cs) = ?pls[Suc ?i := inner_entry pid (ks ! ?i)]"
    by (rule inner_payloads_insert_before [OF I(3) i])
  moreover have "last (insert_at (Suc ?i) pid cs) = last cs" by (rule last_insert_at) (use i I(3) in simp)
  moreover have "free_space (header_of ?q) = free_space (header_of page) - of_nat (length (vint_bytes k) + 6)"
    using fe upd(2) by (simp add: add.commute)
  ultimately show ?thesis using I k upd(1) by (simp add: inner_readable_def)
qed

lemma page_insert_inner_claimed:
  assumes "inner_readable ps fl page ks cs" and "key_blob key k" and "unat k < 2 ^ 56"
    and "unat index \<le> length ks" and "length (vint_bytes k) + 6 \<le> room page"
    and "length (vint_bytes k) + 6 \<le> unat (free_space (header_of page))"
  shows "\<exists>page'. page_insert_inner page (of_nat ps) index key pid = Inr page' \<and>
    inner_readable ps fl page' (insert_at (unat index) k ks) (insert_at (Suc (unat index)) pid cs) \<and>
    free_space (header_of page') = free_space (header_of page) - of_nat (length (vint_bytes k) + 6)"
  using page_insert_inner_last_claimed [OF assms(1-3) _ assms(5,6)] page_insert_inner_before_claimed [OF assms(1-3) _ assms(5,6)] assms(4)
  by (cases "unat index = length ks") auto

text \<open>On a page whose header says the truth, it does so afterwards.\<close>

lemma sum_list_take_drop: "sum_list (take n xs) + sum_list (drop n xs) = sum_list (xs :: nat list)"
  by (simp flip: sum_list_append)

lemma inner_room: "inner_readable ps fl page ks cs \<Longrightarrow> room page = ps - 12 - sum_list (map (\<lambda>k. length (vint_bytes k) + 6) ks)"
proof -
  assume ip: "inner_readable ps fl page ks cs"
  have I: "length cs = Suc (length ks)" "page_rep ps page fl (last cs) (inner_payloads ks cs)" using ip by (simp_all add: inner_readable_def)
  have "length xs = length ks \<Longrightarrow> total (map2 inner_entry xs ks) + 2 * length ks = sum_list (map (\<lambda>k. length (vint_bytes k) + 6) ks)" for xs
    by (induction xs ks rule: list_induct2') simp_all
  then have "total (inner_payloads ks cs) + 2 * length ks = sum_list (map (\<lambda>k. length (vint_bytes k) + 6) ks)"
    using I(1) by (simp add: inner_payloads_def)
  then show ?thesis using page_rep_words(3) [OF I(2)] I(1) by simp
qed

lemma page_insert_inner_correct:
  assumes ip: "inner_page ps fl page ks cs" and "key_blob key k" and "unat k < 2 ^ 56"
    and "unat index \<le> length ks" and fits: "length (vint_bytes k) + 6 \<le> room page"
  shows "\<exists>page'. page_insert_inner page (of_nat ps) index key pid = Inr page' \<and>
    inner_page ps fl page' (insert_at (unat index) k ks) (insert_at (Suc (unat index)) pid cs)"
proof -
  have fe: "unat (free_space (header_of page)) = room page" using ip by (simp add: inner_page_def free_exact_def)
  from page_insert_inner_claimed [OF inner_page_readable [OF ip] assms(2-5), of pid] fits obtain page' where
    p: "page_insert_inner page (of_nat ps) index key pid = Inr page'"
    "inner_readable ps fl page' (insert_at (unat index) k ks) (insert_at (Suc (unat index)) pid cs)"
    "free_space (header_of page') = free_space (header_of page) - of_nat (length (vint_bytes k) + 6)" unfolding fe by blast
  have "free_space (header_of page) = of_nat (room page)" using fe by (metis of_nat_unat ucast_id)
  then have "free_space (header_of page') = of_nat (room page - (length (vint_bytes k) + 6))"
    using fits by (simp only: p(3) of_nat_diff)
  moreover have "room page < 2 ^ 16" using fe unsigned_less [of "free_space (header_of page)", where ?'a = nat] by simp
  ultimately have "unat (free_space (header_of page')) = room page - (length (vint_bytes k) + 6)" by (simp only: unat_of_nat_u16_lt)
  moreover have "sum_list (map (\<lambda>k. length (vint_bytes k) + 6) (insert_at (unat index) k ks)) =
      length (vint_bytes k) + 6 + sum_list (map (\<lambda>k. length (vint_bytes k) + 6) ks)"
    using sum_list_take_drop [of "unat index" "map (\<lambda>k. length (vint_bytes k) + 6) ks"] by (simp add: insert_at_def take_map drop_map)
  then have "room page' = room page - (length (vint_bytes k) + 6)"
    using inner_room [OF p(2)] inner_room [OF inner_page_readable [OF ip]] by simp
  ultimately have "free_exact page'" by (simp add: free_exact_def)
  with p show ?thesis by (auto simp: inner_page_def inner_readable_def)
qed

section \<open>Which child a key leads to\<close>

definition key_rank :: "u64 list \<Rightarrow> u64 \<Rightarrow> nat" where
  "key_rank ks x = length (filter (\<lambda>y. y < x) ks)"

definition route :: "u64 list \<Rightarrow> page_id_t list \<Rightarrow> u64 \<Rightarrow> page_id_t" where
  "route ks cs x = cs ! key_rank ks x"

lemma key_rank_mono: "x \<le> k \<Longrightarrow> key_rank ks x \<le> key_rank ks k"
  by (induction ks) (auto simp: key_rank_def dest: less_le_trans)

lemma key_rank_le: "key_rank ks k \<le> length ks"
  by (simp add: key_rank_def)

lemma key_rank_insert: "key_rank (insert_at i k ks) x = key_rank ks x + (if k < x then 1 else 0)"
proof -
  have "filter P (take i ks) @ filter P (drop i ks) = filter P ks" for P
    by (metis append_take_drop_id filter_append)
  then have "length (filter P (take i ks)) + length (filter P (drop i ks)) = length (filter P ks)" for P
    by (metis length_append)
  then show ?thesis by (simp add: key_rank_def insert_at_def)
qed

lemma route_insert:
  assumes "length cs = Suc (length ks)"
  shows "route (insert_at (key_rank ks k) k ks) (insert_at (Suc (key_rank ks k)) c cs) x =
    (if k < x \<and> key_rank ks x = key_rank ks k then c else route ks cs x)"
proof (cases "k < x")
  case True
  then have "key_rank ks k \<le> key_rank ks x" by (intro key_rank_mono) simp
  then show ?thesis
    using True assms key_rank_le [of ks x] key_rank_le [of ks k]
    by (auto simp: route_def key_rank_insert insert_at_nth)
next
  case False
  then have "key_rank ks x \<le> key_rank ks k" by (intro key_rank_mono) (simp add: not_less)
  then show ?thesis
    using False assms key_rank_le [of ks k] by (simp add: route_def key_rank_insert insert_at_nth)
qed

section \<open>Properties\<close>

text \<open>
  C27: \<^verbatim>\<open>page_insert_inner\<close>, called with the position of the split key, inserts that key and
  puts the new page to the right of the child that was split. The page stays well formed;
  a search for a key goes to the new page exactly if it went to the split child before and
  is greater than the split key, and all other searches go where they went.
\<close>

theorem page_insert_inner_routes:
  assumes "inner_page ps fl page ks cs" and "key_blob key k" and "unat k < 2 ^ 56"
    and "length (vint_bytes k) + 6 \<le> room page" and "unat index = key_rank ks k"
  shows "\<exists>page'. page_insert_inner page (of_nat ps) index key pid = Inr page' \<and>
    inner_page ps fl page' (insert_at (key_rank ks k) k ks) (insert_at (Suc (key_rank ks k)) pid cs) \<and>
    (\<forall>x. route (insert_at (key_rank ks k) k ks) (insert_at (Suc (key_rank ks k)) pid cs) x =
      (if k < x \<and> key_rank ks x = key_rank ks k then pid else route ks cs x))"
proof -
  have "length cs = Suc (length ks)" using assms(1) by (simp add: inner_page_def)
  note r = route_insert [OF this, of k pid]
  have "unat index \<le> length ks" using assms(5) key_rank_le [of ks k] by simp
  from page_insert_inner_correct [OF assms(1-3) this assms(4), of pid]
  have "\<exists>page'. page_insert_inner page (of_nat ps) index key pid = Inr page' \<and>
      inner_page ps fl page' (insert_at (unat index) k ks) (insert_at (Suc (unat index)) pid cs)" .
  then show ?thesis unfolding assms(5) using r by blast
qed

text \<open>An inner page with one child and no key, to which the theorem applies.\<close>

lemma example_inner: "\<exists>page. inner_page 64 2 page [] [7]"
proof -
  let ?h = "\<lparr>cell_count = 0, data_start = 64, free_space = 52, flags = 2, right = 7\<rparr>"
  have "header_of (store (replicate 64 0) 0 (header_bytes ?h)) = ?h" by (rule header_of_put) simp
  then have "inner_page 64 2 (store (replicate 64 0) 0 (header_bytes ?h)) [] [7]"
    by (simp add: inner_page_def inner_payloads_def page_rep_def free_exact_def room_def disjoint_slots_def
        page_is_inner_def page_is_index_uuid_def PAGE_FLAG_LEAF_def PAGE_FLAG_INDEX_UUID_def)
  then show ?thesis by blast
qed

theorem page_insert_inner_routes_witness:
  "\<exists>page page'. page_insert_inner page (of_nat 64) 0 (key_blob_of 5) 9 = Inr page' \<and>
    inner_page 64 2 page' [5] [7, 9] \<and> route [5] [7, 9] 6 = 9 \<and> route [5] [7, 9] 5 = 7"
proof -
  from example_inner obtain page where ip: "inner_page 64 2 page [] [7]" by blast
  then have room: "room page = 52"
    using page_rep_words(3) [of 64 page 2 7 "[]"] by (simp add: inner_page_def inner_payloads_def)
  have kb: "key_blob (key_blob_of 5) 5" by (rule key_blob_of) (simp add: id_ok_def)
  from page_insert_inner_routes [OF ip kb, of 0 9] obtain page' where
    p: "page_insert_inner page (of_nat 64) 0 (key_blob_of 5) 9 = Inr page'"
    "inner_page 64 2 page' (insert_at (key_rank [] 5) 5 []) (insert_at (Suc (key_rank [] 5)) 9 [7])"
    "\<forall>x. route (insert_at (key_rank [] 5) 5 []) (insert_at (Suc (key_rank [] 5)) 9 [7]) x =
      (if 5 < x \<and> key_rank [] x = key_rank [] 5 then 9 else route [] [7] x)"
    by (auto simp: room key_rank_def vint_bytes.simps)
  have "inner_page 64 2 page' [5] [7, 9]" using p(2) by (simp add: key_rank_def insert_at_def)
  moreover have "route [5] [7, 9] 6 = 9" "route [5] [7, 9] 5 = 7"
    by (simp_all add: route_def key_rank_def)
  ultimately show ?thesis using p(1) by blast
qed

end
