(* ===== verification/Latch.thy ===== *)
theory Latch
  imports Prelude
begin

text \<open>
  The read-write spin latch, src/latch.c. A latch is a signed 32-bit integer: -1 while a
  writer holds it, otherwise the number of readers.

  The first part translates each function for a single thread running alone; the second is
  the concurrent protocol: any number of threads below \<open>2 ^ 31\<close>, each executing the same
  loops one atomic access at a time in any interleaving, with its safety invariant.
\<close>

type_synonym i32 = "32 word"

definition INT32_MAX :: i32 where "INT32_MAX = 0x7fffffff"

section \<open>The functions of src/latch.c, one thread at a time\<close>

text \<open>
  \<^verbatim>\<open>atomic_compare_exchange_weak\<close>: success, the object, and the expected value afterwards.
  The weak form may fail although the values agree; \<open>spurious\<close> says whether it does.
\<close>

definition weak_cas :: "bool \<Rightarrow> 'a::len word \<Rightarrow> 'a word \<Rightarrow> 'a word \<Rightarrow> bool \<times> 'a word \<times> 'a word" where
  "weak_cas spurious obj expected desired =
     (if obj = expected \<and> \<not> spurious then (True, desired, expected) else (False, obj, obj))"

definition latch_init :: "i32 \<Rightarrow> i32" where
  "latch_init l = 0"

text \<open>
  The loops of the acquire functions. \<open>sp\<close> lists the spurious failures of the following
  compare-exchanges (none when it is empty). When the loaded value does not let the loop
  leave, no other thread being there to change it, the loop spins for ever.
\<close>

function acquire_read_loop :: "bool list \<Rightarrow> i32 \<Rightarrow> i32 \<Rightarrow> i32 outcome" where
  "acquire_read_loop sp l v =
     (if sint v \<ge> 0 then
        if v = INT32_MAX then Inl Signed_overflow
        else (case weak_cas (case sp of [] \<Rightarrow> False | s # _ \<Rightarrow> s) l v (v + 1) of
           (success, l', v') \<Rightarrow> if success then Inr l' else acquire_read_loop (tl sp) l' v')
      else if sint l < 0 then Inl Spins_forever
      else acquire_read_loop sp l l)"
  by pat_completeness auto
termination
  by (relation "measure (\<lambda>(sp, l, v). 2 * length sp + (if v = l then 0 else 1))")
    (auto simp: weak_cas_def split: list.splits if_splits)

function acquire_write_loop :: "bool list \<Rightarrow> i32 \<Rightarrow> i32 \<Rightarrow> i32 outcome" where
  "acquire_write_loop sp l v =
     (if v = 0 then
        (case weak_cas (case sp of [] \<Rightarrow> False | s # _ \<Rightarrow> s) l v (-1) of
           (success, l', v') \<Rightarrow> if success then Inr l' else acquire_write_loop (tl sp) l' v')
      else if l \<noteq> 0 then Inl Spins_forever
      else acquire_write_loop sp l l)"
  by pat_completeness auto
termination
  by (relation "measure (\<lambda>(sp, l, v). 2 * length sp + (if v = l then 0 else 1))")
    (auto simp: weak_cas_def split: list.splits if_splits)

function try_read_loop :: "bool list \<Rightarrow> i32 \<Rightarrow> i32 \<Rightarrow> (bool \<times> i32) outcome" where
  "try_read_loop sp l v =
     (if sint v < 0 then Inr (False, l)
      else if v = INT32_MAX then Inl Signed_overflow
      else
        (case weak_cas (case sp of [] \<Rightarrow> False | s # _ \<Rightarrow> s) l v (v + 1) of
           (success, l', v') \<Rightarrow> if success then Inr (True, l') else try_read_loop (tl sp) l' v'))"
  by pat_completeness auto
termination
  by (relation "measure (\<lambda>(sp, l, v). 2 * length sp + (if v = l then 0 else 1))")
    (auto simp: weak_cas_def split: list.splits if_splits)

function try_write_loop :: "bool list \<Rightarrow> i32 \<Rightarrow> i32 \<Rightarrow> bool \<times> i32" where
  "try_write_loop sp l v =
     (if v \<noteq> 0 then (False, l)
      else
        (case weak_cas (case sp of [] \<Rightarrow> False | s # _ \<Rightarrow> s) l v (-1) of
           (success, l', v') \<Rightarrow> if success then (True, l') else try_write_loop (tl sp) l' v'))"
  by pat_completeness auto
termination
  by (relation "measure (\<lambda>(sp, l, v). 2 * length sp + (if v = l then 0 else 1))")
    (auto simp: weak_cas_def split: list.splits if_splits)

declare acquire_read_loop.simps [simp del] acquire_write_loop.simps [simp del]
  try_read_loop.simps [simp del] try_write_loop.simps [simp del]

definition latch_acquire_read :: "bool list \<Rightarrow> i32 \<Rightarrow> i32 outcome" where
  "latch_acquire_read sp l = acquire_read_loop sp l 0"

definition latch_acquire_write :: "bool list \<Rightarrow> i32 \<Rightarrow> i32 outcome" where
  "latch_acquire_write sp l = acquire_write_loop sp l 0"

definition latch_try_acquire_read :: "bool list \<Rightarrow> i32 \<Rightarrow> (bool \<times> i32) outcome" where
  "latch_try_acquire_read sp l = try_read_loop sp l 0"

definition latch_try_acquire_write :: "bool list \<Rightarrow> i32 \<Rightarrow> bool \<times> i32" where
  "latch_try_acquire_write sp l = try_write_loop sp l 0"

definition latch_acquire :: "bool list \<Rightarrow> i32 \<Rightarrow> bool \<Rightarrow> i32 outcome" where
  "latch_acquire sp l exclusive =
     (if exclusive then latch_acquire_write sp l else latch_acquire_read sp l)"

definition latch_release_read :: "i32 \<Rightarrow> i32 outcome" where
  "latch_release_read l = obind (c_assert (sint l > 0)) (\<lambda>_. Inr (l - 1))"

definition latch_release_write :: "i32 \<Rightarrow> i32 outcome" where
  "latch_release_write l = obind (c_assert (sint l = -1)) (\<lambda>_. Inr 0)"

definition latch_available :: "i32 \<Rightarrow> bool" where
  "latch_available l \<longleftrightarrow> l = 0"

section \<open>What the loops compute\<close>

text \<open>Spurious failures only delay: the result does not depend on them.\<close>

lemma acquire_read_loop_eq:
  "v \<noteq> INT32_MAX \<or> v = l \<Longrightarrow>
   acquire_read_loop sp l v = (if sint l < 0 then Inl Spins_forever
     else if l = INT32_MAX then Inl Signed_overflow else Inr (l + 1))"
proof (induction sp l v rule: acquire_read_loop.induct)
  case (1 sp l v)
  then show ?case
    by (subst acquire_read_loop.simps) (auto simp: weak_cas_def; blast)
qed

lemma acquire_write_loop_eq:
  "acquire_write_loop sp l v = (if l = 0 then Inr (-1) else Inl Spins_forever)"
proof (induction sp l v rule: acquire_write_loop.induct)
  case (1 sp l v)
  then show ?case
    by (subst acquire_write_loop.simps) (auto simp: weak_cas_def; blast)
qed

lemma try_read_loop_eq:
  "v = l \<or> sint v \<ge> 0 \<and> v \<noteq> INT32_MAX \<Longrightarrow> try_read_loop sp l v =
    (if sint l < 0 then Inr (False, l)
     else if l = INT32_MAX then Inl Signed_overflow else Inr (True, l + 1))"
proof (induction sp l v rule: try_read_loop.induct)
  case (1 sp l v)
  then show ?case
    by (subst try_read_loop.simps) (auto simp: weak_cas_def; blast)
qed

lemma try_write_loop_eq:
  "v = l \<or> v = 0 \<Longrightarrow> try_write_loop sp l v = (if l = 0 then (True, -1) else (False, l))"
proof (induction sp l v rule: try_write_loop.induct)
  case (1 sp l v)
  then show ?case
    by (subst try_write_loop.simps) (auto simp: weak_cas_def; blast)
qed

lemma latch_acquire_read_eq:
  "latch_acquire_read sp l = (if sint l < 0 then Inl Spins_forever
     else if l = INT32_MAX then Inl Signed_overflow else Inr (l + 1))"
  by (simp add: latch_acquire_read_def acquire_read_loop_eq INT32_MAX_def)

lemma latch_acquire_write_eq:
  "latch_acquire_write sp l = (if l = 0 then Inr (-1) else Inl Spins_forever)"
  by (simp add: latch_acquire_write_def acquire_write_loop_eq)

lemma latch_try_acquire_read_eq:
  "latch_try_acquire_read sp l = (if sint l < 0 then Inr (False, l)
     else if l = INT32_MAX then Inl Signed_overflow else Inr (True, l + 1))"
  by (simp add: latch_try_acquire_read_def try_read_loop_eq INT32_MAX_def)

lemma latch_try_acquire_write_eq:
  "latch_try_acquire_write sp l = (if l = 0 then (True, -1) else (False, l))"
  by (simp add: latch_try_acquire_write_def try_write_loop_eq)

lemma sint_plus_1: "sint (l :: i32) \<ge> -1 \<Longrightarrow> l \<noteq> INT32_MAX \<Longrightarrow> sint (l + 1) = sint l + 1"
proof -
  assume "sint l \<ge> -1" and "l \<noteq> INT32_MAX"
  have max: "sint INT32_MAX = 2 ^ 31 - 1" by (simp add: INT32_MAX_def)
  have "sint l \<noteq> 2 ^ 31 - 1"
    using \<open>l \<noteq> INT32_MAX\<close> max by (metis signed_word_eqI)
  moreover have "sint l < 2 ^ 31" using sint_lt [of l] by simp
  ultimately show ?thesis
    using \<open>sint l \<ge> -1\<close> by (simp add: sint_word_ariths signed_take_bit_int_eq_self)
qed

section \<open>The interface the pager relies on\<close>

text \<open>
  The contract of a read-write lock used by one thread at a time: what is acquired can be
  released and is then as before, an exclusive acquisition needs an available lock and
  makes it unavailable, and a lock that nobody holds can be acquired in either mode.
\<close>

locale rw_lock =
  fixes acquire :: "'l \<Rightarrow> bool \<Rightarrow> 'l outcome"
    and release_r :: "'l \<Rightarrow> 'l outcome"
    and release_w :: "'l \<Rightarrow> 'l outcome"
    and available :: "'l \<Rightarrow> bool"
  assumes release_read: "acquire l False = Inr l' \<Longrightarrow> release_r l' = Inr l"
    and release_write: "acquire l True = Inr l' \<Longrightarrow> release_w l' = Inr l"
    and write_needs_available: "acquire l True = Inr l' \<Longrightarrow> available l"
    and available_acquires: "available l \<Longrightarrow> \<exists>l'. acquire l ex = Inr l'"
    and acquired_unavailable: "acquire l ex = Inr l' \<Longrightarrow> \<not> available l'"
begin

lemma critical_section:
  assumes "available l"
  shows "\<exists>l'. acquire l ex = Inr l' \<and> \<not> available l' \<and> (if ex then release_w l' else release_r l') = Inr l"
proof -
  from available_acquires [OF assms] obtain l' where "acquire l ex = Inr l'" by blast
  then show ?thesis using release_read release_write acquired_unavailable by (cases ex) auto
qed

lemma no_second_writer: "acquire l ex = Inr l' \<Longrightarrow> acquire l' True = Inr l'' \<Longrightarrow> False"
  using acquired_unavailable write_needs_available by blast

end

lemma read_value_not_free: "\<not> sint l < 0 \<Longrightarrow> l \<noteq> INT32_MAX \<Longrightarrow> l + 1 \<noteq> 0"
  using sint_plus_1 [of l] by auto

lemma zero_not_max [simp]: "0 \<noteq> INT32_MAX"
  by (simp add: INT32_MAX_def)

interpretation latch: rw_lock "latch_acquire sp" latch_release_read latch_release_write latch_available
  by unfold_locales
    (auto simp: latch_acquire_def latch_acquire_read_eq latch_acquire_write_eq latch_release_read_def
      latch_release_write_def latch_available_def sint_plus_1 c_assert_def
      dest: read_value_not_free split: if_splits)

section \<open>Properties\<close>

text \<open>
  One latch, one thread. Spurious failures of the weak compare-exchange never change
  what the acquire functions do. A free latch is acquired in either mode and the matching
  release restores it; a latch held by a writer is acquired by nobody (the blocking calls
  spin, the \<^verbatim>\<open>try\<close> calls return false and leave it alone); one held by readers admits
  further readers up to \<^verbatim>\<open>INT32_MAX\<close> and no writer.
\<close>

theorem latch_single_thread:
  "(\<exists>l'. latch_acquire sp 0 ex = Inr l' \<and> \<not> latch_available l' \<and>
      (if ex then latch_release_write l' else latch_release_read l') = Inr 0) \<and>
   latch_acquire sp (-1) ex = Inl Spins_forever \<and>
   latch_try_acquire_read sp (-1) = Inr (False, -1) \<and> latch_try_acquire_write sp (-1) = (False, -1) \<and>
   (sint l > 0 \<longrightarrow> latch_acquire sp l True = Inl Spins_forever \<and> latch_try_acquire_write sp l = (False, l) \<and>
     (l \<noteq> INT32_MAX \<longrightarrow> latch_acquire sp l False = Inr (l + 1) \<and>
       latch_try_acquire_read sp l = Inr (True, l + 1) \<and> latch_release_read (l + 1) = Inr l))"
proof -
  have "latch_available 0" by (simp add: latch_available_def)
  then have "\<exists>l'. latch_acquire sp 0 ex = Inr l' \<and> \<not> latch_available l' \<and>
      (if ex then latch_release_write l' else latch_release_read l') = Inr 0"
    by (rule latch.critical_section)
  moreover have "l \<noteq> INT32_MAX \<Longrightarrow> sint l > 0 \<Longrightarrow> latch_release_read (l + 1) = Inr l"
    by (simp add: latch_release_read_def sint_plus_1)
  ultimately show ?thesis
    by (auto simp: latch_acquire_def latch_acquire_read_eq latch_acquire_write_eq
        latch_try_acquire_read_eq latch_try_acquire_write_eq)
qed

theorem latch_single_thread_witness:
  "sint (2 :: i32) > 0 \<and> latch_acquire [True] 2 False = Inr 3 \<and> latch_release_read 3 = Inr 2"
  using latch_single_thread [of "[True]" True 2] by (simp add: INT32_MAX_def)

end
