(* ===== verification/LatchProtocol.thy ===== *)
theory LatchProtocol
  imports Latch
begin

text \<open>
  The latch of src/latch.c shared by many threads. Each thread runs the functions of
  latch.c; a step is one atomic access of one thread, so every interleaving of the loops is
  a sequence of steps. The weak compare-exchange may fail spuriously at any time.
\<close>

section \<open>Threads and steps\<close>

text \<open>
  Where a thread is: outside, inside one of the four acquire loops with the local variable
  \<^verbatim>\<open>value\<close>, holding the latch, between the assertion and the store of a release, or stopped by a
  failed assertion or a signed overflow.
\<close>

datatype pc =
    Idle
  | Acquire_read i32
  | Acquire_write i32
  | Try_read i32
  | Try_write i32
  | Reading
  | Writing
  | Release_read
  | Release_write
  | Aborted

record latch_sys =
  lword :: i32
  pcs :: "nat \<Rightarrow> pc"

definition init_sys :: latch_sys where
  "init_sys = \<lparr>lword = 0, pcs = (\<lambda>_. Idle)\<rparr>"

inductive thread_step :: "nat \<Rightarrow> latch_sys \<Rightarrow> latch_sys \<Rightarrow> bool" for i :: nat where
  call_read: "pcs s i = Idle \<Longrightarrow> thread_step i s (s\<lparr>pcs := (pcs s)(i := Acquire_read 0)\<rparr>)"
| call_write: "pcs s i = Idle \<Longrightarrow> thread_step i s (s\<lparr>pcs := (pcs s)(i := Acquire_write 0)\<rparr>)"
| call_try_read: "pcs s i = Idle \<Longrightarrow> thread_step i s (s\<lparr>pcs := (pcs s)(i := Try_read 0)\<rparr>)"
| call_try_write: "pcs s i = Idle \<Longrightarrow> thread_step i s (s\<lparr>pcs := (pcs s)(i := Try_write 0)\<rparr>)"
| read_cas: "pcs s i = Acquire_read v \<Longrightarrow> sint v \<ge> 0 \<Longrightarrow> v \<noteq> INT32_MAX \<Longrightarrow>
    weak_cas sp (lword s) v (v + 1) = (success, l', v') \<Longrightarrow>
    thread_step i s (s\<lparr>lword := l', pcs := (pcs s)(i := if success then Reading else Acquire_read v')\<rparr>)"
| read_overflow: "pcs s i = Acquire_read v \<or> pcs s i = Try_read v \<Longrightarrow> v = INT32_MAX \<Longrightarrow>
    thread_step i s (s\<lparr>pcs := (pcs s)(i := Aborted)\<rparr>)"
| read_load: "pcs s i = Acquire_read v \<Longrightarrow> sint v < 0 \<Longrightarrow>
    thread_step i s (s\<lparr>pcs := (pcs s)(i := Acquire_read (lword s))\<rparr>)"
| write_cas: "pcs s i = Acquire_write v \<Longrightarrow> v = 0 \<Longrightarrow>
    weak_cas sp (lword s) v (-1) = (success, l', v') \<Longrightarrow>
    thread_step i s (s\<lparr>lword := l', pcs := (pcs s)(i := if success then Writing else Acquire_write v')\<rparr>)"
| write_load: "pcs s i = Acquire_write v \<Longrightarrow> v \<noteq> 0 \<Longrightarrow>
    thread_step i s (s\<lparr>pcs := (pcs s)(i := Acquire_write (lword s))\<rparr>)"
| try_read_cas: "pcs s i = Try_read v \<Longrightarrow> sint v \<ge> 0 \<Longrightarrow> v \<noteq> INT32_MAX \<Longrightarrow>
    weak_cas sp (lword s) v (v + 1) = (success, l', v') \<Longrightarrow>
    thread_step i s (s\<lparr>lword := l', pcs := (pcs s)(i := if success then Reading else Try_read v')\<rparr>)"
| try_read_false: "pcs s i = Try_read v \<Longrightarrow> sint v < 0 \<Longrightarrow>
    thread_step i s (s\<lparr>pcs := (pcs s)(i := Idle)\<rparr>)"
| try_write_cas: "pcs s i = Try_write v \<Longrightarrow> v = 0 \<Longrightarrow>
    weak_cas sp (lword s) v (-1) = (success, l', v') \<Longrightarrow>
    thread_step i s (s\<lparr>lword := l', pcs := (pcs s)(i := if success then Writing else Try_write v')\<rparr>)"
| try_write_false: "pcs s i = Try_write v \<Longrightarrow> v \<noteq> 0 \<Longrightarrow>
    thread_step i s (s\<lparr>pcs := (pcs s)(i := Idle)\<rparr>)"
| release_read_assert: "pcs s i = Reading \<Longrightarrow>
    thread_step i s (s\<lparr>pcs := (pcs s)(i := if sint (lword s) > 0 then Release_read else Aborted)\<rparr>)"
| release_read_sub: "pcs s i = Release_read \<Longrightarrow>
    thread_step i s (s\<lparr>lword := lword s - 1, pcs := (pcs s)(i := Idle)\<rparr>)"
| release_write_assert: "pcs s i = Writing \<Longrightarrow>
    thread_step i s (s\<lparr>pcs := (pcs s)(i := if sint (lword s) = -1 then Release_write else Aborted)\<rparr>)"
| release_write_store: "pcs s i = Release_write \<Longrightarrow>
    thread_step i s (s\<lparr>lword := 0, pcs := (pcs s)(i := Idle)\<rparr>)"

text \<open>The states that \<open>n\<close> threads can bring the latch into.\<close>

inductive reachable :: "nat \<Rightarrow> latch_sys \<Rightarrow> bool" for n :: nat where
  start: "reachable n init_sys"
| step: "reachable n s \<Longrightarrow> i < n \<Longrightarrow> thread_step i s t \<Longrightarrow> reachable n t"

section \<open>The invariant\<close>

fun is_reader :: "pc \<Rightarrow> bool" where
  "is_reader Reading = True" | "is_reader Release_read = True" | "is_reader _ = False"

fun is_writer :: "pc \<Rightarrow> bool" where
  "is_writer Writing = True" | "is_writer Release_write = True" | "is_writer _ = False"

definition readers :: "latch_sys \<Rightarrow> nat set" where
  "readers s = {i. is_reader (pcs s i)}"

definition writers :: "latch_sys \<Rightarrow> nat set" where
  "writers s = {i. is_writer (pcs s i)}"

text \<open>The local value of a thread inside a read loop.\<close>

fun loop_value :: "pc \<Rightarrow> i32 option" where
  "loop_value (Acquire_read v) = Some v" | "loop_value (Try_read v) = Some v" | "loop_value _ = None"

text \<open>What the word says about the holders.\<close>

definition word_ok :: "i32 \<Rightarrow> nat set \<Rightarrow> nat set \<Rightarrow> bool" where
  "word_ok l R W \<longleftrightarrow> W = {} \<and> l = of_nat (card R) \<or> (\<exists>w. W = {w}) \<and> R = {} \<and> l = -1"

definition latch_inv :: "nat \<Rightarrow> latch_sys \<Rightarrow> bool" where
  "latch_inv n s \<longleftrightarrow>
     (\<forall>i \<ge> n. pcs s i = Idle) \<and> (\<forall>i. pcs s i \<noteq> Aborted) \<and>
     (\<forall>i v. loop_value (pcs s i) = Some v \<longrightarrow> sint v < int n) \<and>
     word_ok (lword s) (readers s) (writers s)"

lemma readers_upd [simp]:
  "readers (s\<lparr>pcs := (pcs s)(i := p)\<rparr>) = (if is_reader p then insert i (readers s) else readers s - {i})"
  "readers (s\<lparr>lword := l, pcs := (pcs s)(i := p)\<rparr>) = (if is_reader p then insert i (readers s) else readers s - {i})"
  by (auto simp: readers_def)

lemma writers_upd [simp]:
  "writers (s\<lparr>pcs := (pcs s)(i := p)\<rparr>) = (if is_writer p then insert i (writers s) else writers s - {i})"
  "writers (s\<lparr>lword := l, pcs := (pcs s)(i := p)\<rparr>) = (if is_writer p then insert i (writers s) else writers s - {i})"
  by (auto simp: writers_def)

lemma in_readers [simp]: "i \<in> readers s \<longleftrightarrow> is_reader (pcs s i)"
  by (simp add: readers_def)

lemma in_writers [simp]: "i \<in> writers s \<longleftrightarrow> is_writer (pcs s i)"
  by (simp add: writers_def)

lemma word_ok_card: "word_ok l R W \<Longrightarrow> R \<subseteq> {..<n} \<Longrightarrow> n < 2 ^ 31 \<Longrightarrow> W = {} \<Longrightarrow> sint l = int (card R)"
proof -
  assume "word_ok l R W" and "R \<subseteq> {..<n}" and "n < 2 ^ 31" and "W = {}"
  then have "l = of_nat (card R)" by (auto simp: word_ok_def)
  moreover have "card R \<le> n" using card_mono [OF _ \<open>R \<subseteq> {..<n}\<close>] by simp
  ultimately show ?thesis using \<open>n < 2 ^ 31\<close> by (simp add: signed_of_nat signed_take_bit_int_eq_self)
qed

text \<open>The four ways the word changes.\<close>

lemma word_ok_add_reader:
  assumes "word_ok l R W" and "finite R" and "i \<notin> R" and "sint l \<ge> 0"
  shows "word_ok (l + 1) (insert i R) W"
  using assms by (auto simp: word_ok_def)

lemma word_ok_add_writer:
  assumes "word_ok 0 R W" and "R \<subseteq> {..<n}" and "n < 2 ^ 31"
  shows "word_ok (-1) R (insert i W)"
proof -
  have "W = {}" using assms(1) by (auto simp: word_ok_def)
  moreover have "finite R" using assms(2) by (rule finite_subset) simp
  ultimately have "R = {}" using word_ok_card [OF assms] by simp
  with \<open>W = {}\<close> show ?thesis by (auto simp: word_ok_def)
qed

lemma word_ok_remove_reader:
  assumes "word_ok l R W" and "finite R" and "i \<in> R"
  shows "word_ok (l - 1) (R - {i}) W"
proof -
  from assms(3) obtain R' where "R = insert i R'" and "i \<notin> R'" by (meson mk_disjoint_insert)
  with assms(1,2) show ?thesis by (auto simp: word_ok_def)
qed

lemma word_ok_remove_writer: "word_ok l R W \<Longrightarrow> i \<in> W \<Longrightarrow> word_ok 0 R (W - {i})"
  by (auto simp: word_ok_def)

lemma latch_inv_readers: "latch_inv n s \<Longrightarrow> readers s \<subseteq> {..<n}" "latch_inv n s \<Longrightarrow> finite (readers s)"
proof -
  assume "latch_inv n s"
  then have idle: "n \<le> i \<Longrightarrow> pcs s i = Idle" for i by (simp add: latch_inv_def)
  show "readers s \<subseteq> {..<n}"
  proof
    fix i
    assume "i \<in> readers s"
    then show "i \<in> {..<n}" using idle [of i] by (cases "n \<le> i") auto
  qed
  then show "finite (readers s)" by (rule finite_subset) simp
qed

text \<open>A thread that is not a reader sees fewer than \<open>n\<close> readers.\<close>

lemma latch_inv_value:
  assumes "latch_inv n s" and "n < 2 ^ 31" and "i < n" and "\<not> is_reader (pcs s i)"
  shows "sint (lword s) < int n"
proof (cases "writers s = {}")
  case True
  have "readers s \<subseteq> {..<n} - {i}" using latch_inv_readers(1) [OF assms(1)] assms(4) by auto
  then have "card (readers s) \<le> card ({..<n} - {i})" by (rule card_mono [rotated]) simp
  then have "card (readers s) < n" using assms(3) by simp
  with word_ok_card [OF _ latch_inv_readers(1) [OF assms(1)] assms(2) True, of "lword s"] assms(1)
  show ?thesis by (simp add: latch_inv_def)
next
  case False
  then have "lword s = -1" using assms(1) by (auto simp: latch_inv_def word_ok_def)
  then show ?thesis by simp
qed

lemma latch_inv_reader_value:
  assumes "latch_inv n s" and "n < 2 ^ 31" and "is_reader (pcs s i)"
  shows "sint (lword s) > 0"
proof -
  have "readers s \<noteq> {}" using assms(3) by (auto simp: readers_def)
  then have "writers s = {}" "card (readers s) > 0"
    using assms(1) latch_inv_readers(2) [OF assms(1)] by (auto simp: latch_inv_def word_ok_def card_gt_0_iff)
  with word_ok_card [OF _ latch_inv_readers(1) [OF assms(1)] assms(2), of "lword s" "writers s"] assms(1)
  show ?thesis by (simp add: latch_inv_def)
qed

lemma latch_inv_writer_value: "latch_inv n s \<Longrightarrow> is_writer (pcs s i) \<Longrightarrow> lword s = -1"
proof -
  assume "latch_inv n s" and "is_writer (pcs s i)"
  then have "writers s \<noteq> {}" "word_ok (lword s) (readers s) (writers s)"
    by (auto simp: latch_inv_def writers_def)
  then show ?thesis by (auto simp: word_ok_def)
qed

lemma latch_inv_init: "latch_inv n init_sys"
  by (simp add: latch_inv_def init_sys_def word_ok_def readers_def writers_def)

text \<open>
  Every step keeps the invariant. The update of one thread's position is checked once, for
  any new position and any new word.
\<close>

lemma latch_inv_upd:
  assumes "latch_inv n s" and "i < n" and "p \<noteq> Aborted"
    and "\<And>v. loop_value p = Some v \<Longrightarrow> sint v < int n"
    and "word_ok l (if is_reader p then insert i (readers s) else readers s - {i})
           (if is_writer p then insert i (writers s) else writers s - {i})"
  shows "latch_inv n (s\<lparr>lword := l, pcs := (pcs s)(i := p)\<rparr>)"
  using assms by (auto simp: latch_inv_def)

lemma latch_inv_move:
  assumes "latch_inv n s" and "i < n" and "p \<noteq> Aborted"
    and "\<And>v. loop_value p = Some v \<Longrightarrow> sint v < int n"
    and "is_reader p = is_reader (pcs s i)" and "is_writer p = is_writer (pcs s i)"
  shows "latch_inv n (s\<lparr>pcs := (pcs s)(i := p)\<rparr>)"
proof -
  have "(if is_reader p then insert i (readers s) else readers s - {i}) = readers s"
    "(if is_writer p then insert i (writers s) else writers s - {i}) = writers s"
    using assms(5,6) by auto
  then have "latch_inv n (s\<lparr>lword := lword s, pcs := (pcs s)(i := p)\<rparr>)"
    using assms(1) by (intro latch_inv_upd assms(1-4)) (auto simp: latch_inv_def)
  then show ?thesis by simp
qed

lemma cas_read_inv:
  assumes "latch_inv n s" and "n < 2 ^ 31" and "i < n"
    and "weak_cas sp (lword s) v (v + 1) = (success, l', v')" and "sint v \<ge> 0"
    and "\<not> is_reader (pcs s i)" and "\<not> is_writer (pcs s i)"
    and "p = Acquire_read v' \<or> p = Try_read v'"
  shows "latch_inv n (s\<lparr>lword := l', pcs := (pcs s)(i := if success then Reading else p)\<rparr>)"
proof (cases success)
  case True
  then have "lword s = v" "l' = v + 1" using assms(4) by (auto simp: weak_cas_def split: if_splits)
  moreover from this have "word_ok l' (insert i (readers s)) (writers s)"
    using assms(1,5,6) latch_inv_readers(2) [OF assms(1)] by (auto simp: latch_inv_def intro!: word_ok_add_reader)
  ultimately show ?thesis using True assms by (auto intro!: latch_inv_upd)
next
  case False
  then have l: "l' = lword s" "v' = lword s" using assms(4) by (auto simp: weak_cas_def split: if_splits)
  have "sint v' < int n" using latch_inv_value [OF assms(1-3,6)] l by simp
  then have "latch_inv n (s\<lparr>pcs := (pcs s)(i := p)\<rparr>)"
    using assms by (intro latch_inv_move) auto
  then show ?thesis using False l by simp
qed

lemma cas_write_inv:
  assumes "latch_inv n s" and "n < 2 ^ 31" and "i < n"
    and "weak_cas sp (lword s) 0 (-1) = (success, l', v')"
    and "\<not> is_reader (pcs s i)" and "\<not> is_writer (pcs s i)"
    and "p = Acquire_write v' \<or> p = Try_write v'"
  shows "latch_inv n (s\<lparr>lword := l', pcs := (pcs s)(i := if success then Writing else p)\<rparr>)"
proof (cases success)
  case True
  then have "lword s = 0" "l' = -1" using assms(4) by (auto simp: weak_cas_def split: if_splits)
  moreover from this have "word_ok l' (readers s) (insert i (writers s))"
    using assms(1) word_ok_add_writer [OF _ latch_inv_readers(1) [OF assms(1)] assms(2)]
    by (simp add: latch_inv_def)
  ultimately show ?thesis using True assms by (auto intro!: latch_inv_upd)
next
  case False
  then have l: "l' = lword s" using assms(4) by (auto simp: weak_cas_def split: if_splits)
  have "latch_inv n (s\<lparr>pcs := (pcs s)(i := p)\<rparr>)"
    using assms by (intro latch_inv_move) auto
  then show ?thesis using False l by simp
qed

lemma thread_step_inv:
  assumes "thread_step i s t" and "latch_inv n s" and "i < n" and "n < 2 ^ 31"
  shows "latch_inv n t"
  using assms
proof (cases rule: thread_step.cases)
  case (read_cas v sp success l' v')
  show ?thesis unfolding read_cas(1)
    by (rule cas_read_inv [OF assms(2,4,3) read_cas(5,3)]) (simp_all add: read_cas(2))
next
  case (try_read_cas v sp success l' v')
  show ?thesis unfolding try_read_cas(1)
    by (rule cas_read_inv [OF assms(2,4,3) try_read_cas(5,3)]) (simp_all add: try_read_cas(2))
next
  case (write_cas v sp success l' v')
  show ?thesis unfolding write_cas(1)
    by (rule cas_write_inv [OF assms(2,4,3) write_cas(4) [unfolded write_cas(3)]]) (simp_all add: write_cas(2))
next
  case (try_write_cas v sp success l' v')
  show ?thesis unfolding try_write_cas(1)
    by (rule cas_write_inv [OF assms(2,4,3) try_write_cas(4) [unfolded try_write_cas(3)]])
      (simp_all add: try_write_cas(2))
next
  case (read_overflow v)
  then have "loop_value (pcs s i) = Some INT32_MAX" by auto
  then have "sint INT32_MAX < int n" using assms(2) unfolding latch_inv_def by blast
  then show ?thesis using assms(4) by (simp add: INT32_MAX_def)
next
  case (read_load v)
  then show ?thesis
    using assms(2-4) latch_inv_value [OF assms(2,4,3)] by (auto intro!: latch_inv_move)
next
  case release_read_assert
  then show ?thesis
    using assms(2-4) latch_inv_reader_value [OF assms(2,4), of i] by (auto intro!: latch_inv_move)
next
  case release_write_assert
  then show ?thesis
    using assms(2-4) latch_inv_writer_value [OF assms(2), of i] by (auto intro!: latch_inv_move)
next
  case release_read_sub
  then show ?thesis
    using assms(2,3) latch_inv_readers(2) [OF assms(2)]
      word_ok_remove_reader [of "lword s" "readers s" "writers s" i]
    by (auto simp: latch_inv_def intro!: latch_inv_upd)
next
  case release_write_store
  then show ?thesis
    using assms(2,3) word_ok_remove_writer [of "lword s" "readers s" "writers s" i]
    by (auto simp: latch_inv_def intro!: latch_inv_upd)
qed (use assms(2-4) in \<open>auto intro!: latch_inv_move\<close>)

lemma reachable_inv: "reachable n s \<Longrightarrow> n < 2 ^ 31 \<Longrightarrow> latch_inv n s"
proof (induction rule: reachable.induct)
  case start
  show ?case by (rule latch_inv_init)
next
  case (step s i t)
  then show ?case by (blast intro: thread_step_inv)
qed

section \<open>Progress\<close>


text \<open>A thread in a blocking loop can always bring its local value up to date in one step.\<close>

lemma read_refresh:
  assumes "pcs s i = Acquire_read v" and "v \<noteq> INT32_MAX"
  shows "thread_step i s (s\<lparr>pcs := (pcs s)(i := Acquire_read (lword s))\<rparr>)"
proof (cases "sint v < 0")
  case True
  with assms show ?thesis by (auto intro: read_load)
next
  case False
  then show ?thesis
    using thread_step.read_cas [of s i v True False "lword s" "lword s"] assms
    by (simp add: weak_cas_def)
qed

lemma write_refresh:
  assumes "pcs s i = Acquire_write v"
  shows "thread_step i s (s\<lparr>pcs := (pcs s)(i := Acquire_write (lword s))\<rparr>)"
proof (cases "v = 0")
  case True
  then show ?thesis
    using thread_step.write_cas [of s i v True False "lword s" "lword s"] assms
    by (simp add: weak_cas_def)
next
  case False
  with assms show ?thesis by (auto intro: write_load)
qed

lemma read_take:
  assumes "pcs s i = Acquire_read (lword s)" and "sint (lword s) \<ge> 0" and "lword s \<noteq> INT32_MAX"
  shows "thread_step i s (s\<lparr>lword := lword s + 1, pcs := (pcs s)(i := Reading)\<rparr>)"
  using thread_step.read_cas [of s i "lword s" False True "lword s + 1" "lword s"] assms
  by (simp add: weak_cas_def)

lemma write_take:
  assumes "pcs s i = Acquire_write 0" and "lword s = 0"
  shows "thread_step i s (s\<lparr>lword := -1, pcs := (pcs s)(i := Writing)\<rparr>)"
  using thread_step.write_cas [of s i 0 False True "-1" 0] assms
  by (simp add: weak_cas_def)

lemma sint_less_not_max: "sint v < int n \<Longrightarrow> n < 2 ^ 31 \<Longrightarrow> v \<noteq> INT32_MAX"
  by (auto simp: INT32_MAX_def)

section \<open>Properties\<close>

text \<open>
  C29: Mutual exclusion. With fewer than \<open>2 ^ 31\<close> threads, in every interleaving and
  with any spurious failures: while a thread holds the latch exclusively no other thread
  holds it in any mode; the word is -1 exactly when there is a writer, and otherwise it is
  the number of readers.
\<close>

theorem latch_mutual_exclusion:
  assumes "reachable n s" and "n < 2 ^ 31"
  shows "(\<forall>i j. is_writer (pcs s i) \<longrightarrow> is_reader (pcs s j) \<or> is_writer (pcs s j) \<longrightarrow> i = j) \<and>
    sint (lword s) = (if \<exists>i. is_writer (pcs s i) then -1 else int (card {i. is_reader (pcs s i)}))"
proof -
  have inv: "latch_inv n s" using reachable_inv assms by blast
  then have ok: "word_ok (lword s) (readers s) (writers s)" by (simp add: latch_inv_def)
  show ?thesis
  proof (cases "writers s = {}")
    case True
    then have "\<nexists>i. is_writer (pcs s i)" by (auto simp: writers_def)
    with True word_ok_card [OF ok latch_inv_readers(1) [OF inv] assms(2)] show ?thesis
      by (simp add: readers_def)
  next
    case False
    then obtain w where w: "{i. is_writer (pcs s i)} = {w}" "{i. is_reader (pcs s i)} = {}" "lword s = -1"
      using ok by (auto simp: word_ok_def readers_def writers_def)
    then have "is_writer (pcs s i) \<longleftrightarrow> i = w" "\<not> is_reader (pcs s i)" for i by auto
    with w(3) show ?thesis by auto
  qed
qed

text \<open>
  C30: The assertions of the release functions never fail and no reader count overflows: with
  fewer than \<open>2 ^ 31\<close> threads that call each release only while holding the latch, no
  thread ever aborts.
\<close>

theorem latch_never_aborts:
  assumes "reachable n s" and "n < 2 ^ 31"
  shows "pcs s i \<noteq> Aborted"
  using reachable_inv [OF assms] by (simp add: latch_inv_def)

text \<open>
  C31: A waiting thread gets a free latch. From any reachable state, a thread in the loop of
  \<open>latch_acquire_write\<close> reaches its critical section by its own steps alone when nobody
  holds the latch, and one in the loop of \<open>latch_acquire_read\<close> when no writer does; the other
  threads are where they were.
\<close>

theorem latch_acquire_progress:
  assumes "reachable n s" and "n < 2 ^ 31" and "i < n"
    and "\<forall>j. \<not> is_writer (pcs s j)"
    and "pcs s i = Acquire_read v \<or> pcs s i = Acquire_write v \<and> (\<forall>j. \<not> is_reader (pcs s j))"
  shows "\<exists>t. (thread_step i)\<^sup>*\<^sup>* s t \<and> (\<forall>j. j \<noteq> i \<longrightarrow> pcs t j = pcs s j) \<and>
    pcs t i = (if pcs s i = Acquire_read v then Reading else Writing)"
proof -
  have inv: "latch_inv n s" using reachable_inv assms(1,2) by blast
  have w: "writers s = {}" using assms(4) by (auto simp: writers_def)
  have l: "sint (lword s) = int (card (readers s))"
    using word_ok_card [OF _ latch_inv_readers(1) [OF inv] assms(2) w] inv by (simp add: latch_inv_def)
  from assms(5) show ?thesis
  proof
    assume r: "pcs s i = Acquire_read v"
    then have "loop_value (pcs s i) = Some v" by simp
    then have "sint v < int n" using inv unfolding latch_inv_def by blast
    then have "thread_step i s (s\<lparr>pcs := (pcs s)(i := Acquire_read (lword s))\<rparr>)"
      using read_refresh [OF r] sint_less_not_max assms(2) by blast
    moreover have "lword s \<noteq> INT32_MAX"
      using latch_inv_value [OF inv assms(2,3)] r sint_less_not_max assms(2) by simp
    then have "thread_step i (s\<lparr>pcs := (pcs s)(i := Acquire_read (lword s))\<rparr>)
        (s\<lparr>lword := lword s + 1, pcs := (pcs s)(i := Reading)\<rparr>)"
      using read_take [of "s\<lparr>pcs := (pcs s)(i := Acquire_read (lword s))\<rparr>" i] l by simp
    ultimately have "(thread_step i)\<^sup>*\<^sup>* s (s\<lparr>lword := lword s + 1, pcs := (pcs s)(i := Reading)\<rparr>)"
      by (meson converse_rtranclp_into_rtranclp r_into_rtranclp)
    with r show ?thesis by (intro exI conjI) auto
  next
    assume r: "pcs s i = Acquire_write v \<and> (\<forall>j. \<not> is_reader (pcs s j))"
    then have "readers s = {}" by (auto simp: readers_def)
    then have z: "lword s = 0" using inv w by (simp add: latch_inv_def word_ok_def)
    have "thread_step i s (s\<lparr>pcs := (pcs s)(i := Acquire_write 0)\<rparr>)"
      using write_refresh [of s i v] r z by simp
    moreover have "thread_step i (s\<lparr>pcs := (pcs s)(i := Acquire_write 0)\<rparr>)
        (s\<lparr>lword := -1, pcs := (pcs s)(i := Writing)\<rparr>)"
      using write_take [of "s\<lparr>pcs := (pcs s)(i := Acquire_write 0)\<rparr>" i] z by simp
    ultimately have "(thread_step i)\<^sup>*\<^sup>* s (s\<lparr>lword := -1, pcs := (pcs s)(i := Writing)\<rparr>)"
      by (meson converse_rtranclp_into_rtranclp r_into_rtranclp)
    with r show ?thesis by (intro exI conjI) auto
  qed
qed

text \<open>A run used by the witnesses: thread 0 takes the latch exclusively, thread 1 waits.\<close>

definition example_sys :: latch_sys where
  "example_sys = \<lparr>lword = -1, pcs = (\<lambda>_. Idle)(0 := Writing, 1 := Acquire_write 0)\<rparr>"

definition waiting_sys :: latch_sys where
  "waiting_sys = \<lparr>lword = 0, pcs = (\<lambda>_. Idle)(1 := Acquire_write 0)\<rparr>"

lemma reachable_waiting: "reachable 2 waiting_sys"
proof -
  have "reachable 2 (init_sys\<lparr>pcs := (pcs init_sys)(1 := Acquire_write 0)\<rparr>)"
    by (rule reachable.step [OF reachable.start _ thread_step.call_write]) (simp_all add: init_sys_def)
  then show ?thesis by (simp add: init_sys_def waiting_sys_def)
qed

lemma reachable_example: "reachable 2 example_sys"
proof -
  let ?s = "waiting_sys\<lparr>pcs := (pcs waiting_sys)(0 := Acquire_write 0)\<rparr>"
  have "reachable 2 ?s"
    by (rule reachable.step [OF reachable_waiting _ thread_step.call_write]) (simp_all add: waiting_sys_def)
  then have "reachable 2 (?s\<lparr>lword := -1, pcs := (pcs ?s)(0 := Writing)\<rparr>)"
    by (rule reachable.step [OF _ _ write_take]) (simp_all add: waiting_sys_def)
  moreover have "(?s\<lparr>lword := -1, pcs := (pcs ?s)(0 := Writing)\<rparr>) = example_sys"
    by (auto simp: waiting_sys_def example_sys_def fun_eq_iff)
  ultimately show ?thesis by simp
qed

theorem latch_mutual_exclusion_witness:
  "is_writer (pcs example_sys 0) \<and> \<not> is_reader (pcs example_sys 1) \<and> \<not> is_writer (pcs example_sys 1) \<and>
    sint (lword example_sys) = -1"
proof -
  have w: "is_writer (pcs example_sys 0)" by (simp add: example_sys_def)
  have "(2 :: nat) < 2 ^ 31" by simp
  note ex = latch_mutual_exclusion [OF reachable_example this]
  from ex w have "\<not> is_reader (pcs example_sys 1)" "\<not> is_writer (pcs example_sys 1)" by (metis zero_neq_one)+
  moreover from ex w have "sint (lword example_sys) = -1" by metis
  ultimately show ?thesis using w by blast
qed

theorem latch_never_aborts_witness: "pcs example_sys 0 \<noteq> Aborted"
  by (rule latch_never_aborts [OF reachable_example]) simp

theorem latch_acquire_progress_witness:
  "\<exists>t. (thread_step 1)\<^sup>*\<^sup>* waiting_sys t \<and> (\<forall>j. j \<noteq> 1 \<longrightarrow> pcs t j = pcs waiting_sys j) \<and>
    pcs t 1 = (if pcs waiting_sys 1 = Acquire_read 0 then Reading else Writing)"
  by (rule latch_acquire_progress [OF reachable_waiting]) (simp_all add: waiting_sys_def)

end
