(* ===== verification/Uuid.thy ===== *)
theory Uuid
  imports Errors Blob
begin

text \<open>
  UUIDs, src/uuid.c: packing of version 7 and version 8 identifiers and their textual form.
  A \<^verbatim>\<open>uuid_t\<close> is a buffer of 16 bytes.
\<close>

section \<open>The functions of src/uuid.c\<close>

text \<open>\<^verbatim>\<open>intcpy(out + off, src, n)\<close>: the loop over \<open>i\<close>.\<close>

function intcpy_loop :: "byte list \<Rightarrow> nat \<Rightarrow> u64 \<Rightarrow> nat \<Rightarrow> nat \<Rightarrow> byte list outcome" where
  "intcpy_loop out off src n i =
     (if i < n then
        obind (mem_set out (off + i) (ucast (drop_bit (8 * (n - i - 1)) src))) (\<lambda>out.
        intcpy_loop out off src n (i + 1))
      else Inr out)"
  by pat_completeness auto
termination
  by (relation "measure (\<lambda>(out, off, src, n, i). n - i)") auto

declare intcpy_loop.simps [simp del]

definition intcpy :: "byte list \<Rightarrow> nat \<Rightarrow> u64 \<Rightarrow> nat \<Rightarrow> byte list outcome" where
  "intcpy out off src n = intcpy_loop out off src n 0"

definition uuid_v7_package :: "byte list \<Rightarrow> u64 \<Rightarrow> u64 \<Rightarrow> u64 \<Rightarrow> byte list outcome" where
  "uuid_v7_package out timestamp rand_a rand_b =
     obind (intcpy out 0 timestamp 6) (\<lambda>out.
     obind (intcpy out 6 rand_a 2) (\<lambda>out.
     obind (intcpy out 8 rand_b 8) (\<lambda>out.
     obind (mem_get out 6) (\<lambda>b.
     obind (mem_set out 6 ((b AND 0x0f) OR push_bit 4 7)) (\<lambda>out.
     obind (mem_get out 8) (\<lambda>b.
     mem_set out 8 ((b AND 0x3f) OR push_bit 6 2)))))))"

definition uuid_v8_package :: "byte list \<Rightarrow> u32 \<Rightarrow> byte list outcome" where
  "uuid_v8_package out counter =
     obind (mem_write out 0 (le_bytes 4 counter)) (\<lambda>out.
     obind (intcpy out 4 0 4) (\<lambda>out.
     obind (intcpy out 8 (-1) 8) (\<lambda>out.
     obind (mem_get out 6) (\<lambda>b.
     obind (mem_set out 6 ((b AND 0x0f) OR push_bit 4 8)) (\<lambda>out.
     obind (mem_get out 8) (\<lambda>b.
     mem_set out 8 ((b AND 0x3f) OR push_bit 6 0)))))))"

text \<open>
  \<^verbatim>\<open>uuid_v7_create\<close>. The environment is an argument: \<open>tod\<close> is what \<^verbatim>\<open>gettimeofday\<close> yields
  (seconds and microseconds, or \<open>Inl errno\<close>), \<open>r1\<close>, \<open>r2\<close>, \<open>r3\<close> the three results of
  \<^verbatim>\<open>random\<close>. \<open>out\<close> is \<open>None\<close> for the null pointer.
\<close>

definition uuid_v7_create ::
  "byte list option \<Rightarrow> (int + int \<times> int) \<Rightarrow> u64 \<Rightarrow> u64 \<Rightarrow> u64 \<Rightarrow> error_state \<Rightarrow>
   (result \<times> byte list option \<times> error_state) outcome" where
  "uuid_v7_create out tod r1 r2 r3 es =
     (case out of
        None \<Rightarrow> obind (failure (''src/uuid.c'', ''uuid_v7_create'', 8) EINVAL ''ensureout != nullptr'' es)
                  (\<lambda>(r, es). Inr (r, None, es))
      | Some out \<Rightarrow>
          (case tod of
             Inl errno \<Rightarrow>
               obind (failure (''src/uuid.c'', ''uuid_v7_create'', 12) errno ''cannot get time of day'' es)
                 (\<lambda>(r, es). Inr (r, Some out, es))
           | Inr (sec, usec) \<Rightarrow>
               let milliseconds = word_of_int (sec * 1000 + usec div 1000);
                   rand_a = r1;
                   rand_b = push_bit 32 r2 OR r3 in
               obind (uuid_v7_package out milliseconds rand_a rand_b) (\<lambda>out.
               Inr (SUCCESS, Some out, es))))"

text \<open>The conversion \<^verbatim>\<open>%02x\<close> of one byte, as ASCII codes.\<close>

definition hex_digit :: "nat \<Rightarrow> byte" where
  "hex_digit d = (if d < 10 then of_nat (48 + d) else of_nat (97 + (d - 10)))"

definition hex_byte :: "byte \<Rightarrow> byte list" where
  "hex_byte b = [hex_digit (unat b div 16), hex_digit (unat b mod 16)]"

definition uuid_text :: "byte list \<Rightarrow> byte list" where
  "uuid_text uuid =
     concat (map (\<lambda>i. (if i \<in> {4, 6, 8, 10} then [0x2d] else []) @ hex_byte (uuid ! i)) [0..<16])"

text \<open>
  \<^verbatim>\<open>snprintf\<close> writes at most \<open>n - 1\<close> characters and a zero, nothing if \<open>n\<close> is zero, and
  returns the length of the whole text.
\<close>

definition uuid_snprintf :: "byte list \<Rightarrow> nat \<Rightarrow> byte list \<Rightarrow> (byte list \<times> int) outcome" where
  "uuid_snprintf str n uuid =
     obind (mem_read uuid 0 16) (\<lambda>uuid.
     let txt = uuid_text uuid in
     if n = 0 then Inr (str, int (length txt))
     else obind (mem_write str 0 (take (n - 1) txt @ [0])) (\<lambda>str. Inr (str, int (length txt))))"

section \<open>Big-endian copies\<close>

lemma le_bytes_Suc: "le_bytes (Suc n) w = le_bytes n w @ [ucast (drop_bit (8 * n) w)]"
  by (simp add: le_bytes_def)

lemma intcpy_loop_correct:
  assumes "i \<le> n" and "off + n \<le> length out"
  shows "intcpy_loop out off src n i = Inr (store out (off + i) (rev (le_bytes (n - i) src)))"
  using assms
proof (induction out off src n i rule: intcpy_loop.induct)
  case (1 out off src n i)
  show ?case
  proof (cases "i < n")
    case True
    let ?b = "ucast (drop_bit (8 * (n - i - 1)) src) :: byte"
    obtain k where k: "n = Suc (i + k)" using True less_imp_Suc_add by blast
    have len: "off + i < length out" using True "1.prems" by simp
    have "intcpy_loop (out[off + i := ?b]) off src n (i + 1)
        = Inr (store (out[off + i := ?b]) (off + (i + 1)) (rev (le_bytes (n - (i + 1)) src)))"
      by (rule "1.IH" [OF True]) (use True "1.prems" in auto)
    moreover have "store (out[off + i := ?b]) (off + (i + 1)) (rev (le_bytes (n - (i + 1)) src))
        = store out (off + i) (rev (le_bytes (n - i) src))"
      using len unfolding k
      by (simp add: store_def le_bytes_Suc take_Suc_conv_app_nth drop_update_cancel Suc_diff_le add.commute)
    ultimately show ?thesis using True len by (subst intcpy_loop.simps) simp
  next
    case False
    then show ?thesis using "1.prems" by (subst intcpy_loop.simps) (simp add: store_def le_bytes_def)
  qed
qed

lemma intcpy_correct:
  "off + n \<le> length out \<Longrightarrow> intcpy out off src n = Inr (store out off (rev (le_bytes n src)))"
  by (simp add: intcpy_def intcpy_loop_correct)

text \<open>The version 7 layout as one list.\<close>

definition uuid_v7_bytes :: "u64 \<Rightarrow> u64 \<Rightarrow> u64 \<Rightarrow> byte list" where
  "uuid_v7_bytes ts ra rb =
     rev (le_bytes 6 ts) @ [(ucast (drop_bit 8 ra) AND 0x0f) OR 0x70, ucast ra] @
     ((ucast (drop_bit 56 rb) AND 0x3f) OR 0x80) # rev (le_bytes 7 rb)"

lemma length_uuid_v7_bytes [simp]: "length (uuid_v7_bytes ts ra rb) = 16"
  by (simp add: uuid_v7_bytes_def)

lemma uuid_v7_package_correct:
  assumes "16 \<le> length out"
  shows "uuid_v7_package out ts ra rb = Inr (uuid_v7_bytes ts ra rb @ drop 16 out)"
proof -
  let ?a = "rev (le_bytes 6 ts)" and ?b = "rev (le_bytes 2 ra)" and ?c = "rev (le_bytes 8 rb)"
  have "store (store (store out 0 ?a) 6 ?b) 8 ?c = ?a @ ?b @ ?c @ drop 16 out"
    using assms by (simp add: store_def)
  moreover have "?b = [ucast (drop_bit 8 ra), ucast ra]" by (simp add: le_bytes_def upt_rec)
  moreover have "?c = ucast (drop_bit 56 rb) # rev (le_bytes 7 rb)"
    using le_bytes_Suc [of 7 rb] by simp
  ultimately show ?thesis
    using assms
    by (simp add: uuid_v7_package_def intcpy_correct uuid_v7_bytes_def nth_append list_update_append)
qed

section \<open>Big-endian value and order\<close>

fun be_nat :: "byte list \<Rightarrow> nat" where
  "be_nat [] = 0"
| "be_nat (b # bs) = unat b * 256 ^ length bs + be_nat bs"

lemma be_nat_less: "be_nat bs < 256 ^ length bs"
proof (induction bs)
  case (Cons b bs)
  have "unat b \<le> 255" using unat_byte_less [of b] by simp
  then have "unat b * 256 ^ length bs \<le> 255 * 256 ^ length bs" by (rule mult_right_mono) simp
  with Cons.IH have "unat b * 256 ^ length bs + be_nat bs < 256 * 256 ^ length bs" by linarith
  then show ?case by simp
qed simp

lemma be_nat_less_iff: "length xs = length ys \<Longrightarrow> xs < ys \<longleftrightarrow> be_nat xs < be_nat ys"
proof (induction xs ys rule: list_induct2)
  case (Cons x xs y ys)
  let ?B = "256 ^ length xs :: nat"
  have less: "be_nat xs < ?B" "be_nat ys < ?B" using be_nat_less [of xs] be_nat_less [of ys] Cons.hyps by auto
  have gt: "a < b \<Longrightarrow> p < ?B \<Longrightarrow> a * ?B + p < b * ?B + q" for a b p q :: nat
  proof -
    assume "a < b" and "p < ?B"
    then have "a * ?B + p < (a + 1) * ?B" by simp
    also have "\<dots> \<le> b * ?B" using \<open>a < b\<close> by (intro mult_right_mono) simp_all
    finally show ?thesis by simp
  qed
  show ?case
  proof (cases "unat x" "unat y" rule: linorder_cases)
    case equal
    then have "x = y" by (rule unsigned_word_eqI)
    then show ?thesis using Cons by simp
  next
    case less': less
    then show ?thesis using gt [OF less' less(1)] Cons.hyps by (simp add: word_less_nat_alt)
  next
    case greater
    then have "\<not> x < y" "x \<noteq> y" by (auto simp: word_less_nat_alt)
    with gt [OF greater less(2), of "be_nat xs"] Cons.hyps show ?thesis by simp
  qed
qed simp

lemma be_nat_rev_le_bytes: "be_nat (rev (le_bytes n w)) = unat w mod 256 ^ n"
proof (induction n)
  case (Suc n)
  have "unat (ucast (drop_bit (8 * n) w) :: byte) = unat w div 256 ^ n mod 256"
    by (simp add: unsigned_ucast_eq unat_drop_bit_div take_bit_eq_mod power_mult)
  with Suc show ?case
    using mod_mult2_eq [of "unat w" "256 ^ n" 256] by (simp add: le_bytes_Suc mult.commute)
qed (simp add: le_bytes_def)

lemma append_less_append:
  "length xs = length ys \<Longrightarrow> xs < ys \<Longrightarrow> xs @ as < ys @ (bs :: 'a::order list)"
  by (induction xs ys rule: list_induct2) auto

lemma uuid_v7_bytes_parts:
  "take 6 (uuid_v7_bytes ts ra rb) = rev (le_bytes 6 ts)"
  "uuid_v7_bytes ts ra rb ! 6 = (ucast (drop_bit 8 ra) AND 0x0f) OR 0x70"
  "uuid_v7_bytes ts ra rb ! 7 = ucast ra"
  "uuid_v7_bytes ts ra rb ! 8 = (ucast (drop_bit 56 rb) AND 0x3f) OR 0x80"
  "drop 9 (uuid_v7_bytes ts ra rb) = rev (le_bytes 7 rb)"
  by (simp_all add: uuid_v7_bytes_def nth_append)

lemma version_bits: "drop_bit 4 ((x AND 0x0f) OR 0x70 :: byte) = 7" "((x AND 0x0f) OR 0x70) AND 0x0f = (x AND 0x0f :: byte)"
  by (simp_all add: drop_bit_or drop_bit_and bit.conj_disj_distrib2 and.assoc)

lemma variant_bits: "drop_bit 6 ((x AND 0x3f) OR 0x80 :: byte) = 2" "((x AND 0x3f) OR 0x80) AND 0x3f = (x AND 0x3f :: byte)"
  by (simp_all add: drop_bit_or drop_bit_and bit.conj_disj_distrib2 and.assoc)

lemma masked_top_byte:
  "unat (ucast (drop_bit (8 * n) w) AND mask m :: byte) = unat w div 256 ^ n mod 2 ^ m" if "m \<le> 8" for w :: u64
  using that
  by (simp add: take_bit_eq_mask [symmetric] unsigned_take_bit_eq unsigned_ucast_eq unat_drop_bit_div
      take_bit_eq_mod [symmetric] power_mult min_def)

section \<open>Properties\<close>

text \<open>
  C40: Layout of version 7. \<open>uuid_v7_package\<close> writes the first 16 bytes of its buffer and
  nothing else; the version nibble is 7 and the variant bits are binary 10, whatever the
  arguments; the low 48 bits of the timestamp, the low 12 bits of \<open>rand_a\<close> and the low 62
  bits of \<open>rand_b\<close> can be read back from it, big-endian.
\<close>

theorem uuid_v7_layout:
  assumes "16 \<le> length out"
  shows "\<exists>u. uuid_v7_package out ts ra rb = Inr u \<and> length u = length out \<and> drop 16 u = drop 16 out \<and>
    drop_bit 4 (u ! 6) = 7 \<and> drop_bit 6 (u ! 8) = 2 \<and>
    be_nat (take 6 u) = unat ts mod 2 ^ 48 \<and>
    be_nat [u ! 6 AND 0x0f, u ! 7] = unat ra mod 2 ^ 12 \<and>
    be_nat ((u ! 8 AND 0x3f) # take 7 (drop 9 u)) = unat rb mod 2 ^ 62"
proof -
  let ?v = "uuid_v7_bytes ts ra rb"
  let ?u = "?v @ drop 16 out"
  have m: "(0x0f :: byte) = mask 4" "(0x3f :: byte) = mask 6" by (simp_all add: mask_eq_exp_minus_1)
  have nth: "?u ! 6 = ?v ! 6" "?u ! 7 = ?v ! 7" "?u ! 8 = ?v ! 8" by (simp_all add: nth_append)
  have "unat (ucast ra :: byte) = unat ra mod 256"
    by (simp add: unsigned_ucast_eq take_bit_eq_mod)
  moreover have "unat (ucast (drop_bit 8 ra) AND mask 4 :: byte) = unat ra div 256 mod 16"
    using masked_top_byte [of 4 1 ra] by simp
  moreover have "unat ra mod 2 ^ 12 = unat ra div 256 mod 16 * 256 + unat ra mod 256"
    using mod_mult2_eq [of "unat ra" 256 16] by (simp add: mult.commute)
  moreover have "?u ! 6 AND 0x0f = ucast (drop_bit 8 ra) AND mask 4"
    by (simp only: nth uuid_v7_bytes_parts version_bits) (simp only: m)
  ultimately have a: "be_nat [?u ! 6 AND 0x0f, ?u ! 7] = unat ra mod 2 ^ 12"
    by (simp add: nth uuid_v7_bytes_parts)
  have "unat (ucast (drop_bit 56 rb) AND mask 6 :: byte) = unat rb div 256 ^ 7 mod 64"
    using masked_top_byte [of 6 7 rb] by simp
  moreover have "unat rb mod 2 ^ 62 = unat rb div 256 ^ 7 mod 64 * 256 ^ 7 + unat rb mod 256 ^ 7"
    using mod_mult2_eq [of "unat rb" "256 ^ 7" 64] by (simp add: mult.commute)
  moreover have "?u ! 8 AND 0x3f = ucast (drop_bit 56 rb) AND mask 6"
    by (simp only: nth uuid_v7_bytes_parts variant_bits) (simp only: m)
  ultimately have b: "be_nat ((?u ! 8 AND 0x3f) # take 7 (drop 9 ?u)) = unat rb mod 2 ^ 62"
    using be_nat_rev_le_bytes [of 7 rb] by (simp add: uuid_v7_bytes_parts)
  have "be_nat (take 6 ?u) = unat ts mod 2 ^ 48"
    using be_nat_rev_le_bytes [of 6 ts] by (simp add: uuid_v7_bytes_parts)
  with a b show ?thesis
    using uuid_v7_package_correct [OF assms, of ts ra rb] assms
    by (intro exI [of _ ?u]) (simp add: nth uuid_v7_bytes_parts version_bits variant_bits)
qed

theorem uuid_v7_layout_witness:
  "\<exists>u. uuid_v7_package (replicate 16 0) 0x0123456789ab 0xffff 7 = Inr u \<and>
    length u = length (replicate 16 (0 :: byte)) \<and> drop 16 u = drop 16 (replicate 16 0) \<and>
    drop_bit 4 (u ! 6) = 7 \<and> drop_bit 6 (u ! 8) = 2 \<and>
    be_nat (take 6 u) = unat (0x0123456789ab :: u64) mod 2 ^ 48 \<and>
    be_nat [u ! 6 AND 0x0f, u ! 7] = unat (0xffff :: u64) mod 2 ^ 12 \<and>
    be_nat ((u ! 8 AND 0x3f) # take 7 (drop 9 u)) = unat (7 :: u64) mod 2 ^ 62"
  by (rule uuid_v7_layout) simp

text \<open>
  Version 7 identifiers sort by time. Of two identifiers, the one whose timestamp (modulo
  \<open>2 ^ 48\<close>) is earlier is smaller in the byte-wise order \<^verbatim>\<open>memcmp\<close> uses, whatever the random
  parts are.
\<close>

theorem uuid_v7_time_ordered:
  assumes "length out1 = 16" and "length out2 = 16" and "unat ts1 mod 2 ^ 48 < unat ts2 mod 2 ^ 48"
  shows "\<exists>u1 u2. uuid_v7_package out1 ts1 ra1 rb1 = Inr u1 \<and> uuid_v7_package out2 ts2 ra2 rb2 = Inr u2 \<and>
    u1 < u2 \<and> memcmp u1 u2 16 = Inr (-1)"
proof -
  let ?u1 = "uuid_v7_bytes ts1 ra1 rb1" and ?u2 = "uuid_v7_bytes ts2 ra2 rb2"
  have "take 6 ?u1 < take 6 ?u2"
    using assms(3) by (simp add: uuid_v7_bytes_parts be_nat_less_iff be_nat_rev_le_bytes)
  then have less: "?u1 < ?u2"
    using append_less_append [of "take 6 ?u1" "take 6 ?u2" "drop 6 ?u1" "drop 6 ?u2"] by simp
  then have "memcmp ?u1 ?u2 16 = Inr (-1)"
    using memcmp_correct [of 16 ?u1 ?u2] by (simp add: lex_cmp_def)
  with less assms show ?thesis
    using uuid_v7_package_correct [of out1 ts1 ra1 rb1] uuid_v7_package_correct [of out2 ts2 ra2 rb2] by simp
qed

theorem uuid_v7_time_ordered_witness:
  "\<exists>u1 u2. uuid_v7_package (replicate 16 0) 5 99 99 = Inr u1 \<and> uuid_v7_package (replicate 16 0) 6 0 0 = Inr u2 \<and>
    u1 < u2 \<and> memcmp u1 u2 16 = Inr (-1)"
  by (rule uuid_v7_time_ordered) simp_all

lemma hex_digit_eq_iff: "a < 16 \<Longrightarrow> b < 16 \<Longrightarrow> hex_digit a = hex_digit b \<longleftrightarrow> a = b"
proof -
  have u: "unat (hex_digit d) = (if d < 10 then 48 + d else 87 + d)" if "d < 16" for d
    using that by (simp add: hex_digit_def unat_of_nat del: of_nat_add)
  assume "a < 16" and "b < 16"
  then have "hex_digit a = hex_digit b \<Longrightarrow> (if a < 10 then 48 + a else 87 + a) = (if b < 10 then 48 + b else 87 + b)"
    using u by metis
  then show ?thesis by (auto split: if_splits)
qed

lemma hex_byte_eq_iff: "hex_byte x = hex_byte y \<longleftrightarrow> x = y"
proof
  assume "hex_byte x = hex_byte y"
  then have "unat x div 16 = unat y div 16" "unat x mod 16 = unat y mod 16"
    using unat_byte_less [of x] unat_byte_less [of y]
    by (simp_all add: hex_byte_def hex_digit_eq_iff div_less_iff_less_mult)
  then have "unat x = unat y" by (metis div_mult_mod_eq)
  then show "x = y" by (rule unsigned_word_eqI)
qed simp

lemma hex_byte_append_eq_iff: "hex_byte x @ xs = hex_byte y @ ys \<longleftrightarrow> x = y \<and> xs = ys"
proof -
  have "length (hex_byte x) = length (hex_byte y)" by (simp add: hex_byte_def)
  then show ?thesis by (simp add: hex_byte_eq_iff)
qed

lemma upt_16: "[0..<16] = [0, 1, 2, 3, 4, 5, 6, 7, 8, 9, 10, 11, 12, 13, 14, 15]"
  by code_simp

lemma uuid_text_expand:
  "uuid_text u =
    hex_byte (u ! 0) @ hex_byte (u ! 1) @ hex_byte (u ! 2) @ hex_byte (u ! 3) @ 0x2d #
    hex_byte (u ! 4) @ hex_byte (u ! 5) @ 0x2d # hex_byte (u ! 6) @ hex_byte (u ! 7) @ 0x2d #
    hex_byte (u ! 8) @ hex_byte (u ! 9) @ 0x2d # hex_byte (u ! 10) @ hex_byte (u ! 11) @
    hex_byte (u ! 12) @ hex_byte (u ! 13) @ hex_byte (u ! 14) @ hex_byte (u ! 15) @ []"
  by (simp add: uuid_text_def upt_16)

lemma length_uuid_text [simp]: "length (uuid_text u) = 36"
  by (simp add: uuid_text_expand hex_byte_def)

lemma uuid_text_eq_iff:
  assumes "length u = 16" and "length v = 16"
  shows "uuid_text u = uuid_text v \<longleftrightarrow> u = v"
proof
  assume "uuid_text u = uuid_text v"
  then have "\<forall>i \<in> set [0..<16]. u ! i = v ! i"
    unfolding uuid_text_expand hex_byte_append_eq_iff list.inject upt_16 by simp
  with assms show "u = v" by (intro nth_equalityI) auto
qed simp

text \<open>
  The textual form. Given room for 37 bytes \<open>uuid_snprintf\<close> writes 36 characters and a
  zero, with dashes at positions 8, 13, 18 and 23, and returns 36; different identifiers
  have different texts. With less room (but some) the text is cut and still zero-terminated,
  and the return value still announces 36.
\<close>

theorem uuid_snprintf_text:
  assumes "16 \<le> length uuid" and "0 < n" and "n \<le> length str"
  shows "\<exists>str' t. uuid_snprintf str n uuid = Inr (str', 36) \<and> length t = 36 \<and>
    take (min n 37) str' = take (n - 1) t @ [0] \<and> drop n str' = drop n str \<and>
    t ! 8 = 0x2d \<and> t ! 13 = 0x2d \<and> t ! 18 = 0x2d \<and> t ! 23 = 0x2d \<and>
    (\<forall>v. length v = 16 \<and> uuid_text v = t \<longrightarrow> v = take 16 uuid)"
proof -
  let ?t = "uuid_text (take 16 uuid)"
  define w where "w = take (n - 1) ?t @ [0]"
  have len: "length w = min n 37" using assms(2) by (auto simp: w_def)
  then have "uuid_snprintf str n uuid = Inr (store str 0 w, 36)"
    using assms by (simp add: uuid_snprintf_def Let_def fetch_def w_def)
  moreover have "take (min n 37) (store str 0 w) = w" "drop n (store str 0 w) = drop n str"
    using len assms(3) by (auto simp: store_def)
  moreover have "?t ! 8 = 0x2d" "?t ! 13 = 0x2d" "?t ! 18 = 0x2d" "?t ! 23 = 0x2d"
    by (simp_all add: uuid_text_expand hex_byte_def)
  moreover have "v = take 16 uuid" if "length v = 16 \<and> uuid_text v = ?t" for v
    using that uuid_text_eq_iff [of v "take 16 uuid"] assms(1) by simp
  ultimately show ?thesis
    by (intro exI [of _ "store str 0 w"] exI [of _ ?t]) (simp add: w_def)
qed

theorem uuid_snprintf_text_witness:
  "\<exists>str' t. uuid_snprintf (replicate 37 0) 37 (replicate 16 0xab) = Inr (str', 36) \<and> length t = 36 \<and>
    take (min 37 37) str' = take (37 - 1) t @ [0] \<and> drop 37 str' = drop 37 (replicate 37 0) \<and>
    t ! 8 = 0x2d \<and> t ! 13 = 0x2d \<and> t ! 18 = 0x2d \<and> t ! 23 = 0x2d \<and>
    (\<forall>v. length v = 16 \<and> uuid_text v = t \<longrightarrow> v = take 16 (replicate 16 0xab))"
  by (rule uuid_snprintf_text) simp_all

end
