(* ===== verification/Pager.thy ===== *)
theory Pager
  imports Latch Errors
begin

text \<open>
  The page cache of src/pager.c: a hash directory from page ids to page headers, a CLOCK
  ring of all headers with second-chance eviction, and the functions that fix, create,
  evict and unfix pages. One record is the whole state. A header pointer is an index into
  \<open>heap\<close>, the headers allocated so far; the data of a page is the \<open>pdata\<close> of its header
  (\<^verbatim>\<open>header_get_data\<close> and \<^verbatim>\<open>header_from_data\<close> convert between the two by pointer arithmetic).

  The functions are translated for one thread at a time. Two things the code cannot know
  are parts of the state: what the following calls of \<^verbatim>\<open>malloc\<close> return, and which of the
  following weak compare-exchanges fail spuriously. A pager or output pointer is never null
  here, so the \<^verbatim>\<open>ensure\<close> checks for null do not appear.
\<close>

section \<open>Data\<close>

definition PAGE_FLAG_DIRTY :: byte where "PAGE_FLAG_DIRTY = 1"
definition PAGE_FLAG_REF :: byte where "PAGE_FLAG_REF = 2"
definition PAGE_FLAG_EXCLUSIVE :: byte where "PAGE_FLAG_EXCLUSIVE = 4"

text \<open>\<^verbatim>\<open>header_t\<close> together with the page data behind it.\<close>

record page_hdr =
  pid :: u32
  platch :: i32
  pflags :: byte
  pdata :: "byte list"

record mapping_t =
  mid :: u32
  mhdr :: "nat option"

text \<open>The linked list of buckets only grows at its end; it is a list of their mappings.\<close>

record hash_entry_t =
  elatch :: i32
  efirst :: mapping_t
  esecond :: mapping_t
  eoverflow :: "mapping_t list"

record ring_entry_t =
  rid :: u32
  rhdr :: "nat option"

text \<open>The results of the following allocations: failure, or indeterminate contents.\<close>

type_synonym mallocs = "nat \<Rightarrow> (nat \<Rightarrow> byte) option"

definition malloc :: "mallocs \<Rightarrow> (nat \<Rightarrow> byte) option \<times> mallocs" where
  "malloc ms = (ms 0, \<lambda>n. ms (Suc n))"

record pager_t =
  pg_size :: u16
  psize :: u32
  pmask :: u32
  page_count :: u32
  evict_head :: u32
  create_head :: u32
  next_page :: u32
  directory :: "hash_entry_t list"
  ring :: "ring_entry_t list"
  heap :: "page_hdr list"
  mallocs :: mallocs
  spurious :: "bool list"

text \<open>\<^verbatim>\<open>page_t\<close>: the data pointer is the header pointer.\<close>

record page_t =
  tid :: u32
  tptr :: nat

definition zero_mapping :: mapping_t where "zero_mapping = \<lparr>mid = 0, mhdr = None\<rparr>"

definition zero_entry :: hash_entry_t where
  "zero_entry = \<lparr>elatch = 0, efirst = zero_mapping, esecond = zero_mapping, eoverflow = []\<rparr>"

definition zero_ring :: ring_entry_t where "zero_ring = \<lparr>rid = 0, rhdr = None\<rparr>"

text \<open>Access by index and by pointer.\<close>

definition at_index :: "'a list \<Rightarrow> nat \<Rightarrow> 'a outcome" where
  "at_index xs i = (if i < length xs then Inr (xs ! i) else Inl Out_of_bounds)"

definition deref :: "'a list \<Rightarrow> nat option \<Rightarrow> (nat \<times> 'a) outcome" where
  "deref xs ptr = (case ptr of None \<Rightarrow> Inl Null_dereference
     | Some a \<Rightarrow> if a < length xs then Inr (a, xs ! a) else Inl Out_of_bounds)"

definition put_entry :: "pager_t \<Rightarrow> nat \<Rightarrow> hash_entry_t \<Rightarrow> pager_t" where
  "put_entry p i e = p\<lparr>directory := (directory p)[i := e]\<rparr>"

definition put_ring :: "pager_t \<Rightarrow> nat \<Rightarrow> ring_entry_t \<Rightarrow> pager_t" where
  "put_ring p i r = p\<lparr>ring := (ring p)[i := r]\<rparr>"

definition put_hdr :: "pager_t \<Rightarrow> nat \<Rightarrow> page_hdr \<Rightarrow> pager_t" where
  "put_hdr p a h = p\<lparr>heap := (heap p)[a := h]\<rparr>"

text \<open>\<^verbatim>\<open>head % size\<close> on unsigned integers.\<close>

definition u32_mod :: "u32 \<Rightarrow> u32 \<Rightarrow> nat outcome" where
  "u32_mod a b = (if b = 0 then Inl Division_by_zero else Inr (unat a mod unat b))"

definition next_spurious :: "pager_t \<Rightarrow> bool \<times> pager_t" where
  "next_spurious p = (case spurious p of [] \<Rightarrow> (False, p) | s # sp \<Rightarrow> (s, p\<lparr>spurious := sp\<rparr>))"

text \<open>
  \<^verbatim>\<open>try_alloc\<close> without memory: ENOMEM with two messages. The number of bytes in the second
  is left out of its text.
\<close>

definition try_alloc_failure :: "site \<Rightarrow> string \<Rightarrow> string \<Rightarrow> error_state \<Rightarrow> (result \<times> error_state) outcome" where
  "try_alloc_failure site ptr sz es =
     (case site of (fl, fn, ln) \<Rightarrow>
     obind (error_push es fl fn ln ENOMEM) (\<lambda>es.
     obind (error_append_message es (''no memory for: '' @ ptr)) (\<lambda>es.
     obind (error_append_message es ('', '' @ [CHR 0x27] @ sz @ [CHR 0x27] @ '' = '')) (\<lambda>es.
     Inr (FAILURE, es)))))"

section \<open>Opening\<close>

text \<open>
  What the caller's pointer refers to after \<^verbatim>\<open>pager_open\<close>. On success the three \<^verbatim>\<open>errdefer\<close>
  handlers free the pager nevertheless when an error code of an earlier failure is still
  set.
\<close>

datatype 'a allocated = Live 'a | Freed

text \<open>\<^verbatim>\<open>(uint32_t)(directory_size * 0.7)\<close>, for powers of two.\<close>

definition seven_tenths :: "u32 \<Rightarrow> u32" where
  "seven_tenths n = of_nat (7 * unat n div 10)"

definition pager_open ::
  "u16 \<Rightarrow> u32 \<Rightarrow> mallocs \<Rightarrow> bool list \<Rightarrow> error_state \<Rightarrow>
   (result \<times> pager_t allocated option \<times> error_state) outcome" where
  "pager_open page_size directory_size ms sp es =
     (if directory_size AND (directory_size - 1) \<noteq> 0 then
        obind (failure (''src/pager.c'', ''pager_open'', 116) EINVAL
          ''ensure(directory_size & (directory_size - 1)) == 0'' es) (\<lambda>(r, es). Inr (r, None, es))
      else case malloc ms of
        (None, ms) \<Rightarrow>
          obind (try_alloc_failure (''src/pager.c'', ''pager_open'', 120) ''pager'' ''sizeof(pager_t)'' es)
            (\<lambda>(r, es). Inr (r, None, es))
      | (Some _, ms) \<Rightarrow>
          (case malloc ms of
            (None, ms) \<Rightarrow>
              obind (try_alloc_failure (''src/pager.c'', ''pager_open'', 131) ''pager->directory''
                ''sizeof(hash_entry_t) * directory_size'' es) (\<lambda>(r, es). Inr (r, None, es))
          | (Some _, ms) \<Rightarrow>
              (case malloc ms of
                (None, ms) \<Rightarrow>
                  obind (try_alloc_failure (''src/pager.c'', ''pager_open'', 134) ''pager->ring''
                    ''sizeof(ring_entry_t) * pager->size'' es) (\<lambda>(r, es). Inr (r, None, es))
              | (Some _, ms) \<Rightarrow>
                  let p = \<lparr>pg_size = page_size, psize = seven_tenths directory_size, pmask = directory_size - 1,
                    page_count = 0, evict_head = 0, create_head = 0, next_page = 1,
                    directory = replicate (unat directory_size) (zero_entry\<lparr>elatch := latch_init 0\<rparr>),
                    ring = replicate (unat (seven_tenths directory_size)) zero_ring, heap = [],
                    mallocs = ms, spurious = sp\<rparr> in
                  Inr (SUCCESS, Some (if errdefer_runs es then Freed else Live p), es))))"

definition pager_get_page_size :: "pager_t \<Rightarrow> u16" where
  "pager_get_page_size p = pg_size p"

section \<open>The hash directory\<close>

definition pager_hash :: "u32 \<Rightarrow> u32 \<Rightarrow> u32" where
  "pager_hash hmask pgid =
     (let hash = pgid;
          hash = (drop_bit 16 hash XOR hash) * 0x45d9f3b;
          hash = (drop_bit 16 hash XOR hash) * 0x45d9f3b;
          hash = drop_bit 16 hash XOR hash
      in hash AND hmask)"

fun bucket_lookup :: "mapping_t list \<Rightarrow> u32 \<Rightarrow> bool \<times> nat option" where
  "bucket_lookup [] pgid = (False, None)"
| "bucket_lookup (b # bs) pgid = (if mid b = pgid then (True, mhdr b) else bucket_lookup bs pgid)"

definition entry_directory_lookup :: "hash_entry_t \<Rightarrow> u32 \<Rightarrow> (bool \<times> nat option) outcome" where
  "entry_directory_lookup e pgid =
     obind (c_assert (elatch e \<noteq> 0)) (\<lambda>_.
     Inr (if mid (efirst e) = pgid then (True, mhdr (efirst e))
          else if mid (esecond e) = pgid then (True, mhdr (esecond e))
          else bucket_lookup (eoverflow e) pgid))"

function bucket_insert ::
  "mapping_t list \<Rightarrow> u32 \<Rightarrow> nat \<Rightarrow> mallocs \<Rightarrow> error_state \<Rightarrow>
   (result \<times> mapping_t list \<times> mallocs \<times> error_state) outcome" where
  "bucket_insert [] pgid header ms es = Inl Null_dereference"
| "bucket_insert (b # bs) pgid header ms es =
     (if mid b = 0 then Inr (SUCCESS, \<lparr>mid = pgid, mhdr = Some header\<rparr> # bs, ms, es)
      else if bs = [] then
        (case malloc ms of
          (None, ms) \<Rightarrow>
            obind (try_alloc_failure (''src/pager.c'', ''pager_directory_insert'', 218) ''bucket->next''
              ''sizeof(bucket_t)'' es) (\<lambda>(r, es). Inr (r, [b], ms, es))
        | (Some _, ms) \<Rightarrow>
            obind (bucket_insert [zero_mapping] pgid header ms es) (\<lambda>(r, bs, ms, es). Inr (r, b # bs, ms, es)))
      else obind (bucket_insert bs pgid header ms es) (\<lambda>(r, bs, ms, es). Inr (r, b # bs, ms, es)))"
  by pat_completeness auto
termination
  by (relation "measure (\<lambda>(bs, pgid, header, ms, es). 2 * length (filter (\<lambda>b. mid b \<noteq> 0) bs) + length bs)")
    (auto simp: zero_mapping_def)

definition pager_directory_insert ::
  "hash_entry_t \<Rightarrow> u32 \<Rightarrow> nat \<Rightarrow> mallocs \<Rightarrow> error_state \<Rightarrow>
   (result \<times> hash_entry_t \<times> mallocs \<times> error_state) outcome" where
  "pager_directory_insert e pgid header ms es =
     obind (c_assert (sint (elatch e) < 0)) (\<lambda>_.
     if mid (efirst e) = 0 then Inr (SUCCESS, e\<lparr>efirst := \<lparr>mid = pgid, mhdr = Some header\<rparr>\<rparr>, ms, es)
     else if mid (esecond e) = 0 then Inr (SUCCESS, e\<lparr>esecond := \<lparr>mid = pgid, mhdr = Some header\<rparr>\<rparr>, ms, es)
     else if eoverflow e = [] then
       (case malloc ms of
         (None, ms) \<Rightarrow>
           obind (try_alloc_failure (''src/pager.c'', ''pager_directory_insert'', 206) ''hash_entry->overflow''
             ''sizeof(bucket_t)'' es) (\<lambda>(r, es). Inr (r, e, ms, es))
       | (Some _, ms) \<Rightarrow>
           obind (bucket_insert [zero_mapping] pgid header ms es)
             (\<lambda>(r, bs, ms, es). Inr (r, e\<lparr>eoverflow := bs\<rparr>, ms, es)))
     else obind (bucket_insert (eoverflow e) pgid header ms es)
       (\<lambda>(r, bs, ms, es). Inr (r, e\<lparr>eoverflow := bs\<rparr>, ms, es)))"

fun bucket_remove :: "mapping_t list \<Rightarrow> u32 \<Rightarrow> mapping_t list" where
  "bucket_remove [] pgid = []"
| "bucket_remove (b # bs) pgid = (if mid b = pgid then b\<lparr>mid := 0\<rparr> # bs else b # bucket_remove bs pgid)"

definition pager_directory_remove :: "hash_entry_t \<Rightarrow> u32 \<Rightarrow> hash_entry_t outcome" where
  "pager_directory_remove e pgid =
     obind (c_assert (sint (elatch e) < 0)) (\<lambda>_.
     Inr (if mid (efirst e) = pgid then e\<lparr>efirst := (efirst e)\<lparr>mid := 0\<rparr>\<rparr>
          else if mid (esecond e) = pgid then e\<lparr>esecond := (esecond e)\<lparr>mid := 0\<rparr>\<rparr>
          else e\<lparr>eoverflow := bucket_remove (eoverflow e) pgid\<rparr>))"

section \<open>Creating a page\<close>

definition entry_at :: "pager_t \<Rightarrow> nat \<Rightarrow> hash_entry_t outcome" where
  "entry_at p i = at_index (directory p) i"

text \<open>
  \<^verbatim>\<open>malloc(sizeof(header_t) + page_size)\<close> for a ring entry without a header. The fields of
  the new header are indeterminate until \<^verbatim>\<open>pager_create\<close> sets them, the data stays so.
\<close>

definition ring_alloc :: "pager_t \<Rightarrow> nat option \<Rightarrow> nat option \<times> pager_t" where
  "ring_alloc p hdr =
     (case hdr of Some a \<Rightarrow> (Some a, p)
      | None \<Rightarrow> (case malloc (mallocs p) of
          (None, ms) \<Rightarrow> (None, p\<lparr>mallocs := ms\<rparr>)
        | (Some g, ms) \<Rightarrow> (Some (length (heap p)), p\<lparr>mallocs := ms,
            heap := heap p @ [\<lparr>pid = 0, platch = 0, pflags = 0, pdata = map g [0..<unat (pg_size p)]\<rparr>]\<rparr>)))"

text \<open>
  The body of the loop of \<^verbatim>\<open>pager_create\<close> once a ring entry is acquired. \<open>ei\<close> is the index of
  the hash map entry, whose latch the caller holds.
\<close>

definition create_at ::
  "pager_t \<Rightarrow> nat \<Rightarrow> u32 \<Rightarrow> nat \<Rightarrow> error_state \<Rightarrow> (result \<times> nat \<times> pager_t \<times> error_state) outcome" where
  "create_at p ei pgid index es =
     obind (at_index (ring p) index) (\<lambda>r.
     let p = put_ring p index (r\<lparr>rid := pgid\<rparr>) in
     case ring_alloc p (rhdr r) of (hdr, p) \<Rightarrow>
     let p = put_ring p index \<lparr>rid = pgid, rhdr = hdr\<rparr> in
     (case hdr of
       None \<Rightarrow>
         let p = put_ring p index \<lparr>rid = 0, rhdr = None\<rparr> in
         obind (failure (''src/pager.c'', ''pager_create'', 269) ENOMEM
           ''failed to allocate memory for page'' es) (\<lambda>(r, es). Inr (r, 0, p, es))
     | Some a \<Rightarrow>
         obind (deref (heap p) (Some a)) (\<lambda>(_, h).
         let p = put_hdr p a (h\<lparr>pid := pgid, pflags := 0, platch := latch_init (platch h)\<rparr>) in
         obind (entry_at p ei) (\<lambda>e.
         obind (pager_directory_insert e pgid a (mallocs p) es) (\<lambda>(r, e, ms, es).
         let p = put_entry (p\<lparr>mallocs := ms\<rparr>) ei e in
         if r \<noteq> SUCCESS then
           let p = put_ring p index \<lparr>rid = 0, rhdr = hdr\<rparr> in
           obind (try_fail (''src/pager.c'', ''pager_create'', 278)
             ''handler for: pager_directory_insert(hash_entry, ring_entry->header)'' es)
             (\<lambda>(r, es). Inr (r, 0, p, es))
         else Inr (SUCCESS, a, p, es))))))"

text \<open>
  The loop: it goes around the ring until the compare-exchange takes an entry that is free.
  \<open>fuel\<close> bounds the number of rounds; that a bound suffices is proved in the theory
  PagerCreate.
\<close>

fun create_loop ::
  "nat \<Rightarrow> pager_t \<Rightarrow> nat \<Rightarrow> u32 \<Rightarrow> error_state \<Rightarrow> (result \<times> nat \<times> pager_t \<times> error_state) outcome" where
  "create_loop 0 p ei pgid es = Inl Spins_forever"
| "create_loop (Suc fuel) p ei pgid es =
     obind (u32_mod (create_head p) (psize p)) (\<lambda>index.
     let p = p\<lparr>create_head := create_head p + 1\<rparr> in
     obind (at_index (ring p) index) (\<lambda>r.
     case next_spurious p of (sp, p) \<Rightarrow>
     case weak_cas sp (rid r) 0 pgid of (success, _, _) \<Rightarrow>
     if \<not> success then create_loop fuel p ei pgid es else create_at p ei pgid index es))"

definition pager_create ::
  "nat \<Rightarrow> pager_t \<Rightarrow> nat \<Rightarrow> u32 \<Rightarrow> error_state \<Rightarrow> (result \<times> nat \<times> pager_t \<times> error_state) outcome" where
  "pager_create fuel p ei pgid es =
     obind (entry_at p ei) (\<lambda>e.
     obind (c_assert (sint (elatch e) < 0)) (\<lambda>_. create_loop fuel p ei pgid es))"

section \<open>Eviction\<close>

text \<open>
  The latch of a hash map entry. That the acquire functions do not depend on spurious
  failures is shown in the theory Latch.
\<close>

definition entry_acquire :: "pager_t \<Rightarrow> nat \<Rightarrow> bool \<Rightarrow> pager_t outcome" where
  "entry_acquire p ei exclusive =
     obind (entry_at p ei) (\<lambda>e.
     obind (latch_acquire (spurious p) (elatch e) exclusive) (\<lambda>l. Inr (put_entry p ei (e\<lparr>elatch := l\<rparr>))))"

definition entry_release :: "pager_t \<Rightarrow> nat \<Rightarrow> bool \<Rightarrow> pager_t outcome" where
  "entry_release p ei exclusive =
     obind (entry_at p ei) (\<lambda>e.
     obind (if exclusive then latch_release_write (elatch e) else latch_release_read (elatch e))
       (\<lambda>l. Inr (put_entry p ei (e\<lparr>elatch := l\<rparr>))))"

text \<open>
  \<^verbatim>\<open>pager_directory_find_entry\<close>: the index of the hash map entry, with its latch held. The
  strong compare-exchange succeeds, nobody else changes the page id.
\<close>

definition pager_directory_find_entry :: "pager_t \<Rightarrow> nat \<Rightarrow> (nat option \<times> pager_t) outcome" where
  "pager_directory_find_entry p index =
     obind (at_index (ring p) index) (\<lambda>r.
     if rid r \<noteq> 0 then
       let ei = unat (pager_hash (pmask p) (rid r)) in
       obind (entry_acquire p ei True) (\<lambda>p. Inr (Some ei, p))
     else Inr (None, p))"

text \<open>One iteration of the loop of \<^verbatim>\<open>pager_evict\<close>: whether it returns, and the new state.\<close>

definition evict_step :: "pager_t \<Rightarrow> (bool \<times> pager_t) outcome" where
  "evict_step p =
     obind (u32_mod (evict_head p) (psize p)) (\<lambda>index.
     let p = p\<lparr>evict_head := evict_head p + 1\<rparr> in
     obind (pager_directory_find_entry p index) (\<lambda>(ei, p).
     case ei of None \<Rightarrow> Inr (False, p)
     | Some ei \<Rightarrow>
         obind (at_index (ring p) index) (\<lambda>r.
         obind (deref (heap p) (rhdr r)) (\<lambda>(a, h).
         if \<not> latch_available (platch h) then obind (entry_release p ei True) (\<lambda>p. Inr (False, p))
         else if pflags h AND PAGE_FLAG_REF \<noteq> 0 then
           obind (entry_release (put_hdr p a (h\<lparr>pflags := pflags h AND NOT PAGE_FLAG_REF\<rparr>)) ei True)
             (\<lambda>p. Inr (False, p))
         else
           obind (entry_at p ei) (\<lambda>e.
           obind (pager_directory_remove e (rid r)) (\<lambda>e.
           let p = put_ring (put_entry p ei e) index (r\<lparr>rid := 0\<rparr>) in
           obind (entry_release p ei True) (\<lambda>p. Inr (True, p))))))))"

fun evict_loop :: "nat \<Rightarrow> pager_t \<Rightarrow> error_state \<Rightarrow> (result \<times> pager_t \<times> error_state) outcome" where
  "evict_loop 0 p es =
     obind (failure (''src/pager.c'', ''pager_evict'', 343) ENOMEM ''no pages to evict'' es)
       (\<lambda>(r, es). Inr (r, p, es))"
| "evict_loop (Suc n) p es =
     obind (evict_step p) (\<lambda>(done, p). if done then Inr (SUCCESS, p, es) else evict_loop n p es)"

definition pager_evict :: "pager_t \<Rightarrow> error_state \<Rightarrow> (result \<times> pager_t \<times> error_state) outcome" where
  "pager_evict p es = evict_loop (unat (psize p * 2)) p es"

section \<open>Fixing and unfixing\<close>

text \<open>Acquire the latch of a header and note an exclusive acquisition in its flags.\<close>

definition header_acquire :: "pager_t \<Rightarrow> nat \<Rightarrow> bool \<Rightarrow> pager_t outcome" where
  "header_acquire p a exclusive =
     obind (deref (heap p) (Some a)) (\<lambda>(_, h).
     obind (latch_acquire (spurious p) (platch h) exclusive) (\<lambda>l.
     Inr (put_hdr p a (h\<lparr>platch := l,
       pflags := (if exclusive then pflags h OR PAGE_FLAG_EXCLUSIVE else pflags h)\<rparr>))))"

definition pager_lookup :: "pager_t \<Rightarrow> nat \<Rightarrow> u32 \<Rightarrow> bool \<Rightarrow> (page_t option \<times> pager_t) outcome" where
  "pager_lookup p ei pgid exclusive =
     obind (entry_at p ei) (\<lambda>e.
     obind (entry_directory_lookup e pgid) (\<lambda>(found, hdr).
     if \<not> found then Inr (None, p)
     else
       obind (deref (heap p) hdr) (\<lambda>(a, _).
       obind (header_acquire p a exclusive) (\<lambda>p. Inr (Some \<lparr>tid = pgid, tptr = a\<rparr>, p)))))"

text \<open>
  The loop that reserves room in \<^verbatim>\<open>page_count\<close>: either a page is evicted or the counter is
  incremented. \<open>count\<close> is the local variable, reloaded by a failed compare-exchange.
\<close>

function count_loop :: "pager_t \<Rightarrow> u32 \<Rightarrow> error_state \<Rightarrow> (result \<times> pager_t \<times> error_state) outcome" where
  "count_loop p count es =
     (if count \<ge> psize p - 1 then
        obind (pager_evict p es) (\<lambda>(r, p, es).
        if r \<noteq> SUCCESS then
          obind (try_fail (''src/pager.c'', ''pager_fix'', 389) ''try pager_evict(pager)'' es)
            (\<lambda>(r, es). Inr (r, p, es))
        else Inr (SUCCESS, p, es))
      else
        (case next_spurious p of (sp, p') \<Rightarrow>
         case weak_cas sp (page_count p) count (count + 1) of (success, pc, count) \<Rightarrow>
         if success then Inr (SUCCESS, p'\<lparr>page_count := pc\<rparr>, es) else count_loop p' count es))"
  by pat_completeness auto
termination
  by (relation "measure (\<lambda>(p, count, es). 2 * length (spurious p) + (if count = page_count p then 0 else 1))")
    (auto simp: next_spurious_def weak_cas_def split: list.splits if_splits)

declare count_loop.simps [simp del]

definition pager_fix ::
  "nat \<Rightarrow> pager_t \<Rightarrow> u32 \<Rightarrow> bool \<Rightarrow> error_state \<Rightarrow> (result \<times> page_t option \<times> pager_t \<times> error_state) outcome" where
  "pager_fix fuel p pgid exclusive es =
     (if pgid = 0 then
        obind (failure (''src/pager.c'', ''pager_fix'', 372) EINVAL ''invalid page id'' es)
          (\<lambda>(r, es). Inr (r, None, p, es))
      else
        let ei = unat (pager_hash (pmask p) pgid) in
        obind (entry_acquire p ei False) (\<lambda>p.
        obind (pager_lookup p ei pgid exclusive) (\<lambda>(out, p).
        obind (entry_release p ei False) (\<lambda>p.
        if out \<noteq> None then Inr (SUCCESS, out, p, es)
        else
          obind (count_loop p (page_count p) es) (\<lambda>(r, p, es).
          if r \<noteq> SUCCESS then Inr (r, None, p, es)
          else
            obind (entry_acquire p ei True) (\<lambda>p.
            obind (pager_lookup p ei pgid exclusive) (\<lambda>(out, p).
            if out \<noteq> None then
              let p = p\<lparr>page_count := page_count p - 1\<rparr> in
              obind (entry_release p ei True) (\<lambda>p. Inr (SUCCESS, out, p, es))
            else
              obind (pager_create fuel p ei pgid es) (\<lambda>(r, a, p, es).
              if r \<noteq> SUCCESS then
                let p = p\<lparr>page_count := page_count p - 1\<rparr> in
                obind (try_fail (''src/pager.c'', ''pager_fix'', 410)
                  ''handler for: pager_create(pager, hash_entry, id, &header)'' es) (\<lambda>(r, es).
                obind (entry_release p ei True) (\<lambda>p. Inr (r, None, p, es)))
              else
                obind (header_acquire p a exclusive) (\<lambda>p.
                obind (entry_release p ei True) (\<lambda>p.
                Inr (SUCCESS, Some \<lparr>tid = pgid, tptr = a\<rparr>, p, es)))))))))))"

definition pager_next ::
  "nat \<Rightarrow> pager_t \<Rightarrow> error_state \<Rightarrow> (result \<times> page_t option \<times> pager_t \<times> error_state) outcome" where
  "pager_next fuel p es = pager_fix fuel (p\<lparr>next_page := next_page p + 1\<rparr>) (next_page p) True es"

definition pager_unfix :: "pager_t \<Rightarrow> page_t \<Rightarrow> pager_t outcome" where
  "pager_unfix p page =
     obind (deref (heap p) (Some (tptr page))) (\<lambda>(a, h).
     if pflags h AND PAGE_FLAG_EXCLUSIVE \<noteq> 0 then
       let h = h\<lparr>pflags := PAGE_FLAG_DIRTY OR PAGE_FLAG_REF\<rparr> in
       obind (latch_release_write (platch h)) (\<lambda>l. Inr (put_hdr p a (h\<lparr>platch := l\<rparr>)))
     else
       let h = h\<lparr>pflags := pflags h OR PAGE_FLAG_REF\<rparr> in
       obind (latch_release_read (platch h)) (\<lambda>l. Inr (put_hdr p a (h\<lparr>platch := l\<rparr>))))"

section \<open>The data of a page\<close>

text \<open>Reading and writing through \<^verbatim>\<open>page.data\<close>, the buffer as a whole.\<close>

definition page_data :: "pager_t \<Rightarrow> page_t \<Rightarrow> byte list outcome" where
  "page_data p page = obind (deref (heap p) (Some (tptr page))) (\<lambda>(_, h). Inr (pdata h))"

definition write_data :: "pager_t \<Rightarrow> nat \<Rightarrow> byte list \<Rightarrow> pager_t" where
  "write_data p a bs = put_hdr p a ((heap p ! a)\<lparr>pdata := bs\<rparr>)"

section \<open>Closing\<close>

text \<open>The objects \<^verbatim>\<open>pager_close\<close> frees, in the order it frees them.\<close>

datatype freed = Header nat | Ring | Bucket nat nat | Directory | Pager_struct

definition close_ring :: "ring_entry_t list \<Rightarrow> freed list" where
  "close_ring rs = concat (map (\<lambda>r. case rhdr r of None \<Rightarrow> [] | Some a \<Rightarrow> [Header a]) rs)"

text \<open>The loop condition \<open>i <= pager->mask\<close> never fails for the largest mask.\<close>

definition close_directory :: "pager_t \<Rightarrow> freed list outcome" where
  "close_directory p =
     (if unat (pmask p) < length (directory p) then
        if pmask p = -1 then Inl Spins_forever else
        Inr (concat (map (\<lambda>i. map (Bucket i) [0..<length (eoverflow (directory p ! i))]) [0..<Suc (unat (pmask p))]))
      else Inl Out_of_bounds)"

definition pager_close :: "pager_t \<Rightarrow> (result \<times> freed list) outcome" where
  "pager_close p =
     (if unat (psize p) \<le> length (ring p) then
        obind (close_directory p) (\<lambda>bs.
        Inr (SUCCESS, close_ring (take (unat (psize p)) (ring p)) @ [Ring] @ bs @ [Directory, Pager_struct]))
      else Inl Out_of_bounds)"

end
