(* ===== verification/PagerDirectory.thy ===== *)
theory PagerDirectory
  imports Pager
begin

text \<open>
  One entry of the hash directory as a finite map from page ids to header pointers: lookup,
  insertion and removal on the two slots and the overflow buckets. The contract of such a
  map is a locale; the functions of pager.c are shown to satisfy it.
\<close>

section \<open>The contract of a directory entry\<close>

locale id_directory =
  fixes represents :: "'e \<Rightarrow> (u32 \<Rightarrow> nat option) \<Rightarrow> bool"
    and lookup :: "'e \<Rightarrow> u32 \<Rightarrow> nat option"
    and insert :: "'e \<Rightarrow> u32 \<Rightarrow> nat \<Rightarrow> 'e option"
    and remove :: "'e \<Rightarrow> u32 \<Rightarrow> 'e"
  assumes lookup_represents: "represents e M \<Longrightarrow> i \<noteq> 0 \<Longrightarrow> lookup e i = M i"
    and insert_represents: "represents e M \<Longrightarrow> i \<noteq> 0 \<Longrightarrow> M i = None \<Longrightarrow> insert e i h = Some e' \<Longrightarrow>
      represents e' (M(i \<mapsto> h))"
    and remove_represents: "represents e M \<Longrightarrow> i \<noteq> 0 \<Longrightarrow> represents (remove e i) (M(i := None))"
begin

lemma lookup_inserted: "represents e M \<Longrightarrow> i \<noteq> 0 \<Longrightarrow> M i = None \<Longrightarrow> insert e i h = Some e' \<Longrightarrow> j \<noteq> 0 \<Longrightarrow>
    lookup e' j = (if j = i then Some h else lookup e j)"
  using lookup_represents [OF insert_represents] lookup_represents by simp

lemma lookup_removed: "represents e M \<Longrightarrow> i \<noteq> 0 \<Longrightarrow> j \<noteq> 0 \<Longrightarrow>
    lookup (remove e i) j = (if j = i then None else lookup e j)"
  using lookup_represents [OF remove_represents] lookup_represents by simp

lemma insert_remove: "represents e M \<Longrightarrow> i \<noteq> 0 \<Longrightarrow> M i = None \<Longrightarrow> insert e i h = Some e' \<Longrightarrow>
    represents (remove e' i) M"
  using remove_represents [OF insert_represents, of e M i h e' i] by (simp add: fun_upd_idem)

end

section \<open>Slots\<close>

definition slots :: "hash_entry_t \<Rightarrow> mapping_t list" where
  "slots e = efirst e # esecond e # eoverflow e"

definition slots_rep :: "mapping_t list \<Rightarrow> (u32 \<Rightarrow> nat option) \<Rightarrow> bool" where
  "slots_rep ms M \<longleftrightarrow> M 0 = None \<and>
     (\<forall>j < length ms. \<forall>k < length ms. mid (ms ! j) \<noteq> 0 \<longrightarrow> mid (ms ! j) = mid (ms ! k) \<longrightarrow> j = k) \<and>
     (\<forall>m \<in> set ms. mid m \<noteq> 0 \<longrightarrow> M (mid m) = mhdr m \<and> mhdr m \<noteq> None) \<and>
     (\<forall>i. M i \<noteq> None \<longrightarrow> (\<exists>m \<in> set ms. mid m = i))"

definition entry_rep :: "hash_entry_t \<Rightarrow> (u32 \<Rightarrow> nat option) \<Rightarrow> bool" where
  "entry_rep e M \<longleftrightarrow> slots_rep (slots e) M"

lemma slots_latch [simp]: "slots (e\<lparr>elatch := l\<rparr>) = slots e"
  by (simp add: slots_def)

lemma entry_rep_latch [simp]: "entry_rep (e\<lparr>elatch := l\<rparr>) M = entry_rep e M"
  by (simp add: entry_rep_def)

lemma bucket_lookup_mem: "fst (bucket_lookup ms i) = (\<exists>m \<in> set ms. mid m = i)"
  by (induction ms) auto

lemma bucket_lookup_found: "bucket_lookup ms i = (True, h) \<Longrightarrow> \<exists>m \<in> set ms. mid m = i \<and> mhdr m = h"
  by (induction ms) (auto split: if_splits)

lemma bucket_lookup_slots:
  assumes "slots_rep ms M" and "i \<noteq> 0"
  shows "bucket_lookup ms i = (M i \<noteq> None, M i)"
proof (cases "\<exists>m \<in> set ms. mid m = i")
  case True
  then obtain h where h: "bucket_lookup ms i = (True, h)" using bucket_lookup_mem by (metis (full_types) prod.collapse)
  then obtain m where "m \<in> set ms" "mid m = i" "mhdr m = h" using bucket_lookup_found by blast
  with assms h show ?thesis by (auto simp: slots_rep_def)
next
  case False
  then have "M i = None" using assms by (auto simp: slots_rep_def)
  moreover have "bucket_lookup ms i = (False, None)" using False by (induction ms) auto
  ultimately show ?thesis by simp
qed

lemma entry_lookup_correct:
  assumes "entry_rep e M" and "i \<noteq> 0" and "elatch e \<noteq> 0"
  shows "entry_directory_lookup e i = Inr (M i \<noteq> None, M i)"
proof -
  have "bucket_lookup (slots e) i = (M i \<noteq> None, M i)"
    using assms(1,2) by (intro bucket_lookup_slots) (simp_all add: entry_rep_def)
  then have "(if mid (efirst e) = i then (True, mhdr (efirst e))
      else if mid (esecond e) = i then (True, mhdr (esecond e)) else bucket_lookup (eoverflow e) i) = (M i \<noteq> None, M i)"
    by (simp only: slots_def bucket_lookup.simps)
  then show ?thesis using assms(3) by (simp only: entry_directory_lookup_def c_assert_simps obind_simps if_True simp_thms)
qed

section \<open>Insertion\<close>

abbreviation mapping :: "u32 \<Rightarrow> nat \<Rightarrow> mapping_t" where
  "mapping i h \<equiv> \<lparr>mid = i, mhdr = Some h\<rparr>"

lemma slots_rep_fill:
  assumes rep: "slots_rep ms M" and j: "j < length ms" and free: "mid (ms ! j) = 0" and i: "i \<noteq> 0" and new: "M i = None"
  shows "slots_rep (ms[j := mapping i h]) (M(i \<mapsto> h))"
proof -
  have fresh: "mid (ms ! k) \<noteq> i" if "k < length ms" for k
    using rep that i new nth_mem [OF that] unfolding slots_rep_def by metis
  have "\<exists>m \<in> set (ms[j := mapping i h]). mid m = x" if "(M(i \<mapsto> h)) x \<noteq> None" for x
  proof (cases "x = i")
    case True
    then show ?thesis using set_update_memI [OF j, of "mapping i h"] by force
  next
    case False
    then have "M x \<noteq> None" using that by simp
    then obtain m where m: "m \<in> set ms" "mid m = x" using rep unfolding slots_rep_def by blast
    then obtain k where k: "k < length ms" "ms ! k = m" by (auto simp: in_set_conv_nth)
    have "x \<noteq> 0" using rep that False by (auto simp: slots_rep_def)
    then have "k \<noteq> j" using free k m by auto
    then have "ms[j := mapping i h] ! k = m" using k by simp
    then show ?thesis using m(2) k(1) by (metis length_list_update nth_mem)
  qed
  moreover have "(M(i \<mapsto> h)) (mid m) = mhdr m \<and> mhdr m \<noteq> None" if "m \<in> set (ms[j := mapping i h])" "mid m \<noteq> 0" for m
  proof -
    have "m = mapping i h \<or> m \<in> set ms" using that(1) set_update_subset_insert [of ms j "mapping i h"] by blast
    then show ?thesis
    proof
      assume m: "m \<in> set ms"
      then have "mid m \<noteq> i" using fresh by (auto simp: in_set_conv_nth)
      with m that(2) rep show ?thesis by (simp add: slots_rep_def)
    qed simp
  qed
  moreover have "a = b" if "a < length ms" "b < length ms" "mid (ms[j := mapping i h] ! a) \<noteq> 0"
      "mid (ms[j := mapping i h] ! a) = mid (ms[j := mapping i h] ! b)" for a b
    using that rep fresh [OF that(1)] fresh [OF that(2)] j by (auto simp: nth_list_update slots_rep_def split: if_splits)
  ultimately show ?thesis using rep i by (simp add: slots_rep_def)
qed

lemma slots_rep_append_zero: "slots_rep ms M \<Longrightarrow> mid z = 0 \<Longrightarrow> slots_rep (ms @ [z]) M"
  by (auto simp: slots_rep_def nth_append less_Suc_eq)

lemma try_alloc_failure_correct:
  assumes "error_wf es"
  shows "\<exists>es'. try_alloc_failure (fl, fn, ln) ptr sz es = Inr (FAILURE, es') \<and> error_wf es' \<and> error_code es' = ENOMEM"
proof -
  have "ENOMEM \<noteq> 0" by (simp add: ENOMEM_def)
  from error_push_correct [OF assms this] obtain es1 where
    1: "error_push es fl fn ln ENOMEM = Inr es1" "error_wf es1" "error_code es1 = ENOMEM" "error_count es1 > 0"
    by blast
  from error_append_correct [OF 1(2,4)] obtain es2 where
    2: "error_append_message es1 (''no memory for: '' @ ptr) = Inr es2" "error_wf es2"
    "error_code es2 = ENOMEM" "error_count es2 > 0" using 1(3,4) by fastforce
  from error_append_correct [OF 2(2,4)] obtain es3 where
    "error_append_message es2 ('', '' @ [CHR 0x27] @ sz @ [CHR 0x27] @ '' = '') = Inr es3" "error_wf es3"
    "error_code es3 = ENOMEM" using 2(3) by fastforce
  with 1(1) 2(1) show ?thesis by (simp add: try_alloc_failure_def)
qed

lemma mid_zero [simp]: "mid zero_mapping = 0"
  by (simp add: zero_mapping_def)

text \<open>
  What an insertion did to a list of slots: it succeeded and replaced a free slot, possibly
  one appended for it, or it failed for lack of memory and changed nothing.
\<close>

definition inserted ::
  "mapping_t list \<Rightarrow> u32 \<Rightarrow> nat \<Rightarrow> mallocs \<Rightarrow> error_state \<Rightarrow> result \<times> mapping_t list \<times> mallocs \<times> error_state \<Rightarrow> bool" where
  "inserted bs i h ms es res \<longleftrightarrow> (case res of (r, bs', ms', es') \<Rightarrow>
     (r = SUCCESS \<and> es' = es \<and> (\<exists>zs j. set zs \<subseteq> {zero_mapping} \<and> length zs \<le> 1 \<and> j < length (bs @ zs) \<and>
        mid ((bs @ zs) ! j) = 0 \<and> bs' = (bs @ zs)[j := mapping i h]) \<and> (ms' = ms \<or> ms' = (\<lambda>n. ms (Suc n)))) \<or>
     (r = FAILURE \<and> bs' = bs \<and> error_wf es' \<and> error_code es' = ENOMEM \<and> ms 0 = None \<and> ms' = (\<lambda>n. ms (Suc n))))"

lemma bucket_insert_zero [simp]:
  "bucket_insert [zero_mapping] i h ms es = Inr (SUCCESS, [mapping i h], ms, es)"
  by (simp add: zero_mapping_def)

lemma bucket_insert_correct:
  assumes "bs \<noteq> []" and "error_wf es"
  shows "\<exists>res. bucket_insert bs i h ms es = Inr res \<and> inserted bs i h ms es res"
  using assms
proof (induction bs)
  case (Cons b bs)
  consider "mid b = 0" | "mid b \<noteq> 0" "bs = []" | "mid b \<noteq> 0" "bs \<noteq> []" by blast
  then show ?case
  proof cases
    case 1
    have "inserted (b # bs) i h ms es (SUCCESS, mapping i h # bs, ms, es)"
      unfolding inserted_def using 1 by (auto intro!: exI [of _ "[]"] exI [of _ 0])
    with 1 show ?thesis by simp
  next
    case 2
    show ?thesis
    proof (cases "ms 0")
      case None
      obtain es' where "try_alloc_failure (''src/pager.c'', ''pager_directory_insert'', 218) ''bucket->next''
          ''sizeof(bucket_t)'' es = Inr (FAILURE, es')" "error_wf es'" "error_code es' = ENOMEM"
        using try_alloc_failure_correct [OF Cons.prems(2)] by blast
      then show ?thesis using 2 None by (simp add: malloc_def inserted_def)
    next
      case (Some g)
      have "inserted [b] i h ms es (SUCCESS, [b, mapping i h], \<lambda>n. ms (Suc n), es)"
        unfolding inserted_def by (auto intro!: exI [of _ "[zero_mapping]"] exI [of _ 1] simp: zero_mapping_def)
      with 2 Some show ?thesis by (simp add: malloc_def)
    qed
  next
    case 3
    from Cons.IH [OF 3(2) Cons.prems(2)] obtain r bs' ms' es' where
      res: "bucket_insert bs i h ms es = Inr (r, bs', ms', es')" "inserted bs i h ms es (r, bs', ms', es')" by auto
    have "inserted (b # bs) i h ms es (r, b # bs', ms', es')"
    proof (cases r)
      case SUCCESS
      with res(2) obtain zs j where j: "set zs \<subseteq> {zero_mapping}" "length zs \<le> 1" "j < length (bs @ zs)"
        "mid ((bs @ zs) ! j) = 0" "bs' = (bs @ zs)[j := mapping i h]" "es' = es" "ms' = ms \<or> ms' = (\<lambda>n. ms (Suc n))"
        by (auto simp: inserted_def)
      have "\<exists>zs j. set zs \<subseteq> {zero_mapping} \<and> length zs \<le> 1 \<and> j < length ((b # bs) @ zs) \<and>
          mid (((b # bs) @ zs) ! j) = 0 \<and> b # bs' = ((b # bs) @ zs)[j := mapping i h]"
        using j by (intro exI [of _ zs] exI [of _ "Suc j"]) simp
      then show ?thesis using j SUCCESS unfolding inserted_def by blast
    next
      case FAILURE
      with res(2) show ?thesis by (simp add: inserted_def)
    qed
    with 3 res(1) show ?thesis by simp
  qed
qed simp

lemma slots_rep_inserted:
  assumes "slots_rep ms M" and "inserted ms i h mal es (SUCCESS, ms', mal', es')" and "i \<noteq> 0" and "M i = None"
  shows "slots_rep ms' (M(i \<mapsto> h))"
proof -
  from assms(2) obtain zs j where j: "set zs \<subseteq> {zero_mapping}" "length zs \<le> 1" "j < length (ms @ zs)"
    "mid ((ms @ zs) ! j) = 0" "ms' = (ms @ zs)[j := mapping i h]" by (auto simp: inserted_def)
  have "slots_rep (ms @ zs) M"
  proof (cases zs)
    case (Cons z zs')
    then have "zs = [zero_mapping]" using j(1,2) by (cases zs') auto
    then show ?thesis using slots_rep_append_zero [OF assms(1), of zero_mapping] by (simp add: zero_mapping_def)
  qed (use assms(1) in simp)
  from slots_rep_fill [OF this j(3,4) assms(3,4)] show ?thesis by (simp add: j(5))
qed

lemma inserted_overflow:
  assumes "inserted bs i h ms es (r, bs', ms', es')"
  shows "inserted (a # b # bs) i h ms es (r, a # b # bs', ms', es')"
proof (cases r)
  case SUCCESS
  with assms obtain zs j where j: "set zs \<subseteq> {zero_mapping}" "length zs \<le> 1" "j < length (bs @ zs)"
    "mid ((bs @ zs) ! j) = 0" "bs' = (bs @ zs)[j := mapping i h]" "es' = es" "ms' = ms \<or> ms' = (\<lambda>n. ms (Suc n))"
    by (auto simp: inserted_def)
  have "\<exists>zs j. set zs \<subseteq> {zero_mapping} \<and> length zs \<le> 1 \<and> j < length ((a # b # bs) @ zs) \<and>
      mid (((a # b # bs) @ zs) ! j) = 0 \<and> a # b # bs' = ((a # b # bs) @ zs)[j := mapping i h]"
    using j by (intro exI [of _ zs] exI [of _ "Suc (Suc j)"]) simp
  then show ?thesis using j SUCCESS unfolding inserted_def by blast
next
  case FAILURE
  with assms show ?thesis by (simp add: inserted_def)
qed

lemma directory_insert_correct:
  assumes "error_wf es" and "sint (elatch e) < 0"
  shows "\<exists>r e' ms' es'. pager_directory_insert e i h ms es = Inr (r, e', ms', es') \<and> elatch e' = elatch e \<and>
    inserted (slots e) i h ms es (r, slots e', ms', es')"
proof -
  consider "mid (efirst e) = 0" | "mid (efirst e) \<noteq> 0" "mid (esecond e) = 0"
    | "mid (efirst e) \<noteq> 0" "mid (esecond e) \<noteq> 0" "eoverflow e = []"
    | "mid (efirst e) \<noteq> 0" "mid (esecond e) \<noteq> 0" "eoverflow e \<noteq> []" by blast
  then show ?thesis
  proof cases
    case 1
    then have "inserted (slots e) i h ms es (SUCCESS, slots (e\<lparr>efirst := mapping i h\<rparr>), ms, es)"
      unfolding inserted_def by (auto simp: slots_def intro!: exI [of _ "[]"] exI [of _ 0])
    with 1 assms(2) show ?thesis by (simp add: pager_directory_insert_def)
  next
    case 2
    then have "inserted (slots e) i h ms es (SUCCESS, slots (e\<lparr>esecond := mapping i h\<rparr>), ms, es)"
      unfolding inserted_def by (auto simp: slots_def intro!: exI [of _ "[]"] exI [of _ 1])
    with 2 assms(2) show ?thesis by (simp add: pager_directory_insert_def)
  next
    case 3
    show ?thesis
    proof (cases "ms 0")
      case None
      obtain es' where "try_alloc_failure (''src/pager.c'', ''pager_directory_insert'', 206) ''hash_entry->overflow''
          ''sizeof(bucket_t)'' es = Inr (FAILURE, es')" "error_wf es'" "error_code es' = ENOMEM"
        using try_alloc_failure_correct [OF assms(1)] by blast
      then show ?thesis using 3 None assms(2) by (simp add: pager_directory_insert_def malloc_def inserted_def)
    next
      case (Some g)
      have "inserted (slots e) i h ms es (SUCCESS, slots (e\<lparr>eoverflow := [mapping i h]\<rparr>), \<lambda>n. ms (Suc n), es)"
        unfolding inserted_def using 3
        by (auto intro!: exI [of _ "[zero_mapping]"] exI [of _ 2] simp: slots_def)
      with 3 Some assms(2) show ?thesis
        by (simp del: bucket_insert.simps add: pager_directory_insert_def malloc_def)
    qed
  next
    case 4
    from bucket_insert_correct [OF 4(3) assms(1)] obtain r bs' ms' es' where
      res: "bucket_insert (eoverflow e) i h ms es = Inr (r, bs', ms', es')"
      "inserted (eoverflow e) i h ms es (r, bs', ms', es')" by (metis prod_cases4)
    have "inserted (slots e) i h ms es (r, slots (e\<lparr>eoverflow := bs'\<rparr>), ms', es')"
      using inserted_overflow [OF res(2)] by (simp add: slots_def)
    with 4 res(1) assms(2) show ?thesis by (simp add: pager_directory_insert_def)
  qed
qed

section \<open>Removal\<close>

lemma bucket_remove_update:
  "bucket_remove ms i = ms \<and> (\<forall>m \<in> set ms. mid m \<noteq> i) \<or>
   (\<exists>j < length ms. mid (ms ! j) = i \<and> bucket_remove ms i = ms[j := (ms ! j)\<lparr>mid := 0\<rparr>])"
proof (induction ms)
  case (Cons m ms)
  show ?case
  proof (cases "mid m = i")
    case False
    from Cons.IH show ?thesis
    proof
      assume "\<exists>j < length ms. mid (ms ! j) = i \<and> bucket_remove ms i = ms[j := (ms ! j)\<lparr>mid := 0\<rparr>]"
      then obtain j where "j < length ms" "mid (ms ! j) = i" "bucket_remove ms i = ms[j := (ms ! j)\<lparr>mid := 0\<rparr>]" by blast
      with False show ?thesis by (intro disjI2 exI [of _ "Suc j"]) simp
    qed (use False in simp)
  qed auto
qed simp

lemma slots_rep_clear:
  assumes rep: "slots_rep ms M" and j: "j < length ms" and i: "mid (ms ! j) = i" "i \<noteq> 0"
  shows "slots_rep (ms[j := (ms ! j)\<lparr>mid := 0\<rparr>]) (M(i := None))"
proof -
  let ?ms = "ms[j := (ms ! j)\<lparr>mid := 0\<rparr>]"
  have nth: "?ms ! k = (if k = j then (ms ! j)\<lparr>mid := 0\<rparr> else ms ! k)" if "k < length ms" for k
    using that by simp
  have inj: "a = b" if "a < length ms" "b < length ms" "mid (ms ! a) \<noteq> 0" "mid (ms ! a) = mid (ms ! b)" for a b
    using rep that unfolding slots_rep_def by blast
  have "(M(i := None)) (mid m) = mhdr m \<and> mhdr m \<noteq> None" if m: "m \<in> set ?ms" "mid m \<noteq> 0" for m
  proof -
    from m(1) obtain k where k: "k < length ms" "m = ?ms ! k" by (auto simp: in_set_conv_nth)
    then have ne: "k \<noteq> j" using m(2) nth [OF k(1)] by auto
    then have mk: "m = ms ! k" using k nth [OF k(1)] by simp
    then have "mid m \<noteq> i" using inj [OF k(1) j] m(2) i ne by auto
    moreover have "m \<in> set ms" using mk k(1) by simp
    ultimately show ?thesis using rep m(2) by (simp add: slots_rep_def)
  qed
  moreover have "\<exists>m \<in> set ?ms. mid m = x" if x: "(M(i := None)) x \<noteq> None" for x
  proof -
    have "x \<noteq> i" "M x \<noteq> None" using x by (auto split: if_splits)
    then obtain m where "m \<in> set ms" "mid m = x" using rep unfolding slots_rep_def by blast
    then obtain k where k: "k < length ms" "mid (ms ! k) = x" by (auto simp: in_set_conv_nth)
    then have "k \<noteq> j" using i(1) \<open>x \<noteq> i\<close> by auto
    then have "mid (?ms ! k) = x" using nth [OF k(1)] k by simp
    then show ?thesis using k(1) by (metis length_list_update nth_mem)
  qed
  moreover have "a = b" if "a < length ms" "b < length ms" "mid (?ms ! a) \<noteq> 0" "mid (?ms ! a) = mid (?ms ! b)" for a b
    using that inj [OF that(1,2)] nth [OF that(1)] nth [OF that(2)] by (auto split: if_splits)
  ultimately show ?thesis using rep by (simp add: slots_rep_def)
qed

lemma slots_remove: "sint (elatch e) < 0 \<Longrightarrow>
  \<exists>e'. pager_directory_remove e i = Inr e' \<and> elatch e' = elatch e \<and> slots e' = bucket_remove (slots e) i"
  by (auto simp: pager_directory_remove_def slots_def)

lemma slots_rep_remove:
  assumes "slots_rep ms M" and "i \<noteq> 0"
  shows "slots_rep (bucket_remove ms i) (M(i := None))"
proof -
  from bucket_remove_update [of ms i] show ?thesis
  proof
    assume same: "bucket_remove ms i = ms \<and> (\<forall>m \<in> set ms. mid m \<noteq> i)"
    then have "M i = None" using assms(1) unfolding slots_rep_def by blast
    then have "M(i := None) = M" by (simp add: fun_upd_idem)
    then show ?thesis using same assms(1) by simp
  qed (use slots_rep_clear [OF assms(1) _ _ assms(2)] in auto)
qed

lemma directory_remove_correct:
  assumes "entry_rep e M" and "i \<noteq> 0" and "sint (elatch e) < 0"
  shows "\<exists>e'. pager_directory_remove e i = Inr e' \<and> elatch e' = elatch e \<and> entry_rep e' (M(i := None))"
  using slots_remove [OF assms(3), of i] slots_rep_remove [OF _ assms(2), of "slots e" M] assms(1)
  by (auto simp: entry_rep_def)

section \<open>The functions satisfy the contract\<close>

text \<open>As the pager calls them: with the latch of the entry held, here with enough memory.\<close>

definition dir_lookup :: "hash_entry_t \<Rightarrow> u32 \<Rightarrow> nat option" where
  "dir_lookup e i = (case entry_directory_lookup (e\<lparr>elatch := 1\<rparr>) i of Inr (_, h) \<Rightarrow> h | Inl _ \<Rightarrow> None)"

definition dir_insert :: "hash_entry_t \<Rightarrow> u32 \<Rightarrow> nat \<Rightarrow> hash_entry_t option" where
  "dir_insert e i h =
     (case pager_directory_insert (e\<lparr>elatch := -1\<rparr>) i h (\<lambda>_. Some (\<lambda>_. 0)) error_init of
        Inr (SUCCESS, e', _, _) \<Rightarrow> Some e' | _ \<Rightarrow> None)"

definition dir_remove :: "hash_entry_t \<Rightarrow> u32 \<Rightarrow> hash_entry_t" where
  "dir_remove e i = (case pager_directory_remove (e\<lparr>elatch := -1\<rparr>) i of Inr e' \<Rightarrow> e' | Inl _ \<Rightarrow> e)"

lemma dir_insert_represents:
  assumes "entry_rep e M" and "i \<noteq> 0" and "M i = None" and "dir_insert e i h = Some e'"
  shows "entry_rep e' (M(i \<mapsto> h))"
proof -
  have l: "sint (elatch (e\<lparr>elatch := -1\<rparr>)) < 0" by simp
  from directory_insert_correct [OF error_wf_init l] obtain r e1 ms' es' where
    ins: "pager_directory_insert (e\<lparr>elatch := -1\<rparr>) i h (\<lambda>_. Some (\<lambda>_. 0)) error_init = Inr (r, e1, ms', es')"
    "inserted (slots e) i h (\<lambda>_. Some (\<lambda>_. 0)) error_init (r, slots e1, ms', es')" by fastforce
  then have "r = SUCCESS" by (auto simp: inserted_def)
  then show ?thesis
    using slots_rep_inserted [of "slots e" M i h _ _ "slots e1" ms' es'] ins assms by (auto simp: dir_insert_def entry_rep_def)
qed

interpretation entry: id_directory entry_rep dir_lookup dir_insert dir_remove
proof
  fix e M i
  assume "entry_rep e M" "i \<noteq> (0 :: u32)"
  then show "dir_lookup e i = M i"
    using entry_lookup_correct [of "e\<lparr>elatch := 1\<rparr>" M i] by (simp add: dir_lookup_def)
next
  fix e M i h e'
  assume "entry_rep e M" "i \<noteq> (0 :: u32)" "M i = None" "dir_insert e i h = Some e'"
  then show "entry_rep e' (M(i \<mapsto> h))" by (rule dir_insert_represents)
next
  fix e M i
  assume "entry_rep e M" "i \<noteq> (0 :: u32)"
  then show "entry_rep (dir_remove e i) (M(i := None))"
    using directory_remove_correct [of "e\<lparr>elatch := -1\<rparr>" M i] by (auto simp: dir_remove_def)
qed

section \<open>Properties\<close>

text \<open>
  C10: A directory entry is a finite map. With the write latch held, inserting an absent page
  id either succeeds, and then exactly this id is mapped anew, every other id is mapped as
  before, and removing the id again restores the map; or memory is short, and then the map is
  as before and ENOMEM is reported.
\<close>

theorem directory_entry_is_map:
  assumes "entry_rep e M" and "i \<noteq> 0" and "M i = None" and "sint (elatch e) < 0" and "error_wf es"
  shows "\<exists>r e' ms' es'. pager_directory_insert e i h ms es = Inr (r, e', ms', es') \<and>
    (if r = SUCCESS then
       (\<forall>j. j \<noteq> 0 \<longrightarrow> entry_directory_lookup e' j =
          Inr (if j = i then (True, Some h) else (M j \<noteq> None, M j))) \<and>
       (\<exists>e''. pager_directory_remove e' i = Inr e'' \<and> entry_rep e'' M)
     else entry_rep e' M \<and> ms 0 = None \<and> error_code es' = ENOMEM)"
proof -
  from directory_insert_correct [OF assms(5,4)] obtain r e' ms' es' where
    ins: "pager_directory_insert e i h ms es = Inr (r, e', ms', es')" "elatch e' = elatch e"
    "inserted (slots e) i h ms es (r, slots e', ms', es')" by blast
  show ?thesis
  proof (cases r)
    case SUCCESS
    have rep: "entry_rep e' (M(i \<mapsto> h))"
      using slots_rep_inserted [of "slots e" M, OF _ ins(3) [unfolded SUCCESS] assms(2,3)] assms(1) by (simp add: entry_rep_def)
    have l: "elatch e' \<noteq> 0" "sint (elatch e') < 0" using assms(4) ins(2) by auto
    have "entry_directory_lookup e' j = Inr (if j = i then (True, Some h) else (M j \<noteq> None, M j))" if "j \<noteq> 0" for j
      using entry_lookup_correct [OF rep that l(1)] by simp
    moreover from directory_remove_correct [OF rep assms(2) l(2)] obtain e'' where
      "pager_directory_remove e' i = Inr e''" "entry_rep e'' ((M(i \<mapsto> h))(i := None))" by blast
    then have "\<exists>e''. pager_directory_remove e' i = Inr e'' \<and> entry_rep e'' M"
      using assms(3) by (simp add: fun_upd_idem)
    ultimately show ?thesis using ins(1) SUCCESS by auto
  next
    case FAILURE
    then show ?thesis using ins assms(1) by (auto simp: inserted_def entry_rep_def)
  qed
qed

theorem directory_entry_is_map_witness:
  "\<exists>e' e''. pager_directory_insert (zero_entry\<lparr>elatch := -1\<rparr>) 7 0 (\<lambda>_. None) error_init =
      Inr (SUCCESS, e', \<lambda>_. None, error_init) \<and>
    entry_directory_lookup e' 7 = Inr (True, Some 0) \<and> entry_directory_lookup e' 8 = Inr (False, None) \<and>
    pager_directory_remove e' 7 = Inr e'' \<and> entry_rep e'' Map.empty"
proof -
  let ?e = "zero_entry\<lparr>elatch := -1\<rparr>"
  have "entry_rep ?e Map.empty"
    by (simp add: entry_rep_def slots_rep_def slots_def zero_entry_def zero_mapping_def less_Suc_eq nth_Cons')
  from directory_entry_is_map [OF this _ _ _ error_wf_init, of 7 0 "\<lambda>_. None"] obtain r e' ms' es' where
    res: "pager_directory_insert ?e 7 0 (\<lambda>_. None) error_init = Inr (r, e', ms', es')"
    "if r = SUCCESS then
       (\<forall>j. j \<noteq> 0 \<longrightarrow> entry_directory_lookup e' j = Inr (if j = 7 then (True, Some 0) else (False, None))) \<and>
       (\<exists>e''. pager_directory_remove e' 7 = Inr e'' \<and> entry_rep e'' Map.empty)
     else entry_rep e' Map.empty \<and> error_code es' = ENOMEM" by auto
  moreover have "r = SUCCESS" "ms' = (\<lambda>_. None)" "es' = error_init"
    using res(1) by (auto simp: pager_directory_insert_def zero_entry_def zero_mapping_def)
  ultimately show ?thesis by auto
qed

end
