(* ===== verification/PagerInvariant.thy ===== *)
theory PagerInvariant
  imports PagerDirectory
begin

text \<open>
  The invariant of the page cache. \<open>R\<close> maps the ids of the resident pages to their headers.
  The ring and the directory both hold exactly this map, no header belongs to two ring
  entries, and a header carries the id it is found under. \<open>pager_ok\<close> is what holds all the
  time; \<open>pager_inv\<close> is what holds between the calls: no directory latch is held, and
  \<^verbatim>\<open>page_count\<close> is the number of resident pages.
\<close>

section \<open>The invariant\<close>

definition as_mapping :: "ring_entry_t \<Rightarrow> mapping_t" where
  "as_mapping r = \<lparr>mid = rid r, mhdr = rhdr r\<rparr>"

definition ring_rep :: "ring_entry_t list \<Rightarrow> (u32 \<Rightarrow> nat option) \<Rightarrow> bool" where
  "ring_rep rs R \<longleftrightarrow> slots_rep (map as_mapping rs) R"

text \<open>The header pointers of the ring: each allocated header belongs to exactly one entry.\<close>

definition ptrs_ok :: "nat option list \<Rightarrow> nat \<Rightarrow> bool" where
  "ptrs_ok hs n \<longleftrightarrow> (\<forall>a. Some a \<in> set hs \<longleftrightarrow> a < n) \<and>
     (\<forall>j < length hs. \<forall>k < length hs. hs ! j \<noteq> None \<longrightarrow> hs ! j = hs ! k \<longrightarrow> j = k)"

definition headers_ok :: "ring_entry_t list \<Rightarrow> nat \<Rightarrow> bool" where
  "headers_ok rs n \<longleftrightarrow> ptrs_ok (map rhdr rs) n"

abbreviation hash_of :: "pager_t \<Rightarrow> u32 \<Rightarrow> nat" where
  "hash_of p i \<equiv> unat (pager_hash (pmask p) i)"

definition bucket_of :: "u32 \<Rightarrow> (u32 \<Rightarrow> nat option) \<Rightarrow> nat \<Rightarrow> u32 \<Rightarrow> nat option" where
  "bucket_of hmask R ei i = (if unat (pager_hash hmask i) = ei then R i else None)"

definition pager_ok :: "pager_t \<Rightarrow> (u32 \<Rightarrow> nat option) \<Rightarrow> bool" where
  "pager_ok p R \<longleftrightarrow>
     length (directory p) = Suc (unat (pmask p)) \<and> length (ring p) = unat (psize p) \<and>
     0 < unat (psize p) \<and> 2 * unat (psize p) < 2 ^ 32 \<and> pmask p \<noteq> -1 \<and>
     ring_rep (ring p) R \<and> headers_ok (ring p) (length (heap p)) \<and>
     (\<forall>i a. R i = Some a \<longrightarrow> pid (heap p ! a) = i) \<and>
     (\<forall>ei < length (directory p). entry_rep (directory p ! ei) (bucket_of (pmask p) R ei)) \<and>
     (\<forall>h \<in> set (heap p). length (pdata h) = unat (pg_size p))"

definition locked :: "pager_t \<Rightarrow> nat \<Rightarrow> i32 \<Rightarrow> bool" where
  "locked p ei l \<longleftrightarrow> (\<forall>j < length (directory p). elatch (directory p ! j) = (if j = ei then l else 0))"

abbreviation unlocked :: "pager_t \<Rightarrow> bool" where
  "unlocked p \<equiv> locked p 0 0"

definition pager_inv :: "pager_t \<Rightarrow> (u32 \<Rightarrow> nat option) \<Rightarrow> bool" where
  "pager_inv p R \<longleftrightarrow> pager_ok p R \<and> unlocked p \<and> unat (page_count p) = card (dom R) \<and> card (dom R) < unat (psize p)"

text \<open>Fields the invariant does not mention.\<close>

lemma pager_ok_fields [simp]:
  "pager_ok (p\<lparr>evict_head := x\<rparr>) R = pager_ok p R" "pager_ok (p\<lparr>create_head := x\<rparr>) R = pager_ok p R"
  "pager_ok (p\<lparr>page_count := x\<rparr>) R = pager_ok p R" "pager_ok (p\<lparr>next_page := x\<rparr>) R = pager_ok p R"
  "pager_ok (p\<lparr>mallocs := m\<rparr>) R = pager_ok p R" "pager_ok (p\<lparr>spurious := s\<rparr>) R = pager_ok p R"
  by (simp_all add: pager_ok_def)

lemma locked_fields [simp]:
  "locked (p\<lparr>evict_head := x\<rparr>) ei l = locked p ei l" "locked (p\<lparr>create_head := x\<rparr>) ei l = locked p ei l"
  "locked (p\<lparr>page_count := x\<rparr>) ei l = locked p ei l" "locked (p\<lparr>next_page := x\<rparr>) ei l = locked p ei l"
  "locked (p\<lparr>mallocs := m\<rparr>) ei l = locked p ei l" "locked (p\<lparr>spurious := s\<rparr>) ei l = locked p ei l"
  "locked (put_ring p j r) ei l = locked p ei l" "locked (put_hdr p a h) ei l = locked p ei l"
  by (simp_all add: locked_def put_ring_def put_hdr_def)

lemma locked_unlocked: "locked p ei 0 \<longleftrightarrow> unlocked p"
  by (simp add: locked_def)

lemma pager_okD:
  assumes "pager_ok p R"
  shows "length (directory p) = Suc (unat (pmask p))" "length (ring p) = unat (psize p)"
    "0 < unat (psize p)" "2 * unat (psize p) < 2 ^ 32"
    "ring_rep (ring p) R" "headers_ok (ring p) (length (heap p))"
    "R i = Some a \<Longrightarrow> pid (heap p ! a) = i"
    "ei < length (directory p) \<Longrightarrow> entry_rep (directory p ! ei) (bucket_of (pmask p) R ei)"
  using assms by (simp_all add: pager_ok_def)

lemma hash_less: "pager_ok p R \<Longrightarrow> hash_of p i < length (directory p)"
proof -
  assume "pager_ok p R"
  moreover have "unat (x AND pmask p) \<le> unat (pmask p)" for x
    by (simp add: word_and_le1 flip: word_le_nat_alt)
  ultimately show ?thesis by (simp add: pager_hash_def Let_def pager_okD(1) le_imp_less_Suc)
qed

text \<open>A page that is resident has a ring entry of its own.\<close>

lemma ring_rep_used:
  assumes "ring_rep rs R" and "j < length rs" and "rid (rs ! j) \<noteq> 0"
  obtains a where "rhdr (rs ! j) = Some a" and "R (rid (rs ! j)) = Some a"
proof -
  have "as_mapping (rs ! j) \<in> set (map as_mapping rs)" using assms(2) by simp
  with assms(1,3) have "R (rid (rs ! j)) = rhdr (rs ! j) \<and> rhdr (rs ! j) \<noteq> None"
    unfolding ring_rep_def slots_rep_def by (fastforce simp: as_mapping_def)
  then show thesis using that by auto
qed

lemma ring_rep_resident:
  assumes "ring_rep rs R" and "R i = Some a"
  obtains j where "j < length rs" and "rid (rs ! j) = i" and "rhdr (rs ! j) = Some a" and "i \<noteq> 0"
proof -
  have i: "i \<noteq> 0" using assms by (auto simp: ring_rep_def slots_rep_def)
  have "\<exists>m \<in> set (map as_mapping rs). mid m = i"
    using assms unfolding ring_rep_def slots_rep_def by (metis option.distinct(1))
  then obtain j where j: "j < length rs" "rid (rs ! j) = i" by (auto simp: in_set_conv_nth as_mapping_def)
  then show thesis using ring_rep_used [OF assms(1) j(1)] i assms(2) that by auto
qed

lemma ring_rep_clear:
  assumes "ring_rep rs R" and "j < length rs" and "rid (rs ! j) = i" and "i \<noteq> 0"
  shows "ring_rep (rs[j := (rs ! j)\<lparr>rid := 0\<rparr>]) (R(i := None))"
proof -
  have "as_mapping ((rs ! j)\<lparr>rid := 0\<rparr>) = (map as_mapping rs ! j)\<lparr>mid := 0\<rparr>"
    using assms(2) by (simp add: as_mapping_def)
  then show ?thesis
    using slots_rep_clear [of "map as_mapping rs" R j i] assms
    by (simp add: ring_rep_def map_update as_mapping_def)
qed

lemma ring_rep_fill:
  assumes "ring_rep rs R" and "j < length rs" and "rid (rs ! j) = 0" and "i \<noteq> 0" and "R i = None"
  shows "ring_rep (rs[j := \<lparr>rid = i, rhdr = Some a\<rparr>]) (R(i \<mapsto> a))"
  using slots_rep_fill [of "map as_mapping rs" R j i a] assms
  by (simp add: ring_rep_def map_update as_mapping_def)

lemma headers_ok_same:
  assumes "headers_ok rs n" and "j < length rs" and "rhdr r = rhdr (rs ! j)"
  shows "headers_ok (rs[j := r]) n"
proof -
  have "map rhdr (rs[j := r]) = map rhdr rs" using assms(2,3) by (simp add: map_update list_update_same_conv)
  then show ?thesis using assms(1) by (simp only: headers_ok_def)
qed

text \<open>A pointer list in which an empty place is filled with the next new pointer.\<close>

lemma set_fill:
  assumes "j < length hs" and "hs ! j = None"
  shows "Some a \<in> set (hs[j := Some n]) \<longleftrightarrow> a = n \<or> Some a \<in> set hs"
proof
  assume "Some a \<in> set (hs[j := Some n])"
  then show "a = n \<or> Some a \<in> set hs" using set_update_subset_insert [of hs j "Some n"] by auto
next
  assume "a = n \<or> Some a \<in> set hs"
  then consider "a = n" | k where "k < length hs" "hs ! k = Some a" "k \<noteq> j" using assms(2) by (metis in_set_conv_nth option.distinct(1))
  then show "Some a \<in> set (hs[j := Some n])"
  proof cases
    case 1
    then show ?thesis using assms(1) by (simp add: set_update_memI)
  next
    case 2
    then have "hs[j := Some n] ! k = Some a" by simp
    then show ?thesis using 2(1) by (metis length_list_update nth_mem)
  qed
qed

lemma ptrs_ok_new:
  assumes "ptrs_ok hs n" and "j < length hs" and "hs ! j = None"
  shows "ptrs_ok (hs[j := Some n]) (Suc n)"
proof -
  have H: "\<And>a. Some a \<in> set hs \<longleftrightarrow> a < n"
    "\<And>a b. a < length hs \<Longrightarrow> b < length hs \<Longrightarrow> hs ! a \<noteq> None \<Longrightarrow> hs ! a = hs ! b \<Longrightarrow> a = b"
    using assms(1) by (auto simp: ptrs_ok_def)
  have fresh: "hs ! k \<noteq> Some n" if "k < length hs" for k
    using H(1) [of n] nth_mem [OF that] by (metis less_irrefl)
  have "a = b" if "a < length hs" "b < length hs" "hs[j := Some n] ! a \<noteq> None" "hs[j := Some n] ! a = hs[j := Some n] ! b" for a b
    using that H(2) fresh assms(2) by (metis nth_list_update_eq nth_list_update_neq)
  moreover have "\<And>a. Some a \<in> set (hs[j := Some n]) \<longleftrightarrow> a < Suc n"
    using set_fill [OF assms(2,3)] H(1) by (auto simp: less_Suc_eq)
  ultimately show ?thesis unfolding ptrs_ok_def length_list_update by blast
qed

lemma headers_ok_new:
  assumes "headers_ok rs n" and "j < length rs" and "rhdr (rs ! j) = None" and "rhdr r = Some n"
  shows "headers_ok (rs[j := r]) (Suc n)"
  using ptrs_ok_new [of "map rhdr rs" n j] assms by (simp add: headers_ok_def map_update)

section \<open>Taking and releasing the latch of a directory entry\<close>

definition set_lock :: "pager_t \<Rightarrow> nat \<Rightarrow> i32 \<Rightarrow> pager_t" where
  "set_lock p ei l = put_entry p ei ((directory p ! ei)\<lparr>elatch := l\<rparr>)"

lemma set_lock_fields [simp]:
  "ring (set_lock p ei l) = ring p" "heap (set_lock p ei l) = heap p" "psize (set_lock p ei l) = psize p"
  "pmask (set_lock p ei l) = pmask p" "pg_size (set_lock p ei l) = pg_size p"
  "page_count (set_lock p ei l) = page_count p" "evict_head (set_lock p ei l) = evict_head p"
  "create_head (set_lock p ei l) = create_head p" "next_page (set_lock p ei l) = next_page p"
  "mallocs (set_lock p ei l) = mallocs p" "spurious (set_lock p ei l) = spurious p"
  "length (directory (set_lock p ei l)) = length (directory p)"
  by (simp_all add: set_lock_def put_entry_def)

lemma put_fields [simp]:
  "ring (put_entry p i e) = ring p" "heap (put_entry p i e) = heap p" "psize (put_entry p i e) = psize p"
  "pmask (put_entry p i e) = pmask p" "pg_size (put_entry p i e) = pg_size p" "directory (put_entry p i e) = (directory p)[i := e]"
  "page_count (put_entry p i e) = page_count p" "mallocs (put_entry p i e) = mallocs p" "spurious (put_entry p i e) = spurious p"
  "directory (put_ring p i r) = directory p" "heap (put_ring p i r) = heap p" "psize (put_ring p i r) = psize p"
  "pmask (put_ring p i r) = pmask p" "pg_size (put_ring p i r) = pg_size p" "ring (put_ring p i r) = (ring p)[i := r]"
  "page_count (put_ring p i r) = page_count p" "mallocs (put_ring p i r) = mallocs p" "spurious (put_ring p i r) = spurious p"
  "directory (put_hdr p i h) = directory p" "ring (put_hdr p i h) = ring p" "psize (put_hdr p i h) = psize p"
  "pmask (put_hdr p i h) = pmask p" "pg_size (put_hdr p i h) = pg_size p" "heap (put_hdr p i h) = (heap p)[i := h]"
  "page_count (put_hdr p i h) = page_count p" "mallocs (put_hdr p i h) = mallocs p" "spurious (put_hdr p i h) = spurious p"
  "create_head (put_entry p i e) = create_head p" "create_head (put_ring p i r) = create_head p" "create_head (put_hdr p i h) = create_head p"
  "evict_head (put_entry p i e) = evict_head p" "evict_head (put_ring p i r) = evict_head p" "evict_head (put_hdr p i h) = evict_head p"
  "next_page (put_entry p i e) = next_page p" "next_page (put_ring p i r) = next_page p" "next_page (put_hdr p i h) = next_page p"
  by (simp_all add: put_entry_def put_ring_def put_hdr_def)

lemma directory_set_lock_nth: "ei < length (directory p) \<Longrightarrow>
  directory (set_lock p ei l) ! j = (if j = ei then (directory p ! ei)\<lparr>elatch := l\<rparr> else directory p ! j)"
  by (simp add: set_lock_def nth_list_update)

lemma pager_ok_set_lock [simp]: "ei < length (directory p) \<Longrightarrow> pager_ok (set_lock p ei l) R = pager_ok p R"
  by (auto simp: pager_ok_def directory_set_lock_nth)

lemma locked_set_lock: "locked p ei l \<Longrightarrow> ei < length (directory p) \<Longrightarrow> locked (set_lock p ei l') ei l'"
  by (simp add: locked_def directory_set_lock_nth)

lemma set_lock_set_lock [simp]: "set_lock (set_lock p ei l) ei l' = set_lock p ei l'"
  by (cases "ei < length (directory p)") (simp_all add: set_lock_def put_entry_def list_update_beyond)

lemma set_lock_same: "locked p ei l \<Longrightarrow> ei < length (directory p) \<Longrightarrow> set_lock p ei l = p"
  by (cases p) (simp add: set_lock_def put_entry_def locked_def list_update_same_conv)

lemma entry_acquire_free:
  assumes "locked p ei 0" and "ei < length (directory p)"
  shows "entry_acquire p ei exclusive = Inr (set_lock p ei (if exclusive then -1 else 1))"
  using assms by (simp add: entry_acquire_def entry_at_def at_index_def locked_def latch_acquire_def
      latch_acquire_read_eq latch_acquire_write_eq set_lock_def)

lemma entry_release_held:
  assumes "locked p ei (if exclusive then -1 else 1)" and "ei < length (directory p)"
  shows "entry_release p ei exclusive = Inr (set_lock p ei 0)"
  using assms by (auto simp: entry_release_def entry_at_def at_index_def locked_def
      latch_release_write_def latch_release_read_def set_lock_def split: if_splits)

section \<open>Changing a header\<close>

lemma pager_ok_put_hdr:
  assumes "pager_ok p R" and "pid h = pid (heap p ! a)" and "length (pdata h) = unat (pg_size p)"
  shows "pager_ok (put_hdr p a h) R"
  using assms set_update_subset_insert [of "heap p" a h]
  by (cases "a < length (heap p)") (auto simp: pager_ok_def nth_list_update list_update_beyond)

lemma pager_ok_data: "pager_ok p R \<Longrightarrow> a < length (heap p) \<Longrightarrow> length (pdata (heap p ! a)) = unat (pg_size p)"
  by (simp add: pager_ok_def)

lemma resident_header:
  assumes "pager_ok p R" and "R i = Some a"
  shows "a < length (heap p)" and "pid (heap p ! a) = i" and "i \<noteq> 0"
proof -
  from ring_rep_resident [OF pager_okD(5) [OF assms(1)] assms(2)] obtain j where
    j: "j < length (ring p)" "rhdr (ring p ! j) = Some a" "i \<noteq> 0" by metis
  then show "i \<noteq> 0" by simp
  from j have "Some a \<in> set (map rhdr (ring p))" by (metis length_map nth_map nth_mem)
  then show "a < length (heap p)"
    using pager_okD(6) [OF assms(1)] by (simp add: headers_ok_def ptrs_ok_def del: set_map)
  show "pid (heap p ! a) = i" by (rule pager_okD(7) [OF assms])
qed

lemma R_zero: "pager_ok p R \<Longrightarrow> R 0 = None"
  by (simp add: pager_ok_def ring_rep_def slots_rep_def)

lemma R_inj: "pager_ok p R \<Longrightarrow> R i = Some a \<Longrightarrow> R j = Some a \<Longrightarrow> i = j"
  using pager_okD(7) by blast

lemma finite_dom_R: "pager_ok p R \<Longrightarrow> finite (dom R)"
proof -
  assume ok: "pager_ok p R"
  have "dom R \<subseteq> rid ` set (ring p)"
  proof
    fix i
    assume "i \<in> dom R"
    then obtain a where "R i = Some a" by blast
    from ring_rep_resident [OF pager_okD(5) [OF ok] this] show "i \<in> rid ` set (ring p)" by (metis imageI nth_mem)
  qed
  then show ?thesis by (rule finite_subset) simp
qed

end
