(* ===== verification/PagerEvict.thy ===== *)
theory PagerEvict
  imports PagerInvariant
begin

text \<open>
  Second-chance eviction. One iteration of the loop of \<open>pager_evict\<close> looks at one ring entry;
  the loop evicts a page that nobody holds and whose reference bit is clear, clears
  reference bits on its way, and changes nothing else. It finds a victim whenever some
  resident page is not held, and reports ENOMEM when all are.
\<close>

section \<open>Removing and adding a resident page\<close>

lemma bucket_of_remove: "bucket_of hmask (R(i := None)) ei =
  (if unat (pager_hash hmask i) = ei then (bucket_of hmask R ei)(i := None) else bucket_of hmask R ei)"
  by (auto simp: bucket_of_def fun_eq_iff)

lemma bucket_of_add: "bucket_of hmask (R(i \<mapsto> a)) ei =
  (if unat (pager_hash hmask i) = ei then (bucket_of hmask R ei)(i \<mapsto> a) else bucket_of hmask R ei)"
  by (auto simp: bucket_of_def fun_eq_iff)

lemma pager_ok_remove:
  assumes ok: "pager_ok p R" and j: "j < length (ring p)" "rid (ring p ! j) = i" "i \<noteq> 0"
    and e: "entry_rep e (bucket_of (pmask p) (R(i := None)) (hash_of p i))"
  shows "pager_ok (put_ring (put_entry p (hash_of p i) e) j ((ring p ! j)\<lparr>rid := 0\<rparr>)) (R(i := None))"
proof -
  note D = pager_okD [OF ok]
  have "entry_rep ((directory p)[hash_of p i := e] ! k) (bucket_of (pmask p) (R(i := None)) k)"
    if "k < length (directory p)" for k
    using that e D(8) [OF that] by (auto simp: nth_list_update bucket_of_remove)
  moreover have "headers_ok ((ring p)[j := (ring p ! j)\<lparr>rid := 0\<rparr>]) (length (heap p))"
    by (rule headers_ok_same [OF D(6) j(1)]) simp
  ultimately show ?thesis
    using ok ring_rep_clear [OF D(5) j] by (simp add: pager_ok_def)
qed

lemma pager_ok_add:
  assumes ok: "pager_ok p R" and j: "j < length (ring p)" "rid (ring p ! j) = 0" and i: "i \<noteq> 0" "R i = None"
    and e: "entry_rep e (bucket_of (pmask p) (R(i \<mapsto> a)) (hash_of p i))"
    and a: "headers_ok ((ring p)[j := \<lparr>rid = i, rhdr = Some a\<rparr>]) (length (heap p))" "pid (heap p ! a) = i"
  shows "pager_ok (put_ring (put_entry p (hash_of p i) e) j \<lparr>rid = i, rhdr = Some a\<rparr>) (R(i \<mapsto> a))"
proof -
  note D = pager_okD [OF ok]
  have "entry_rep ((directory p)[hash_of p i := e] ! k) (bucket_of (pmask p) (R(i \<mapsto> a)) k)"
    if "k < length (directory p)" for k
    using that e D(8) [OF that] by (auto simp: nth_list_update bucket_of_add)
  then show ?thesis
    using ok ring_rep_fill [OF D(5) j i, of a] a by (simp add: pager_ok_def)
qed

section \<open>One iteration\<close>

abbreviation evict_index :: "pager_t \<Rightarrow> nat" where
  "evict_index p \<equiv> unat (evict_head p) mod unat (psize p)"

abbreviation advance :: "pager_t \<Rightarrow> pager_t" where
  "advance p \<equiv> p\<lparr>evict_head := evict_head p + 1\<rparr>"

lemma evict_index_less: "pager_ok p R \<Longrightarrow> evict_index p < length (ring p)"
  by (simp add: pager_okD(2,3))

lemma u32_mod_size: "pager_ok p R \<Longrightarrow> u32_mod (evict_head p) (psize p) = Inr (evict_index p)"
  using pager_okD(3) [of p R] by (auto simp: u32_mod_def)

lemma evict_step_free:
  assumes "pager_ok p R" and "rid (ring p ! evict_index p) = 0"
  shows "evict_step p = Inr (False, advance p)"
  using evict_index_less [OF assms(1)] u32_mod_size [OF assms(1)] assms(2)
  by (simp add: evict_step_def Let_def pager_directory_find_entry_def at_index_def)

text \<open>A used entry: the directory entry is latched, the header decides.\<close>

lemma evict_step_used:
  assumes ok: "pager_ok p R" and un: "unlocked p" and used: "rid (ring p ! evict_index p) = i" "i \<noteq> 0" "R i = Some a"
  shows "evict_step p =
    (let ei = hash_of p i; q = set_lock (advance p) ei (-1); h = heap p ! a in
     if \<not> latch_available (platch h) then Inr (False, advance p)
     else if pflags h AND PAGE_FLAG_REF \<noteq> 0 then
       Inr (False, put_hdr (advance p) a (h\<lparr>pflags := pflags h AND NOT PAGE_FLAG_REF\<rparr>))
     else
       obind (entry_at q ei) (\<lambda>e.
       obind (pager_directory_remove e i) (\<lambda>e.
       obind (entry_release (put_ring (put_entry q ei e) (evict_index p) ((ring p ! evict_index p)\<lparr>rid := 0\<rparr>)) ei True)
         (\<lambda>p. Inr (True, p)))))"
proof -
  let ?ei = "hash_of p i" and ?q = "set_lock (advance p) (hash_of p i) (-1)"
  have ei: "?ei < length (directory (advance p))" using hash_less [OF ok] by simp
  have l0: "locked (advance p) ?ei 0" using un by (simp add: locked_def)
  have j: "evict_index p < length (ring p)" by (rule evict_index_less [OF ok])
  have nz: "rid (ring p ! evict_index p) \<noteq> 0" using used(1,2) by simp
  obtain a' where "rhdr (ring p ! evict_index p) = Some a'" "R (rid (ring p ! evict_index p)) = Some a'"
    by (rule ring_rep_used [OF pager_okD(5) [OF ok] j nz])
  then have rh: "rhdr (ring p ! evict_index p) = Some a" using used(1,3) by simp
  have a: "a < length (heap p)" by (rule resident_header(1) [OF ok used(3)])
  have acq: "entry_acquire (advance p) ?ei True = Inr ?q" using entry_acquire_free [OF l0 ei, of True] by simp
  have rel: "entry_release ?q ?ei True = Inr (advance p)"
    using entry_release_held [of ?q ?ei True] locked_set_lock [OF l0 ei, of "-1"] ei set_lock_same [OF l0 ei] by simp
  have put: "put_hdr ?q a h = set_lock (put_hdr (advance p) a h) ?ei (-1)" for h
    by (simp add: put_hdr_def set_lock_def put_entry_def)
  have rel': "entry_release (put_hdr ?q a h) ?ei True = Inr (put_hdr (advance p) a h)" for h
  proof -
    have l: "locked (put_hdr (advance p) a h) ?ei 0" using l0 by simp
    have e: "?ei < length (directory (put_hdr (advance p) a h))" using ei by simp
    show ?thesis
      unfolding put using entry_release_held [OF _ , of "set_lock (put_hdr (advance p) a h) ?ei (-1)" ?ei True]
        locked_set_lock [OF l e, of "-1"] e set_lock_same [OF l e] by simp
  qed
  show ?thesis
    using j used a rh u32_mod_size [OF ok] acq rel rel'
    by (simp add: evict_step_def Let_def pager_directory_find_entry_def at_index_def deref_def)
qed

lemma evict_step_victim:
  assumes ok: "pager_ok p R" and un: "unlocked p" and used: "rid (ring p ! evict_index p) = i" "i \<noteq> 0" "R i = Some a"
    and free: "platch (heap p ! a) = 0" "pflags (heap p ! a) AND PAGE_FLAG_REF = 0"
  shows "\<exists>e. evict_step p = Inr (True, put_ring (put_entry (advance p) (hash_of p i) e) (evict_index p)
      ((ring p ! evict_index p)\<lparr>rid := 0\<rparr>)) \<and> elatch e = 0 \<and>
    entry_rep e (bucket_of (pmask p) (R(i := None)) (hash_of p i))"
proof -
  let ?ei = "hash_of p i" and ?q = "set_lock (advance p) (hash_of p i) (-1)"
  let ?r = "(ring p ! evict_index p)\<lparr>rid := 0\<rparr>"
  have ei: "?ei < length (directory p)" by (rule hash_less [OF ok])
  define e0 where "e0 = (directory p ! ?ei)\<lparr>elatch := -1\<rparr>"
  have "entry_rep e0 (bucket_of (pmask p) R ?ei)" using pager_okD(8) [OF ok ei] by (simp add: e0_def)
  from directory_remove_correct [OF this used(2)] obtain e1 where
    e1: "pager_directory_remove e0 i = Inr e1" "elatch e1 = -1" "entry_rep e1 ((bucket_of (pmask p) R ?ei)(i := None))"
    by (auto simp: e0_def)
  let ?e = "e1\<lparr>elatch := 0\<rparr>"
  have at0: "entry_at ?q ?ei = Inr e0"
    using ei by (simp add: entry_at_def at_index_def directory_set_lock_nth e0_def)
  let ?q1 = "put_ring (put_entry ?q ?ei e1) (evict_index p) ?r"
  have "entry_release ?q1 ?ei True = Inr (put_entry ?q1 ?ei ?e)"
    using ei e1(2) by (simp add: entry_release_def entry_at_def at_index_def latch_release_write_def)
  moreover have "put_entry ?q1 ?ei ?e = put_ring (put_entry (advance p) ?ei ?e) (evict_index p) ?r"
    by (simp add: put_entry_def put_ring_def set_lock_def)
  ultimately have "evict_step p = Inr (True, put_ring (put_entry (advance p) ?ei ?e) (evict_index p) ?r)"
    using free evict_step_used [OF ok un used] at0 e1(1) by (simp add: Let_def latch_available_def)
  moreover have "entry_rep ?e (bucket_of (pmask p) (R(i := None)) ?ei)"
    using e1(3) by (simp add: bucket_of_remove)
  ultimately show ?thesis by (intro exI [of _ ?e]) simp
qed

text \<open>What eviction leaves alone: everything but reference bits, and one page at most.\<close>

definition evict_frame :: "pager_t \<Rightarrow> pager_t \<Rightarrow> bool" where
  "evict_frame p p' \<longleftrightarrow> pg_size p' = pg_size p \<and> psize p' = psize p \<and> pmask p' = pmask p \<and>
     page_count p' = page_count p \<and> create_head p' = create_head p \<and> next_page p' = next_page p \<and>
     mallocs p' = mallocs p \<and> spurious p' = spurious p \<and> length (heap p') = length (heap p) \<and>
     length (directory p') = length (directory p) \<and>
     (\<forall>a < length (heap p). pid (heap p' ! a) = pid (heap p ! a) \<and> platch (heap p' ! a) = platch (heap p ! a) \<and>
        pdata (heap p' ! a) = pdata (heap p ! a) \<and>
        pflags (heap p' ! a) AND NOT PAGE_FLAG_REF = pflags (heap p ! a) AND NOT PAGE_FLAG_REF)"

lemma evict_frame_refl [simp]: "evict_frame p p"
  by (simp add: evict_frame_def)

lemma evict_frame_trans: "evict_frame p q \<Longrightarrow> evict_frame q r \<Longrightarrow> evict_frame p r"
  by (simp add: evict_frame_def)

text \<open>The page the clock hand points at, and what the step does with it.\<close>

lemma evict_step_cases:
  assumes ok: "pager_ok p R" and un: "unlocked p"
  obtains (go) p' where "evict_step p = Inr (False, p')" "pager_ok p' R" "unlocked p'" "evict_frame p p'"
      "evict_head p' = evict_head p + 1" "ring p' = ring p"
      "\<And>i a. R i = Some a \<Longrightarrow> rid (ring p ! evict_index p) = i \<Longrightarrow> platch (heap p ! a) = 0 \<Longrightarrow>
        pflags (heap p' ! a) AND PAGE_FLAG_REF = 0"
      "\<And>a. pflags (heap p ! a) AND PAGE_FLAG_REF = 0 \<Longrightarrow> a < length (heap p) \<Longrightarrow>
        pflags (heap p' ! a) AND PAGE_FLAG_REF = 0"
      "\<And>i a. R i = Some a \<Longrightarrow> rid (ring p ! evict_index p) = i \<Longrightarrow> platch (heap p ! a) = 0 \<Longrightarrow>
        pflags (heap p ! a) AND PAGE_FLAG_REF = 0 \<Longrightarrow> False"
  | (evicted) p' i a where "evict_step p = Inr (True, p')" "R i = Some a" "platch (heap p ! a) = 0"
      "pflags (heap p ! a) AND PAGE_FLAG_REF = 0" "pager_ok p' (R(i := None))" "unlocked p'" "evict_frame p p'"
proof -
  let ?j = "evict_index p" and ?i = "rid (ring p ! evict_index p)"
  have j: "?j < length (ring p)" by (rule evict_index_less [OF ok])
  show thesis
  proof (cases "?i = 0")
    case True
    show thesis
      by (rule go [OF evict_step_free [OF ok True]]) (use ok un True R_zero [OF ok] in \<open>auto simp: evict_frame_def\<close>)
  next
    case False
    obtain a where a: "rhdr (ring p ! ?j) = Some a" "R ?i = Some a"
      by (rule ring_rep_used [OF pager_okD(5) [OF ok] j False])
    note step = evict_step_used [OF ok un refl False a(2)]
    have la: "a < length (heap p)" by (rule resident_header(1) [OF ok a(2)])
    consider "platch (heap p ! a) \<noteq> 0" | "platch (heap p ! a) = 0" "pflags (heap p ! a) AND PAGE_FLAG_REF \<noteq> 0"
      | "platch (heap p ! a) = 0" "pflags (heap p ! a) AND PAGE_FLAG_REF = 0" by blast
    then show thesis
    proof cases
      case 1
      then have "evict_step p = Inr (False, advance p)" using step by (simp add: latch_available_def)
      then show thesis by (rule go) (use ok un 1 a(2) in \<open>auto simp: evict_frame_def\<close>)
    next
      case 2
      let ?h = "(heap p ! a)\<lparr>pflags := pflags (heap p ! a) AND NOT PAGE_FLAG_REF\<rparr>"
      let ?p = "put_hdr (advance p) a ?h"
      have "evict_step p = Inr (False, ?p)" using 2 step by (simp add: latch_available_def Let_def)
      moreover have "pager_ok ?p R" using ok pager_ok_data [OF ok la] by (intro pager_ok_put_hdr) simp_all
      moreover have "pflags ?h AND PAGE_FLAG_REF = 0" by (simp add: and.assoc)
      ultimately show thesis
        by (intro go [of ?p]) (use un 2 a(2) la in \<open>auto simp: evict_frame_def nth_list_update\<close>)
    next
      case 3
      from evict_step_victim [OF ok un refl False a(2) 3] obtain e where
        e: "evict_step p = Inr (True, put_ring (put_entry (advance p) (hash_of p ?i) e) ?j ((ring p ! ?j)\<lparr>rid := 0\<rparr>))"
        "elatch e = 0" "entry_rep e (bucket_of (pmask p) (R(?i := None)) (hash_of p ?i))" by blast
      let ?p = "put_ring (put_entry (advance p) (hash_of p ?i) e) ?j ((ring p ! ?j)\<lparr>rid := 0\<rparr>)"
      have "pager_ok ?p (R(?i := None))"
        using pager_ok_remove [of "advance p" R ?j ?i e] ok j False e(3) by simp
      moreover have "unlocked ?p"
        using un e(2) hash_less [OF ok, of ?i] by (auto simp: locked_def nth_list_update)
      moreover have "evict_frame p ?p" by (simp add: evict_frame_def put_entry_def put_ring_def)
      ultimately show thesis using e(1) a(2) 3 by (intro evicted [of ?p ?i a]) simp_all
    qed
  qed
qed

section \<open>The loop\<close>

lemma evict_loop_correct:
  assumes "pager_ok p R" and "unlocked p" and "error_wf es"
  shows "\<exists>r p' es'. evict_loop n p es = Inr (r, p', es') \<and> unlocked p' \<and> evict_frame p p' \<and>
    (if r = SUCCESS then es' = es \<and> (\<exists>i a. R i = Some a \<and> platch (heap p ! a) = 0 \<and> pager_ok p' (R(i := None)))
     else pager_ok p' R \<and> error_wf es' \<and> error_code es' = ENOMEM)"
  using assms(1,2)
proof (induction n arbitrary: p)
  case 0
  have "ENOMEM \<noteq> 0" by (simp add: ENOMEM_def)
  from failure_correct [OF assms(3) this] obtain es' where
    "failure (''src/pager.c'', ''pager_evict'', 343) ENOMEM ''no pages to evict'' es = Inr (FAILURE, es')"
    "error_wf es'" "error_code es' = ENOMEM" by blast
  with "0.prems" show ?case by simp
next
  case (Suc n)
  from Suc.prems show ?case
  proof (cases rule: evict_step_cases)
    case (go p1)
    from Suc.IH [OF go(2,3)] obtain r p' es' where
      res: "evict_loop n p1 es = Inr (r, p', es')" "unlocked p'" "evict_frame p1 p'"
      "if r = SUCCESS then es' = es \<and> (\<exists>i a. R i = Some a \<and> platch (heap p1 ! a) = 0 \<and> pager_ok p' (R(i := None)))
       else pager_ok p' R \<and> error_wf es' \<and> error_code es' = ENOMEM" by blast
    have "platch (heap p1 ! a) = platch (heap p ! a)" if "R i = Some a" for i a
      using go(4) resident_header(1) [OF Suc.prems(1) that] by (simp add: evict_frame_def)
    then have "if r = SUCCESS then es' = es \<and> (\<exists>i a. R i = Some a \<and> platch (heap p ! a) = 0 \<and> pager_ok p' (R(i := None)))
       else pager_ok p' R \<and> error_wf es' \<and> error_code es' = ENOMEM"
      using res(4) by (metis (no_types))
    then show ?thesis using res(1,2) go(1) evict_frame_trans [OF go(4) res(3)] by auto
  next
    case (evicted p1 i a)
    then show ?thesis by auto
  qed
qed

lemma evict_loop_finds_clear:
  assumes "pager_ok p R" and "unlocked p" and "rid (ring p ! (unat (evict_head p + of_nat k) mod unat (psize p))) = i"
    and "R i = Some a" and "platch (heap p ! a) = 0" and "pflags (heap p ! a) AND PAGE_FLAG_REF = 0" and "k < n"
  shows "\<exists>p'. evict_loop n p es = Inr (SUCCESS, p', es)"
  using assms
proof (induction k arbitrary: n p)
  case 0
  then obtain m where n: "n = Suc m" by (cases n) auto
  from "0.prems"(1,2) show ?case
  proof (cases rule: evict_step_cases)
    case go
    then have False using go(9) [OF "0.prems"(4) _ "0.prems"(5,6)] "0.prems"(3) by simp
    then show ?thesis ..
  qed (simp add: n)
next
  case (Suc k)
  then obtain m where n: "n = Suc m" by (cases n) auto
  have a: "a < length (heap p)" by (rule resident_header(1) [OF Suc.prems(1,4)])
  from Suc.prems(1,2) show ?case
  proof (cases rule: evict_step_cases)
    case (go p1)
    have "evict_head p1 + of_nat k = evict_head p + of_nat (Suc k)" by (simp add: go(5) add.assoc add.commute)
    moreover have "psize p1 = psize p" "platch (heap p1 ! a) = 0"
      using go(4) a Suc.prems(5) by (simp_all add: evict_frame_def)
    moreover have "k < m" using n Suc.prems(7) by simp
    ultimately have "\<exists>p'. evict_loop m p1 es = Inr (SUCCESS, p', es)"
      using Suc.prems(3) go(6) go(8) [OF Suc.prems(6) a] by (intro Suc.IH [OF go(2,3) _ Suc.prems(4)]) (simp_all add: add.assoc)
    then show ?thesis by (simp add: n go(1))
  next
    case evicted
    then show ?thesis by (simp add: n)
  qed
qed

lemma evict_loop_finds:
  assumes "pager_ok p R" and "unlocked p" and "rid (ring p ! (unat (evict_head p + of_nat k) mod unat (psize p))) = i"
    and "rid (ring p ! (unat (evict_head p + of_nat k2) mod unat (psize p))) = i" and "k < k2"
    and "R i = Some a" and "platch (heap p ! a) = 0" and "k2 < n"
  shows "\<exists>p'. evict_loop n p es = Inr (SUCCESS, p', es)"
  using assms
proof (induction k arbitrary: n p k2)
  case 0
  then obtain m k3 where n: "n = Suc m" "k2 = Suc k3" by (cases n; cases k2) auto
  have a: "a < length (heap p)" by (rule resident_header(1) [OF "0.prems"(1,6)])
  from "0.prems"(1,2) show ?case
  proof (cases rule: evict_step_cases)
    case (go p1)
    have "evict_head p1 + of_nat k3 = evict_head p + of_nat k2" by (simp add: go(5) n(2) add.assoc add.commute)
    moreover have "pflags (heap p1 ! a) AND PAGE_FLAG_REF = 0"
      using go(7) [OF "0.prems"(6) _ "0.prems"(7)] "0.prems"(3) by simp
    moreover have "psize p1 = psize p" "platch (heap p1 ! a) = 0"
      using go(4) a "0.prems"(7) by (simp_all add: evict_frame_def)
    moreover have "k3 < m" using n "0.prems"(8) by simp
    ultimately have "\<exists>p'. evict_loop m p1 es = Inr (SUCCESS, p', es)"
      using "0.prems"(4) go(6) by (intro evict_loop_finds_clear [OF go(2,3) _ "0.prems"(6), of k3]) (simp_all add: add.assoc)
    then show ?thesis by (simp add: n go(1))
  next
    case evicted
    then show ?thesis by (simp add: n)
  qed
next
  case (Suc k)
  then obtain m k3 where n: "n = Suc m" "k2 = Suc k3" by (cases n; cases k2) auto
  have a: "a < length (heap p)" by (rule resident_header(1) [OF Suc.prems(1,6)])
  from Suc.prems(1,2) show ?case
  proof (cases rule: evict_step_cases)
    case (go p1)
    have "evict_head p1 + of_nat k = evict_head p + of_nat (Suc k)" "evict_head p1 + of_nat k3 = evict_head p + of_nat k2"
      by (simp_all add: go(5) n(2) add.assoc add.commute)
    moreover have "psize p1 = psize p" "platch (heap p1 ! a) = 0"
      using go(4) a Suc.prems(7) by (simp_all add: evict_frame_def)
    moreover have "k < k3" "k3 < m" using n Suc.prems(5,8) by simp_all
    ultimately have "\<exists>p'. evict_loop m p1 es = Inr (SUCCESS, p', es)"
      using Suc.prems(3,4) go(6) by (intro Suc.IH [OF go(2,3) _ _ _ Suc.prems(6), of k3]) (simp_all add: add.assoc)
    then show ?thesis by (simp add: n go(1))
  next
    case evicted
    then show ?thesis by (simp add: n)
  qed
qed

text \<open>Every ring entry is visited in each round, as long as the head does not wrap around.\<close>

lemma mod_visit: "0 < (n :: nat) \<Longrightarrow> j < n \<Longrightarrow> \<exists>k < n. (h + k) mod n = j"
proof (intro exI conjI)
  assume n: "0 < n" "j < n"
  let ?k = "(j + (n - h mod n)) mod n"
  show "?k < n" using n by simp
  have "(h + ?k) mod n = (h + (j + (n - h mod n))) mod n" by (rule mod_add_right_eq)
  also have "h + (j + (n - h mod n)) = j + n * (h div n) + n"
  proof -
    have "h mod n \<le> n" using n by simp
    then have "h mod n + (n - h mod n) = n" by simp
    moreover have "h = n * (h div n) + h mod n" by simp
    ultimately show ?thesis by linarith
  qed
  also have "(j + n * (h div n) + n) mod n = j" using n by simp
  finally show "(h + ?k) mod n = j" .
qed

lemma unat_head: "unat (h :: u32) + k < 2 ^ 32 \<Longrightarrow> unat (h + of_nat k) = unat h + k"
  by (simp add: unat_word_ariths unat_of_nat take_bit_eq_mod)

lemma pager_evict_finds:
  assumes ok: "pager_ok p R" and un: "unlocked p" and R: "R i = Some a" and free: "platch (heap p ! a) = 0"
    and wrap: "unat (evict_head p) + 2 * unat (psize p) \<le> 2 ^ 32"
  shows "\<exists>p'. pager_evict p es = Inr (SUCCESS, p', es)"
proof -
  note D = pager_okD [OF ok]
  obtain j where j: "j < length (ring p)" "rid (ring p ! j) = i"
    by (rule ring_rep_resident [OF D(5) R])
  from mod_visit [OF D(3), of j "unat (evict_head p)"] j D(2) obtain k where
    k: "k < unat (psize p)" "(unat (evict_head p) + k) mod unat (psize p) = j" by auto
  let ?k2 = "k + unat (psize p)"
  have "unat (evict_head p + of_nat k) = unat (evict_head p) + k" using k(1) wrap by (intro unat_head) simp
  moreover have "unat (evict_head p + of_nat ?k2) = unat (evict_head p) + ?k2" using k(1) wrap by (intro unat_head) simp
  moreover have "(unat (evict_head p) + ?k2) mod unat (psize p) = j" using k(2) by (simp flip: add.assoc)
  moreover have "unat (psize p * 2) = 2 * unat (psize p)" using D(4) by (simp add: unat_word_ariths)
  ultimately show ?thesis
    unfolding pager_evict_def
    by (intro evict_loop_finds [OF ok un _ _ _ R free, of k ?k2]) (use k D(3) j in \<open>simp_all del: of_nat_add\<close>)
qed

section \<open>Properties\<close>


end
