(* ===== verification/PagerCreate.thy ===== *)
theory PagerCreate
  imports PagerEvict
begin

text \<open>
  Creating a page. \<open>create_at\<close> turns a free ring entry into a resident page or leaves
  everything as it was; \<open>pager_create\<close> finds a free entry of a pager that is not full
  within two rounds over the ring and one more iteration per spurious failure, also when
  the 32-bit head wraps around.
\<close>

section \<open>Creating a page\<close>

text \<open>What one creation did.\<close>

definition created ::
  "pager_t \<Rightarrow> (u32 \<Rightarrow> nat option) \<Rightarrow> nat \<Rightarrow> u32 \<Rightarrow> result \<times> nat \<times> pager_t \<times> error_state \<Rightarrow> error_state \<Rightarrow> bool" where
  "created p R ei i res es \<longleftrightarrow> (case res of (r, a, p', es') \<Rightarrow>
     locked p' ei (-1) \<and> pg_size p' = pg_size p \<and> psize p' = psize p \<and> pmask p' = pmask p \<and>
     page_count p' = page_count p \<and> next_page p' = next_page p \<and> evict_head p' = evict_head p \<and>
     length (directory p') = length (directory p) \<and>
     length (spurious p') \<le> length (spurious p) \<and> (\<exists>k. mallocs p' = (\<lambda>n. mallocs p (n + k))) \<and>
     (\<forall>j b. R j = Some b \<longrightarrow> heap p' ! b = heap p ! b) \<and>
     (if r = SUCCESS then es' = es \<and> pager_ok p' (R(i \<mapsto> a)) \<and> platch (heap p' ! a) = 0 \<and> pflags (heap p' ! a) = 0
      else pager_ok p' R \<and> error_wf es' \<and> error_code es' = ENOMEM \<and> (\<exists>n. mallocs p n = None)))"

lemma put_ring_twice [simp]: "put_ring (put_ring p j r) j r' = put_ring p j r'"
  by (simp add: put_ring_def)

text \<open>The header of a ring entry after the allocation.\<close>

definition ensure_header :: "pager_t \<Rightarrow> nat \<Rightarrow> nat \<Rightarrow> pager_t \<Rightarrow> bool" where
  "ensure_header p j a p' \<longleftrightarrow> a < length (heap p') \<and> headers_ok ((ring p)[j := \<lparr>rid = 0, rhdr = Some a\<rparr>]) (length (heap p')) \<and>
     length (heap p) \<le> length (heap p') \<and> (\<forall>b < length (heap p). heap p' ! b = heap p ! b) \<and>
     length (pdata (heap p' ! a)) = unat (pg_size p) \<and> (\<exists>k. mallocs p' = (\<lambda>n. mallocs p (n + k)))"

lemma ring_alloc_cases:
  assumes "pager_ok p R" and "j < length (ring p)"
  obtains (fail) "ring_alloc (put_ring p j r) (rhdr (ring p ! j)) = (None, put_ring (p\<lparr>mallocs := \<lambda>n. mallocs p (Suc n)\<rparr>) j r)"
      "rhdr (ring p ! j) = None" "mallocs p 0 = None"
  | (have_header) a ms hs where "ring_alloc (put_ring p j r) (rhdr (ring p ! j)) =
        (Some a, put_ring (p\<lparr>mallocs := ms, heap := hs\<rparr>) j r)"
      "ensure_header p j a (p\<lparr>mallocs := ms, heap := hs\<rparr>)" "\<forall>h \<in> set hs. length (pdata h) = unat (pg_size p)"
      "rhdr (ring p ! j) = Some a \<and> hs = heap p \<or> rhdr (ring p ! j) = None \<and> a = length (heap p)"
proof (cases "rhdr (ring p ! j)")
  case (Some a)
  have D: "headers_ok (ring p) (length (heap p))" "\<forall>h \<in> set (heap p). length (pdata h) = unat (pg_size p)"
    using assms(1) by (simp_all add: pager_ok_def)
  have "Some a \<in> set (map rhdr (ring p))" using Some assms(2) by (metis length_map nth_map nth_mem)
  then have a: "a < length (heap p)" using D(1) by (simp add: headers_ok_def ptrs_ok_def del: set_map)
  have "headers_ok ((ring p)[j := \<lparr>rid = 0, rhdr = Some a\<rparr>]) (length (heap p))"
    by (rule headers_ok_same [OF D(1) assms(2)]) (simp add: Some)
  then have "ensure_header p j a (p\<lparr>mallocs := mallocs p, heap := heap p\<rparr>)"
    using a D(2) by (auto simp: ensure_header_def intro!: exI [of _ 0])
  then show thesis
    by (intro have_header [where a = a and ms = "mallocs p" and hs = "heap p"]) (use Some D(2) in \<open>simp_all add: ring_alloc_def put_ring_def\<close>)
next
  case None
  show thesis
  proof (cases "mallocs p 0")
    case None
    with \<open>rhdr (ring p ! j) = None\<close> show thesis
      by (intro fail) (simp_all add: ring_alloc_def malloc_def put_ring_def)
  next
    case (Some g)
    let ?h = "\<lparr>pid = 0, platch = 0, pflags = 0, pdata = map g [0..<unat (pg_size p)]\<rparr>"
    have D: "headers_ok (ring p) (length (heap p))" "\<forall>h \<in> set (heap p). length (pdata h) = unat (pg_size p)"
      using assms(1) by (simp_all add: pager_ok_def)
    have "headers_ok ((ring p)[j := \<lparr>rid = 0, rhdr = Some (length (heap p))\<rparr>]) (Suc (length (heap p)))"
      by (rule headers_ok_new [OF D(1) assms(2) None]) simp
    then have "ensure_header p j (length (heap p)) (p\<lparr>mallocs := \<lambda>n. mallocs p (Suc n), heap := heap p @ [?h]\<rparr>)"
      by (auto simp: ensure_header_def nth_append intro!: exI [of _ 1])
    then show thesis
      by (intro have_header [where a = "length (heap p)" and ms = "\<lambda>n. mallocs p (Suc n)" and hs = "heap p @ [?h]"])
        (use None Some D(2) in \<open>auto simp: ring_alloc_def malloc_def put_ring_def\<close>)
  qed
qed

lemma slots_rep_dead:
  assumes rep: "slots_rep ms M" and dead: "mid (ms ! j) = 0" "mid m = 0"
  shows "slots_rep (ms[j := m]) M"
proof (cases "j < length ms")
  case True
  let ?ms = "ms[j := m]"
  have nth: "?ms ! k = (if k = j then m else ms ! k)" if "k < length ms" for k using that by simp
  have live: "x \<in> set ?ms \<longleftrightarrow> x \<in> set ms" if "mid x \<noteq> 0" for x
  proof
    assume "x \<in> set ?ms"
    then show "x \<in> set ms" using set_update_subset_insert [of ms j m] that dead(2) by auto
  next
    assume "x \<in> set ms"
    then obtain k where k: "k < length ms" "ms ! k = x" by (auto simp: in_set_conv_nth)
    then have "k \<noteq> j" using that dead(1) by auto
    then have "?ms ! k = x" using k by simp
    then show "x \<in> set ?ms" using k(1) by (metis length_list_update nth_mem)
  qed
  have "\<exists>x \<in> set ?ms. mid x = i" if i: "M i \<noteq> None" for i
  proof -
    have "i \<noteq> 0" using i rep by (auto simp: slots_rep_def)
    moreover obtain x where "x \<in> set ms" "mid x = i" using i rep unfolding slots_rep_def by blast
    ultimately show ?thesis using live by blast
  qed
  moreover have "M (mid x) = mhdr x \<and> mhdr x \<noteq> None" if "x \<in> set ?ms" "mid x \<noteq> 0" for x
    using that live rep by (simp add: slots_rep_def)
  moreover have "a = b" if "a < length ms" "b < length ms" "mid (?ms ! a) \<noteq> 0" "mid (?ms ! a) = mid (?ms ! b)" for a b
  proof -
    have "a \<noteq> j" "b \<noteq> j" using that(3,4) nth [OF that(1)] nth [OF that(2)] dead(2) by auto
    then show ?thesis using that rep nth by (simp add: slots_rep_def)
  qed
  ultimately show ?thesis using rep by (simp add: slots_rep_def)
qed (use rep in \<open>simp add: list_update_beyond\<close>)

lemma ring_rep_dead: "ring_rep rs R \<Longrightarrow> j < length rs \<Longrightarrow> rid (rs ! j) = 0 \<Longrightarrow> ring_rep (rs[j := \<lparr>rid = 0, rhdr = x\<rparr>]) R"
  using slots_rep_dead [of "map as_mapping rs" R j "as_mapping \<lparr>rid = 0, rhdr = x\<rparr>"]
  by (simp add: ring_rep_def map_update as_mapping_def)

text \<open>A header that a free ring entry owns belongs to no resident page.\<close>

lemma free_header_not_resident:
  assumes ok: "pager_ok p R" and j: "j < length (ring p)" "rid (ring p ! j) = 0"
    and a: "rhdr (ring p ! j) = Some a \<or> a = length (heap p)" and R: "R k = Some b"
  shows "b \<noteq> a"
proof
  assume "b = a"
  from ring_rep_resident [OF pager_okD(5) [OF ok] R] obtain l where
    l: "l < length (ring p)" "rid (ring p ! l) = k" "rhdr (ring p ! l) = Some b" "k \<noteq> 0" .
  have "a \<noteq> length (heap p)" using resident_header(1) [OF ok R] \<open>b = a\<close> by simp
  then have "map rhdr (ring p) ! j = map rhdr (ring p) ! l" using a l(1,3) j(1) \<open>b = a\<close> by simp
  moreover have "map rhdr (ring p) ! j \<noteq> None" using a j(1) \<open>a \<noteq> length (heap p)\<close> by simp
  ultimately have "j = l"
    using pager_okD(6) [OF ok] j(1) l(1) unfolding headers_ok_def ptrs_ok_def length_map by blast
  with j(2) l(2,4) show False by simp
qed

lemma pager_ok_prepared:
  assumes ok: "pager_ok p R" and j: "j < length (ring p)" "rid (ring p ! j) = 0"
    and eh: "ensure_header p j a (p\<lparr>mallocs := ms, heap := hs\<rparr>)" and lens: "\<forall>h \<in> set hs. length (pdata h) = unat (pg_size p)"
    and a: "rhdr (ring p ! j) = Some a \<or> a = length (heap p)" and h: "length (pdata h) = unat (pg_size p)"
  shows "pager_ok (put_ring (p\<lparr>mallocs := ms', heap := hs[a := h]\<rparr>) j \<lparr>rid = 0, rhdr = Some a\<rparr>) R"
proof -
  note D = pager_okD [OF ok]
  have "pid (hs[a := h] ! b) = k" if R: "R k = Some b" for k b
  proof -
    have "b \<noteq> a" by (rule free_header_not_resident [OF ok j a R])
    moreover have "b < length (heap p)" by (rule resident_header(1) [OF ok R])
    ultimately show ?thesis using eh D(7) [OF R] by (simp add: ensure_header_def)
  qed
  moreover have "\<forall>x \<in> set (hs[a := h]). length (pdata x) = unat (pg_size p)"
    using lens h set_update_subset_insert [of hs a h] by auto
  ultimately show ?thesis
    using ok ring_rep_dead [OF D(5) j, of "Some a"] eh by (simp add: pager_ok_def ensure_header_def)
qed

text \<open>The three outcomes of a creation: no header, no room for the mapping, a resident page.\<close>

lemma create_at_no_header:
  assumes ok: "pager_ok p R" and lk: "locked p ei (-1)" and j: "j < length (ring p)" "rid (ring p ! j) = 0"
    and f: "ring_alloc (put_ring p j ((ring p ! j)\<lparr>rid := i\<rparr>)) (rhdr (ring p ! j)) =
      (None, put_ring (p\<lparr>mallocs := \<lambda>n. mallocs p (Suc n)\<rparr>) j ((ring p ! j)\<lparr>rid := i\<rparr>))"
      "rhdr (ring p ! j) = None" "mallocs p 0 = None" and es: "error_wf es"
  shows "\<exists>res. create_at p ei i j es = Inr res \<and> created p R ei i res es"
proof -
  let ?p = "p\<lparr>mallocs := \<lambda>n. mallocs p (Suc n)\<rparr>"
  have "ring p ! j = \<lparr>rid = 0, rhdr = None\<rparr>" using j(2) f(2) by (cases "ring p ! j") simp
  then have same: "put_ring ?p j \<lparr>rid = 0, rhdr = None\<rparr> = ?p" using j(1) by (simp add: put_ring_def list_update_same_conv)
  have "ENOMEM \<noteq> 0" by (simp add: ENOMEM_def)
  from failure_correct [OF es this] obtain es' where
    "failure (''src/pager.c'', ''pager_create'', 269) ENOMEM ''failed to allocate memory for page'' es = Inr (FAILURE, es')"
    "error_wf es'" "error_code es' = ENOMEM" by blast
  moreover have shift: "\<exists>k. (\<lambda>n. mallocs p (Suc n)) = (\<lambda>n. mallocs p (n + k))" by (rule exI [of _ 1]) simp
  ultimately have "create_at p ei i j es = Inr (FAILURE, 0, ?p, es') \<and> created p R ei i (FAILURE, 0, ?p, es') es"
    using f j(1) same ok lk shift by (auto simp: create_at_def at_index_def Let_def created_def)
  then show ?thesis by blast
qed

text \<open>The pager after the header of ring entry \<open>j\<close>, at the address \<open>a\<close>, was set up for page \<open>i\<close>.\<close>

definition prepared :: "pager_t \<Rightarrow> nat \<Rightarrow> u32 \<Rightarrow> nat \<Rightarrow> page_hdr list \<Rightarrow> mallocs \<Rightarrow> pager_t" where
  "prepared p j i a hs ms = put_ring (p\<lparr>mallocs := ms, heap := hs[a := (hs ! a)\<lparr>pid := i, pflags := 0, platch := 0\<rparr>]\<rparr>) j
     \<lparr>rid = 0, rhdr = Some a\<rparr>"

lemma prepared_fields [simp]:
  "directory (prepared p j i a hs ms) = directory p" "pg_size (prepared p j i a hs ms) = pg_size p"
  "psize (prepared p j i a hs ms) = psize p" "pmask (prepared p j i a hs ms) = pmask p"
  "page_count (prepared p j i a hs ms) = page_count p" "next_page (prepared p j i a hs ms) = next_page p"
  "evict_head (prepared p j i a hs ms) = evict_head p" "spurious (prepared p j i a hs ms) = spurious p"
  "mallocs (prepared p j i a hs ms) = ms"
  "heap (prepared p j i a hs ms) = hs[a := (hs ! a)\<lparr>pid := i, pflags := 0, platch := 0\<rparr>]"
  "ring (prepared p j i a hs ms) = (ring p)[j := \<lparr>rid = 0, rhdr = Some a\<rparr>]"
  by (simp_all add: prepared_def put_ring_def)

text \<open>The directory was given the page: what the code makes of the result.\<close>

lemma create_at_header:
  assumes al: "ring_alloc (put_ring p j ((ring p ! j)\<lparr>rid := i\<rparr>)) (rhdr (ring p ! j)) =
      (Some a, put_ring (p\<lparr>mallocs := ms, heap := hs\<rparr>) j ((ring p ! j)\<lparr>rid := i\<rparr>))"
    and j: "j < length (ring p)" and a: "a < length hs" and ei: "ei < length (directory p)"
    and ins: "pager_directory_insert (directory p ! ei) i a ms es = Inr (r, e', ms', es')"
  shows "create_at p ei i j es =
    (if r \<noteq> SUCCESS then obind (try_fail (''src/pager.c'', ''pager_create'', 278)
         ''handler for: pager_directory_insert(hash_entry, ring_entry->header)'' es')
       (\<lambda>(r, es). Inr (r, 0, put_entry (prepared p j i a hs ms') ei e', es))
     else Inr (SUCCESS, a, put_ring (put_entry (prepared p j i a hs ms') ei e') j \<lparr>rid = i, rhdr = Some a\<rparr>, es'))"
  using assms
  by (cases p) (simp add: create_at_def at_index_def Let_def deref_def entry_at_def latch_init_def
      put_ring_def put_hdr_def put_entry_def prepared_def)

text \<open>What the preparation keeps, however the directory answers.\<close>

lemma prepared_correct:
  assumes ok: "pager_ok p R" and j: "j < length (ring p)" "rid (ring p ! j) = 0"
    and eh: "ensure_header p j a (p\<lparr>mallocs := ms, heap := hs\<rparr>)" and lens: "\<forall>h \<in> set hs. length (pdata h) = unat (pg_size p)"
    and src: "rhdr (ring p ! j) = Some a \<or> a = length (heap p)"
  shows "a < length hs" and "pager_ok (prepared p j i a hs ms') R"
    and "R k = Some b \<Longrightarrow> heap (prepared p j i a hs ms') ! b = heap p ! b"
    and "inserted bs i' h ms es (r, bs', ms', es') \<Longrightarrow> \<exists>k. ms' = (\<lambda>n. mallocs p (n + k))"
proof -
  have E: "a < length hs" "\<forall>b < length (heap p). hs ! b = heap p ! b" "length (pdata (hs ! a)) = unat (pg_size p)"
    using eh by (simp_all add: ensure_header_def)
  then show "a < length hs" by simp
  show "pager_ok (prepared p j i a hs ms') R"
    unfolding prepared_def by (rule pager_ok_prepared [OF ok j eh lens src]) (simp add: E(3))
  show "R k = Some b \<Longrightarrow> heap (prepared p j i a hs ms') ! b = heap p ! b"
    using free_header_not_resident [OF ok j src, of k b] resident_header(1) [OF ok, of k b] E(2) by simp
  obtain k0 where "ms = (\<lambda>n. mallocs p (n + k0))" using eh by (auto simp: ensure_header_def)
  then show "inserted bs i' h ms es (r, bs', ms', es') \<Longrightarrow> \<exists>k. ms' = (\<lambda>n. mallocs p (n + k))"
    by (auto simp: inserted_def intro: exI [of _ k0] exI [of _ "Suc k0"])
qed

lemma prepared_add:
  assumes q: "pager_ok (prepared p j i a hs ms') R" and j: "j < length (ring p)" and a: "a < length hs"
    and ei: "ei = hash_of p i" "ei < length (directory p)" and i: "i \<noteq> 0" "R i = None"
    and ins: "inserted (slots (directory p ! ei)) i a ms es (SUCCESS, slots e', ms'', es')" and ok: "pager_ok p R"
  shows "pager_ok (put_ring (put_entry (prepared p j i a hs ms') ei e') j \<lparr>rid = i, rhdr = Some a\<rparr>) (R(i \<mapsto> a))"
proof -
  let ?q = "prepared p j i a hs ms'"
  have "bucket_of (pmask p) R ei i = None" using i(2) by (simp add: bucket_of_def)
  then have "entry_rep e' ((bucket_of (pmask p) R ei)(i \<mapsto> a))"
    using slots_rep_inserted [of _ "bucket_of (pmask p) R ei", OF _ ins i(1)] pager_okD(8) [OF ok ei(2)]
    by (simp add: entry_rep_def)
  then have "entry_rep e' (bucket_of (pmask ?q) (R(i \<mapsto> a)) (hash_of ?q i))" using ei(1) by (simp add: bucket_of_add)
  moreover have "headers_ok ((ring ?q)[j := \<lparr>rid = i, rhdr = Some a\<rparr>]) (length (heap ?q))"
    using j by (intro headers_ok_same [OF pager_okD(6) [OF q]]) simp_all
  ultimately have "pager_ok (put_ring (put_entry ?q (hash_of ?q i) e') j \<lparr>rid = i, rhdr = Some a\<rparr>) (R(i \<mapsto> a))"
    using j a by (intro pager_ok_add [OF q _ _ i]) simp_all
  then show ?thesis using ei(1) by simp
qed

lemma create_at_with_header:
  assumes ok: "pager_ok p R" and lk: "locked p ei (-1)" and ei: "ei = hash_of p i" and i: "i \<noteq> 0" "R i = None"
    and j: "j < length (ring p)" "rid (ring p ! j) = 0" and es: "error_wf es"
    and al: "ring_alloc (put_ring p j ((ring p ! j)\<lparr>rid := i\<rparr>)) (rhdr (ring p ! j)) =
      (Some a, put_ring (p\<lparr>mallocs := ms, heap := hs\<rparr>) j ((ring p ! j)\<lparr>rid := i\<rparr>))"
    and eh: "ensure_header p j a (p\<lparr>mallocs := ms, heap := hs\<rparr>)" "\<forall>h \<in> set hs. length (pdata h) = unat (pg_size p)"
      "rhdr (ring p ! j) = Some a \<or> a = length (heap p)"
  shows "\<exists>res. create_at p ei i j es = Inr res \<and> created p R ei i res es"
proof -
  have el: "ei < length (directory p)" unfolding ei by (rule hash_less [OF ok])
  note P = prepared_correct [OF ok j eh]
  have "elatch (directory p ! ei) = -1" using lk el by (simp add: locked_def)
  with directory_insert_correct [OF es, of "directory p ! ei" i a ms] obtain r e' ms' es' where
    ins: "pager_directory_insert (directory p ! ei) i a ms es = Inr (r, e', ms', es')" "elatch e' = -1"
    "inserted (slots (directory p ! ei)) i a ms es (r, slots e', ms', es')" by auto
  note C = create_at_header [OF al j(1) P(1) el ins(1)] and mal = P(4) [OF ins(3)]
  let ?q = "put_entry (prepared p j i a hs ms') ei e'"
  have lk': "locked ?q ei (-1)" using lk ins(2) el by (auto simp: locked_def nth_list_update)
  show ?thesis
  proof (cases r)
    case SUCCESS
    let ?p = "put_ring ?q j \<lparr>rid = i, rhdr = Some a\<rparr>"
    have "es' = es" using ins(3) SUCCESS by (simp add: inserted_def)
    moreover have "pager_ok ?p (R(i \<mapsto> a))"
      by (rule prepared_add [OF P(2) j(1) P(1) ei el i ins(3) [unfolded SUCCESS] ok])
    moreover have "locked ?p ei (-1)" using lk' by (simp add: locked_def)
    ultimately show ?thesis using C SUCCESS P(1,3) mal by (simp add: created_def)
  next
    case FAILURE
    then have f: "slots e' = slots (directory p ! ei)" "error_wf es'" "error_code es' = ENOMEM" "ms 0 = None"
      using ins(3) by (simp_all add: inserted_def)
    then have "error_code es' \<noteq> 0" by (simp add: ENOMEM_def)
    from try_fail_correct [OF f(2) this] obtain es2 where
      t: "try_fail (''src/pager.c'', ''pager_create'', 278)
        ''handler for: pager_directory_insert(hash_entry, ring_entry->header)'' es' = Inr (FAILURE, es2)"
      "error_wf es2" "error_code es2 = ENOMEM" using f(3) by fastforce
    have "pager_ok ?q R"
      using P(2) [of i ms'] pager_okD(8) [OF ok el] f(1) el by (auto simp: pager_ok_def nth_list_update entry_rep_def)
    moreover have "\<exists>n. mallocs p n = None" using eh(1) f(4) by (auto simp: ensure_header_def)
    ultimately show ?thesis using C FAILURE t lk' P(3) mal by (simp add: created_def)
  qed
qed

lemma create_at_correct:
  assumes ok: "pager_ok p R" and lk: "locked p ei (-1)" and ei: "ei = hash_of p i" and i: "i \<noteq> 0" "R i = None"
    and j: "j < length (ring p)" "rid (ring p ! j) = 0" and es: "error_wf es"
  shows "\<exists>res. create_at p ei i j es = Inr res \<and> created p R ei i res es"
  using ok j(1)
proof (cases rule: ring_alloc_cases [where r = "(ring p ! j)\<lparr>rid := i\<rparr>"])
  case fail
  then show ?thesis by (rule create_at_no_header [OF ok lk j _ _ _ es])
next
  case (have_header a ms hs)
  then have "rhdr (ring p ! j) = Some a \<or> a = length (heap p)" by blast
  with have_header(1-3) show ?thesis by (rule create_at_with_header [OF ok lk ei i j es])
qed

text \<open>A pager that is not full has a free ring entry, and the loop comes across it.\<close>

lemma free_ring_entry:
  assumes ok: "pager_ok p R" and room: "card (dom R) < unat (psize p)"
  shows "\<exists>j < length (ring p). rid (ring p ! j) = 0"
proof (rule ccontr)
  assume "\<not> ?thesis"
  then have used: "rid (ring p ! j) \<noteq> 0" if "j < length (ring p)" for j using that by blast
  have rep: "slots_rep (map as_mapping (ring p)) R" using pager_okD(5) [OF ok] by (simp add: ring_rep_def)
  let ?f = "\<lambda>j. rid (ring p ! j)"
  have "inj_on ?f {..<length (ring p)}"
  proof (rule inj_onI)
    fix j k
    assume "j \<in> {..<length (ring p)}" "k \<in> {..<length (ring p)}" "?f j = ?f k"
    with used rep show "j = k" by (simp add: slots_rep_def as_mapping_def)
  qed
  moreover have "?f ` {..<length (ring p)} \<subseteq> dom R"
  proof
    fix i
    assume "i \<in> ?f ` {..<length (ring p)}"
    then obtain j where j: "j < length (ring p)" "i = ?f j" by auto
    show "i \<in> dom R" by (rule ring_rep_used [OF pager_okD(5) [OF ok] j(1) used [OF j(1)]]) (simp add: j(2) dom_def)
  qed
  ultimately have "length (ring p) \<le> card (dom R)"
    using card_inj_on_le [of ?f "{..<length (ring p)}" "dom R"] finite_dom_R [OF ok] by simp
  with room show False by (simp add: pager_okD(2) [OF ok])
qed

lemma head_visits:
  assumes "0 < (n :: nat)" and "2 * n < 2 ^ 32" and "j < n"
  shows "\<exists>k < 2 * n. unat (h + of_nat k :: u32) mod n = j"
proof (cases "unat h + n \<le> 2 ^ 32")
  case True
  from mod_visit [OF assms(1,3), of "unat h"] obtain k where k: "k < n" "(unat h + k) mod n = j" by blast
  then have "unat (h + of_nat k) = unat h + k" using True by (intro unat_head) simp
  with k show ?thesis by (intro exI [of _ k]) simp
next
  case False
  define w where "w = 2 ^ 32 - unat h"
  have h: "unat h < 2 ^ 32" using unsigned_less [of h, where ?'a = nat] by simp
  have w: "w < n" "unat h + w = 2 ^ 32" using False h by (simp_all add: w_def)
  have "h + of_nat w = of_nat (unat h + w)" by simp
  also have "\<dots> = 0" unfolding w(2) by (simp add: of_nat_power)
  finally have "h + of_nat (w + j) = of_nat j" by (simp flip: add.assoc)
  moreover have "unat (of_nat j :: u32) = j" using assms(2,3) by (simp add: unat_of_nat take_bit_eq_mod)
  ultimately have "unat (h + of_nat (w + j)) mod n = j" using assms(3) by (simp del: of_nat_add)
  then show ?thesis using w(1) assms(3) by (intro exI [of _ "w + j"]) simp
qed

lemma created_fields [simp]:
  "created (p\<lparr>create_head := x\<rparr>) R ei i res es = created p R ei i res es"
  by (simp_all add: created_def split: prod.splits)

lemma created_spurious: "created (p\<lparr>spurious := sp\<rparr>) R ei i res es \<Longrightarrow> length sp \<le> length (spurious p) \<Longrightarrow>
    created p R ei i res es"
  by (auto simp: created_def split: prod.splits)

abbreviation create_index :: "pager_t \<Rightarrow> nat" where
  "create_index p \<equiv> unat (create_head p) mod unat (psize p)"

lemma create_loop_step:
  assumes ok: "pager_ok p R"
  shows "create_loop (Suc fuel) p ei i es =
    (case next_spurious (p\<lparr>create_head := create_head p + 1\<rparr>) of (sp, p') \<Rightarrow>
     if sp \<or> rid (ring p ! create_index p) \<noteq> 0 then create_loop fuel p' ei i es
     else create_at p' ei i (create_index p) es)"
proof -
  note D = pager_okD [OF ok]
  have "psize p \<noteq> 0" using D(3) by auto
  moreover have "create_index p < length (ring p)" using D(2,3) by simp
  ultimately show ?thesis
    by (cases "next_spurious (p\<lparr>create_head := create_head p + 1\<rparr>)")
      (auto simp add: u32_mod_def at_index_def Let_def weak_cas_def)
qed

lemma create_loop_finds:
  assumes "pager_ok p R" and "locked p ei (-1)" and "ei = hash_of p i" and "i \<noteq> 0" and "R i = None" and "error_wf es"
    and "spurious p = []" and "rid (ring p ! (unat (create_head p + of_nat k) mod unat (psize p))) = 0" and "k < fuel"
  shows "\<exists>res. create_loop fuel p ei i es = Inr res \<and> created p R ei i res es"
  using assms
proof (induction k arbitrary: p fuel)
  case 0
  then obtain f where f: "fuel = Suc f" by (cases fuel) auto
  let ?p = "p\<lparr>create_head := create_head p + 1\<rparr>"
  have "create_index p < length (ring p)" using pager_okD(2,3) [OF "0.prems"(1)] by simp
  then have "\<exists>res. create_at ?p ei i (create_index p) es = Inr res \<and> created ?p R ei i res es"
    using "0.prems" by (intro create_at_correct) simp_all
  then show ?case using "0.prems"(7,8) by (simp add: f create_loop_step [OF "0.prems"(1)] next_spurious_def del: create_loop.simps)
next
  case (Suc k)
  then obtain f where f: "fuel = Suc f" by (cases fuel) auto
  let ?p = "p\<lparr>create_head := create_head p + 1\<rparr>"
  show ?case
  proof (cases "rid (ring p ! create_index p) = 0")
    case True
    have "create_index p < length (ring p)" using pager_okD(2,3) [OF Suc.prems(1)] by simp
    then have "\<exists>res. create_at ?p ei i (create_index p) es = Inr res \<and> created ?p R ei i res es"
      using Suc.prems True by (intro create_at_correct) simp_all
    then show ?thesis using Suc.prems(7) True by (simp add: f create_loop_step [OF Suc.prems(1)] next_spurious_def del: create_loop.simps)
  next
    case False
    have "\<exists>res. create_loop f ?p ei i es = Inr res \<and> created ?p R ei i res es"
      using Suc.prems f by (intro Suc.IH) (simp_all add: add.assoc)
    then show ?thesis using Suc.prems(7) False by (simp add: f create_loop_step [OF Suc.prems(1)] next_spurious_def del: create_loop.simps)
  qed
qed

lemma create_loop_correct:
  assumes "pager_ok p R" and "locked p ei (-1)" and "ei = hash_of p i" and "i \<noteq> 0" and "R i = None" and "error_wf es"
    and "card (dom R) < unat (psize p)" and "length (spurious p) + 2 * unat (psize p) \<le> fuel"
  shows "\<exists>res. create_loop fuel p ei i es = Inr res \<and> created p R ei i res es"
  using assms
proof (induction "spurious p" arbitrary: p fuel)
  case Nil
  note D = pager_okD [OF Nil.prems(1)]
  obtain j where j: "j < length (ring p)" "rid (ring p ! j) = 0"
    using free_ring_entry [OF Nil.prems(1,7)] by blast
  from head_visits [OF D(3,4), of j "create_head p"] j D(2) obtain k where
    "k < 2 * unat (psize p)" "unat (create_head p + of_nat k) mod unat (psize p) = j" by auto
  then show ?case using Nil j by (intro create_loop_finds [where k = k]) simp_all
next
  case (Cons s sp)
  then obtain f where f: "fuel = Suc f" by (cases fuel) auto
  let ?p = "p\<lparr>create_head := create_head p + 1, spurious := sp\<rparr>"
  have sp: "spurious p = s # sp" using Cons.hyps(2) by simp
  have ns: "next_spurious (p\<lparr>create_head := create_head p + 1\<rparr>) = (s, ?p)" by (simp add: next_spurious_def sp)
  show ?case
  proof (cases "s \<or> rid (ring p ! create_index p) \<noteq> 0")
    case True
    have "\<exists>res. create_loop f ?p ei i es = Inr res \<and> created ?p R ei i res es"
      using Cons.prems f sp by (intro Cons.hyps(1)) simp_all
    then have "\<exists>res. create_loop f ?p ei i es = Inr res \<and> created p R ei i res es"
      using created_spurious [where p = "p\<lparr>create_head := create_head p + 1\<rparr>" and sp = sp] sp by auto
    then show ?thesis using True by (simp add: f create_loop_step [OF Cons.prems(1)] ns del: create_loop.simps)
  next
    case False
    have "create_index p < length (ring p)" using pager_okD(2,3) [OF Cons.prems(1)] by simp
    then have "\<exists>res. create_at ?p ei i (create_index p) es = Inr res \<and> created ?p R ei i res es"
      using Cons.prems False by (intro create_at_correct) simp_all
    then have "\<exists>res. create_at ?p ei i (create_index p) es = Inr res \<and> created p R ei i res es"
      using created_spurious [where p = "p\<lparr>create_head := create_head p + 1\<rparr>" and sp = sp] sp by auto
    then show ?thesis using False by (simp add: f create_loop_step [OF Cons.prems(1)] ns del: create_loop.simps)
  qed
qed

lemma pager_create_correct:
  assumes "pager_ok p R" and "locked p ei (-1)" and "ei = hash_of p i" and "i \<noteq> 0" and "R i = None" and "error_wf es"
    and "card (dom R) < unat (psize p)" and "length (spurious p) + 2 * unat (psize p) \<le> fuel"
  shows "\<exists>res. pager_create fuel p ei i es = Inr res \<and> created p R ei i res es"
proof -
  have "ei < length (directory p)" unfolding assms(3) by (rule hash_less [OF assms(1)])
  then show ?thesis
    using create_loop_correct [OF assms] assms(2) by (simp add: pager_create_def entry_at_def at_index_def locked_def)
qed

end
