(* ===== verification/PagerFix.thy ===== *)
theory PagerFix
  imports PagerCreate
begin

text \<open>
  Fixing and unfixing pages: the composition of the directory, the ring, eviction, creation
  and the page latches in \<open>pager_fix\<close>, \<open>pager_next\<close> and \<open>pager_unfix\<close>.
\<close>

section \<open>Critical sections of a directory entry\<close>

lemma entry_release_set_lock:
  assumes "unlocked q" and "ei < length (directory q)"
  shows "entry_release (set_lock q ei (if exclusive then -1 else 1)) ei exclusive = Inr q"
proof -
  have l: "locked q ei 0" using assms(1) by (simp add: locked_def)
  show ?thesis
    using entry_release_held [OF locked_set_lock [OF l assms(2)]] assms(2) set_lock_same [OF l assms(2)] by simp
qed

lemma put_hdr_set_lock: "put_hdr (set_lock p ei l) a h = set_lock (put_hdr p a h) ei l"
  by (cases p) (simp add: put_hdr_def set_lock_def put_entry_def)

lemma header_acquire_set_lock:
  "header_acquire (set_lock p ei l) a ex = obind (header_acquire p a ex) (\<lambda>q. Inr (set_lock q ei l))"
  by (simp add: header_acquire_def obind_assoc deref_def put_hdr_set_lock)

lemma pager_lookup_correct:
  assumes "pager_ok p R" and "ei = hash_of p i" and "i \<noteq> 0" and "locked p ei l" and "l \<noteq> 0"
  shows "pager_lookup p ei i ex =
    (case R i of None \<Rightarrow> Inr (None, p)
     | Some a \<Rightarrow> obind (header_acquire p a ex) (\<lambda>p'. Inr (Some \<lparr>tid = i, tptr = a\<rparr>, p')))"
proof -
  have ei: "ei < length (directory p)" unfolding assms(2) by (rule hash_less [OF assms(1)])
  have el: "elatch (directory p ! ei) \<noteq> 0" using assms(4,5) ei by (simp add: locked_def)
  have "entry_directory_lookup (directory p ! ei) i = Inr (R i \<noteq> None, R i)"
    using entry_lookup_correct [OF pager_okD(8) [OF assms(1) ei] assms(3) el] assms(2) by (simp add: bucket_of_def)
  then show ?thesis
    using ei resident_header(1) [OF assms(1)]
    by (auto simp: pager_lookup_def entry_at_def at_index_def deref_def split: option.splits)
qed

lemma header_acquire_cases:
  assumes "a < length (heap p)"
  shows "header_acquire p a ex = obind (latch_acquire (spurious p) (platch (heap p ! a)) ex)
    (\<lambda>l. Inr (put_hdr p a ((heap p ! a)\<lparr>platch := l,
      pflags := (if ex then pflags (heap p ! a) OR PAGE_FLAG_EXCLUSIVE else pflags (heap p ! a))\<rparr>)))"
  using assms by (simp add: header_acquire_def deref_def)

lemma unlocked_header_acquire: "header_acquire p a ex = Inr q \<Longrightarrow> locked q ei l = locked p ei l \<and> directory q = directory p"
  by (auto simp: header_acquire_def obind_eq_Inr_iff)

section \<open>A page that is resident\<close>

lemma pager_fix_resident:
  assumes inv: "pager_inv p R" and R: "R i = Some a"
  shows "pager_fix fuel p i ex es =
    obind (header_acquire p a ex) (\<lambda>p'. Inr (SUCCESS, Some \<lparr>tid = i, tptr = a\<rparr>, p', es))"
proof -
  have ok: "pager_ok p R" and un: "unlocked p" using inv by (simp_all add: pager_inv_def)
  let ?ei = "hash_of p i"
  have ei: "?ei < length (directory p)" by (rule hash_less [OF ok])
  have i: "i \<noteq> 0" by (rule resident_header(3) [OF ok R])
  have l: "locked p ?ei 0" using un by (simp add: locked_def)
  have acq: "entry_acquire p ?ei False = Inr (set_lock p ?ei 1)" using entry_acquire_free [OF l ei, of False] by simp
  have "pager_lookup (set_lock p ?ei 1) ?ei i ex = obind (header_acquire p a ex)
      (\<lambda>q. Inr (Some \<lparr>tid = i, tptr = a\<rparr>, set_lock q ?ei 1))"
    using pager_lookup_correct [of "set_lock p ?ei 1" R ?ei i 1 ex] ok ei i R locked_set_lock [OF l ei]
    by (simp add: header_acquire_set_lock obind_assoc)
  moreover have "entry_release (set_lock q ?ei 1) ?ei False = Inr q" if "header_acquire p a ex = Inr q" for q
    using entry_release_set_lock [of q ?ei False] unlocked_header_acquire [OF that] un ei by simp
  ultimately show ?thesis
    using i acq by (cases "header_acquire p a ex") (simp_all add: pager_fix_def Let_def)
qed

section \<open>Reserving room\<close>

definition reserve_frame :: "pager_t \<Rightarrow> pager_t \<Rightarrow> bool" where
  "reserve_frame p p' \<longleftrightarrow> evict_frame (p\<lparr>page_count := page_count p', spurious := spurious p'\<rparr>) p' \<and>
     length (spurious p') \<le> length (spurious p)"

text \<open>The resident pages after at most one page that nobody holds was evicted.\<close>

definition evicts :: "pager_t \<Rightarrow> (u32 \<Rightarrow> nat option) \<Rightarrow> (u32 \<Rightarrow> nat option) \<Rightarrow> bool" where
  "evicts p R R' \<longleftrightarrow> R' = R \<or> (\<exists>v a. R v = Some a \<and> platch (heap p ! a) = 0 \<and> R' = R(v := None))"

definition all_held :: "pager_t \<Rightarrow> (u32 \<Rightarrow> nat option) \<Rightarrow> bool" where
  "all_held p R \<longleftrightarrow> (\<forall>i a. R i = Some a \<longrightarrow> platch (heap p ! a) \<noteq> 0)"

abbreviation head_clear :: "pager_t \<Rightarrow> bool" where
  "head_clear p \<equiv> unat (evict_head p) + 2 * unat (psize p) \<le> 2 ^ 32"

definition reserved :: "pager_t \<Rightarrow> (u32 \<Rightarrow> nat option) \<Rightarrow> result \<times> pager_t \<times> error_state \<Rightarrow> error_state \<Rightarrow> bool" where
  "reserved p R res es \<longleftrightarrow> (case res of (r, p', es') \<Rightarrow> unlocked p' \<and> reserve_frame p p' \<and>
     (if r = SUCCESS then es' = es \<and> (\<exists>R'. pager_ok p' R' \<and> evicts p R R' \<and>
        (card (dom R) + 1 < unat (psize p) \<longrightarrow> R' = R) \<and>
        unat (page_count p') = card (dom R') + 1 \<and> unat (page_count p') < unat (psize p))
      else pager_ok p' R \<and> page_count p' = page_count p \<and> error_wf es' \<and> error_code es' = ENOMEM \<and>
        card (dom R) + 1 = unat (psize p) \<and> (head_clear p \<longrightarrow> all_held p R)))"

lemma reserved_spurious: "reserved (p\<lparr>spurious := sp\<rparr>) R res es \<Longrightarrow> length sp \<le> length (spurious p) \<Longrightarrow> reserved p R res es"
  by (auto simp: reserved_def reserve_frame_def evict_frame_def evicts_def all_held_def split: prod.splits if_splits)

lemma psize_minus_1: "0 < unat (psize p) \<Longrightarrow> unat (psize p - 1) = unat (psize p) - 1"
proof -
  assume "0 < unat (psize p)"
  then have "psize p \<noteq> 0" by auto
  then show ?thesis by (simp add: unat_minus_one)
qed

lemma count_loop_evict:
  assumes ok: "pager_ok p R" and un: "unlocked p" and cnt: "unat (page_count p) = card (dom R)" "card (dom R) < unat (psize p)"
    and es: "error_wf es" and full: "page_count p \<ge> psize p - 1"
  shows "\<exists>res. count_loop p (page_count p) es = Inr res \<and> reserved p R res es"
proof -
  from evict_loop_correct [OF ok un es, of "unat (psize p * 2)"] obtain r p' es' where
    ev: "pager_evict p es = Inr (r, p', es')" "unlocked p'" "evict_frame p p'"
    "if r = SUCCESS then es' = es \<and> (\<exists>i a. R i = Some a \<and> platch (heap p ! a) = 0 \<and> pager_ok p' (R(i := None)))
     else pager_ok p' R \<and> error_wf es' \<and> error_code es' = ENOMEM"
    unfolding pager_evict_def by blast
  have fr: "reserve_frame p p'" "page_count p' = page_count p"
    using ev(3) by (simp_all add: reserve_frame_def evict_frame_def)
  show ?thesis
  proof (cases r)
    case SUCCESS
    with ev(4) obtain i a where v: "es' = es" "R i = Some a" "platch (heap p ! a) = 0" "pager_ok p' (R(i := None))"
      by auto
    have "i \<in> dom R" using v(2) by auto
    then have "0 < card (dom R)" using finite_dom_R [OF ok] by (auto simp: card_gt_0_iff)
    moreover have "card (dom R - {i}) = card (dom R) - 1" using \<open>i \<in> dom R\<close> by simp
    moreover have "\<not> card (dom R) + 1 < unat (psize p)"
      using full cnt psize_minus_1 [of p] by (simp add: word_le_nat_alt)
    ultimately have "reserved p R (SUCCESS, p', es) es"
      unfolding reserved_def evicts_def using ev(2) fr v cnt by (auto intro!: exI [of _ "R(i := None)"])
    then show ?thesis using full ev(1) SUCCESS v(1) by (subst count_loop.simps) simp
  next
    case FAILURE
    then have f: "pager_ok p' R" "error_wf es'" "error_code es' = ENOMEM" using ev(4) by simp_all
    have "all_held p R" if "head_clear p"
      unfolding all_held_def using pager_evict_finds [OF ok un _ _ that, of _ _ es] ev(1) FAILURE by fastforce
    moreover have "error_code es' \<noteq> 0" using f(3) by (simp add: ENOMEM_def)
    from try_fail_correct [OF f(2) this] obtain es2 where
      "try_fail (''src/pager.c'', ''pager_fix'', 389) ''try pager_evict(pager)'' es' = Inr (FAILURE, es2)"
      "error_wf es2" "error_code es2 = ENOMEM" using f(3) by fastforce
    moreover have "card (dom R) + 1 = unat (psize p)"
      using full cnt psize_minus_1 [of p] by (simp add: word_le_nat_alt)
    ultimately show ?thesis
      using full ev(1,2) FAILURE f(1) fr by (subst count_loop.simps) (simp add: reserved_def)
  qed
qed

lemma count_loop_correct:
  assumes "pager_ok p R" and "unlocked p" and "unat (page_count p) = card (dom R)" and "card (dom R) < unat (psize p)"
    and "error_wf es"
  shows "\<exists>res. count_loop p (page_count p) es = Inr res \<and> reserved p R res es"
  using assms
proof (induction "length (spurious p)" arbitrary: p)
  case n: (0 p)
  show ?case
  proof (cases "page_count p \<ge> psize p - 1")
    case False
    then have "unat (page_count p) < unat (psize p) - 1"
      using n.prems(3,4) psize_minus_1 [of p] by (simp add: word_le_nat_alt)
    moreover have "unat (page_count p + 1) = unat (page_count p) + 1"
      using calculation unsigned_less [of "psize p", where ?'a = nat] by (simp add: unat_word_ariths)
    ultimately have "reserved p R (SUCCESS, p\<lparr>page_count := page_count p + 1\<rparr>, es) es"
      unfolding reserved_def reserve_frame_def evicts_def evict_frame_def using n.prems by auto
    then show ?thesis
      using False n.hyps by (subst count_loop.simps) (simp add: next_spurious_def weak_cas_def)
  qed (rule count_loop_evict [OF n.prems])
next
  case s: (Suc n p)
  show ?case
  proof (cases "page_count p \<ge> psize p - 1")
    case False
    obtain x sp where sp: "spurious p = x # sp" using s.hyps(2) by (cases "spurious p") auto
    let ?p = "p\<lparr>spurious := sp\<rparr>"
    show ?thesis
    proof (cases x)
      case True
      have "\<exists>res. count_loop ?p (page_count ?p) es = Inr res \<and> reserved ?p R res es"
        using s.prems s.hyps(2) sp by (intro s.hyps(1)) simp_all
      then show ?thesis
        using False sp True reserved_spurious [where p = p and sp = sp] by (subst count_loop.simps) (auto simp: next_spurious_def weak_cas_def)
    next
      case ok: False
      have "unat (page_count p) < unat (psize p) - 1"
        using False s.prems(3,4) psize_minus_1 [of p] by (simp add: word_le_nat_alt)
      moreover have "unat (page_count p + 1) = unat (page_count p) + 1"
        using calculation unsigned_less [of "psize p", where ?'a = nat] by (simp add: unat_word_ariths)
      ultimately have "reserved p R (SUCCESS, ?p\<lparr>page_count := page_count p + 1\<rparr>, es) es"
        unfolding reserved_def reserve_frame_def evicts_def evict_frame_def using s.prems sp by auto
      then show ?thesis
        using False sp ok by (subst count_loop.simps) (simp add: next_spurious_def weak_cas_def)
    qed
  qed (rule count_loop_evict [OF s.prems])
qed

section \<open>A page that is not resident\<close>

text \<open>What a call that brings in a page leaves of the headers of the other pages.\<close>

definition kept :: "pager_t \<Rightarrow> pager_t \<Rightarrow> (u32 \<Rightarrow> nat option) \<Rightarrow> bool" where
  "kept p p' R \<longleftrightarrow> (\<forall>j b. R j = Some b \<longrightarrow> pid (heap p' ! b) = pid (heap p ! b) \<and>
     platch (heap p' ! b) = platch (heap p ! b) \<and> pdata (heap p' ! b) = pdata (heap p ! b) \<and>
     pflags (heap p' ! b) AND NOT PAGE_FLAG_REF = pflags (heap p ! b) AND NOT PAGE_FLAG_REF)"

definition fetched ::
  "pager_t \<Rightarrow> (u32 \<Rightarrow> nat option) \<Rightarrow> u32 \<Rightarrow> bool \<Rightarrow> result \<times> page_t option \<times> pager_t \<times> error_state \<Rightarrow> error_state \<Rightarrow> bool" where
  "fetched p R i ex res es \<longleftrightarrow> (case res of (r, out, p', es') \<Rightarrow>
     pg_size p' = pg_size p \<and> psize p' = psize p \<and> pmask p' = pmask p \<and> next_page p' = next_page p \<and>
     length (spurious p') \<le> length (spurious p) \<and> (\<exists>k. mallocs p' = (\<lambda>n. mallocs p (n + k))) \<and>
     (\<exists>R'. evicts p R R' \<and> kept p p' R' \<and> (card (dom R) + 1 < unat (psize p) \<longrightarrow> R' = R) \<and>
       (if r = SUCCESS then es' = es \<and> (\<exists>a. out = Some \<lparr>tid = i, tptr = a\<rparr> \<and> pager_inv p' (R'(i \<mapsto> a)) \<and>
          platch (heap p' ! a) = (if ex then -1 else 1) \<and> pflags (heap p' ! a) = (if ex then PAGE_FLAG_EXCLUSIVE else 0))
        else out = None \<and> pager_inv p' R' \<and> error_wf es' \<and> error_code es' = ENOMEM \<and>
          ((\<exists>n. mallocs p n = None) \<or>
            R' = R \<and> card (dom R) + 1 = unat (psize p) \<and> (head_clear p \<longrightarrow> all_held p R)))))"

lemma evicts_fields:
  assumes "evicts p R R'"
  shows "R i = None \<Longrightarrow> R' i = None" and "R' j = Some b \<Longrightarrow> R j = Some b"
  using assms by (auto simp: evicts_def split: if_splits)

lemma reserve_kept:
  assumes "pager_ok p R" and "reserve_frame p p'" and "evicts p R R'"
  shows "kept p p' R'"
  unfolding kept_def
proof (intro allI impI)
  fix j b
  assume "R' j = Some b"
  then have "b < length (heap p)" using resident_header(1) [OF assms(1) evicts_fields(2) [OF assms(3)]] by blast
  then show "pid (heap p' ! b) = pid (heap p ! b) \<and> platch (heap p' ! b) = platch (heap p ! b) \<and>
      pdata (heap p' ! b) = pdata (heap p ! b) \<and>
      pflags (heap p' ! b) AND NOT PAGE_FLAG_REF = pflags (heap p ! b) AND NOT PAGE_FLAG_REF"
    using assms(2) by (simp add: reserve_frame_def evict_frame_def)
qed

text \<open>The part of \<^verbatim>\<open>pager_fix\<close> under the exclusive latch of the directory entry.\<close>

definition fix_rest :: "nat \<Rightarrow> pager_t \<Rightarrow> nat \<Rightarrow> u32 \<Rightarrow> bool \<Rightarrow> error_state \<Rightarrow> (result \<times> page_t option \<times> pager_t \<times> error_state) outcome" where
  "fix_rest fuel p ei i ex es =
     obind (pager_create fuel p ei i es) (\<lambda>(r, a, p, es).
     if r \<noteq> SUCCESS then
       let p = p\<lparr>page_count := page_count p - 1\<rparr> in
       obind (try_fail (''src/pager.c'', ''pager_fix'', 410)
         ''handler for: pager_create(pager, hash_entry, id, &header)'' es) (\<lambda>(r, es).
       obind (entry_release p ei True) (\<lambda>p. Inr (r, None, p, es)))
     else
       obind (header_acquire p a ex) (\<lambda>p.
       obind (entry_release p ei True) (\<lambda>p.
       Inr (SUCCESS, Some \<lparr>tid = i, tptr = a\<rparr>, p, es))))"

lemma entry_release_locked:
  assumes "locked p ei (-1)" and "ei < length (directory p)"
  shows "entry_release p ei True = Inr (set_lock p ei 0)" and "unlocked (set_lock p ei 0)"
  using entry_release_held [of p ei True] locked_set_lock [OF assms, of 0] assms by (simp_all add: locked_def)

lemma fix_rest_success:
  assumes cr: "pager_create fuel p ei i es = Inr (SUCCESS, a, p1, es)" and c: "created p R ei i (SUCCESS, a, p1, es) es"
    and ei: "ei < length (directory p)" and pc: "unat (page_count p) = card (dom (R(i \<mapsto> a)))" "unat (page_count p) < unat (psize p)"
  shows "\<exists>p'. fix_rest fuel p ei i ex es = Inr (SUCCESS, Some \<lparr>tid = i, tptr = a\<rparr>, p', es) \<and>
    pager_inv p' (R(i \<mapsto> a)) \<and> platch (heap p' ! a) = (if ex then -1 else 1) \<and>
    pflags (heap p' ! a) = (if ex then PAGE_FLAG_EXCLUSIVE else 0) \<and>
    (\<forall>j b. R j = Some b \<longrightarrow> j \<noteq> i \<longrightarrow> heap p' ! b = heap p ! b) \<and>
    pg_size p' = pg_size p \<and> psize p' = psize p \<and> pmask p' = pmask p \<and> next_page p' = next_page p \<and>
    length (spurious p') \<le> length (spurious p) \<and> (\<exists>k. mallocs p' = (\<lambda>n. mallocs p (n + k)))"
proof -
  have ok: "pager_ok p1 (R(i \<mapsto> a))" and lk: "locked p1 ei (-1)" and h: "platch (heap p1 ! a) = 0" "pflags (heap p1 ! a) = 0"
    and same: "pg_size p1 = pg_size p" "psize p1 = psize p" "pmask p1 = pmask p" "next_page p1 = next_page p"
      "page_count p1 = page_count p" "length (directory p1) = length (directory p)"
      "length (spurious p1) \<le> length (spurious p)" "\<exists>k. mallocs p1 = (\<lambda>n. mallocs p (n + k))"
    and keep: "\<And>j b. R j = Some b \<Longrightarrow> heap p1 ! b = heap p ! b"
    using c by (simp_all add: created_def)
  have a: "a < length (heap p1)" by (rule resident_header(1) [OF ok, of i]) simp
  define h' where "h' = (heap p1 ! a)\<lparr>platch := (if ex then -1 else 1), pflags := (if ex then PAGE_FLAG_EXCLUSIVE else 0)\<rparr>"
  let ?q = "put_hdr p1 a h'"
  have "header_acquire p1 a ex = Inr ?q"
    using h unfolding header_acquire_cases [OF a] h'_def
    by (simp add: latch_acquire_def latch_acquire_read_eq latch_acquire_write_eq)
  moreover have "entry_release ?q ei True = Inr (set_lock ?q ei 0)" "unlocked (set_lock ?q ei 0)"
    using entry_release_locked [of ?q ei] lk ei same(6) by simp_all
  moreover have "pager_ok ?q (R(i \<mapsto> a))"
    using ok pager_ok_data [OF ok a] by (intro pager_ok_put_hdr) (simp_all add: h'_def)
  moreover have "heap ?q ! b = heap p ! b" if "R j = Some b" "j \<noteq> i" for j b
  proof -
    have "b \<noteq> a" using R_inj [OF ok, of i a j] that by auto
    then show ?thesis using keep [OF that(1)] by simp
  qed
  ultimately show ?thesis
    using cr pc a same ei by (auto simp: fix_rest_def Let_def pager_inv_def h'_def)
qed

lemma fix_rest_failure:
  assumes cr: "pager_create fuel p ei i es = Inr (FAILURE, a, p1, es1)" and c: "created p R ei i (FAILURE, a, p1, es1) es"
    and ei: "ei < length (directory p)" and pc: "unat (page_count p) = card (dom R) + 1" "unat (page_count p) < unat (psize p)"
  shows "\<exists>p' es'. fix_rest fuel p ei i ex es = Inr (FAILURE, None, p', es') \<and> pager_inv p' R \<and>
    error_wf es' \<and> error_code es' = ENOMEM \<and> (\<exists>n. mallocs p n = None) \<and>
    (\<forall>j b. R j = Some b \<longrightarrow> heap p' ! b = heap p ! b) \<and>
    pg_size p' = pg_size p \<and> psize p' = psize p \<and> pmask p' = pmask p \<and> next_page p' = next_page p \<and>
    length (spurious p') \<le> length (spurious p) \<and> (\<exists>k. mallocs p' = (\<lambda>n. mallocs p (n + k)))"
proof -
  have ok: "pager_ok p1 R" and lk: "locked p1 ei (-1)" and es1: "error_wf es1" "error_code es1 = ENOMEM"
    and same: "pg_size p1 = pg_size p" "psize p1 = psize p" "pmask p1 = pmask p" "next_page p1 = next_page p"
      "page_count p1 = page_count p" "length (directory p1) = length (directory p)"
      "length (spurious p1) \<le> length (spurious p)" "\<exists>k. mallocs p1 = (\<lambda>n. mallocs p (n + k))"
    and keep: "\<forall>j b. R j = Some b \<longrightarrow> heap p1 ! b = heap p ! b" and mal: "\<exists>n. mallocs p n = None"
    using c by (simp_all add: created_def)
  have "error_code es1 \<noteq> 0" using es1(2) by (simp add: ENOMEM_def)
  from try_fail_correct [OF es1(1) this] obtain es2 where
    t: "try_fail (''src/pager.c'', ''pager_fix'', 410)
      ''handler for: pager_create(pager, hash_entry, id, &header)'' es1 = Inr (FAILURE, es2)"
    "error_wf es2" "error_code es2 = ENOMEM" using es1(2) by fastforce
  let ?q = "p1\<lparr>page_count := page_count p1 - 1\<rparr>"
  have rel: "entry_release ?q ei True = Inr (set_lock ?q ei 0)" "unlocked (set_lock ?q ei 0)"
    using entry_release_locked [of ?q ei] lk ei same(6) by simp_all
  have "page_count p \<noteq> 0" using pc(1) by auto
  then have "unat (page_count p - 1) = card (dom R)" using pc(1) by (simp add: unat_minus_one)
  then have "pager_inv (set_lock ?q ei 0) R"
    using ok rel(2) pc(1,2) ei same by (simp add: pager_inv_def)
  then show ?thesis
    using cr t rel(1) mal keep same by (simp add: fix_rest_def Let_def)
qed

lemma fetched_fail:
  assumes "error_wf es'" and "error_code es' = ENOMEM" and "pager_inv p' R'" and "evicts p R R'" and "kept p p' R'"
    and "card (dom R) + 1 < unat (psize p) \<longrightarrow> R' = R"
    and "(\<exists>n. mallocs p n = None) \<or> R' = R \<and> card (dom R) + 1 = unat (psize p) \<and> (head_clear p \<longrightarrow> all_held p R)"
    and "pg_size p' = pg_size p" "psize p' = psize p" "pmask p' = pmask p" "next_page p' = next_page p"
    and "length (spurious p') \<le> length (spurious p)" and "\<exists>k. mallocs p' = (\<lambda>n. mallocs p (n + k))"
  shows "fetched p R i ex (FAILURE, None, p', es') es"
  using assms unfolding fetched_def by (auto intro!: exI [of _ R'])

text \<open>The call after the reservation, when the page is still not resident.\<close>

lemma fix_rest_fetched:
  assumes fr: "reserve_frame p p1" "unlocked p1" and R1: "pager_ok p1 R1" "evicts p R R1" "kept p p1 R1"
    and same1: "card (dom R) + 1 < unat (psize p) \<longrightarrow> R1 = R"
    and pc: "unat (page_count p1) = card (dom R1) + 1" "unat (page_count p1) < unat (psize p1)"
    and i: "i \<noteq> 0" "R1 i = None" and ei: "ei = hash_of p1 i" and es: "error_wf es"
    and fuel: "length (spurious p) + 2 * unat (psize p) \<le> fuel"
  shows "\<exists>res. fix_rest fuel (set_lock p1 ei (-1)) ei i ex es = Inr res \<and> fetched p R i ex res es"
proof -
  have same: "pg_size p1 = pg_size p" "psize p1 = psize p" "pmask p1 = pmask p" "next_page p1 = next_page p"
      "mallocs p1 = mallocs p" "length (spurious p1) \<le> length (spurious p)"
    using fr(1) by (simp_all add: reserve_frame_def evict_frame_def)
  let ?q = "set_lock p1 ei (-1)"
  have el: "ei < length (directory p1)" unfolding ei by (rule hash_less [OF R1(1)])
  have "locked p1 ei 0" using fr(2) by (simp add: locked_def)
  note lk = locked_set_lock [OF this el, of "-1"]
  have "\<exists>res. pager_create fuel ?q ei i es = Inr res \<and> created ?q R1 ei i res es"
    using R1 el same pc fuel i lk es ei by (intro pager_create_correct) simp_all
  then obtain r a p2 es2 where cr: "pager_create fuel ?q ei i es = Inr (r, a, p2, es2)" "created ?q R1 ei i (r, a, p2, es2) es" by auto
  show ?thesis
  proof (cases r)
    case SUCCESS
    then have es2: "es2 = es" using cr(2) by (simp add: created_def)
    have card1: "card (dom (R1(i \<mapsto> a))) = card (dom R1) + 1"
      using i(2) finite_dom_R [OF R1(1)] by (simp add: domIff card_insert_if)
    obtain p' where p': "fix_rest fuel ?q ei i ex es = Inr (SUCCESS, Some \<lparr>tid = i, tptr = a\<rparr>, p', es)"
      "pager_inv p' (R1(i \<mapsto> a))" "platch (heap p' ! a) = (if ex then -1 else 1)"
      "pflags (heap p' ! a) = (if ex then PAGE_FLAG_EXCLUSIVE else 0)"
      "\<forall>j b. R1 j = Some b \<longrightarrow> j \<noteq> i \<longrightarrow> heap p' ! b = heap p1 ! b"
      "pg_size p' = pg_size p1" "psize p' = psize p1" "pmask p' = pmask p1" "next_page p' = next_page p1"
      "length (spurious p') \<le> length (spurious p1)" "\<exists>k. mallocs p' = (\<lambda>n. mallocs p1 (n + k))"
      using fix_rest_success [OF cr(1) [unfolded SUCCESS es2] cr(2) [unfolded SUCCESS es2], of ex] el pc card1 by auto
    have "kept p p' R1" using R1(3) p'(5) i(2) unfolding kept_def by (metis option.distinct(1))
    then have "fetched p R i ex (SUCCESS, Some \<lparr>tid = i, tptr = a\<rparr>, p', es) es"
      unfolding fetched_def using p' R1(2) same same1 by (auto intro!: exI [of _ R1])
    then show ?thesis using p'(1) by blast
  next
    case FAILURE
    obtain p' es' where p': "fix_rest fuel ?q ei i ex es = Inr (FAILURE, None, p', es')" "pager_inv p' R1"
      "error_wf es'" "error_code es' = ENOMEM" "\<exists>n. mallocs p1 n = None"
      "\<forall>j b. R1 j = Some b \<longrightarrow> heap p' ! b = heap p1 ! b"
      "pg_size p' = pg_size p1" "psize p' = psize p1" "pmask p' = pmask p1" "next_page p' = next_page p1"
      "length (spurious p') \<le> length (spurious p1)" "\<exists>k. mallocs p' = (\<lambda>n. mallocs p1 (n + k))"
      using fix_rest_failure [OF cr(1) [unfolded FAILURE] cr(2) [unfolded FAILURE], of ex] el pc by auto
    have "kept p p' R1" using R1(3) p'(6) by (simp add: kept_def)
    then have "fetched p R i ex (FAILURE, None, p', es') es"
      using p' R1(2) same same1 by (intro fetched_fail) simp_all
    then show ?thesis using p'(1) by blast
  qed
qed

lemma lookup_absent:
  assumes "pager_ok q R" and "R i = None" and "i \<noteq> 0" and "unlocked q" and "x \<noteq> 0"
  shows "pager_lookup (set_lock q (hash_of q i) x) (hash_of q i) i ex = Inr (None, set_lock q (hash_of q i) x)"
proof -
  have ei: "hash_of q i < length (directory q)" by (rule hash_less [OF assms(1)])
  have "locked q (hash_of q i) 0" using assms(4) by (simp add: locked_def)
  from locked_set_lock [OF this ei] show ?thesis
    using pager_lookup_correct [of "set_lock q (hash_of q i) x" R "hash_of q i" i x ex] assms ei by simp
qed

lemma pager_fix_start:
  assumes ok: "pager_ok p R" and un: "unlocked p" and i: "i \<noteq> 0" "R i = None"
  shows "pager_fix fuel p i ex es = obind (count_loop p (page_count p) es) (\<lambda>(r, p', es).
      if r \<noteq> SUCCESS then Inr (r, None, p', es)
      else obind (entry_acquire p' (hash_of p i) True) (\<lambda>p'.
        obind (pager_lookup p' (hash_of p i) i ex) (\<lambda>(out, p').
        if out \<noteq> None then
          let p' = p'\<lparr>page_count := page_count p' - 1\<rparr> in
          obind (entry_release p' (hash_of p i) True) (\<lambda>p'. Inr (SUCCESS, out, p', es))
        else fix_rest fuel p' (hash_of p i) i ex es)))"
proof -
  have ei: "hash_of p i < length (directory p)" by (rule hash_less [OF ok])
  have l: "locked p (hash_of p i) 0" using un by (simp add: locked_def)
  show ?thesis
    using i(1) entry_acquire_free [OF l ei, of False] lookup_absent [OF ok i(2,1) un, of 1]
      entry_release_set_lock [OF un ei, of False]
    by (simp add: pager_fix_def Let_def fix_rest_def cong: if_cong)
qed

lemma pager_fix_absent:
  assumes inv: "pager_inv p R" and i: "i \<noteq> 0" "R i = None" and es: "error_wf es"
    and fuel: "length (spurious p) + 2 * unat (psize p) \<le> fuel"
  shows "\<exists>res. pager_fix fuel p i ex es = Inr res \<and> fetched p R i ex res es"
proof -
  have ok: "pager_ok p R" and un: "unlocked p" and pc: "unat (page_count p) = card (dom R)" "card (dom R) < unat (psize p)"
    using inv by (simp_all add: pager_inv_def)
  note start = pager_fix_start [OF ok un i]
  from count_loop_correct [OF ok un pc es] obtain r p1 es1 where
    cl: "count_loop p (page_count p) es = Inr (r, p1, es1)" "reserved p R (r, p1, es1) es" by auto
  have fr: "reserve_frame p p1" "unlocked p1" using cl(2) by (simp_all add: reserved_def)
  then have same: "pg_size p1 = pg_size p" "psize p1 = psize p" "pmask p1 = pmask p" "next_page p1 = next_page p"
      "mallocs p1 = mallocs p" "length (spurious p1) \<le> length (spurious p)"
    by (simp_all add: reserve_frame_def evict_frame_def)
  show ?thesis
  proof (cases r)
    case FAILURE
    moreover have "\<exists>k. mallocs p1 = (\<lambda>n. mallocs p (n + k))" using same(5) by (intro exI [of _ 0]) simp
    ultimately have "fetched p R i ex (FAILURE, None, p1, es1) es"
      using cl(2) same reserve_kept [OF ok fr(1), of R] pc
      by (intro fetched_fail) (auto simp: reserved_def evicts_def pager_inv_def)
    then show ?thesis using FAILURE cl(1) by (simp add: start)
  next
    case SUCCESS
    with cl(2) obtain R1 where R1: "es1 = es" "pager_ok p1 R1" "evicts p R R1" "card (dom R) + 1 < unat (psize p) \<longrightarrow> R1 = R"
      "unat (page_count p1) = card (dom R1) + 1" "unat (page_count p1) < unat (psize p1)"
      using same(2) by (auto simp: reserved_def)
    have new: "R1 i = None" by (rule evicts_fields(1) [OF R1(3) i(2)])
    have h: "hash_of p i = hash_of p1 i" using same(3) by simp
    have e1: "hash_of p1 i < length (directory p1)" by (rule hash_less [OF R1(2)])
    have l1: "locked p1 (hash_of p1 i) 0" using fr(2) by (simp add: locked_def)
    have "pager_fix fuel p i ex es = fix_rest fuel (set_lock p1 (hash_of p1 i) (-1)) (hash_of p1 i) i ex es"
      using start cl(1) SUCCESS R1(1) entry_acquire_free [OF l1 e1, of True] lookup_absent [OF R1(2) new i(1) fr(2), of "-1"] h
      by simp
    then show ?thesis
      using fix_rest_fetched [OF fr R1(2,3) reserve_kept [OF ok fr(1) R1(3)] R1(4-6) i(1) new refl es fuel] by simp
  qed
qed

end
