(* ===== verification/PagerClient.thy ===== *)
theory PagerClient
  imports PagerFix
begin

text \<open>
  The pager as its clients see it: opening, any sequence of calls of \<open>pager_fix\<close>,
  \<open>pager_next\<close> and \<open>pager_unfix\<close> and of writes to pages held exclusively, and closing. The
  holds of the clients and the state of the pager are related by an invariant that every
  such step keeps.
\<close>

section \<open>Opening\<close>

definition power_of_two_or_zero :: "u32 \<Rightarrow> bool" where
  "power_of_two_or_zero n \<longleftrightarrow> n AND (n - 1) = 0"

lemma high_bit: "2 ^ 31 \<le> unat (w :: u32) \<Longrightarrow> bit w 31"
proof -
  assume "2 ^ 31 \<le> unat w"
  moreover have "unat w < 2 ^ 32" using unsigned_less [of w, where ?'a = nat] by simp
  ultimately have "unat w div 2 ^ 31 = 1" by (intro div_nat_eqI) simp_all
  then have "bit (unat w) 31" by (simp add: bit_iff_odd)
  then show ?thesis by (simp add: bit_unsigned_iff)
qed

lemma power_of_two_bound: "power_of_two_or_zero n \<Longrightarrow> unat n \<le> 2 ^ 31"
proof (rule ccontr)
  assume p: "power_of_two_or_zero n" and "\<not> unat n \<le> 2 ^ 31"
  then have n: "2 ^ 31 < unat n" by simp
  then have "n \<noteq> 0" by auto
  then have "unat (n - 1) = unat n - 1" by (simp add: unat_minus_one)
  then have "bit (n - 1) 31" "bit n 31" using n by (auto intro: high_bit)
  then have "bit (n AND (n - 1)) 31" by (simp add: bit_and_iff)
  then show False using p by (simp add: power_of_two_or_zero_def)
qed

lemma unat_seven_tenths: "unat n \<le> 2 ^ 31 \<Longrightarrow> unat (seven_tenths n) = 7 * unat n div 10"
  by (simp add: seven_tenths_def unat_of_nat take_bit_eq_mod)

text \<open>A pager with nothing in it.\<close>

definition fresh_pager :: "u16 \<Rightarrow> u32 \<Rightarrow> mallocs \<Rightarrow> bool list \<Rightarrow> pager_t" where
  "fresh_pager page_size n ms sp = \<lparr>pg_size = page_size, psize = seven_tenths n, pmask = n - 1,
     page_count = 0, evict_head = 0, create_head = 0, next_page = 1,
     directory = replicate (unat n) (zero_entry\<lparr>elatch := 0\<rparr>),
     ring = replicate (unat (seven_tenths n)) zero_ring, heap = [], mallocs = ms, spurious = sp\<rparr>"

lemma fresh_pager_inv:
  assumes "power_of_two_or_zero n" and "2 \<le> unat n"
  shows "pager_inv (fresh_pager ps n ms sp) Map.empty"
proof -
  have n: "unat n \<le> 2 ^ 31" by (rule power_of_two_bound [OF assms(1)])
  then have sz: "unat (seven_tenths n) = 7 * unat n div 10" by (rule unat_seven_tenths)
  have "n \<noteq> 0" using assms(2) by auto
  then have m: "Suc (unat (n - 1)) = unat n" using assms(2) by (simp add: unat_minus_one)
  have pos: "0 < unat (seven_tenths n)" "2 * unat (seven_tenths n) < 2 ^ 32" using sz n assms(2) by simp_all
  have "unat (n - 1) \<noteq> unat (-1 :: u32)" using m n by (simp add: unsigned_minus_1_eq_mask mask_eq_exp_minus_1)
  then have mask: "n - 1 \<noteq> -1" by metis
  have ring0: "ring_rep (replicate k zero_ring) Map.empty" for k
    by (simp add: ring_rep_def slots_rep_def as_mapping_def zero_ring_def)
  have hdr0: "headers_ok (replicate k zero_ring) 0" for k
    by (simp add: headers_ok_def ptrs_ok_def zero_ring_def)
  have e0: "entry_rep (zero_entry\<lparr>elatch := 0\<rparr>) (bucket_of hm Map.empty ei)" for hm ei
    by (simp add: entry_rep_def slots_rep_def slots_def zero_entry_def bucket_of_def zero_mapping_def less_Suc_eq numeral_2_eq_2)
  show ?thesis
    using pos m mask ring0 hdr0 e0 by (simp add: pager_inv_def pager_ok_def fresh_pager_def locked_def)
qed

lemma pager_open_fresh:
  assumes "power_of_two_or_zero n" and "ms 0 \<noteq> None" and "ms 1 \<noteq> None" and "ms 2 \<noteq> None"
  shows "pager_open ps n ms sp es = Inr (SUCCESS,
    Some (if errdefer_runs es then Freed else Live (fresh_pager ps n (\<lambda>k. ms (k + 3)) sp)), es)"
proof -
  obtain f g h where "ms 0 = Some f" "ms (Suc 0) = Some g" "ms (Suc (Suc 0)) = Some h"
    using assms(2-4) by (auto simp: numeral_2_eq_2)
  then show ?thesis
    using assms(1) by (simp add: pager_open_def power_of_two_or_zero_def malloc_def Let_def fresh_pager_def
        latch_init_def numeral_3_eq_3)
qed

section \<open>Unfixing\<close>

lemma pager_unfix_exclusive:
  assumes "a < length (heap p)" and "platch (heap p ! a) = -1" and "pflags (heap p ! a) AND PAGE_FLAG_EXCLUSIVE \<noteq> 0"
  shows "pager_unfix p \<lparr>tid = i, tptr = a\<rparr> =
    Inr (put_hdr p a ((heap p ! a)\<lparr>pflags := PAGE_FLAG_DIRTY OR PAGE_FLAG_REF, platch := 0\<rparr>))"
  using assms by (simp add: pager_unfix_def deref_def latch_release_write_def Let_def)

lemma pager_unfix_shared:
  assumes "a < length (heap p)" and "sint (platch (heap p ! a)) > 0" and "pflags (heap p ! a) AND PAGE_FLAG_EXCLUSIVE = 0"
  shows "pager_unfix p \<lparr>tid = i, tptr = a\<rparr> =
    Inr (put_hdr p a ((heap p ! a)\<lparr>pflags := pflags (heap p ! a) OR PAGE_FLAG_REF, platch := platch (heap p ! a) - 1\<rparr>))"
  using assms by (simp add: pager_unfix_def deref_def latch_release_read_def Let_def)

section \<open>The steps of the clients\<close>

text \<open>A hold: the page as the client got it, and whether it asked for it exclusively.\<close>

type_synonym hold = "page_t \<times> bool"

definition enough_fuel :: "nat \<Rightarrow> pager_t \<Rightarrow> bool" where
  "enough_fuel fuel p \<longleftrightarrow> length (spurious p) + 2 * unat (psize p) \<le> fuel"

inductive client_step :: "pager_t \<times> hold list \<Rightarrow> pager_t \<times> hold list \<Rightarrow> bool" where
  fixed: "pager_fix fuel p i ex es = Inr (SUCCESS, Some pg, p', es') \<Longrightarrow> enough_fuel fuel p \<Longrightarrow> error_wf es \<Longrightarrow>
    client_step (p, hs) (p', (pg, ex) # hs)"
| not_fixed: "pager_fix fuel p i ex es = Inr (FAILURE, out, p', es') \<Longrightarrow> enough_fuel fuel p \<Longrightarrow> error_wf es \<Longrightarrow>
    client_step (p, hs) (p', hs)"
| next_page: "pager_next fuel p es = Inr (SUCCESS, Some pg, p', es') \<Longrightarrow> enough_fuel fuel p \<Longrightarrow> error_wf es \<Longrightarrow>
    client_step (p, hs) (p', (pg, True) # hs)"
| no_next_page: "pager_next fuel p es = Inr (FAILURE, out, p', es') \<Longrightarrow> enough_fuel fuel p \<Longrightarrow> error_wf es \<Longrightarrow>
    client_step (p, hs) (p', hs)"
| unfixed: "(pg, ex) \<in> set hs \<Longrightarrow> pager_unfix p pg = Inr p' \<Longrightarrow> client_step (p, hs) (p', remove1 (pg, ex) hs)"
| written: "(pg, True) \<in> set hs \<Longrightarrow> length bs = unat (pg_size p) \<Longrightarrow>
    client_step (p, hs) (write_data p (tptr pg) bs, hs)"

inductive client_reachable :: "u16 \<Rightarrow> u32 \<Rightarrow> pager_t \<times> hold list \<Rightarrow> bool" for ps n where
  opened: "pager_open ps n ms sp es = Inr (SUCCESS, Some (Live p), es') \<Longrightarrow> client_reachable ps n (p, [])"
| stepped: "client_reachable ps n s \<Longrightarrow> client_step s s' \<Longrightarrow> client_reachable ps n s'"

section \<open>The invariant of the clients\<close>

definition holds_of :: "hold list \<Rightarrow> nat \<Rightarrow> bool list" where
  "holds_of hs a = map snd (filter (\<lambda>h. tptr (fst h) = a) hs)"

text \<open>The latch of a page with these holds, and its flag for an exclusive hold.\<close>

definition held_by :: "bool list \<Rightarrow> page_hdr \<Rightarrow> bool" where
  "held_by xs h \<longleftrightarrow> (pflags h AND PAGE_FLAG_EXCLUSIVE \<noteq> 0 \<longleftrightarrow> xs = [True]) \<and>
     (if xs = [True] then platch h = -1 else set xs \<subseteq> {False} \<and> sint (platch h) = int (length xs))"

definition client_inv :: "pager_t \<Rightarrow> (u32 \<Rightarrow> nat option) \<Rightarrow> hold list \<Rightarrow> bool" where
  "client_inv p R hs \<longleftrightarrow> pager_inv p R \<and> (\<forall>(pg, ex) \<in> set hs. R (tid pg) = Some (tptr pg)) \<and>
     (\<forall>i a. R i = Some a \<longrightarrow> held_by (holds_of hs a) (heap p ! a))"

lemma held_by_free: "held_by [] h \<longleftrightarrow> platch h = 0 \<and> pflags h AND PAGE_FLAG_EXCLUSIVE = 0"
proof -
  have "sint (platch h) = 0 \<longleftrightarrow> platch h = 0" by (metis signed_0 signed_word_eqI)
  then show ?thesis by (auto simp: held_by_def)
qed

lemma held_by_latched: "held_by xs h \<Longrightarrow> xs \<noteq> [] \<Longrightarrow> platch h \<noteq> 0"
  by (auto simp: held_by_def split: if_splits)

lemma held_by_same:
  assumes "platch h' = platch h" and "pflags h' AND NOT PAGE_FLAG_REF = pflags h AND NOT PAGE_FLAG_REF"
  shows "held_by xs h' = held_by xs h"
proof -
  have "x AND PAGE_FLAG_EXCLUSIVE = (x AND NOT PAGE_FLAG_REF) AND PAGE_FLAG_EXCLUSIVE" for x
    by (simp add: PAGE_FLAG_EXCLUSIVE_def PAGE_FLAG_REF_def and.assoc)
  then have "pflags h' AND PAGE_FLAG_EXCLUSIVE = pflags h AND PAGE_FLAG_EXCLUSIVE" using assms(2) by metis
  then show ?thesis using assms(1) by (simp add: held_by_def)
qed

lemma flag_set: "(x OR PAGE_FLAG_EXCLUSIVE) AND PAGE_FLAG_EXCLUSIVE \<noteq> 0"
  by (simp add: PAGE_FLAG_EXCLUSIVE_def bit.conj_disj_distrib2)

lemma flag_ref: "(x OR PAGE_FLAG_REF) AND PAGE_FLAG_EXCLUSIVE = x AND PAGE_FLAG_EXCLUSIVE"
  by (simp add: PAGE_FLAG_EXCLUSIVE_def PAGE_FLAG_REF_def bit.conj_disj_distrib2)

text \<open>Acquiring and releasing a page adds and removes a hold.\<close>

lemma held_by_acquire:
  assumes h: "held_by xs h" and l: "latch_acquire sp (platch h) ex = Inr l"
  shows "held_by (ex # xs) (h\<lparr>platch := l, pflags := (if ex then pflags h OR PAGE_FLAG_EXCLUSIVE else pflags h)\<rparr>)"
proof (cases ex)
  case True
  then have "platch h = 0" "l = -1" using l by (auto simp: latch_acquire_def latch_acquire_write_eq split: if_splits)
  moreover have "xs = []" using h \<open>platch h = 0\<close> held_by_latched by blast
  ultimately show ?thesis using True flag_set by (simp add: held_by_def)
next
  case False
  then have "\<not> sint (platch h) < 0" "platch h \<noteq> INT32_MAX" "l = platch h + 1"
    using l by (auto simp: latch_acquire_def latch_acquire_read_eq split: if_splits)
  moreover have "xs \<noteq> [True]" using h calculation(1) by (auto simp: held_by_def)
  ultimately show ?thesis using h False sint_plus_1 [of "platch h"] by (simp add: held_by_def)
qed

lemma held_by_release:
  assumes h: "held_by xs (heap p ! a)" and ex: "ex \<in> set xs" and a: "a < length (heap p)"
  shows "\<exists>h'. pager_unfix p \<lparr>tid = i, tptr = a\<rparr> = Inr (put_hdr p a h') \<and> pid h' = pid (heap p ! a) \<and>
    pdata h' = pdata (heap p ! a) \<and> pflags h' AND PAGE_FLAG_REF \<noteq> 0 \<and> (ex \<longrightarrow> pflags h' AND PAGE_FLAG_DIRTY \<noteq> 0) \<and>
    (\<forall>ys. length ys = length xs - 1 \<longrightarrow> set ys \<subseteq> set xs \<longrightarrow> held_by ys h')"
proof (cases "xs = [True]")
  case True
  let ?h = "(heap p ! a)\<lparr>pflags := PAGE_FLAG_DIRTY OR PAGE_FLAG_REF, platch := 0\<rparr>"
  have "pager_unfix p \<lparr>tid = i, tptr = a\<rparr> = Inr (put_hdr p a ?h)"
    using h True by (intro pager_unfix_exclusive [OF a]) (simp_all add: held_by_def)
  moreover have "held_by [] ?h"
    by (simp add: held_by_free PAGE_FLAG_DIRTY_def PAGE_FLAG_REF_def PAGE_FLAG_EXCLUSIVE_def)
  ultimately show ?thesis
    using True by (intro exI [of _ ?h]) (auto simp: PAGE_FLAG_DIRTY_def PAGE_FLAG_REF_def)
next
  case False
  let ?l = "platch (heap p ! a)"
  let ?h = "(heap p ! a)\<lparr>pflags := pflags (heap p ! a) OR PAGE_FLAG_REF, platch := ?l - 1\<rparr>"
  have xs: "set xs \<subseteq> {False}" "sint ?l = int (length xs)" "pflags (heap p ! a) AND PAGE_FLAG_EXCLUSIVE = 0"
    using h False by (auto simp: held_by_def)
  have "0 < length xs" using ex by (cases xs) auto
  then have pos: "sint ?l > 0" using xs(2) by simp
  have "pager_unfix p \<lparr>tid = i, tptr = a\<rparr> = Inr (put_hdr p a ?h)"
    by (rule pager_unfix_shared [OF a pos xs(3)])
  moreover have "held_by ys ?h" if ys: "length ys = length xs - 1" "set ys \<subseteq> set xs" for ys
  proof -
    have "sint (?l - 1) = sint ?l - 1"
      using pos sint_lt [of ?l] by (simp add: sint_word_ariths signed_take_bit_int_eq_self)
    moreover have "int (length ys) = int (length xs) - 1" using ys(1) \<open>0 < length xs\<close> by linarith
    moreover have "ys \<noteq> [True]" "set ys \<subseteq> {False}" using ys(2) xs(1) by auto
    ultimately show ?thesis using xs(2,3) flag_ref by (simp add: held_by_def)
  qed
  moreover have "\<not> ex" using ex xs(1) by auto
  moreover have "(pflags (heap p ! a) OR PAGE_FLAG_REF) AND PAGE_FLAG_REF \<noteq> 0"
    by (simp add: PAGE_FLAG_REF_def bit.conj_disj_distrib2)
  ultimately show ?thesis by (intro exI [of _ ?h]) simp
qed

lemma holds_of_simps [simp]:
  "holds_of [] a = []" "holds_of ((pg, ex) # hs) a = (if tptr pg = a then ex # holds_of hs a else holds_of hs a)"
  by (simp_all add: holds_of_def)

lemma holds_of_mem: "(pg, ex) \<in> set hs \<Longrightarrow> ex \<in> set (holds_of hs (tptr pg))"
  by (force simp: holds_of_def)

lemma holds_of_remove:
  assumes "(pg, ex) \<in> set hs"
  shows "length (holds_of (remove1 (pg, ex) hs) (tptr pg)) = length (holds_of hs (tptr pg)) - 1"
    and "set (holds_of (remove1 (pg, ex) hs) a) \<subseteq> set (holds_of hs a)"
    and "b \<noteq> tptr pg \<Longrightarrow> holds_of (remove1 (pg, ex) hs) b = holds_of hs b"
proof -
  show "length (holds_of (remove1 (pg, ex) hs) (tptr pg)) = length (holds_of hs (tptr pg)) - 1"
    using assms by (simp add: holds_of_def filter_remove1 length_remove1)
  show "set (holds_of (remove1 (pg, ex) hs) a) \<subseteq> set (holds_of hs a)"
    unfolding holds_of_def filter_remove1 set_map by (intro image_mono set_remove1_subset)
  show "b \<noteq> tptr pg \<Longrightarrow> holds_of (remove1 (pg, ex) hs) b = holds_of hs b"
    by (simp add: holds_of_def filter_remove1 remove1_idem)
qed

section \<open>Every step keeps the invariant\<close>

lemma pager_inv_fields [simp]:
  "pager_inv (p\<lparr>next_page := x\<rparr>) R = pager_inv p R" "pager_inv (p\<lparr>spurious := s\<rparr>) R = pager_inv p R"
  "pager_inv (p\<lparr>mallocs := m\<rparr>) R = pager_inv p R"
  by (simp_all add: pager_inv_def)

lemma pager_inv_put_hdr:
  assumes "pager_inv p R" and "pid h = pid (heap p ! a)" and "length (pdata h) = unat (pg_size p)"
  shows "pager_inv (put_hdr p a h) R"
  using assms by (simp add: pager_inv_def pager_ok_put_hdr)

lemma client_inv_put_hdr:
  assumes inv: "client_inv p R hs" and i: "R i = Some a" and h: "pid h = i" "length (pdata h) = unat (pg_size p)"
    and held: "held_by (holds_of hs' a) h" and hs: "\<forall>(pg, ex) \<in> set hs'. R (tid pg) = Some (tptr pg)"
    and frame: "\<And>b. b \<noteq> a \<Longrightarrow> holds_of hs' b = holds_of hs b"
  shows "client_inv (put_hdr p a h) R hs'"
proof -
  have pinv: "pager_inv p R" using inv by (simp add: client_inv_def)
  then have ok: "pager_ok p R" by (simp add: pager_inv_def)
  note rh = resident_header [OF ok i]
  have "held_by (holds_of hs' b) (heap (put_hdr p a h) ! b)" if "R j = Some b" for j b
    using that inv held frame [of b] rh(1) by (cases "b = a") (auto simp: client_inv_def)
  moreover have "pager_inv (put_hdr p a h) R" using pinv h rh(2) by (intro pager_inv_put_hdr) simp_all
  ultimately show ?thesis using hs by (simp add: client_inv_def)
qed

lemma client_inv_resident:
  assumes inv: "client_inv p R hs" and R: "R i = Some a" and fx: "pager_fix fuel p i ex es = Inr (r, out, p', es')"
  shows "r = SUCCESS \<and> out = Some \<lparr>tid = i, tptr = a\<rparr> \<and> client_inv p' R ((\<lparr>tid = i, tptr = a\<rparr>, ex) # hs)"
proof -
  have pinv: "pager_inv p R" using inv by (simp add: client_inv_def)
  then have ok: "pager_ok p R" by (simp add: pager_inv_def)
  note rh = resident_header [OF ok R]
  from fx obtain l where l: "latch_acquire (spurious p) (platch (heap p ! a)) ex = Inr l" "r = SUCCESS"
      "out = Some \<lparr>tid = i, tptr = a\<rparr>"
      "p' = put_hdr p a ((heap p ! a)\<lparr>platch := l,
        pflags := (if ex then pflags (heap p ! a) OR PAGE_FLAG_EXCLUSIVE else pflags (heap p ! a))\<rparr>)"
    unfolding pager_fix_resident [OF pinv R] header_acquire_cases [OF rh(1)] by (auto simp: obind_eq_Inr_iff)
  have held: "held_by (holds_of hs a) (heap p ! a)" using inv R by (auto simp: client_inv_def)
  have "client_inv p' R ((\<lparr>tid = i, tptr = a\<rparr>, ex) # hs)"
    unfolding l(4)
    by (rule client_inv_put_hdr [OF inv R])
      (use held_by_acquire [OF held l(1)] inv R rh pager_ok_data [OF ok rh(1)] in \<open>auto simp: client_inv_def\<close>)
  with l(2,3) show ?thesis by simp
qed

text \<open>A page that somebody holds is never the victim of an eviction.\<close>

lemma client_inv_evicts:
  assumes "client_inv p R hs" and "evicts p R R'"
  shows "\<forall>(pg, ex) \<in> set hs. R' (tid pg) = Some (tptr pg)"
proof (clarify)
  fix pg ex
  assume mem: "(pg, ex) \<in> set hs"
  then have R: "R (tid pg) = Some (tptr pg)" and "held_by (holds_of hs (tptr pg)) (heap p ! tptr pg)"
    using assms(1) by (auto simp: client_inv_def)
  moreover have "holds_of hs (tptr pg) \<noteq> []" using holds_of_mem [OF mem] by auto
  ultimately have "platch (heap p ! tptr pg) \<noteq> 0" using held_by_latched by blast
  then show "R' (tid pg) = Some (tptr pg)" using assms(2) R by (auto simp: evicts_def)
qed

lemma client_inv_kept:
  assumes inv: "client_inv p R hs" and ev: "evicts p R R'" and kp: "kept p p' R'" and pinv: "pager_inv p' R'"
  shows "client_inv p' R' hs"
proof -
  have "held_by (holds_of hs b) (heap p' ! b)" if "R' j = Some b" for j b
    using kp that inv evicts_fields(2) [OF ev that] held_by_same [of "heap p' ! b" "heap p ! b"]
    by (auto simp: kept_def client_inv_def)
  then show ?thesis using client_inv_evicts [OF inv ev] pinv by (simp add: client_inv_def)
qed

lemma held_by_fetched: "platch h = (if ex then -1 else 1) \<Longrightarrow> pflags h = (if ex then PAGE_FLAG_EXCLUSIVE else 0) \<Longrightarrow>
    held_by [ex] h"
  by (cases ex) (simp_all add: held_by_def PAGE_FLAG_EXCLUSIVE_def)

lemma client_inv_fetched:
  assumes inv: "client_inv p R hs" and ev: "evicts p R R'" and kp: "kept p p' R'" and i: "R i = None"
    and pinv: "pager_inv p' (R'(i \<mapsto> a))"
    and h: "platch (heap p' ! a) = (if ex then -1 else 1)" "pflags (heap p' ! a) = (if ex then PAGE_FLAG_EXCLUSIVE else 0)"
  shows "client_inv p' (R'(i \<mapsto> a)) ((\<lparr>tid = i, tptr = a\<rparr>, ex) # hs)"
proof -
  have ok: "pager_ok p' (R'(i \<mapsto> a))" using pinv by (simp add: pager_inv_def)
  have new: "R' i = None" by (rule evicts_fields(1) [OF ev i])
  have fresh: "j = i" if "(R'(i \<mapsto> a)) j = Some a" for j by (rule R_inj [OF ok that]) simp
  have mem: "R' (tid pg) = Some (tptr pg)" if "(pg, x) \<in> set hs" for pg x
    using client_inv_evicts [OF inv ev] that by auto
  then have other: "tid pg \<noteq> i" if "(pg, x) \<in> set hs" for pg x using that new by fastforce
  have "tptr pg \<noteq> a" if "(pg, x) \<in> set hs" for pg x
    using fresh [of "tid pg"] mem [OF that] other [OF that] by auto
  then have "filter (\<lambda>h. tptr (fst h) = a) hs = []" by (fastforce simp: filter_empty_conv)
  then have none: "holds_of hs a = []" by (simp add: holds_of_def)
  have "held_by (holds_of ((\<lparr>tid = i, tptr = a\<rparr>, ex) # hs) b) (heap p' ! b)" if b: "(R'(i \<mapsto> a)) j = Some b" for j b
  proof (cases "j = i")
    case True
    then have "b = a" using b by simp
    then show ?thesis using none held_by_fetched [OF h] by simp
  next
    case False
    then have "R' j = Some b" using b by simp
    moreover have "b \<noteq> a" using fresh [of j] b False by auto
    moreover have "R j = Some b" using calculation(1) by (rule evicts_fields(2) [OF ev])
    then have "held_by (holds_of hs b) (heap p ! b)" using inv by (auto simp: client_inv_def)
    ultimately show ?thesis
      using kp held_by_same [of "heap p' ! b" "heap p ! b"] by (auto simp: kept_def)
  qed
  then show ?thesis using pinv mem other by (fastforce simp: client_inv_def)
qed

lemma client_inv_fix:
  assumes inv: "client_inv p R hs" and fx: "pager_fix fuel p i ex es = Inr (r, out, p', es')"
    and fuel: "enough_fuel fuel p" and es: "error_wf es"
  shows "\<exists>R'. if r = SUCCESS then \<exists>pg. out = Some pg \<and> client_inv p' R' ((pg, ex) # hs) else client_inv p' R' hs"
proof (cases "i = 0")
  case True
  have "EINVAL \<noteq> 0" by (simp add: EINVAL_def)
  from failure_correct [OF es this, of "''src/pager.c''" "''pager_fix''" 372 "''invalid page id''"]
  have "r = FAILURE" "p' = p" using fx True by (auto simp: pager_fix_def)
  then show ?thesis using inv by auto
next
  case i: False
  show ?thesis
  proof (cases "R i")
    case (Some a)
    from client_inv_resident [OF inv this fx] show ?thesis by auto
  next
    case None
    have pinv: "pager_inv p R" using inv by (simp add: client_inv_def)
    have "length (spurious p) + 2 * unat (psize p) \<le> fuel" using fuel by (simp add: enough_fuel_def)
    from pager_fix_absent [OF pinv i None es this, of ex] have f: "fetched p R i ex (r, out, p', es') es" using fx by auto
    show ?thesis
    proof (cases r)
      case SUCCESS
      with f obtain R' a where "evicts p R R'" "kept p p' R'" "out = Some \<lparr>tid = i, tptr = a\<rparr>" "pager_inv p' (R'(i \<mapsto> a))"
        "platch (heap p' ! a) = (if ex then -1 else 1)" "pflags (heap p' ! a) = (if ex then PAGE_FLAG_EXCLUSIVE else 0)"
        by (auto simp: fetched_def)
      from client_inv_fetched [OF inv this(1,2) None this(4-6)] this(3) SUCCESS show ?thesis by auto
    next
      case FAILURE
      with f obtain R' where "evicts p R R'" "kept p p' R'" "pager_inv p' R'" by (auto simp: fetched_def)
      from client_inv_kept [OF inv this] FAILURE show ?thesis by auto
    qed
  qed
qed

lemma client_inv_next_page: "client_inv (p\<lparr>next_page := x\<rparr>) R hs = client_inv p R hs"
  by (simp add: client_inv_def)

lemma client_inv_unfix:
  assumes inv: "client_inv p R hs" and mem: "(pg, ex) \<in> set hs"
  shows "\<exists>h. pager_unfix p pg = Inr (put_hdr p (tptr pg) h) \<and> pdata h = pdata (heap p ! tptr pg) \<and>
    client_inv (put_hdr p (tptr pg) h) R (remove1 (pg, ex) hs)"
proof -
  let ?a = "tptr pg"
  have R: "R (tid pg) = Some ?a" using inv mem by (auto simp: client_inv_def)
  have ok: "pager_ok p R" using inv by (simp add: client_inv_def pager_inv_def)
  note rh = resident_header [OF ok R]
  have held: "held_by (holds_of hs ?a) (heap p ! ?a)" using inv R by (auto simp: client_inv_def)
  have pg: "\<lparr>tid = tid pg, tptr = ?a\<rparr> = pg" by simp
  from held_by_release [OF held holds_of_mem [OF mem] rh(1), of "tid pg", unfolded pg] obtain h' where
    h': "pager_unfix p pg = Inr (put_hdr p ?a h')" "pid h' = pid (heap p ! ?a)" "pdata h' = pdata (heap p ! ?a)"
    "\<forall>ys. length ys = length (holds_of hs ?a) - 1 \<longrightarrow> set ys \<subseteq> set (holds_of hs ?a) \<longrightarrow> held_by ys h'" by auto
  have "client_inv (put_hdr p ?a h') R (remove1 (pg, ex) hs)"
  proof (rule client_inv_put_hdr [OF inv R])
    show "held_by (holds_of (remove1 (pg, ex) hs) ?a) h'" using h'(4) holds_of_remove [OF mem] by blast
    show "\<forall>(pg, ex) \<in> set (remove1 (pg, ex) hs). R (tid pg) = Some (tptr pg)"
      using inv set_remove1_subset [of "(pg, ex)" hs] by (fastforce simp: client_inv_def)
  qed (use h'(2,3) rh pager_ok_data [OF ok rh(1)] holds_of_remove(3) [OF mem] in simp_all)
  then show ?thesis using h'(1,3) by blast
qed

lemma client_inv_write:
  assumes inv: "client_inv p R hs" and mem: "(pg, True) \<in> set hs" and bs: "length bs = unat (pg_size p)"
  shows "client_inv (write_data p (tptr pg) bs) R hs"
proof -
  have R: "R (tid pg) = Some (tptr pg)" using inv mem by (auto simp: client_inv_def)
  have ok: "pager_ok p R" using inv by (simp add: client_inv_def pager_inv_def)
  have "held_by (holds_of hs (tptr pg)) (heap p ! tptr pg)" using inv R by (auto simp: client_inv_def)
  then show ?thesis
    unfolding write_data_def using inv bs resident_header(2) [OF ok R]
    by (intro client_inv_put_hdr [OF inv R]) (simp_all add: held_by_def client_inv_def)
qed

lemma client_step_inv:
  assumes "client_step s s'" and "client_inv (fst s) R (snd s)"
  shows "\<exists>R'. client_inv (fst s') R' (snd s')"
  using assms
proof (induction rule: client_step.induct)
  case (fixed fuel p i ex es pg p' es' hs)
  then show ?case using client_inv_fix [of p R hs] by fastforce
next
  case (not_fixed fuel p i ex es out p' es' hs)
  then show ?case using client_inv_fix [of p R hs] by fastforce
next
  case (next_page fuel p es pg p' es' hs)
  then show ?case
    using client_inv_fix [of "p\<lparr>next_page := next_page p + 1\<rparr>" R hs fuel "next_page p" True es]
    by (fastforce simp: pager_next_def client_inv_next_page enough_fuel_def)
next
  case (no_next_page fuel p es out p' es' hs)
  then show ?case
    using client_inv_fix [of "p\<lparr>next_page := next_page p + 1\<rparr>" R hs fuel "next_page p" True es]
    by (fastforce simp: pager_next_def client_inv_next_page enough_fuel_def)
next
  case (unfixed pg ex hs p p')
  then show ?case using client_inv_unfix [of p R hs pg ex] by auto
next
  case (written pg hs bs p)
  then show ?case using client_inv_write [of p R hs pg bs] by auto
qed

lemma pager_open_live:
  assumes "pager_open ps n ms sp es = Inr (SUCCESS, Some (Live p), es')"
  shows "power_of_two_or_zero n \<and> p = fresh_pager ps n (\<lambda>k. ms (k + 3)) sp"
proof -
  have fl: "failure (''src/pager.c'', ''pager_open'', 116) EINVAL m es \<noteq> Inr (SUCCESS, x)" for m x
    by (auto simp: failure_def obind_eq_Inr_iff split: prod.splits)
  show ?thesis
    using assms fl by (auto simp: pager_open_def malloc_def Let_def fresh_pager_def latch_init_def power_of_two_or_zero_def
        obind_eq_Inr_iff numeral_3_eq_3 split: option.splits if_splits)
qed

lemma client_reachable_inv: "client_reachable ps n s \<Longrightarrow> 2 \<le> unat n \<Longrightarrow> \<exists>R. client_inv (fst s) R (snd s)"
proof (induction rule: client_reachable.induct)
  case (opened ms sp es p es')
  then have "pager_inv p Map.empty" using pager_open_live [OF opened.hyps] fresh_pager_inv by simp
  then have "client_inv p Map.empty []" by (simp add: client_inv_def)
  then show ?case by auto
next
  case (stepped s s')
  then show ?case using client_step_inv by blast
qed

end
