(* ===== verification/PagerSafety.thy ===== *)
theory PagerSafety
  imports PagerClient
begin

text \<open>
  The properties of the pager: opening, fixing, creating, unfixing and closing, and the
  safety of every sequence of client calls.
\<close>

section \<open>Closing\<close>

lemma distinct_filter_nth:
  "(\<forall>j < length xs. \<forall>k < length xs. P (xs ! j) \<longrightarrow> xs ! j = xs ! k \<longrightarrow> j = k) \<Longrightarrow> distinct (filter P xs)"
proof (induction xs)
  case (Cons x xs)
  have "distinct (filter P xs)"
    using Cons.prems by (intro Cons.IH) (metis Suc_less_eq length_Cons nat.inject nth_Cons_Suc)
  moreover have "x \<notin> set xs" if "P x"
  proof
    assume "x \<in> set xs"
    then obtain k where "k < length xs" "xs ! k = x" by (auto simp: in_set_conv_nth)
    then have "0 = Suc k" using Cons.prems that by (metis Suc_less_eq length_Cons nth_Cons_0 nth_Cons_Suc zero_less_Suc)
    then show False by simp
  qed
  ultimately show ?case by simp
qed simp

lemma close_ring_map: "close_ring rs = map (\<lambda>h. Header (the h)) (filter (\<lambda>h. h \<noteq> None) (map rhdr rs))"
  by (induction rs) (auto simp: close_ring_def split: option.splits)

lemma close_ring_once:
  assumes "headers_ok rs n"
  shows "distinct (close_ring rs)" and "set (close_ring rs) = Header ` {..<n}"
proof -
  let ?hs = "map rhdr rs"
  have some: "Some a \<in> set ?hs \<longleftrightarrow> a < n" for a
    using assms unfolding headers_ok_def ptrs_ok_def by blast
  have "distinct (filter (\<lambda>h. h \<noteq> None) ?hs)"
    using assms unfolding headers_ok_def ptrs_ok_def by (intro distinct_filter_nth) blast
  moreover have "inj_on (\<lambda>h. Header (the h)) (set (filter (\<lambda>h. h \<noteq> None) ?hs))" by (auto simp: inj_on_def)
  ultimately show "distinct (close_ring rs)" by (simp add: close_ring_map distinct_map)
  have "set (filter (\<lambda>h. h \<noteq> None) ?hs) = Some ` {..<n}"
    using some by (auto simp del: set_map)
  then have "set (close_ring rs) = (\<lambda>h. Header (the h)) ` Some ` {..<n}"
    by (simp only: close_ring_map set_map)
  then show "set (close_ring rs) = Header ` {..<n}" by (simp add: image_image)
qed

definition buckets_of :: "pager_t \<Rightarrow> freed set" where
  "buckets_of p = {Bucket i j | i j. i < length (directory p) \<and> j < length (eoverflow (directory p ! i))}"

lemma close_directory_once:
  assumes "pager_ok p R"
  shows "\<exists>bs. close_directory p = Inr bs \<and> distinct bs \<and> set bs = buckets_of p"
proof -
  let ?f = "\<lambda>i. map (Bucket i) [0..<length (eoverflow (directory p ! i))]"
  have n: "length (directory p) = Suc (unat (pmask p))" and m: "pmask p \<noteq> -1" using assms by (simp_all add: pager_ok_def)
  have "distinct (concat (map ?f [0..<k]))" for k
    by (induction k) (auto simp: distinct_map inj_on_def)
  moreover have "set (concat (map ?f [0..<length (directory p)])) = buckets_of p"
    by (auto simp: buckets_of_def)
  moreover have "close_directory p = Inr (concat (map ?f [0..<length (directory p)]))"
    using m by (simp only: close_directory_def n lessI if_True if_False)
  ultimately show ?thesis by blast
qed

lemma pager_close_frees:
  assumes "pager_inv p R"
  shows "\<exists>fs. pager_close p = Inr (SUCCESS, fs) \<and> distinct fs \<and>
    set fs = Header ` {..<length (heap p)} \<union> buckets_of p \<union> {Ring, Directory, Pager_struct}"
proof -
  have ok: "pager_ok p R" using assms by (simp add: pager_inv_def)
  obtain bs where bs: "close_directory p = Inr bs" "distinct bs" "set bs = buckets_of p"
    using close_directory_once [OF ok] by blast
  have len: "length (ring p) = unat (psize p)" by (rule pager_okD(2) [OF ok])
  let ?fs = "close_ring (ring p) @ [Ring] @ bs @ [Directory, Pager_struct]"
  have "pager_close p = Inr (SUCCESS, ?fs)" using bs(1) len by (simp add: pager_close_def)
  moreover have "distinct ?fs"
    using close_ring_once [OF pager_okD(6) [OF ok]] bs(2,3) by (auto simp: buckets_of_def)
  moreover have "set ?fs = Header ` {..<length (heap p)} \<union> buckets_of p \<union> {Ring, Directory, Pager_struct}"
    using close_ring_once(2) [OF pager_okD(6) [OF ok]] bs(3) by auto
  ultimately show ?thesis by blast
qed

text \<open>
  C12: Closing frees everything once. From a state the invariant describes, \<^verbatim>\<open>pager_close\<close>
  succeeds and the list of the objects it frees has no duplicates and consists of every page
  header ever allocated, every overflow bucket, the ring, the directory and the pager:
  nothing leaks and nothing is freed twice.
\<close>

theorem pager_close_frees_once:
  assumes "pager_inv p R"
  shows "\<exists>fs. pager_close p = Inr (SUCCESS, fs) \<and> distinct fs \<and>
    set fs = Header ` {..<length (heap p)} \<union> buckets_of p \<union> {Ring, Directory, Pager_struct}"
  by (rule pager_close_frees [OF assms])

section \<open>Termination of the creation loop\<close>

lemma create_loop_more_fuel:
  "create_loop f p ei i es \<noteq> Inl Spins_forever \<Longrightarrow> create_loop (f + k) p ei i es = create_loop f p ei i es"
proof (induction f arbitrary: p)
  case (Suc f)
  from Suc show ?case
    by (auto simp: Let_def u32_mod_def at_index_def split: prod.splits)
qed simp

text \<open>
  C11: The creation loop ends. On a pager that is not full \<^verbatim>\<open>pager_create\<close> returns after at
  most two rounds over the ring and one iteration per spurious failure of the
  compare-exchange, also when the 32-bit head wraps around: every larger bound gives the
  same result.
\<close>

theorem pager_create_terminates:
  assumes "pager_ok p R" and "locked p (hash_of p i) (-1)" and "i \<noteq> 0" and "R i = None" and "error_wf es"
    and "card (dom R) < unat (psize p)"
  shows "\<exists>res. \<forall>k. pager_create (length (spurious p) + 2 * unat (psize p) + k) p (hash_of p i) i es = Inr res"
proof -
  let ?f = "length (spurious p) + 2 * unat (psize p)" and ?ei = "hash_of p i"
  obtain res where res: "create_loop ?f p ?ei i es = Inr res"
    using create_loop_correct [OF assms(1,2) refl assms(3-6), of ?f] by auto
  then have "create_loop (?f + k) p ?ei i es = Inr res" for k using create_loop_more_fuel [of ?f p ?ei i es k] by simp
  moreover have "?ei < length (directory p)" by (rule hash_less [OF assms(1)])
  ultimately have "\<forall>k. pager_create (?f + k) p ?ei i es = Inr res"
    using assms(2) by (simp add: pager_create_def entry_at_def at_index_def locked_def)
  then show ?thesis by blast
qed

section \<open>A small pager\<close>

text \<open>Four directory entries, room for one page at a time, pages of four bytes.\<close>

definition small_pager :: pager_t where
  "small_pager = fresh_pager 4 4 (\<lambda>_. Some (\<lambda>_. 7)) []"

lemma small_pager_inv: "pager_inv small_pager Map.empty"
  unfolding small_pager_def by (rule fresh_pager_inv) (simp_all add: power_of_two_or_zero_def)

lemma small_pager_fields [simp]: "psize small_pager = 2" "spurious small_pager = []" "evict_head small_pager = 0"
    "mallocs small_pager = (\<lambda>_. Some (\<lambda>_. 7))"
  by (simp_all add: small_pager_def fresh_pager_def seven_tenths_def)

lemma small_pager_fixed:
  obtains p a where "pager_fix 4 small_pager 5 ex error_init = Inr (SUCCESS, Some \<lparr>tid = 5, tptr = a\<rparr>, p, error_init)"
    and "pager_inv p [5 \<mapsto> a]" and "platch (heap p ! a) = (if ex then -1 else 1)"
    and "psize p = 2"
proof -
  obtain r out p es where fx: "pager_fix 4 small_pager 5 ex error_init = Inr (r, out, p, es)"
      "fetched small_pager Map.empty 5 ex (r, out, p, es) error_init"
    using pager_fix_absent [OF small_pager_inv, of 5 error_init 4 ex] error_wf_init by auto
  then have "r = SUCCESS" by (cases r) (auto simp: fetched_def evicts_def)
  with fx(2) obtain a where "out = Some \<lparr>tid = 5, tptr = a\<rparr>" "pager_inv p [5 \<mapsto> a]" "es = error_init"
      "platch (heap p ! a) = (if ex then -1 else 1)" "psize p = 2"
    by (auto simp: fetched_def evicts_def)
  with fx(1) \<open>r = SUCCESS\<close> show thesis by (intro that) simp_all
qed

theorem pager_close_frees_once_witness:
  "\<exists>fs. pager_close small_pager = Inr (SUCCESS, fs) \<and> set fs = {Ring, Directory, Pager_struct}"
proof -
  have "buckets_of small_pager = {}"
    by (auto simp: buckets_of_def small_pager_def fresh_pager_def zero_entry_def)
  moreover have "heap small_pager = []" by (simp add: small_pager_def fresh_pager_def)
  ultimately show ?thesis using pager_close_frees_once [OF small_pager_inv] by auto
qed

theorem pager_create_terminates_witness:
  "\<exists>res. \<forall>k. pager_create (4 + k) (set_lock small_pager (hash_of small_pager 5) (-1)) (hash_of small_pager 5) 5 error_init = Inr res"
proof -
  let ?ei = "hash_of small_pager 5" and ?p = "set_lock small_pager (hash_of small_pager 5) (-1)"
  have ok: "pager_ok small_pager Map.empty" "unlocked small_pager" using small_pager_inv by (simp_all add: pager_inv_def)
  have ei: "?ei < length (directory small_pager)" by (rule hash_less [OF ok(1)])
  have lk: "locked ?p (hash_of ?p 5) (-1)"
    using locked_set_lock [of small_pager ?ei 0 "-1"] ok(2) ei by (simp add: locked_def)
  have "pager_ok ?p Map.empty" using ok(1) ei by simp
  from pager_create_terminates [OF this lk _ _ error_wf_init] show ?thesis by simp
qed

section \<open>Opening\<close>



text \<open>
  Opening after an earlier failure. While the error code of an earlier failure has not
  been cleared, \<^verbatim>\<open>pager_open\<close> returns SUCCESS but its \<^verbatim>\<open>errdefer\<close> handlers, which test that
  code, have freed the pager the caller is given.
\<close>

theorem pager_open_stale_error:
  assumes "error_code es \<noteq> 0" and "power_of_two_or_zero n" and "ms 0 \<noteq> None" and "ms 1 \<noteq> None" and "ms 2 \<noteq> None"
  shows "pager_open ps n ms sp es = Inr (SUCCESS, Some Freed, es)"
  using pager_open_fresh [OF assms(2-5)] assms(1) by (simp add: errdefer_runs_def error_get_code_def)

theorem pager_open_stale_error_witness:
  "pager_open 4 4 (\<lambda>_. Some (\<lambda>_. 7)) [] (error_init\<lparr>error_code := 22\<rparr>) = Inr (SUCCESS, Some Freed, error_init\<lparr>error_code := 22\<rparr>)"
  by (rule pager_open_stale_error) (simp_all add: power_of_two_or_zero_def)

section \<open>Fixing\<close>

lemma single_resident: "[5 \<mapsto> a] (5 :: u32) = Some a" by simp

text \<open>
  Fixing a page that is cached. \<^verbatim>\<open>pager_fix\<close> returns the very header that is resident
  under the id, its latch acquired in the mode asked for and its data untouched, keeps the
  invariant and changes no other header; if the latch cannot be had in that mode, it waits.
  The fuel plays no part, and the error state stays.
\<close>

theorem pager_fix_cached_page:
  assumes "pager_inv p R" and "R i = Some a"
  shows "case latch_acquire (spurious p) (platch (heap p ! a)) ex of
      Inl e \<Rightarrow> pager_fix fuel p i ex es = Inl e
    | Inr l \<Rightarrow> \<exists>p'. pager_fix fuel p i ex es = Inr (SUCCESS, Some \<lparr>tid = i, tptr = a\<rparr>, p', es) \<and> pager_inv p' R \<and>
        platch (heap p' ! a) = l \<and> pdata (heap p' ! a) = pdata (heap p ! a) \<and> (\<forall>b. b \<noteq> a \<longrightarrow> heap p' ! b = heap p ! b)"
proof -
  have ok: "pager_ok p R" using assms(1) by (simp add: pager_inv_def)
  note rh = resident_header [OF ok assms(2)]
  show ?thesis
    unfolding pager_fix_resident [OF assms] header_acquire_cases [OF rh(1)]
    using rh(1) assms(1) pager_ok_data [OF ok rh(1)]
    by (auto intro!: pager_inv_put_hdr split: sum.splits)
qed

theorem pager_fix_cached_page_witness:
  "\<exists>p p' a. pager_inv p [5 \<mapsto> a] \<and> pager_fix 0 p 5 False error_init = Inr (SUCCESS, Some \<lparr>tid = 5, tptr = a\<rparr>, p', error_init) \<and>
    platch (heap p ! a) = 1 \<and> platch (heap p' ! a) = 2"
proof -
  obtain p a where p: "pager_inv p [5 \<mapsto> a]" "platch (heap p ! a) = 1"
    using small_pager_fixed [of False] by (metis (full_types))
  then have "latch_acquire (spurious p) (platch (heap p ! a)) False = Inr 2"
    by (simp add: latch_acquire_def latch_acquire_read_eq INT32_MAX_def)
  with pager_fix_cached_page [OF p(1) single_resident, where ex = False and fuel = 0 and es = error_init] p show ?thesis by auto
qed

text \<open>
  C8: Fixing a page that is not cached. \<^verbatim>\<open>pager_fix\<close> brings the page in under a header of
  its own, latched in the mode asked for. To make room it evicts at most one page, one that
  nobody holds, and none while there is room; all other pages keep their header, latch and data. It fails only with
  ENOMEM, when an allocation failed or when the cache is full and (the clock hand being away
  from the end of its range) every page is held; then nothing is resident that was not
  before. The invariant holds in either case, so \<^verbatim>\<open>page_count\<close> stays exact on every path.
\<close>

theorem pager_fix_new_page:
  assumes "pager_inv p R" and "i \<noteq> 0" and "R i = None" and "error_wf es"
    and "length (spurious p) + 2 * unat (psize p) \<le> fuel"
  shows "\<exists>r out p' es' R'. pager_fix fuel p i ex es = Inr (r, out, p', es') \<and>
    (R' = R \<or> (\<exists>v b. R v = Some b \<and> platch (heap p ! b) = 0 \<and> R' = R(v := None))) \<and>
    (card (dom R) + 1 < unat (psize p) \<longrightarrow> R' = R) \<and>
    (\<forall>j b. R' j = Some b \<longrightarrow> pid (heap p' ! b) = j \<and> platch (heap p' ! b) = platch (heap p ! b) \<and>
      pdata (heap p' ! b) = pdata (heap p ! b)) \<and>
    (if r = SUCCESS then es' = es \<and> (\<exists>a. out = Some \<lparr>tid = i, tptr = a\<rparr> \<and> pager_inv p' (R'(i \<mapsto> a)) \<and>
       platch (heap p' ! a) = (if ex then -1 else 1) \<and> pid (heap p' ! a) = i)
     else out = None \<and> pager_inv p' R' \<and> error_code es' = ENOMEM \<and>
       ((\<exists>n. mallocs p n = None) \<or> R' = R \<and> card (dom R) + 1 = unat (psize p) \<and>
         (unat (evict_head p) + 2 * unat (psize p) \<le> 2 ^ 32 \<longrightarrow> (\<forall>j b. R j = Some b \<longrightarrow> platch (heap p ! b) \<noteq> 0))))"
proof -
  obtain r out p' es' R' where f: "pager_fix fuel p i ex es = Inr (r, out, p', es')" "evicts p R R'" "kept p p' R'"
    and room: "card (dom R) + 1 < unat (psize p) \<longrightarrow> R' = R" and f4:
    "if r = SUCCESS then es' = es \<and> (\<exists>a. out = Some \<lparr>tid = i, tptr = a\<rparr> \<and> pager_inv p' (R'(i \<mapsto> a)) \<and>
        platch (heap p' ! a) = (if ex then -1 else 1) \<and> pflags (heap p' ! a) = (if ex then PAGE_FLAG_EXCLUSIVE else 0))
      else out = None \<and> pager_inv p' R' \<and> error_wf es' \<and> error_code es' = ENOMEM \<and>
        ((\<exists>n. mallocs p n = None) \<or> R' = R \<and> card (dom R) + 1 = unat (psize p) \<and> (head_clear p \<longrightarrow> all_held p R))"
    using pager_fix_absent [OF assms, of ex] unfolding fetched_def by auto
  note f = f f4
  have ok: "pager_ok p R" using assms(1) by (simp add: pager_inv_def)
  have "\<forall>j b. R' j = Some b \<longrightarrow> pid (heap p' ! b) = j \<and> platch (heap p' ! b) = platch (heap p ! b) \<and>
      pdata (heap p' ! b) = pdata (heap p ! b)"
    using f(3) resident_header(2) [OF ok evicts_fields(2) [OF f(2)]] by (simp add: kept_def)
  moreover have "pid (heap p' ! a) = i" if "pager_inv p' (R'(i \<mapsto> a))" for a
    using resident_header(2) [of p' "R'(i \<mapsto> a)" i a] that by (simp add: pager_inv_def)
  then have "if r = SUCCESS then es' = es \<and> (\<exists>a. out = Some \<lparr>tid = i, tptr = a\<rparr> \<and> pager_inv p' (R'(i \<mapsto> a)) \<and>
       platch (heap p' ! a) = (if ex then -1 else 1) \<and> pid (heap p' ! a) = i)
     else out = None \<and> pager_inv p' R' \<and> error_code es' = ENOMEM \<and>
       ((\<exists>n. mallocs p n = None) \<or> R' = R \<and> card (dom R) + 1 = unat (psize p) \<and>
         (head_clear p \<longrightarrow> (\<forall>j b. R j = Some b \<longrightarrow> platch (heap p ! b) \<noteq> 0)))"
    using f(4) unfolding all_held_def by (cases r) auto
  ultimately show ?thesis
    using f(1) f(2) [unfolded evicts_def] room
    by (intro exI [of _ r] exI [of _ out] exI [of _ p'] exI [of _ es'] exI [of _ R'] conjI)
qed

theorem pager_fix_new_page_witness:
  "\<exists>p' a. pager_fix 4 small_pager 5 True error_init = Inr (SUCCESS, Some \<lparr>tid = 5, tptr = a\<rparr>, p', error_init) \<and>
    platch (heap p' ! a) = -1 \<and> pager_inv p' [5 \<mapsto> a]"
proof -
  from pager_fix_new_page [OF small_pager_inv _ _ error_wf_init, of 5 4 True] obtain r out p' es' where
    f: "pager_fix 4 small_pager 5 True error_init = Inr (r, out, p', es')"
    "if r = SUCCESS then es' = error_init \<and> (\<exists>a. out = Some \<lparr>tid = 5, tptr = a\<rparr> \<and> pager_inv p' [5 \<mapsto> a] \<and>
       platch (heap p' ! a) = -1) else False"
    by (clarsimp split: if_splits)
  then show ?thesis by (cases r) auto
qed

text \<open>
  C7: Safety of all clients. Whatever sequence of \<^verbatim>\<open>pager_fix\<close>, \<^verbatim>\<open>pager_next\<close> and
  \<^verbatim>\<open>pager_unfix\<close> calls and of writes to exclusively held pages follows the opening, every
  hold stays good: its page is resident under its id, at the address the client was given
  and with data of the page size, an exclusive hold is the only hold of its page, and
  unfixing it trips no assertion.
\<close>

theorem pager_clients_safe:
  assumes "client_reachable ps n (p, hs)" and "2 \<le> unat n"
  shows "\<exists>R. pager_inv p R \<and> (\<forall>pg ex. (pg, ex) \<in> set hs \<longrightarrow> R (tid pg) = Some (tptr pg) \<and> tptr pg < length (heap p) \<and>
    pid (heap p ! tptr pg) = tid pg \<and> length (pdata (heap p ! tptr pg)) = unat (pg_size p) \<and>
    (ex \<longrightarrow> holds_of hs (tptr pg) = [True]) \<and> (\<exists>p'. pager_unfix p pg = Inr p'))"
proof -
  obtain R where inv: "client_inv p R hs" using client_reachable_inv [OF assms] by auto
  then have pinv: "pager_inv p R" and ok: "pager_ok p R" by (simp_all add: client_inv_def pager_inv_def)
  have "R (tid pg) = Some (tptr pg) \<and> tptr pg < length (heap p) \<and> pid (heap p ! tptr pg) = tid pg \<and>
      length (pdata (heap p ! tptr pg)) = unat (pg_size p) \<and>
      (ex \<longrightarrow> holds_of hs (tptr pg) = [True]) \<and> (\<exists>p'. pager_unfix p pg = Inr p')" if mem: "(pg, ex) \<in> set hs" for pg ex
  proof -
    have R: "R (tid pg) = Some (tptr pg)" using inv mem by (auto simp: client_inv_def)
    then have "held_by (holds_of hs (tptr pg)) (heap p ! tptr pg)" using inv by (auto simp: client_inv_def)
    then have "ex \<longrightarrow> holds_of hs (tptr pg) = [True]"
      using holds_of_mem [OF mem] by (auto simp: held_by_def split: if_splits)
    then show ?thesis
      using R resident_header [OF ok R] pager_ok_data [OF ok] client_inv_unfix [OF inv mem] by auto
  qed
  with pinv show ?thesis by blast
qed

theorem pager_clients_safe_witness:
  "\<exists>p p' a. client_reachable 4 4 (p, [(\<lparr>tid = 5, tptr = a\<rparr>, True)]) \<and> pager_unfix p \<lparr>tid = 5, tptr = a\<rparr> = Inr p'"
proof -
  obtain p a where fx: "pager_fix 4 small_pager 5 True error_init = Inr (SUCCESS, Some \<lparr>tid = 5, tptr = a\<rparr>, p, error_init)"
    using small_pager_fixed [of True] by metis
  have "pager_open 4 4 (\<lambda>_. Some (\<lambda>_. 7)) [] error_init = Inr (SUCCESS, Some (Live small_pager), error_init)"
    by (subst pager_open_fresh)
      (simp_all add: power_of_two_or_zero_def errdefer_runs_def error_get_code_def error_init_def small_pager_def)
  then have "client_reachable 4 4 (small_pager, [])" by (rule client_reachable.opened)
  moreover have "client_step (small_pager, []) (p, [(\<lparr>tid = 5, tptr = a\<rparr>, True)])"
    by (rule client_step.fixed [OF fx _ error_wf_init]) (simp add: enough_fuel_def)
  ultimately have r: "client_reachable 4 4 (p, [(\<lparr>tid = 5, tptr = a\<rparr>, True)])" by (rule client_reachable.stepped)
  from pager_clients_safe [OF r] have "\<exists>p'. pager_unfix p \<lparr>tid = 5, tptr = a\<rparr> = Inr p'" by auto
  with r show ?thesis by blast
qed

section \<open>Eviction at work\<close>


end
