(* ===== verification/Btree.thy ===== *)
theory Btree
  imports Pager Page
begin

text \<open>
  The tree operations of src/btree.c: opening and creating a tree, insertion with the splits
  on the way down, lookup, and the table functions that encode ids and values. The pager is
  part of the state; a page is read and written through the data pointer that \<^verbatim>\<open>pager_fix\<close>
  or \<^verbatim>\<open>pager_next\<close> returned.

  \<^verbatim>\<open>defer(pager_unfix, x)\<close> unfixes the page that the variable \<^verbatim>\<open>x\<close> holds when its scope is
  left, on every path; \<^verbatim>\<open>errdefer(pager_unfix, x)\<close> does so if the thread's error code is set
  at that time. Both are written out here at the end of the scope. \<open>fuel\<close> bounds the loop of
  \<^verbatim>\<open>pager_create\<close>, \<open>depth\<close> the descent through the tree.
\<close>

section \<open>The tree\<close>

text \<open>\<^verbatim>\<open>btree_t\<close>; the pager it points to is passed alongside.\<close>

record btree_t =
  root :: page_id_t
  btree_page_size :: u16

definition btree_open ::
  "pager_t \<Rightarrow> page_id_t \<Rightarrow> error_state \<Rightarrow> (result \<times> btree_t allocated option \<times> pager_t \<times> error_state) outcome" where
  "btree_open p rt es =
     (case malloc (mallocs p) of
        (None, ms) \<Rightarrow>
          obind (try_alloc_failure (''src/btree.c'', ''btree_open'', 152) ''btree'' ''sizeof(btree_t)'' es)
            (\<lambda>(r, es). Inr (r, None, p\<lparr>mallocs := ms\<rparr>, es))
      | (Some _, ms) \<Rightarrow>
          let bt = \<lparr>root = rt, btree_page_size = pager_get_page_size p\<rparr> in
          Inr (SUCCESS, Some (if errdefer_runs es then Freed else Live bt), p\<lparr>mallocs := ms\<rparr>, es))"

definition btree_create ::
  "nat \<Rightarrow> pager_t \<Rightarrow> u16 \<Rightarrow> error_state \<Rightarrow> (result \<times> btree_t allocated option \<times> pager_t \<times> error_state) outcome" where
  "btree_create fuel p type es =
     obind (pager_next fuel p es) (\<lambda>(r, rt, p, es).
     case rt of
       None \<Rightarrow>
         obind (try_fail (''src/btree.c'', ''btree_create'', 170) ''try pager_next(pager, &root)'' es)
           (\<lambda>(r, es). Inr (r, None, p, es))
     | Some rt \<Rightarrow>
         obind (page_data p rt) (\<lambda>d.
         obind (page_put_header d \<lparr>cell_count = 0, data_start = pager_get_page_size p,
             free_space = pager_get_page_size p - 12, flags = page_flags_package True type, right = 0\<rparr>) (\<lambda>d.
         obind (btree_open (write_data p (tptr rt) d) (tid rt) es) (\<lambda>(r, bt, p, es).
         obind (pager_unfix p rt) (\<lambda>p.
         Inr (r, bt, p, es))))))"

section \<open>Steps shared by the functions\<close>

text \<open>The child an inner page routes to: a payload's page id, or the right link.\<close>

definition child_id :: "byte list \<Rightarrow> u16 \<Rightarrow> page_id_t outcome" where
  "child_id page index =
     obind (page_get_header page) (\<lambda>header.
     if index = cell_count header then Inr (right header)
     else obind (page_get_payload page index) (\<lambda>payload. payload_get_page_id (drop payload page)))"

text \<open>
  \<^verbatim>\<open>page_split\<close> on two fixed pages, and the split key: the last key that stays on the first
  page. The index \<open>split - 1\<close> is converted to 16 bits.
\<close>

definition split_pages :: "pager_t \<Rightarrow> page_t \<Rightarrow> page_t \<Rightarrow> u16 \<Rightarrow> (pager_t \<times> blob_t) outcome" where
  "split_pages p page split page_size =
     obind (page_data p page) (\<lambda>d.
     obind (page_data p split) (\<lambda>s.
     obind (page_split d s (tid split) page_size) (\<lambda>(d, s, split_index).
     let p = write_data (write_data p (tptr page) d) (tptr split) s in
     obind (page_get_header d) (\<lambda>header.
     obind (page_get_payload d (split_index - 1)) (\<lambda>payload.
     obind (payload_get_key (flags header) (drop payload d)) (\<lambda>split_key.
     Inr (p, split_key)))))))"

text \<open>Insertion into the leaf that is reached, with its page unfixed on every path.\<close>

definition insert_into_leaf ::
  "site \<Rightarrow> string \<Rightarrow> pager_t \<Rightarrow> page_t \<Rightarrow> u16 \<Rightarrow> blob_t \<Rightarrow> blob_t \<Rightarrow> error_state \<Rightarrow> (result \<times> pager_t \<times> error_state) outcome" where
  "insert_into_leaf site mt p page page_size key val es =
     obind (page_data p page) (\<lambda>d.
     obind (page_insert_leaf d page_size key val es) (\<lambda>(r, d, es).
     let p = write_data p (tptr page) d in
     obind (if r \<noteq> SUCCESS then try_fail site mt es else Inr (SUCCESS, es)) (\<lambda>(r, es).
     obind (pager_unfix p page) (\<lambda>p.
     Inr (r, p, es)))))"

section \<open>Insertion below an inner page\<close>

text \<open>
  The split of a child in \<^verbatim>\<open>btree_insert_walk\<close>: the child to go on with, or the failure of
  \<^verbatim>\<open>pager_next\<close>, after which the child stays fixed.
\<close>

definition walk_split ::
  "nat \<Rightarrow> btree_t \<Rightarrow> pager_t \<Rightarrow> page_t \<Rightarrow> u16 \<Rightarrow> page_t \<Rightarrow> blob_t \<Rightarrow> error_state \<Rightarrow>
   (result \<times> page_t option \<times> pager_t \<times> error_state) outcome" where
  "walk_split fuel bt p parent index page key es =
     obind (pager_next fuel p es) (\<lambda>(r, split, p, es).
     case split of
       None \<Rightarrow>
         obind (try_fail (''src/btree.c'', ''btree_insert_walk'', 364) ''try pager_next(btree->pager, &split)'' es)
           (\<lambda>(r, es). Inr (r, None, p, es))
     | Some split \<Rightarrow>
         obind (split_pages p page split (btree_page_size bt)) (\<lambda>(p, split_key).
         obind (page_data p parent) (\<lambda>d.
         obind (page_insert_inner d (btree_page_size bt) index split_key (tid split)) (\<lambda>d.
         let p = write_data p (tptr parent) d in
         obind (key_compare (bdata key) (bdata split_key)) (\<lambda>c.
         if c < 0 then obind (pager_unfix p split) (\<lambda>p. Inr (SUCCESS, Some page, p, es))
         else obind (pager_unfix p page) (\<lambda>p. Inr (SUCCESS, Some split, p, es)))))))"

text \<open>The scope of \<^verbatim>\<open>btree_insert_walk\<close> in which the parent is fixed, up to its end.\<close>

definition walk_scope ::
  "nat \<Rightarrow> btree_t \<Rightarrow> pager_t \<Rightarrow> page_t \<Rightarrow> blob_t \<Rightarrow> blob_t \<Rightarrow> error_state \<Rightarrow>
   (result \<times> page_t option \<times> pager_t \<times> error_state) outcome" where
  "walk_scope fuel bt p parent key val es =
     obind (page_data p parent) (\<lambda>d.
     obind (page_find_pointer d key) (\<lambda>(found, index).
     if found then
       obind (failure (''src/btree.c'', ''btree_insert_walk'', 347) EEXIST ''key already exists on page'' es)
         (\<lambda>(r, es). Inr (r, None, p, es))
     else
       obind (child_id d index) (\<lambda>nxt.
       obind (c_assert (nxt \<noteq> 0)) (\<lambda>_.
       obind (pager_fix fuel p nxt True es) (\<lambda>(r, page, p, es).
       case page of
         None \<Rightarrow>
           obind (try_fail (''src/btree.c'', ''btree_insert_walk'', 358)
             ''try pager_fix(btree->pager, next, true, &page)'' es) (\<lambda>(r, es). Inr (r, None, p, es))
       | Some page \<Rightarrow>
           obind (page_data p page) (\<lambda>pd.
           obind (page_get_header pd) (\<lambda>header.
           if free_space header < payload_put_len (flags header) key val
           then walk_split fuel bt p parent index page key es
           else Inr (SUCCESS, Some page, p, es))))))))"

fun btree_insert_walk ::
  "nat \<Rightarrow> nat \<Rightarrow> btree_t \<Rightarrow> pager_t \<Rightarrow> page_t \<Rightarrow> blob_t \<Rightarrow> blob_t \<Rightarrow> error_state \<Rightarrow> (result \<times> pager_t \<times> error_state) outcome" where
  "btree_insert_walk 0 fuel bt p parent key val es = Inl Spins_forever"
| "btree_insert_walk (Suc depth) fuel bt p parent key val es =
     obind (page_data p parent) (\<lambda>d.
     obind (page_get_header d) (\<lambda>parent_header.
     obind (c_assert (page_is_inner (flags parent_header))) (\<lambda>_.
     obind (c_assert (free_space parent_header \<ge> payload_put_len (flags parent_header) key val)) (\<lambda>_.
     obind (walk_scope fuel bt p parent key val es) (\<lambda>(r, page, p, es).
     obind (pager_unfix p parent) (\<lambda>p.
     case page of
       None \<Rightarrow> Inr (r, p, es)
     | Some page \<Rightarrow>
         obind (page_data p page) (\<lambda>d.
         obind (page_get_header d) (\<lambda>header.
         if page_is_leaf (flags header) then
           insert_into_leaf (''src/btree.c'', ''btree_insert_walk'', 383)
             ''try page_insert_leaf(page.data, btree->page_size, key, value)'' p page (btree_page_size bt) key val es
         else
           obind (btree_insert_walk depth fuel bt p page key val es) (\<lambda>(r, p, es).
           if r \<noteq> SUCCESS then
             obind (try_fail (''src/btree.c'', ''btree_insert_walk'', 385)
               ''try btree_insert_walk(btree, page, key, value)'' es) (\<lambda>(r, es). Inr (r, p, es))
           else Inr (SUCCESS, p, es))))))))))"

section \<open>Insertion\<close>

text \<open>The contents of a new root above \<open>left\<close> and \<open>right\<close>.\<close>

definition new_root :: "byte list \<Rightarrow> u16 \<Rightarrow> u16 \<Rightarrow> page_id_t \<Rightarrow> blob_t \<Rightarrow> page_id_t \<Rightarrow> byte list outcome" where
  "new_root d page_size fl left_id split_key right_id =
     (let ds = page_size - (4 + ucast (bsize split_key)) in
      obind (page_put_header d \<lparr>cell_count = 1, data_start = ds, free_space = ds - 12 - 2,
        flags = fl AND NOT PAGE_FLAG_LEAF, right = right_id\<rparr>) (\<lambda>d.
      obind (page_set_cell d 0 ds) (\<lambda>d.
      obind (page_get_payload d 0) (\<lambda>new_cell.
      obind (mem_write d new_cell (le_bytes 4 left_id)) (\<lambda>d.
      obind (mem_read (bdata split_key) 0 (unat (bsize split_key))) (\<lambda>kbs.
      mem_write d (new_cell + 4) kbs))))))"

text \<open>
  The split of the root in \<^verbatim>\<open>btree_insert\<close>: the page the variable \<open>root\<close> holds afterwards, and
  the tree with its new root. When a page cannot be had, the pages fixed before it stay
  fixed, the new one apart.
\<close>

definition split_root ::
  "nat \<Rightarrow> btree_t \<Rightarrow> pager_t \<Rightarrow> page_t \<Rightarrow> blob_t \<Rightarrow> error_state \<Rightarrow>
   (result \<times> page_t \<times> btree_t \<times> pager_t \<times> error_state) outcome" where
  "split_root fuel bt p rt key es =
     obind (pager_next fuel p es) (\<lambda>(r, split, p, es).
     case split of
       None \<Rightarrow>
         obind (try_fail (''src/btree.c'', ''btree_insert'', 400) ''try pager_next(btree->pager, &split)'' es)
           (\<lambda>(r, es). Inr (r, rt, bt, p, es))
     | Some split \<Rightarrow>
         obind (split_pages p rt split (btree_page_size bt)) (\<lambda>(p, split_key).
         obind (pager_next fuel p es) (\<lambda>(r, new, p, es).
         case new of
           None \<Rightarrow>
             obind (try_fail (''src/btree.c'', ''btree_insert'', 407) ''try pager_next(btree->pager, &new)'' es)
               (\<lambda>(r, es). Inr (r, rt, bt, p, es))
         | Some new \<Rightarrow>
             obind (page_data p rt) (\<lambda>d.
             obind (page_get_header d) (\<lambda>header.
             obind (page_data p new) (\<lambda>nd.
             obind (new_root nd (btree_page_size bt) (flags header) (tid rt) split_key (tid split)) (\<lambda>nd.
             let p = write_data p (tptr new) nd; bt = bt\<lparr>root := tid new\<rparr> in
             obind (key_compare (bdata key) (bdata split_key)) (\<lambda>c.
             obind (pager_unfix p (if c < 0 then split else rt)) (\<lambda>p.
             obind (pager_unfix p new) (\<lambda>p.
             Inr (SUCCESS, if c < 0 then rt else split, bt, p, es)))))))))))"

text \<open>What follows the split: insertion into the page, or below it.\<close>

definition insert_below ::
  "nat \<Rightarrow> nat \<Rightarrow> btree_t \<Rightarrow> pager_t \<Rightarrow> page_t \<Rightarrow> blob_t \<Rightarrow> blob_t \<Rightarrow> error_state \<Rightarrow> (result \<times> pager_t \<times> error_state) outcome" where
  "insert_below depth fuel bt p rt key val es =
     obind (page_data p rt) (\<lambda>d.
     obind (page_get_header d) (\<lambda>header.
     if page_is_leaf (flags header) then
       insert_into_leaf (''src/btree.c'', ''btree_insert'', 437)
         ''try page_insert_leaf(root.data, btree->page_size, key, value)'' p rt (btree_page_size bt) key val es
     else
       obind (btree_insert_walk depth fuel bt p rt key val es) (\<lambda>(r, p, es).
       if r \<noteq> SUCCESS then
         obind (try_fail (''src/btree.c'', ''btree_insert'', 439)
           ''try btree_insert_walk(btree, root, key, value)'' es) (\<lambda>(r, es). Inr (r, p, es))
       else Inr (SUCCESS, p, es))))"

text \<open>\<^verbatim>\<open>btree_insert\<close>; the last step is the \<^verbatim>\<open>errdefer\<close> on the variable \<open>root\<close>.\<close>

definition btree_insert ::
  "nat \<Rightarrow> nat \<Rightarrow> btree_t \<Rightarrow> pager_t \<Rightarrow> blob_t \<Rightarrow> blob_t \<Rightarrow> error_state \<Rightarrow>
   (result \<times> btree_t \<times> pager_t \<times> error_state) outcome" where
  "btree_insert depth fuel bt p key val es =
     obind (pager_fix fuel p (root bt) True es) (\<lambda>(r, rt, p, es).
     case rt of
       None \<Rightarrow>
         obind (try_fail (''src/btree.c'', ''btree_insert'', 394)
           ''try pager_fix(btree->pager, btree->root, true, &root)'' es) (\<lambda>(r, es). Inr (r, bt, p, es))
     | Some rt \<Rightarrow>
         obind (page_data p rt) (\<lambda>d.
         obind (page_get_header d) (\<lambda>header.
         obind (if free_space header < payload_put_len (flags header) key val
                then split_root fuel bt p rt key es else Inr (SUCCESS, rt, bt, p, es)) (\<lambda>(r, rt, bt, p, es).
         obind (if r \<noteq> SUCCESS then Inr (r, p, es) else insert_below depth fuel bt p rt key val es) (\<lambda>(r, p, es).
         obind (if errdefer_runs es then pager_unfix p rt else Inr p) (\<lambda>p.
         Inr (r, bt, p, es)))))))"

section \<open>Lookup\<close>

text \<open>The loop of \<^verbatim>\<open>btree_lookup\<close>; the page it returns is still fixed, also on failure.\<close>

fun lookup_loop ::
  "nat \<Rightarrow> nat \<Rightarrow> pager_t \<Rightarrow> page_t \<Rightarrow> blob_t \<Rightarrow> error_state \<Rightarrow> (result \<times> page_t \<times> pager_t \<times> error_state) outcome" where
  "lookup_loop 0 fuel p page key es = Inl Spins_forever"
| "lookup_loop (Suc depth) fuel p page key es =
     obind (page_data p page) (\<lambda>d.
     obind (page_get_header d) (\<lambda>header.
     if page_is_inner (flags header) then
       obind (page_find_pointer d key) (\<lambda>(_, index).
       obind (child_id d index) (\<lambda>nxt.
       obind (c_assert (nxt \<noteq> 0)) (\<lambda>_.
       obind (pager_fix fuel p nxt True es) (\<lambda>(r, child, p, es).
       case child of
         None \<Rightarrow>
           obind (try_fail (''src/btree.c'', ''btree_lookup'', 466)
             ''try pager_fix(btree->pager, next, true, &child)'' es) (\<lambda>(r, es). Inr (r, page, p, es))
       | Some child \<Rightarrow> obind (pager_unfix p page) (\<lambda>p. lookup_loop depth fuel p child key es)))))
     else Inr (SUCCESS, page, p, es)))"

text \<open>The value that \<open>out\<close> points to is read after its page was unfixed.\<close>

definition btree_lookup ::
  "nat \<Rightarrow> nat \<Rightarrow> btree_t \<Rightarrow> pager_t \<Rightarrow> blob_t \<Rightarrow> error_state \<Rightarrow> (result \<times> byte list \<times> pager_t \<times> error_state) outcome" where
  "btree_lookup depth fuel bt p key es =
     obind (pager_fix fuel p (root bt) True es) (\<lambda>(r, page, p, es).
     case page of
       None \<Rightarrow>
         obind (try_fail (''src/btree.c'', ''btree_lookup'', 448)
           ''try pager_fix(btree->pager, btree->root, true, &page)'' es) (\<lambda>(r, es). Inr (r, [], p, es))
     | Some page \<Rightarrow>
         obind (lookup_loop depth fuel p page key es) (\<lambda>(r, page, p, es).
         obind (if r \<noteq> SUCCESS then Inr (r, [], es)
                else obind (page_data p page) (\<lambda>d. leaf_lookup d key es)) (\<lambda>(r, out, es).
         obind (pager_unfix p page) (\<lambda>p.
         Inr (r, out, p, es)))))"

section \<open>Tables\<close>

text \<open>\<open>key_buf\<close> and \<open>value_buf\<close> are the indeterminate contents of the local arrays.\<close>

definition btree_table_insert ::
  "nat \<Rightarrow> nat \<Rightarrow> btree_t \<Rightarrow> pager_t \<Rightarrow> u64 \<Rightarrow> blob_t \<Rightarrow> byte list \<Rightarrow> byte list \<Rightarrow> error_state \<Rightarrow>
   (result \<times> btree_t \<times> pager_t \<times> error_state) outcome" where
  "btree_table_insert depth fuel bt p eid val key_buf value_buf es =
     obind (varint_put key_buf eid) (\<lambda>(key_buf, key_len).
     obind (blob_put value_buf val) (\<lambda>(value_buf, value_len).
     btree_insert depth fuel bt p \<lparr>bsize = ucast key_len, bdata = key_buf\<rparr>
       \<lparr>bsize = value_len, bdata = value_buf\<rparr> es))"

definition btree_table_lookup ::
  "nat \<Rightarrow> nat \<Rightarrow> btree_t \<Rightarrow> pager_t \<Rightarrow> u64 \<Rightarrow> byte list \<Rightarrow> error_state \<Rightarrow>
   (result \<times> blob_t option \<times> pager_t \<times> error_state) outcome" where
  "btree_table_lookup depth fuel bt p eid key_buf es =
     obind (varint_put key_buf eid) (\<lambda>(key_buf, key_len).
     obind (btree_lookup depth fuel bt p \<lparr>bsize = ucast key_len, bdata = key_buf\<rparr> es) (\<lambda>(r, val, p, es).
     if r \<noteq> SUCCESS then
       obind (try_fail (''src/btree.c'', ''btree_table_lookup'', 501)
         ''try btree_lookup(btree, (blob_t){ key_len, key }, &value)'' es) (\<lambda>(r, es). Inr (r, None, p, es))
     else
       obind (blob_get val) (\<lambda>(b, _). Inr (SUCCESS, Some b, p, es))))"

text \<open>\<^verbatim>\<open>btree_close\<close> frees the tree and clears the caller's pointer; the pager stays open.\<close>

definition btree_close :: "btree_t \<Rightarrow> result \<times> btree_t allocated option" where
  "btree_close bt = (SUCCESS, None)"

end
