(* ===== verification/PageCache.thy ===== *)
theory PageCache
  imports PagerClient
begin

text \<open>
  The pager as the tree sees it: a store of pages by id, some of which are held exclusively.
  The contract of such a store is a locale; the pager satisfies it.
\<close>

section \<open>The contract\<close>

text \<open>
  \<open>caches s M hs\<close>: the store \<open>s\<close> has the contents \<open>M\<close> and the handles \<open>hs\<close> are out.
  \<open>fixed\<close>, \<open>finished\<close> and \<open>got\<close> are the results of calls that succeed.
\<close>

locale page_cache =
  fixes caches :: "'s \<Rightarrow> ('i \<Rightarrow> 'd option) \<Rightarrow> 'h list \<Rightarrow> bool"
    and ident :: "'h \<Rightarrow> 'i"
    and fits :: "'d \<Rightarrow> bool"
    and fix_page :: "'s \<Rightarrow> 'i \<Rightarrow> 'r"
    and fixed :: "'h \<Rightarrow> 's \<Rightarrow> 'r"
    and unfix_page :: "'s \<Rightarrow> 'h \<Rightarrow> 'u"
    and finished :: "'s \<Rightarrow> 'u"
    and read_page :: "'s \<Rightarrow> 'h \<Rightarrow> 'e"
    and got :: "'d \<Rightarrow> 'e"
    and write_page :: "'s \<Rightarrow> 'h \<Rightarrow> 'd \<Rightarrow> 's"
  assumes fix_free: "caches s M hs \<Longrightarrow> M i \<noteq> None \<Longrightarrow> i \<notin> ident ` set hs \<Longrightarrow>
      \<exists>h s'. fix_page s i = fixed h s' \<and> ident h = i \<and> caches s' M (h # hs)"
    and unfix_held: "caches s M hs \<Longrightarrow> h \<in> set hs \<Longrightarrow> \<exists>s'. unfix_page s h = finished s' \<and> caches s' M (remove1 h hs)"
    and read_held: "caches s M hs \<Longrightarrow> h \<in> set hs \<Longrightarrow> M (ident h) = Some d \<Longrightarrow> read_page s h = got d"
    and write_held: "caches s M hs \<Longrightarrow> h \<in> set hs \<Longrightarrow> fits d \<Longrightarrow> caches (write_page s h d) (M(ident h \<mapsto> d)) hs"
begin

text \<open>A page is fixed, read, written and unfixed.\<close>

lemma unfix_written:
  assumes "caches s M (h # hs)" and "fits d"
  shows "\<exists>s'. unfix_page (write_page s h d) h = finished s' \<and> caches s' (M(ident h \<mapsto> d)) hs"
  using unfix_held [OF write_held [OF assms(1) _ assms(2)], of h h] by simp

lemma exclusive_section:
  assumes "caches s M hs" and "M i = Some d" and "i \<notin> ident ` set hs"
  shows "\<exists>h s'. fix_page s i = fixed h s' \<and> ident h = i \<and> caches s' M (h # hs) \<and> read_page s' h = got d \<and>
    (\<exists>s''. unfix_page s' h = finished s'' \<and> caches s'' M hs) \<and>
    (\<forall>d'. fits d' \<longrightarrow> (\<exists>s''. unfix_page (write_page s' h d') h = finished s'' \<and> caches s'' (M(i \<mapsto> d')) hs))"
proof -
  from fix_free [OF assms(1) _ assms(3)] assms(2) obtain h s' where
    h: "fix_page s i = fixed h s'" "ident h = i" "caches s' M (h # hs)" by auto
  have "read_page s' h = got d" using read_held [OF h(3), of h d] h(2) assms(2) by simp
  moreover have "\<exists>s''. unfix_page s' h = finished s'' \<and> caches s'' M hs" using unfix_held [OF h(3), of h] by simp
  ultimately show ?thesis using h unfix_written [OF h(3)] by blast
qed

text \<open>The step of a descent: the next page is fixed before the one held is given back.\<close>

lemma hand_over_hand:
  assumes "caches s M [h]" and "M i \<noteq> None" and "i \<noteq> ident h"
  shows "\<exists>h' s' s''. fix_page s i = fixed h' s' \<and> ident h' = i \<and> unfix_page s' h = finished s'' \<and> caches s'' M [h']"
proof -
  from fix_free [OF assms(1,2)] assms(3) obtain h' s' where
    h: "fix_page s i = fixed h' s'" "ident h' = i" "caches s' M [h', h]" by auto
  have "h' \<noteq> h" using h(2) assms(3) by auto
  then have "remove1 h [h', h] = [h']" by simp
  with unfix_held [OF h(3), of h] h(1,2) show ?thesis by auto
qed

end

section \<open>The pager as a page cache\<close>

text \<open>Capacity, next id, and the environment: what fixing and unfixing cached pages leaves alone.\<close>

definition config :: "pager_t \<Rightarrow> u32 \<times> u32 \<times> mallocs \<times> bool list" where
  "config p = (psize p, next_page p, mallocs p, spurious p)"

definition caches ::
  "nat \<Rightarrow> u32 \<times> u32 \<times> mallocs \<times> bool list \<Rightarrow> pager_t \<Rightarrow> (u32 \<Rightarrow> byte list option) \<Rightarrow> page_t list \<Rightarrow> bool" where
  "caches ps c p M hs \<longleftrightarrow> unat (pg_size p) = ps \<and> config p = c \<and>
     (\<exists>R. client_inv p R (map (\<lambda>pg. (pg, True)) hs) \<and> (\<forall>i. M i = map_option (\<lambda>a. pdata (heap p ! a)) (R i)))"

lemma config_put_hdr [simp]: "config (put_hdr p a h) = config p" "config (write_data p a bs) = config p"
  by (simp_all add: config_def write_data_def put_hdr_def)

lemma remove1_map_pair: "remove1 (pg, True) (map (\<lambda>pg. (pg, True)) hs) = map (\<lambda>pg. (pg, True)) (remove1 pg hs)"
  by (induction hs) auto

lemma caches_fix:
  assumes c: "caches ps c p M hs" and M: "M i \<noteq> None" and i: "i \<notin> tid ` set hs"
  shows "\<exists>pg q. pager_fix fuel p i True es = Inr (SUCCESS, Some pg, q, es) \<and> tid pg = i \<and> caches ps c q M (pg # hs)"
proof -
  let ?hs = "map (\<lambda>pg. (pg, True)) hs"
  from c obtain R where R: "client_inv p R ?hs" "\<forall>i. M i = map_option (\<lambda>a. pdata (heap p ! a)) (R i)"
    and cfg: "unat (pg_size p) = ps" "config p = c" by (auto simp: caches_def)
  have pinv: "pager_inv p R" and ok: "pager_ok p R" using R(1) by (simp_all add: client_inv_def pager_inv_def)
  from M R(2) obtain a where a: "R i = Some a" by (cases "R i") auto
  have "tptr pg \<noteq> a" if "pg \<in> set hs" for pg
  proof
    assume "tptr pg = a"
    then have "R (tid pg) = Some a" using R(1) that by (auto simp: client_inv_def)
    then show False using R_inj [OF ok a] i that by auto
  qed
  then have "holds_of ?hs a = []" by (auto simp: holds_of_def filter_empty_conv)
  then have "platch (heap p ! a) = 0" using R(1) a by (fastforce simp: client_inv_def held_by_free)
  note rh = resident_header [OF ok a]
  let ?h = "(heap p ! a)\<lparr>platch := -1, pflags := pflags (heap p ! a) OR PAGE_FLAG_EXCLUSIVE\<rparr>"
  let ?pg = "\<lparr>tid = i, tptr = a\<rparr>"
  have fx: "pager_fix fuel p i True es = Inr (SUCCESS, Some ?pg, put_hdr p a ?h, es)"
    unfolding pager_fix_resident [OF pinv a] header_acquire_cases [OF rh(1)]
    using \<open>platch (heap p ! a) = 0\<close> by (simp add: latch_acquire_def latch_acquire_write_eq)
  have "client_inv (put_hdr p a ?h) R ((?pg, True) # ?hs)"
    using client_inv_resident [OF R(1) a fx] by simp
  moreover have "pdata (heap (put_hdr p a ?h) ! b) = pdata (heap p ! b)" for b
    using rh(1) by (cases "b = a") simp_all
  ultimately have "caches ps c (put_hdr p a ?h) M (?pg # hs)" using cfg R(2) by (auto simp: caches_def)
  with fx show ?thesis by (intro exI [of _ ?pg] exI [of _ "put_hdr p a ?h"]) simp
qed

lemma caches_held:
  assumes "caches ps c p M hs" and "pg \<in> set hs"
  obtains R where "client_inv p R (map (\<lambda>pg. (pg, True)) hs)" and "\<forall>i. M i = map_option (\<lambda>a. pdata (heap p ! a)) (R i)"
    and "R (tid pg) = Some (tptr pg)" and "tptr pg < length (heap p)"
    and "M (tid pg) = Some (pdata (heap p ! tptr pg))" and "length (pdata (heap p ! tptr pg)) = ps"
proof -
  from assms obtain R where R: "client_inv p R (map (\<lambda>pg. (pg, True)) hs)"
    "\<forall>i. M i = map_option (\<lambda>a. pdata (heap p ! a)) (R i)" "unat (pg_size p) = ps" by (auto simp: caches_def)
  have r: "R (tid pg) = Some (tptr pg)" and ok: "pager_ok p R"
    using R(1) assms(2) by (auto simp: client_inv_def pager_inv_def)
  note rh = resident_header [OF ok r]
  show thesis using that [OF R(1,2) r rh(1)] R(2,3) r pager_ok_data [OF ok rh(1)] by simp
qed

lemma caches_unfix:
  assumes c: "caches ps c p M hs" and pg: "pg \<in> set hs"
  shows "\<exists>q. pager_unfix p pg = Inr q \<and> caches ps c q M (remove1 pg hs)"
proof -
  obtain R where R: "client_inv p R (map (\<lambda>pg. (pg, True)) hs)" "\<forall>i. M i = map_option (\<lambda>a. pdata (heap p ! a)) (R i)"
    "tptr pg < length (heap p)" by (rule caches_held [OF c pg])
  from client_inv_unfix [OF R(1), of pg True] pg obtain h where
    h: "pager_unfix p pg = Inr (put_hdr p (tptr pg) h)" "pdata h = pdata (heap p ! tptr pg)"
    "client_inv (put_hdr p (tptr pg) h) R (map (\<lambda>pg. (pg, True)) (remove1 pg hs))"
    by (auto simp: remove1_map_pair)
  have "pdata (heap (put_hdr p (tptr pg) h) ! b) = pdata (heap p ! b)" for b
    using R(3) h(2) by (cases "b = tptr pg") simp_all
  with h(1,3) c R(2) show ?thesis by (auto simp: caches_def)
qed

lemma caches_read: "caches ps c p M hs \<Longrightarrow> pg \<in> set hs \<Longrightarrow> M (tid pg) = Some d \<Longrightarrow> page_data p pg = Inr d"
  by (erule (1) caches_held) (simp add: page_data_def deref_def)

lemma caches_write:
  assumes c: "caches ps c p M hs" and pg: "pg \<in> set hs" and d: "length d = ps"
  shows "caches ps c (write_data p (tptr pg) d) (M(tid pg \<mapsto> d)) hs"
proof -
  obtain R where R: "client_inv p R (map (\<lambda>pg. (pg, True)) hs)" "\<forall>i. M i = map_option (\<lambda>a. pdata (heap p ! a)) (R i)"
    "R (tid pg) = Some (tptr pg)" "tptr pg < length (heap p)" by (rule caches_held [OF c pg])
  have ok: "pager_ok p R" using R(1) by (simp add: client_inv_def pager_inv_def)
  let ?q = "write_data p (tptr pg) d"
  have "client_inv ?q R (map (\<lambda>pg. (pg, True)) hs)"
    using client_inv_write [OF R(1)] pg d c by (simp add: caches_def)
  moreover have "(M(tid pg \<mapsto> d)) i = map_option (\<lambda>a. pdata (heap ?q ! a)) (R i)" for i
  proof (cases "i = tid pg")
    case True
    then show ?thesis using R(3,4) by (simp add: write_data_def)
  next
    case False
    then have "R i \<noteq> Some (tptr pg)" using R_inj [OF ok R(3)] by auto
    then show ?thesis using False R(2) by (cases "R i") (auto simp: write_data_def)
  qed
  ultimately show ?thesis using c by (auto simp: caches_def write_data_def)
qed

interpretation cache: page_cache "caches ps c" tid "\<lambda>d. length d = ps" "\<lambda>p i. pager_fix fuel p i True es"
  "\<lambda>pg p. Inr (SUCCESS, Some pg, p, es)" pager_unfix Inr page_data Inr "\<lambda>p pg d. write_data p (tptr pg) d"
  for ps c fuel es
  by unfold_locales (auto intro: caches_fix caches_unfix caches_read caches_write)

section \<open>Beyond the contract\<close>

text \<open>A page is fixed for reading only, read and unfixed.\<close>

lemma caches_peek:
  assumes c: "caches ps c p M []" and d: "M i = Some d"
  shows "\<exists>pg p1 q. pager_fix fuel p i False es = Inr (SUCCESS, Some pg, p1, es) \<and> page_data p1 pg = Inr d \<and>
    pager_unfix p1 pg = Inr q \<and> caches ps c q M []"
proof -
  from c obtain R where R: "client_inv p R []" "\<forall>i. M i = map_option (\<lambda>a. pdata (heap p ! a)) (R i)"
    and cfg: "unat (pg_size p) = ps" "config p = c" by (auto simp: caches_def)
  have pinv: "pager_inv p R" and ok: "pager_ok p R" using R(1) by (simp_all add: client_inv_def pager_inv_def)
  from d R(2) obtain a where a: "R i = Some a" "pdata (heap p ! a) = d" by (cases "R i") auto
  have "platch (heap p ! a) = 0" using R(1) a(1) by (fastforce simp: client_inv_def held_by_free holds_of_def)
  note rh = resident_header [OF ok a(1)]
  let ?pg = "\<lparr>tid = i, tptr = a\<rparr>"
  obtain l where fx: "pager_fix fuel p i False es = Inr (SUCCESS, Some ?pg, put_hdr p a ((heap p ! a)\<lparr>platch := l\<rparr>), es)"
    unfolding pager_fix_resident [OF pinv a(1)] header_acquire_cases [OF rh(1)]
    using \<open>platch (heap p ! a) = 0\<close> by (simp add: latch_acquire_def latch_acquire_read_eq INT32_MAX_def)
  let ?p1 = "put_hdr p a ((heap p ! a)\<lparr>platch := l\<rparr>)"
  have "client_inv ?p1 R [(?pg, False)]" using client_inv_resident [OF R(1) a(1) fx] by simp
  from client_inv_unfix [OF this, of ?pg False] obtain h where
    h: "pager_unfix ?p1 ?pg = Inr (put_hdr ?p1 a h)" "pdata h = pdata (heap ?p1 ! a)" "client_inv (put_hdr ?p1 a h) R []" by auto
  have same: "pdata (heap ?p1 ! b) = pdata (heap p ! b)" "pdata (heap (put_hdr ?p1 a h) ! b) = pdata (heap p ! b)" for b
    using rh(1) h(2) by (cases "b = a"; simp)+
  have "page_data ?p1 ?pg = Inr d" using rh(1) a(2) by (simp add: page_data_def deref_def)
  moreover have "caches ps c (put_hdr ?p1 a h) M []" using h(3) same(2) cfg R(2) by (auto simp: caches_def)
  ultimately show ?thesis using fx h(1) by blast
qed

text \<open>Unfixing a page twice trips the assertion in the release functions.\<close>

lemma caches_unfix_twice:
  assumes c: "caches ps c p M (pg # hs)"
  shows "\<exists>q. pager_unfix p pg = Inr q \<and> caches ps c q M hs \<and> pager_unfix q pg = Inl Assertion_failed"
proof -
  let ?m = "map (\<lambda>pg. (pg, True))"
  obtain R where R: "client_inv p R (?m (pg # hs))" "\<forall>i. M i = map_option (\<lambda>a. pdata (heap p ! a)) (R i)"
    "R (tid pg) = Some (tptr pg)" "tptr pg < length (heap p)" by (rule caches_held [OF c, of pg]) auto
  from client_inv_unfix [OF R(1), of pg True] obtain h where
    h: "pager_unfix p pg = Inr (put_hdr p (tptr pg) h)" "pdata h = pdata (heap p ! tptr pg)"
    "client_inv (put_hdr p (tptr pg) h) R (?m hs)" by auto
  let ?q = "put_hdr p (tptr pg) h"
  have same: "pdata (heap ?q ! b) = pdata (heap p ! b)" for b
    using R(4) h(2) by (cases "b = tptr pg") simp_all
  then have q: "caches ps c ?q M hs" using h(3) c R(2) by (auto simp: caches_def)
  have "held_by (holds_of (?m (pg # hs)) (tptr pg)) (heap p ! tptr pg)"
    using R(1,3) unfolding client_inv_def by blast
  then have none: "holds_of (?m hs) (tptr pg) = []" by (auto simp: held_by_def split: if_splits)
  have "held_by [] (heap ?q ! tptr pg)" using h(3) R(3) none unfolding client_inv_def by metis
  then have "pager_unfix ?q pg = Inl Assertion_failed"
    using R(4) by (simp add: held_by_free pager_unfix_def deref_def Let_def latch_release_read_def flag_ref)
  with h(1) q show ?thesis by blast
qed

text \<open>Room for \<open>k\<close> more pages, whose ids are still unused.\<close>

definition roomy :: "nat \<Rightarrow> nat \<Rightarrow> u32 \<times> u32 \<times> mallocs \<times> bool list \<Rightarrow> (u32 \<Rightarrow> byte list option) \<Rightarrow> bool" where
  "roomy k fuel c M \<longleftrightarrow> (case c of (sz, nxt, ms, sp) \<Rightarrow> card (dom M) + k < unat sz \<and> (\<forall>n. ms n \<noteq> None) \<and>
     length sp + 2 * unat sz \<le> fuel \<and> 0 < unat nxt \<and> unat nxt + k < 2 ^ 32 \<and> (\<forall>i \<in> dom M. unat i < unat nxt))"

lemma roomy_contents: "roomy k fuel c M \<Longrightarrow> dom M' = dom M \<Longrightarrow> roomy k fuel c M'"
  by (simp add: roomy_def)

text \<open>The id of the next page.\<close>

abbreviation next_id :: "u32 \<times> u32 \<times> mallocs \<times> bool list \<Rightarrow> u32" where "next_id c \<equiv> fst (snd c)"

lemma caches_next:
  assumes c: "caches ps c p M hs" and room: "roomy (Suc k) fuel c M" and es: "error_wf es"
  shows "\<exists>pg d q c'. pager_next fuel p es = Inr (SUCCESS, Some pg, q, es) \<and> caches ps c' q (M(tid pg \<mapsto> d)) (pg # hs) \<and>
    roomy k fuel c' (M(tid pg \<mapsto> d)) \<and> length d = ps \<and> tid pg \<noteq> 0 \<and> M (tid pg) = None \<and>
    tid pg = next_id c \<and> next_id c' = next_id c + 1"
proof -
  let ?hs = "map (\<lambda>pg. (pg, True)) hs"
  from c obtain R where R: "client_inv p R ?hs" "\<forall>i. M i = map_option (\<lambda>a. pdata (heap p ! a)) (R i)"
    and cfg: "unat (pg_size p) = ps" "c = (psize p, next_page p, mallocs p, spurious p)"
    by (auto simp: caches_def config_def)
  have dom: "dom M = dom R" using R(2) by (auto simp: dom_def)
  let ?p = "p\<lparr>next_page := next_page p + 1\<rparr>" and ?i = "next_page p"
  have rm: "card (dom R) + Suc k < unat (psize p)" "\<forall>n. mallocs p n \<noteq> None" "length (spurious p) + 2 * unat (psize p) \<le> fuel"
    "0 < unat ?i" "unat ?i + Suc k < 2 ^ 32" "\<forall>i \<in> dom M. unat i < unat ?i" using room cfg(2) dom by (simp_all add: roomy_def)
  have i: "?i \<noteq> 0" using rm(4) by auto
  have Mi: "M ?i = None" using rm(6) by (metis domI less_irrefl not_None_eq)
  then have Ri: "R ?i = None" using R(2) [rule_format, of ?i] by simp
  have inv: "client_inv ?p R ?hs" using R(1) by (simp add: client_inv_next_page)
  then have pinv: "pager_inv ?p R" and ok: "pager_ok ?p R" by (simp_all add: client_inv_def pager_inv_def)
  have fuel: "length (spurious ?p) + 2 * unat (psize ?p) \<le> fuel" using rm(3) by simp
  from pager_fix_absent [OF pinv i Ri es fuel, of True] obtain r out q es' where
    f: "pager_fix fuel ?p ?i True es = Inr (r, out, q, es')" "fetched ?p R ?i True (r, out, q, es') es" by auto
  have "r = SUCCESS" using f(2) rm(1,2) by (cases r) (auto simp: fetched_def)
  with f(2) rm(1) obtain a where q: "kept ?p q R" "es' = es" "out = Some \<lparr>tid = ?i, tptr = a\<rparr>" "pager_inv q (R(?i \<mapsto> a))"
    "platch (heap q ! a) = -1" "pflags (heap q ! a) = PAGE_FLAG_EXCLUSIVE" "pg_size q = pg_size p" "psize q = psize p"
    "next_page q = ?i + 1" "length (spurious q) \<le> length (spurious p)" "\<exists>k. mallocs q = (\<lambda>n. mallocs p (n + k))"
    by (auto simp: fetched_def)
  let ?pg = "\<lparr>tid = ?i, tptr = a\<rparr>" and ?d = "pdata (heap q ! a)"
  have ev: "evicts ?p R R" by (simp add: evicts_def)
  have "client_inv q (R(?i \<mapsto> a)) (map (\<lambda>pg. (pg, True)) (?pg # hs))"
    using client_inv_fetched [OF inv ev q(1) Ri q(4), of True] q(5,6) by simp
  moreover have "(M(?i \<mapsto> ?d)) j = map_option (\<lambda>a. pdata (heap q ! a)) ((R(?i \<mapsto> a)) j)" for j
    using R(2) q(1) by (cases "R j") (auto simp: kept_def)
  ultimately have cq: "caches ps (config q) q (M(?i \<mapsto> ?d)) (?pg # hs)"
    using q(7) cfg(1) by (auto simp: caches_def)
  have okq: "pager_ok q (R(?i \<mapsto> a))" using q(4) by (simp add: pager_inv_def)
  have "length ?d = ps" using pager_ok_data [OF okq] resident_header(1) [OF okq, of ?i a] q(7) cfg(1) by simp
  moreover have "roomy k fuel (config q) (M(?i \<mapsto> ?d))"
  proof -
    have "card (dom (M(?i \<mapsto> ?d))) = Suc (card (dom R))"
      using Ri dom finite_dom_R [OF ok] by (simp add: card_insert_if domIff)
    moreover have "unat (?i + 1) = Suc (unat ?i)" using rm(5) by (simp add: unat_word_ariths)
    moreover have "\<forall>n. mallocs q n \<noteq> None" using q(11) rm(2) by auto
    ultimately show ?thesis
      using rm q(8-10) by (auto simp: roomy_def config_def less_Suc_eq)
  qed
  ultimately show ?thesis
    using f(1) \<open>r = SUCCESS\<close> q(2,3,9) cq i Mi cfg(2)
    by (intro exI [of _ ?pg] exI [of _ ?d] exI [of _ q] exI [of _ "config q"]) (simp add: pager_next_def, simp add: config_def)
qed

text \<open>An open pager has an empty store.\<close>

lemma caches_fresh:
  assumes "power_of_two_or_zero n" and "2 \<le> unat n"
  shows "caches (unat ps) (seven_tenths n, 1, ms, sp) (fresh_pager ps n ms sp) Map.empty []"
  using fresh_pager_inv [OF assms, of ps ms sp]
  by (auto simp: caches_def client_inv_def config_def fresh_pager_def)

end
