(* ===== verification/BtreeLookup.thy ===== *)
theory BtreeLookup
  imports Btree PageCache PageInner
begin

text \<open>
  Lookup in a tree of any height. \<open>tree_at\<close> relates the contents of the page cache to the
  entries of the tree; the pages need only be readable, so it also describes the pages that
  a split leaves with a wrong \<^verbatim>\<open>free_space\<close>.
\<close>

section \<open>Search in an inner page\<close>

lemma inner_keys:
  assumes "inner_readable ps fl page ks cs"
  shows "keys_of fl (inner_payloads ks cs) ks"
  using assms by (simp add: keys_of_def inner_readable_def inner_payloads_nth payload_key_inner)

lemma inner_find:
  assumes ip: "inner_readable ps fl page ks cs" and ks: "sorted ks" "\<forall>x \<in> set ks. unat x < 2 ^ 31"
    and key: "key_blob key k" "unat k < 2 ^ 31"
  shows "page_find_pointer page key = Inr (k \<in> set ks, of_nat (key_rank ks k))"
proof -
  have "unat k < 2 ^ 56" using key(2) by simp
  note get = key_blob_get [OF key(1) this]
  have rep: "page_rep ps page fl (last cs) (inner_payloads ks cs)" using ip by (simp add: inner_readable_def)
  show ?thesis
    using page_find_pointer_correct [OF rep inner_keys [OF ip] get] search_pos_sorted [OF ks key(2)]
      search_pos_found [OF ks key(2)] by (simp add: key_rank_def)
qed

lemma inner_child:
  assumes ip: "inner_readable ps fl page ks cs" and j: "j \<le> length ks"
  shows "child_id page (of_nat j) = Inr (cs ! j)"
proof -
  have I: "length cs = Suc (length ks)" "page_rep ps page fl (last cs) (inner_payloads ks cs)"
    using ip by (simp_all add: inner_readable_def)
  note D = page_repD [OF I(2)]
  have u: "unat (of_nat j :: u16) = j" using j D(7) I(1) by (intro unat_of_nat_u16 [where n = "cell_count (header_of page)"]) simp
  show ?thesis
  proof (cases "j = length ks")
    case True
    then have "of_nat j = cell_count (header_of page)" using u D(7) I(1) by (simp add: word_unat_eq_iff)
    moreover have "last cs = cs ! j" using True I(1) by (cases cs rule: rev_cases) (auto simp: nth_append)
    ultimately show ?thesis using D(4,6) by (simp add: child_id_def)
  next
    case False
    then have lt: "j < length ks" using j by simp
    then have ne: "of_nat j \<noteq> cell_count (header_of page)" using u D(7) I(1) by (auto simp: word_unat_eq_iff)
    let ?bs = "inner_entry (cs ! j) (ks ! j)"
    have s: "off_at page j + length ?bs \<le> length page" "fetch page (off_at page j) (length ?bs) = ?bs"
      using D(10) [of j] lt I(1) by (simp_all add: slot_ok_def inner_payloads_nth del: length_inner_entry)
    have "page_get_payload page (of_nat j) = Inr (off_at page j)"
      using page_get_payload_in [of "of_nat j" page] s(1) D(3) lt I(1) u by simp
    moreover have "drop (off_at page j) page = ?bs @ drop (off_at page j + length ?bs) page"
      by (rule fetch_drop [OF s(2,1)])
    then have "payload_get_page_id (drop (off_at page j) page) = Inr (cs ! j)"
      by (simp add: payload_get_page_id_def inner_entry_def mem_read_def fetch_def)
    ultimately show ?thesis using D(4) ne by (simp add: child_id_def)
  qed
qed

section \<open>Trees\<close>

text \<open>The subtrees hold the ids up to the key on their right and above the key on their left.\<close>

definition separated :: "u64 list \<Rightarrow> (u64 \<times> 'v) list list \<Rightarrow> bool" where
  "separated ks als \<longleftrightarrow> sorted ks \<and> (\<forall>x \<in> set ks. unat x < 2 ^ 31) \<and> length als = Suc (length ks) \<and>
     (\<forall>j < length ks. (\<forall>e \<in> set (als ! j). fst e \<le> ks ! j) \<and> (\<forall>e \<in> set (als ! Suc j). ks ! j < fst e))"

text \<open>
  A tree of height \<open>h\<close> for the ids up to \<open>u\<close>. After a split the right link of an inner page is the
  page's new sibling, not a child; no id up to \<open>u\<close> leads there, since the last key of the page
  is \<open>u\<close> then.
\<close>

primrec tree_at :: "nat \<Rightarrow> nat \<Rightarrow> (u32 \<Rightarrow> byte list option) \<Rightarrow> u64 \<Rightarrow> u32 \<Rightarrow> (u64 \<times> byte list) list \<Rightarrow> bool" where
  "tree_at 0 ps M u i al \<longleftrightarrow> i \<noteq> 0 \<and> (\<exists>d fl r. M i = Some d \<and> leaf_readable ps fl r d al)"
| "tree_at (Suc h) ps M u i al \<longleftrightarrow> i \<noteq> 0 \<and> (\<exists>d fl ks cs als. M i = Some d \<and> inner_readable ps fl d ks cs \<and> i \<notin> set cs \<and>
     separated ks als \<and> (\<forall>j < length ks. tree_at h ps M (ks ! j) (cs ! j) (als ! j)) \<and>
     (if u \<in> set ks then als ! length ks = [] else tree_at h ps M u (cs ! length ks) (als ! length ks)) \<and> al = concat als)"

text \<open>The ids that \<open>key_compare\<close> orders.\<close>

abbreviation max_id :: u64 where "max_id \<equiv> 0x7fffffff"

lemma tree_at_page: "tree_at h ps M u i al \<Longrightarrow> i \<noteq> 0 \<and> M i \<noteq> None"
  by (cases h) auto

lemma tree_at_mono: "tree_at h ps M u i al \<Longrightarrow> M \<subseteq>\<^sub>m M' \<Longrightarrow> tree_at h ps M' u i al"
proof (induction h arbitrary: u i al)
  case 0
  then show ?case by (fastforce simp: map_le_def dom_def)
next
  case (Suc h)
  from Suc.prems(1) obtain d fl ks cs als where
    t: "i \<noteq> 0" "M i = Some d" "inner_readable ps fl d ks cs" "i \<notin> set cs" "separated ks als" "al = concat als"
      "\<forall>j < length ks. tree_at h ps M (ks ! j) (cs ! j) (als ! j)"
      "if u \<in> set ks then als ! length ks = [] else tree_at h ps M u (cs ! length ks) (als ! length ks)" by auto
  have "M' i = Some d" using t(2) Suc.prems(2) by (force simp: map_le_def dom_def)
  moreover have "\<forall>j < length ks. tree_at h ps M' (ks ! j) (cs ! j) (als ! j)" using t(7) Suc.IH Suc.prems(2) by blast
  moreover have "if u \<in> set ks then als ! length ks = [] else tree_at h ps M' u (cs ! length ks) (als ! length ks)"
    using t(8) Suc.IH Suc.prems(2) by (simp split: if_splits)
  ultimately show ?case using t(1,3-6) unfolding tree_at.simps by blast
qed

lemma key_rank_nth: "sorted ks \<Longrightarrow> j < length ks \<Longrightarrow> ks ! j < k \<longleftrightarrow> j < key_rank ks k"
proof (induction ks arbitrary: j)
  case (Cons x ks)
  show ?case
  proof (cases "x < k")
    case True
    then show ?thesis using Cons by (cases j) (simp_all add: key_rank_def)
  next
    case False
    then have "key_rank (x # ks) k = 0" using filter_less_sorted [of x ks k] Cons.prems(1) by (simp add: key_rank_def)
    moreover have "x \<le> (x # ks) ! j" using Cons.prems by (cases j) auto
    ultimately show ?thesis using False by (simp add: not_less)
  qed
qed simp

lemma map_of_concat:
  "r < length als \<Longrightarrow> (\<forall>j < length als. j \<noteq> r \<longrightarrow> k \<notin> fst ` set (als ! j)) \<Longrightarrow> map_of (concat als) k = map_of (als ! r) k"
proof (induction als arbitrary: r)
  case (Cons al als)
  show ?case
  proof (cases r)
    case 0
    have "k \<notin> fst ` set (als ! j)" if "j < length als" for j using Cons.prems(2) that 0 by fastforce
    then have "\<forall>al' \<in> set als. k \<notin> fst ` set al'" by (metis in_set_conv_nth)
    then have "k \<notin> fst ` set (concat als)" by (metis (no_types, lifting) UN_E imageE imageI set_concat)
    then have "map_of (concat als) k = None" by (simp only: map_of_eq_None_iff not_False_eq_True)
    then show ?thesis by (simp add: 0 map_add_def split: option.splits)
  next
    case (Suc r')
    have "k \<notin> fst ` set al" using Cons.prems(2) Suc by fastforce
    then have "map_of al k = None" by (simp only: map_of_eq_None_iff not_False_eq_True)
    moreover have "map_of (concat als) k = map_of (als ! r') k"
    proof (rule Cons.IH)
      show "r' < length als" using Cons.prems(1) Suc by simp
      show "\<forall>j < length als. j \<noteq> r' \<longrightarrow> k \<notin> fst ` set (als ! j)"
      proof (intro allI impI)
        fix j
        assume "j < length als" "j \<noteq> r'"
        then show "k \<notin> fst ` set (als ! j)" using Cons.prems(2) [rule_format, of "Suc j"] Suc by simp
      qed
    qed
    ultimately show ?thesis by (simp add: Suc map_add_def split: option.splits)
  qed
qed simp

lemma separated_lookup:
  assumes "separated ks als"
  shows "map_of (concat als) k = map_of (als ! key_rank ks k) k"
proof (rule map_of_concat)
  let ?r = "key_rank ks k"
  have S: "sorted ks" "length als = Suc (length ks)" using assms by (simp_all add: separated_def)
  show "?r < length als" using key_rank_le [of ks k] S(2) by simp
  show "\<forall>j < length als. j \<noteq> ?r \<longrightarrow> k \<notin> fst ` set (als ! j)"
  proof (intro allI impI)
    fix j
    assume j: "j < length als" "j \<noteq> ?r"
    show "k \<notin> fst ` set (als ! j)"
    proof (cases "j < ?r")
      case True
      then have l: "j < length ks" using key_rank_le [of ks k] by simp
      then have "ks ! j < k" using key_rank_nth [OF S(1) l] True by simp
      moreover have "\<forall>e \<in> set (als ! j). fst e \<le> ks ! j" using assms l by (simp add: separated_def)
      ultimately show ?thesis by fastforce
    next
      case False
      then obtain j' where j': "j = Suc j'" "\<not> j' < ?r" using j(2) by (cases j) auto
      then have l: "j' < length ks" using j(1) S(2) by simp
      then have "\<not> ks ! j' < k" using key_rank_nth [OF S(1) l, of k] j'(2) by blast
      then have "k \<le> ks ! j'" by (rule leI)
      moreover have "\<forall>e \<in> set (als ! j). ks ! j' < fst e" using assms l j'(1) by (simp add: separated_def)
      ultimately show ?thesis by fastforce
    qed
  qed
qed

section \<open>The descent\<close>

lemma tree_at_child:
  assumes sep: "separated ks als" and sub: "\<forall>j < length ks. tree_at h ps M (ks ! j) (cs ! j) (als ! j)"
    and top: "if u \<in> set ks then als ! length ks = [] else tree_at h ps M u (cs ! length ks) (als ! length ks)" and u: "k \<le> u"
  obtains w where "tree_at h ps M w (cs ! key_rank ks k) (als ! key_rank ks k)" and "k \<le> w"
proof (cases "key_rank ks k < length ks")
  case True
  have "sorted ks" using sep by (simp add: separated_def)
  then have "\<not> ks ! key_rank ks k < k" using key_rank_nth [OF _ True, of k] by simp
  then have "k \<le> ks ! key_rank ks k" by (rule leI)
  with sub True show thesis by (intro that) auto
next
  case False
  then have r: "key_rank ks k = length ks" using key_rank_le [of ks k] by simp
  have "u \<notin> set ks"
  proof
    assume "u \<in> set ks"
    then obtain j where "j < length ks" "ks ! j = u" by (auto simp: in_set_conv_nth)
    with key_rank_nth [of ks j k] r u sep show False by (simp add: separated_def)
  qed
  with top r u show thesis by (intro that [of u]) simp_all
qed

lemma lookup_loop_correct:
  assumes "caches ps c p M [pg]" and "tree_at h ps M u (tid pg) al" and "h < depth"
    and key: "key_blob key k" "unat k < 2 ^ 31" and u: "k \<le> u"
  shows "\<exists>pg' q d fl r al'. lookup_loop depth fuel p pg key es = Inr (SUCCESS, pg', q, es) \<and> caches ps c q M [pg'] \<and>
    M (tid pg') = Some d \<and> leaf_readable ps fl r d al' \<and> map_of al' k = map_of al k"
  using assms(1-3) u
proof (induction h arbitrary: p pg al depth u)
  case 0
  then obtain n where n: "depth = Suc n" by (cases depth) auto
  from 0 obtain d fl r where d: "M (tid pg) = Some d" "leaf_readable ps fl r d al" by auto
  then have "page_is_leaf fl" and rep: "page_rep ps d fl r (map leaf_entry al)" by (simp_all add: leaf_readable_def)
  then have "\<not> page_is_inner (flags (header_of d))" using page_repD(5) [OF rep] by (simp add: page_is_leaf_def page_is_inner_def)
  moreover have "page_data p pg = Inr d" using caches_read [OF 0(1) _ d(1)] by simp
  ultimately show ?case using n 0(1) d page_repD(4) [OF rep] by auto
next
  case (Suc h)
  then obtain n where n: "depth = Suc n" by (cases depth) auto
  from Suc.prems(2) obtain d fl ks cs als where
    d: "M (tid pg) = Some d" "inner_readable ps fl d ks cs" "tid pg \<notin> set cs" "separated ks als"
    "\<forall>j < length ks. tree_at h ps M (ks ! j) (cs ! j) (als ! j)"
    "if u \<in> set ks then als ! length ks = [] else tree_at h ps M u (cs ! length ks) (als ! length ks)" "al = concat als" by auto
  have rep: "page_rep ps d fl (last cs) (inner_payloads ks cs)" and fl: "page_is_inner fl" and lc: "length cs = Suc (length ks)"
    using d(2) by (simp_all add: inner_readable_def)
  have S: "sorted ks" "\<forall>x \<in> set ks. unat x < 2 ^ 31" using d(4) by (simp_all add: separated_def)
  let ?r = "key_rank ks k" and ?c = "cs ! key_rank ks k"
  obtain w where sub: "tree_at h ps M w ?c (als ! ?r)" and w: "k \<le> w"
    by (rule tree_at_child [OF d(4-6) Suc.prems(4)])
  note cp = tree_at_page [OF sub]
  have "?c \<in> set cs" using key_rank_le [of ks k] lc by simp
  then have ne: "?c \<noteq> tid pg" using d(3) by auto
  obtain pg' q q' where step: "pager_fix fuel p ?c True es = Inr (SUCCESS, Some pg', q, es)" "tid pg' = ?c"
    "pager_unfix q pg = Inr q'" "caches ps c q' M [pg']"
    using cache.hand_over_hand [OF Suc.prems(1), of ?c] cp ne by blast
  have "page_data p pg = Inr d" using caches_read [OF Suc.prems(1) _ d(1)] by simp
  then have "lookup_loop depth fuel p pg key es = lookup_loop n fuel q' pg' key es"
    using n step(1,3) page_repD(4,5) [OF rep] fl inner_find [OF d(2) S key] inner_child [OF d(2) key_rank_le] cp by simp
  moreover have "map_of al k = map_of (als ! ?r) k" unfolding d(7) by (rule separated_lookup [OF d(4)])
  moreover have "h < n" using Suc.prems(3) n by simp
  ultimately show ?case using Suc.IH [OF step(4) _ _ w] sub step(2) by simp
qed

lemma btree_lookup_correct:
  assumes c: "caches ps c p M []" and tr: "tree_at h ps M max_id (root bt) al" and h: "h < depth"
    and key: "key_blob key k" "unat k < 2 ^ 31" and es: "error_wf es"
  shows "\<exists>r out q es'. btree_lookup depth fuel bt p key es = Inr (r, out, q, es') \<and> caches ps c q M [] \<and>
    (case map_of al k of
       Some v \<Rightarrow> r = SUCCESS \<and> es' = es \<and> table_entry (k, v) \<and> (\<exists>rest. out = vint_bytes (of_nat (length v)) @ v @ rest)
     | None \<Rightarrow> r = FAILURE \<and> error_wf es' \<and> error_code es' = ENOENT)"
proof -
  have i: "root bt \<notin> tid ` set []" "M (root bt) \<noteq> None" using tree_at_page [OF tr] by simp_all
  from cache.fix_free [OF c i(2,1)] obtain pg p1 where
    f: "pager_fix fuel p (root bt) True es = Inr (SUCCESS, Some pg, p1, es)" "tid pg = root bt" "caches ps c p1 M [pg]" by blast
  have "k \<le> max_id" using key(2) by (simp add: word_le_nat_alt)
  from lookup_loop_correct [OF f(3) _ h key this] tr f(2) obtain pg' q d fl r al' where
    l: "lookup_loop depth fuel p1 pg key es = Inr (SUCCESS, pg', q, es)" "caches ps c q M [pg']" "M (tid pg') = Some d"
    "leaf_readable ps fl r d al'" "map_of al' k = map_of al k" by metis
  have rd: "page_data q pg' = Inr d" using caches_read [OF l(2) _ l(3)] by simp
  from caches_unfix [OF l(2), of pg'] obtain q' where u: "pager_unfix q pg' = Inr q'" "caches ps c q' M []" by auto
  show ?thesis
  proof (cases "map_of al' k")
    case (Some v)
    from leaf_lookup_present [OF l(4) key Some, of es] obtain rest where
      "leaf_lookup d key es = Inr (SUCCESS, vint_bytes (of_nat (length v)) @ v @ rest, es)" by blast
    moreover have "table_entry (k, v)" using l(4) map_of_SomeD [OF Some] by (auto simp: leaf_readable_def)
    moreover have "map_of al k = Some v" using Some l(5) by simp
    ultimately show ?thesis using f(1) l(1) rd u by (simp add: btree_lookup_def)
  next
    case None
    from leaf_lookup_absent [OF l(4) key None es] obtain es' where
      "leaf_lookup d key es = Inr (FAILURE, [], es')" "error_wf es'" "error_code es' = ENOENT" by blast
    moreover have "map_of al k = None" using None l(5) by simp
    ultimately show ?thesis using f(1) l(1) rd u by (simp add: btree_lookup_def)
  qed
qed

end
