(* ===== verification/BtreeInsert.thy ===== *)
theory BtreeInsert
  imports BtreeLookup
begin

text \<open>
  Creating a tree and inserting into a root that is a leaf, through the table functions: the
  composition of the page cache, the page and the encodings. Then the two ways in which the
  \<^verbatim>\<open>errdefer\<close> of \<^verbatim>\<open>btree_insert\<close> makes it abort.
\<close>

section \<open>Creating a tree\<close>

lemma page_flags_leaf: "page_is_leaf (page_flags_package True ty)"
  "\<not> page_is_index_uuid ty \<Longrightarrow> \<not> page_is_index_uuid (page_flags_package True ty)"
  by (simp_all add: page_is_leaf_def page_is_index_uuid_def page_flags_package_def PAGE_FLAG_LEAF_def
      PAGE_FLAG_INDEX_UUID_def bit.conj_disj_distrib2)

lemma roomy_es: "caches ps c p M hs \<Longrightarrow> roomy k fuel c M \<Longrightarrow> mallocs p n \<noteq> None"
  by (auto simp: caches_def config_def roomy_def)

text \<open>\<^verbatim>\<open>btree_open\<close> takes one allocation; the store does not notice.\<close>

lemma caches_malloc: "caches ps (sz, nxt, ms, sp) p M hs \<Longrightarrow> caches ps (sz, nxt, ms', sp) (p\<lparr>mallocs := ms'\<rparr>) M hs"
  by (auto simp: caches_def config_def client_inv_def)

lemma roomy_malloc: "roomy k fuel (sz, nxt, ms, sp) M \<Longrightarrow> roomy k fuel (sz, nxt, \<lambda>n. ms (Suc n), sp) M"
  by (simp add: roomy_def)

lemma btree_open_correct:
  assumes c: "caches ps c p M hs" and room: "roomy k fuel c M" and es: "error_code es = 0"
  shows "\<exists>q c'. btree_open p rt es = Inr (SUCCESS, Some (Live \<lparr>root = rt, btree_page_size = of_nat ps\<rparr>), q, es) \<and>
    caches ps c' q M hs \<and> roomy k fuel c' M \<and> next_id c' = next_id c"
proof -
  obtain sz nxt ms sp where cc: "c = (sz, nxt, ms, sp)" by (cases c)
  have ms: "mallocs p = ms" "unat (pg_size p) = ps" using c by (auto simp: caches_def config_def cc)
  have "ms 0 \<noteq> None" using room by (simp add: roomy_def cc)
  moreover have "pg_size p = of_nat ps" using ms(2) by (simp add: word_unat_eq_iff unat_of_nat take_bit_eq_mod flip: ms(2))
  ultimately have "btree_open p rt es =
      Inr (SUCCESS, Some (Live \<lparr>root = rt, btree_page_size = of_nat ps\<rparr>), p\<lparr>mallocs := \<lambda>n. ms (Suc n)\<rparr>, es)"
    using es ms(1) by (auto simp: btree_open_def malloc_def pager_get_page_size_def errdefer_runs_def error_get_code_def)
  then show ?thesis using caches_malloc [of ps sz nxt ms sp p M hs] roomy_malloc [of k fuel sz nxt ms sp M] c room cc by fastforce
qed

lemma btree_create_correct:
  assumes c: "caches ps c p M []" and room: "roomy (Suc k) fuel c M" and es: "error_wf es" "error_code es = 0"
    and ps: "12 \<le> ps" "ps < 2 ^ 16" and ty: "\<not> page_is_index_uuid ty"
  shows "\<exists>bt q c' d. btree_create fuel p ty es = Inr (SUCCESS, Some (Live bt), q, es) \<and>
    btree_page_size bt = of_nat ps \<and> M (root bt) = None \<and> root bt \<noteq> 0 \<and>
    caches ps c' q (M(root bt \<mapsto> d)) [] \<and> roomy k fuel c' (M(root bt \<mapsto> d)) \<and>
    leaf_page ps (page_flags_package True ty) 0 d [] \<and> root bt = next_id c \<and> next_id c' = next_id c + 1"
proof -
  from caches_next [OF c room es(1)] obtain pg d q c1 where
    n: "pager_next fuel p es = Inr (SUCCESS, Some pg, q, es)" "caches ps c1 q (M(tid pg \<mapsto> d)) [pg]"
    "roomy k fuel c1 (M(tid pg \<mapsto> d))" "length d = ps" "tid pg \<noteq> 0" "M (tid pg) = None"
    "tid pg = next_id c" "next_id c1 = next_id c + 1" by blast
  let ?fl = "page_flags_package True ty"
  let ?d = "empty_leaf ps ?fl d"
  have rd: "page_data q pg = Inr d" using caches_read [OF n(2), of pg] by simp
  have size: "pager_get_page_size q = of_nat ps"
    using n(2) by (auto simp: pager_get_page_size_def caches_def)
  have len: "length ?d = ps" using n(4) ps(1) by (simp add: empty_leaf_def)
  have put: "page_put_header d \<lparr>cell_count = 0, data_start = of_nat ps, free_space = of_nat ps - 12, flags = ?fl, right = 0\<rparr> = Inr ?d"
    using n(4) ps(1) by (simp add: empty_leaf_def)
  have w: "caches ps c1 (write_data q (tptr pg) ?d) (M(tid pg \<mapsto> ?d)) [pg]"
    using caches_write [OF n(2), of pg] len by simp
  have r: "roomy k fuel c1 (M(tid pg \<mapsto> ?d))" by (rule roomy_contents [OF n(3)]) simp
  from btree_open_correct [OF w r es(2), of "tid pg"] obtain q2 c2 where
    o: "btree_open (write_data q (tptr pg) ?d) (tid pg) es =
      Inr (SUCCESS, Some (Live \<lparr>root = tid pg, btree_page_size = of_nat ps\<rparr>), q2, es)"
    "caches ps c2 q2 (M(tid pg \<mapsto> ?d)) [pg]" "roomy k fuel c2 (M(tid pg \<mapsto> ?d))" "next_id c2 = next_id c1" by blast
  from caches_unfix [OF o(2), of pg] obtain q3 where u: "pager_unfix q2 pg = Inr q3" "caches ps c2 q3 (M(tid pg \<mapsto> ?d)) []"
    by auto
  have "btree_create fuel p ty es = Inr (SUCCESS, Some (Live \<lparr>root = tid pg, btree_page_size = of_nat ps\<rparr>), q3, es)"
    using n(1) rd size put o(1) u(1) by (simp add: btree_create_def)
  moreover have "leaf_page ps ?fl 0 ?d []"
    by (rule leaf_page_empty [OF page_flags_leaf(1) page_flags_leaf(2) [OF ty] n(4) ps])
  ultimately show ?thesis
    using u(2) o(3,4) n(5-8)
    by (intro exI [of _ "\<lparr>root = tid pg, btree_page_size = of_nat ps\<rparr>"] exI [of _ q3] exI [of _ c2] exI [of _ ?d]) simp
qed

section \<open>Insertion into a root leaf\<close>

lemma unat_put_len:
  assumes "page_is_leaf fl" and "key_blob key k" and "val_blob val v" and "id_ok k" and "val_ok v"
  shows "unat (payload_put_len fl key val) = length (leaf_entry (k, v))"
proof -
  have "unat (bsize key) = length (vint_bytes k)"
    using assms(2) length_blob_bytes [of key] by (simp add: key_blob_def)
  moreover have "unat (bsize val) = length (vint_bytes (of_nat (length v))) + length v"
    using assms(3) length_blob_bytes [of val] by (simp add: val_blob_def)
  moreover have "length (vint_bytes k) \<le> 8" using assms(4) by (intro vint_len_8) (simp add: id_ok_def)
  moreover have "length (vint_bytes (of_nat (length v))) \<le> 8"
    using assms(5) unat_len_u64 [of "length v"] by (intro vint_len_8) (simp add: val_ok_def)
  moreover have "length v + 16 < 65536" using assms(5) by (simp add: val_ok_def)
  moreover have "\<not> page_is_inner fl" using assms(1) by (simp add: page_is_leaf_def page_is_inner_def)
  moreover have "unat (ucast (w :: u64) :: u16) = unat w mod 65536" for w
    by (simp add: unsigned_ucast_eq take_bit_eq_mod)
  ultimately show ?thesis
    by (simp add: payload_put_len_def leaf_entry_def unat_word_ariths)
qed

lemma insert_into_leaf_written:
  assumes c: "caches ps c p M [pg]" and d: "M (tid pg) = Some d" "length d' = ps"
    and ins: "page_insert_leaf d page_size key val es = Inr (SUCCESS, d', es)"
  shows "\<exists>q. insert_into_leaf site mt p pg page_size key val es = Inr (SUCCESS, q, es) \<and>
    caches ps c q (M(tid pg \<mapsto> d')) [] \<and> pager_unfix q pg = Inl Assertion_failed"
proof -
  have "page_data p pg = Inr d" using caches_read [OF c _ d(1)] by simp
  moreover have "caches ps c (write_data p (tptr pg) d') (M(tid pg \<mapsto> d')) [pg]"
    using caches_write [OF c _ d(2)] by simp
  from caches_unfix_twice [OF this] obtain q where
    "pager_unfix (write_data p (tptr pg) d') pg = Inr q" "caches ps c q (M(tid pg \<mapsto> d')) []"
    "pager_unfix q pg = Inl Assertion_failed" by blast
  ultimately show ?thesis using ins by (simp add: insert_into_leaf_def Let_def)
qed

lemma insert_into_leaf_refused:
  assumes c: "caches ps c p M [pg]" and d: "M (tid pg) = Some d" "length d = ps"
    and ins: "page_insert_leaf d page_size key val es = Inr (FAILURE, d, es1)" and es1: "error_wf es1" "error_code es1 \<noteq> 0"
  shows "\<exists>q es'. insert_into_leaf site mt p pg page_size key val es = Inr (FAILURE, q, es') \<and>
    error_code es' \<noteq> 0 \<and> pager_unfix q pg = Inl Assertion_failed"
proof -
  have "page_data p pg = Inr d" using caches_read [OF c _ d(1)] by simp
  moreover have "caches ps c (write_data p (tptr pg) d) (M(tid pg \<mapsto> d)) [pg]"
    using caches_write [OF c _ d(2)] by simp
  from caches_unfix_twice [OF this] obtain q where
    "pager_unfix (write_data p (tptr pg) d) pg = Inr q" "pager_unfix q pg = Inl Assertion_failed" by blast
  moreover from try_fail_correct [OF es1] obtain es' where
    "try_fail site mt es1 = Inr (FAILURE, es')" "error_code es' = error_code es1" by blast
  ultimately show ?thesis using ins es1(2) by (simp add: insert_into_leaf_def Let_def)
qed

text \<open>The start of \<^verbatim>\<open>btree_insert\<close> on a root leaf that need not be split.\<close>

lemma btree_insert_leaf_start:
  assumes c: "caches ps c p M []" and d: "M (root bt) = Some d" and lp: "leaf_page ps fl r d al"
    and free: "\<not> free_space (header_of d) < payload_put_len fl key val"
  obtains pg p1 where "pager_fix fuel p (root bt) True es = Inr (SUCCESS, Some pg, p1, es)" and "tid pg = root bt"
    and "caches ps c p1 M [pg]"
    and "btree_insert depth fuel bt p key val es =
      obind (insert_into_leaf (''src/btree.c'', ''btree_insert'', 437)
        ''try page_insert_leaf(root.data, btree->page_size, key, value)'' p1 pg (btree_page_size bt) key val es) (\<lambda>(r, p, es).
      obind (if errdefer_runs es then pager_unfix p pg else Inr p) (\<lambda>p. Inr (r, bt, p, es)))"
proof -
  from cache.fix_free [OF c, of "root bt" fuel es] d obtain pg p1 where
    f: "pager_fix fuel p (root bt) True es = Inr (SUCCESS, Some pg, p1, es)" "tid pg = root bt" "caches ps c p1 M [pg]" by auto
  have rep: "page_rep ps d fl r (map leaf_entry al)" and leaf: "page_is_leaf fl" using lp by (simp_all add: leaf_page_def)
  have rd: "page_data p1 pg = Inr d" using caches_read [OF f(3), of pg] d f(2) by simp
  show thesis
    by (rule that [OF f])
      (use f(1) rd page_repD(4,5) [OF rep] leaf free in \<open>simp add: btree_insert_def insert_below_def cong: if_cong\<close>)
qed

lemma free_space_leaf:
  assumes "leaf_page ps fl r d al"
  shows "unat (free_space (header_of d)) = ps - 12 - leaf_used al" and "12 + leaf_used al \<le> ps" and "length d = ps"
    and "page_is_leaf fl"
  using leaf_page_room [OF assms] assms page_repD(1) by (auto simp: leaf_page_def free_exact_def)

lemma btree_insert_root_leaf:
  assumes c: "caches ps c p M []" and d: "M (root bt) = Some d" and lp: "leaf_page ps fl r d al"
    and bt: "btree_page_size bt = of_nat ps" and key: "key_blob key k" "id_ok k" and val: "val_blob val v" "val_ok v"
    and new: "k \<notin> fst ` set al" and fits: "12 + leaf_used ((k, v) # al) \<le> ps"
  shows "\<exists>d'. leaf_page ps fl r d' (leaf_insert k v al) \<and>
    (if error_code es = 0
     then \<exists>q. btree_insert depth fuel bt p key val es = Inr (SUCCESS, bt, q, es) \<and> caches ps c q (M(root bt \<mapsto> d')) []
     else btree_insert depth fuel bt p key val es = Inl Assertion_failed)"
proof -
  note F = free_space_leaf [OF lp]
  have free: "\<not> free_space (header_of d) < payload_put_len fl key val"
    using fits F(1,2) unat_put_len [OF F(4) key(1) val(1) key(2) val(2)] by (simp add: word_less_nat_alt)
  obtain pg p1 where
    s: "tid pg = root bt" "caches ps c p1 M [pg]" "btree_insert depth fuel bt p key val es =
      obind (insert_into_leaf (''src/btree.c'', ''btree_insert'', 437)
        ''try page_insert_leaf(root.data, btree->page_size, key, value)'' p1 pg (btree_page_size bt) key val es) (\<lambda>(r, p, es).
      obind (if errdefer_runs es then pager_unfix p pg else Inr p) (\<lambda>p. Inr (r, bt, p, es)))"
    by (rule btree_insert_leaf_start [OF c d lp free])
  have "unat k < 2 ^ 31" "length v + 16 < 2 ^ 16" using key(2) val(2) by (simp_all add: id_ok_def val_ok_def)
  note put = leaf_page_insert [OF lp key(1) val(1) this new, of es]
  have room: "length (leaf_entry (k, v)) + 2 \<le> room d" using fits leaf_page_room [OF lp] by simp
  obtain d' where
    ins: "page_insert_leaf d (of_nat ps) key val es = Inr (SUCCESS, d', es)" "leaf_page ps fl r d' (leaf_insert k v al)"
    using put unfolding if_P [OF room] by blast
  have "M (tid pg) = Some d" using d s(1) by simp
  from insert_into_leaf_written [OF s(2) this free_space_leaf(3) [OF ins(2)] ins(1)] obtain q where
    w: "insert_into_leaf (''src/btree.c'', ''btree_insert'', 437)
        ''try page_insert_leaf(root.data, btree->page_size, key, value)'' p1 pg (of_nat ps) key val es = Inr (SUCCESS, q, es)"
    "caches ps c q (M(root bt \<mapsto> d')) []" "pager_unfix q pg = Inl Assertion_failed" unfolding s(1) by blast
  show ?thesis
    using ins(2) s(3) w bt by (intro exI [of _ d']) (simp add: errdefer_runs_def error_get_code_def)
qed

lemma btree_insert_duplicate:
  assumes c: "caches ps c p M []" and d: "M (root bt) = Some d" and lp: "leaf_page ps fl r d al"
    and bt: "btree_page_size bt = of_nat ps" and key: "key_blob key k" "id_ok k" and val: "val_blob val v" "val_ok v"
    and dup: "k \<in> fst ` set al" and free: "12 + leaf_used al + length (leaf_entry (k, v)) \<le> ps" and es: "error_wf es"
  shows "btree_insert depth fuel bt p key val es = Inl Assertion_failed"
proof -
  note F = free_space_leaf [OF lp]
  have free': "\<not> free_space (header_of d) < payload_put_len fl key val"
    using free F(1,2) unat_put_len [OF F(4) key(1) val(1) key(2) val(2)] by (simp add: word_less_nat_alt)
  obtain pg p1 where
    s: "tid pg = root bt" "caches ps c p1 M [pg]" "btree_insert depth fuel bt p key val es =
      obind (insert_into_leaf (''src/btree.c'', ''btree_insert'', 437)
        ''try page_insert_leaf(root.data, btree->page_size, key, value)'' p1 pg (btree_page_size bt) key val es) (\<lambda>(r, p, es).
      obind (if errdefer_runs es then pager_unfix p pg else Inr p) (\<lambda>p. Inr (r, bt, p, es)))"
    by (rule btree_insert_leaf_start [OF c d lp free'])
  have "unat k < 2 ^ 31" using key(2) by (simp add: id_ok_def)
  from leaf_page_duplicate [OF lp key(1) this dup es, of "btree_page_size bt" val] obtain es1 where
    ins: "page_insert_leaf d (btree_page_size bt) key val es = Inr (FAILURE, d, es1)" "error_wf es1" "error_code es1 \<noteq> 0"
    by (auto simp: EEXIST_def)
  have "M (tid pg) = Some d" using d s(1) by simp
  from insert_into_leaf_refused [OF s(2) this F(3) ins] obtain q es' where
    "insert_into_leaf (''src/btree.c'', ''btree_insert'', 437)
        ''try page_insert_leaf(root.data, btree->page_size, key, value)'' p1 pg (btree_page_size bt) key val es = Inr (FAILURE, q, es')"
    "error_code es' \<noteq> 0" "pager_unfix q pg = Inl Assertion_failed" by blast
  then show ?thesis using s(3) by (simp add: errdefer_runs_def error_get_code_def)
qed

text \<open>Room for the payload but not for its cell: the root is not split, and the insertion aborts.\<close>

lemma btree_insert_no_cell:
  assumes c: "caches ps c p M []" and d: "M (root bt) = Some d" and lp: "leaf_page ps fl r d al"
    and bt: "btree_page_size bt = of_nat ps" and key: "key_blob key k" "id_ok k" and val: "val_blob val v" "val_ok v"
    and new: "k \<notin> fst ` set al" and free: "12 + leaf_used al + length (leaf_entry (k, v)) \<le> ps"
    and short: "ps < 12 + leaf_used ((k, v) # al)"
  shows "btree_insert depth fuel bt p key val es = Inl Assertion_failed"
proof -
  note F = free_space_leaf [OF lp]
  have free': "\<not> free_space (header_of d) < payload_put_len fl key val"
    using free F(1,2) unat_put_len [OF F(4) key(1) val(1) key(2) val(2)] by (simp add: word_less_nat_alt)
  obtain pg p1 where
    s: "tid pg = root bt" "caches ps c p1 M [pg]" "btree_insert depth fuel bt p key val es =
      obind (insert_into_leaf (''src/btree.c'', ''btree_insert'', 437)
        ''try page_insert_leaf(root.data, btree->page_size, key, value)'' p1 pg (btree_page_size bt) key val es) (\<lambda>(r, p, es).
      obind (if errdefer_runs es then pager_unfix p pg else Inr p) (\<lambda>p. Inr (r, bt, p, es)))"
    by (rule btree_insert_leaf_start [OF c d lp free'])
  have "unat k < 2 ^ 31" "length v + 16 < 2 ^ 16" using key(2) val(2) by (simp_all add: id_ok_def val_ok_def)
  note put = leaf_page_insert [OF lp key(1) val(1) this new, of es]
  have "\<not> length (leaf_entry (k, v)) + 2 \<le> room d" using short leaf_page_room [OF lp] by simp
  then have "page_insert_leaf d (of_nat ps) key val es = Inl Assertion_failed" using put by simp
  moreover have "page_data p1 pg = Inr d" using caches_read [OF s(2), of pg] d s(1) by simp
  ultimately show ?thesis using s(3) bt by (simp add: insert_into_leaf_def)
qed

end
