(* ===== verification/AppendShape.thy ===== *)
theory AppendShape
  imports Prelude
begin

text \<open>
  The sizes of the payloads on the right edge of a tree, from the root down to the last leaf,
  and how they change when an entry is appended: which pages are full, where they are divided,
  how many pages are reserved, and whether all payloads find room. Nothing else of the pages
  and of the entries matters for that.
\<close>

section \<open>Sizes\<close>

text \<open>Of every payload: the length of its key, and its own length.\<close>

type_synonym sizes = "(nat \<times> nat) list"

definition taken :: "sizes \<Rightarrow> nat" where
  "taken s = sum_list (map (\<lambda>e. snd e + 2) s)"

lemma taken_simps [simp]:
  "taken [] = 0" "taken (e # s) = snd e + 2 + taken s" "taken (s @ t) = taken s + taken t" "taken (replicate n e) = n * (snd e + 2)"
  by (induction n) (simp_all add: taken_def)

definition spare :: "nat \<Rightarrow> sizes \<Rightarrow> nat" where
  "spare ps s = ps - 12 - taken s"

text \<open>An inner page has the page id, of four bytes, before the key.\<close>

definition inner_size :: "nat \<Rightarrow> nat \<times> nat" where
  "inner_size kl = (kl, kl + 4)"

lemma inner_size_simps [simp]: "fst (inner_size kl) = kl" "snd (inner_size kl) = kl + 4"
  by (simp_all add: inner_size_def)

text \<open>What \<^verbatim>\<open>payload_put_len\<close> returns on a page with the pages \<open>sh\<close> below it.\<close>

definition needed :: "nat \<times> nat \<Rightarrow> sizes list \<Rightarrow> nat" where
  "needed e sh = (if sh = [] then snd e else fst e + 4)"

lemma needed_simps [simp]: "needed e [] = snd e" "needed e (s # sh) = fst e + 4"
  by (simp_all add: needed_def)

definition upper_half :: "sizes \<Rightarrow> sizes" where
  "upper_half s = drop (length s div 2) s"

definition split_size :: "sizes \<Rightarrow> nat" where
  "split_size s = fst (s ! (length s div 2 - 1))"

section \<open>Appending\<close>

text \<open>
  One round of \<^verbatim>\<open>btree_insert_walk\<close> on an inner page with the payloads \<open>s\<close>, the page below it
  with \<open>t\<close>, and further pages \<open>sh\<close>: the number of new pages, and the payloads of the two pages
  from which the descent goes on. \<open>None\<close> if an assertion fails or there is nothing to divide.
\<close>

definition shape_step :: "nat \<Rightarrow> nat \<times> nat \<Rightarrow> sizes \<Rightarrow> sizes \<Rightarrow> sizes list \<Rightarrow> (nat \<times> sizes \<times> sizes) option" where
  "shape_step ps e s t sh =
     (if spare ps s < fst e + 4 then None
      else if \<not> spare ps t < needed e sh then Some (0, s, t)
      else if length t < 2 \<or> spare ps s < split_size t + 6 then None
      else Some (1, s @ [inner_size (split_size t)], upper_half t))"

text \<open>The whole descent, the insertion into the leaf included.\<close>

fun shape_walk :: "nat \<Rightarrow> nat \<times> nat \<Rightarrow> sizes list \<Rightarrow> (nat \<times> sizes list) option" where
  "shape_walk ps e [] = None"
| "shape_walk ps e [s] = (if snd e + 2 \<le> spare ps s then Some (0, [s @ [e]]) else None)"
| "shape_walk ps e (s # t # sh) =
     (case shape_step ps e s t sh of
        None \<Rightarrow> None
      | Some (n, s, t) \<Rightarrow> map_option (\<lambda>(m, sh). (n + m, s # sh)) (shape_walk ps e (t # sh)))"

text \<open>The split of the root in \<^verbatim>\<open>btree_insert\<close>: a new root above the page, if there is one.\<close>

definition shape_root :: "nat \<Rightarrow> nat \<times> nat \<Rightarrow> sizes \<Rightarrow> sizes list \<Rightarrow> (nat \<times> sizes list \<times> sizes) option" where
  "shape_root ps e s sh =
     (if \<not> spare ps s < needed e sh then Some (0, [], s)
      else if length s < 2 then None
      else Some (2, [[inner_size (split_size s)]], upper_half s))"

fun shape_insert :: "nat \<Rightarrow> nat \<times> nat \<Rightarrow> sizes list \<Rightarrow> (nat \<times> sizes list) option" where
  "shape_insert ps e [] = None"
| "shape_insert ps e (s # sh) =
     (case shape_root ps e s sh of
        None \<Rightarrow> None
      | Some (n, rt, s) \<Rightarrow> map_option (\<lambda>(m, sh). (n + m, rt @ sh)) (shape_walk ps e (s # sh)))"

fun shape_fill :: "nat \<Rightarrow> sizes \<Rightarrow> sizes list \<Rightarrow> (nat \<times> sizes list) option" where
  "shape_fill ps [] sh = Some (0, sh)"
| "shape_fill ps (e # es) sh =
     (case shape_insert ps e sh of
        None \<Rightarrow> None
      | Some (n, sh) \<Rightarrow> map_option (\<lambda>(m, sh). (n + m, sh)) (shape_fill ps es sh))"

lemma shape_walk_length: "shape_walk ps e sh = Some (n, sh') \<Longrightarrow> length sh' = length sh"
  by (induction ps e sh arbitrary: n sh' rule: shape_walk.induct) (auto split: if_splits option.splits)

lemma shape_insert_length: "shape_insert ps e sh = Some (n, sh') \<Longrightarrow> length sh \<le> length sh' \<and> length sh' \<le> Suc (length sh)"
  by (cases sh) (auto simp: shape_root_def dest!: shape_walk_length split: if_splits option.splits)

lemma shape_walk_pages: "shape_walk ps e sh = Some (n, sh') \<Longrightarrow> n < length sh"
  by (induction ps e sh arbitrary: n sh' rule: shape_walk.induct) (fastforce simp: shape_step_def split: if_splits option.splits)+

lemma shape_insert_pages: "shape_insert ps e sh = Some (n, sh') \<Longrightarrow> n \<le> Suc (length sh)"
  by (cases sh) (fastforce simp: shape_root_def dest: shape_walk_pages split: if_splits option.splits)+

text \<open>The first entry of an empty tree.\<close>

lemma shape_insert_empty: "shape_insert ps e [[]] = (if snd e + 2 \<le> ps - 12 then Some (0, [[e]]) else None)"
  by (auto simp: shape_root_def spare_def split: option.splits)

lemma shape_fill_length: "shape_fill ps es sh = Some (n, sh') \<Longrightarrow> length sh \<le> length sh'"
  by (induction es arbitrary: sh n) (auto dest!: shape_insert_length split: option.splits intro: order_trans)

lemma shape_fill_append:
  "shape_fill ps xs sh = Some (n, sh1) \<Longrightarrow> shape_fill ps ys sh1 = Some (m, sh2) \<Longrightarrow> shape_fill ps (xs @ ys) sh = Some (n + m, sh2)"
  by (induction xs arbitrary: sh n) (auto split: option.splits)

section \<open>Payloads of one size\<close>

text \<open>
  Every key has the length \<open>kl\<close>, every entry the length \<open>el\<close>. \<open>fits_evenly\<close> says when the
  comparison with \<^verbatim>\<open>free_space\<close>, which leaves out the two bytes of the cell, tells the full pages.
\<close>

definition fits_evenly :: "nat \<Rightarrow> nat \<Rightarrow> bool" where
  "fits_evenly ps n \<longleftrightarrow> 2 * n + 16 \<le> ps \<and> (ps - 12) mod (n + 2) < n"

definition even_sizes :: "nat \<Rightarrow> nat \<times> nat \<Rightarrow> sizes \<Rightarrow> bool" where
  "even_sizes ps x s \<longleftrightarrow> set s \<subseteq> {x} \<and> 12 + taken s \<le> ps"

fun even_shape :: "nat \<Rightarrow> nat \<Rightarrow> nat \<Rightarrow> sizes list \<Rightarrow> bool" where
  "even_shape ps kl el [] = False"
| "even_shape ps kl el (s # sh) \<longleftrightarrow> even_sizes ps (if sh = [] then (kl, el) else inner_size kl) s \<and> (sh = [] \<or> even_shape ps kl el sh)"

lemma even_taken:
  assumes "even_sizes ps x s"
  shows "spare ps s = ps - 12 - length s * (snd x + 2)" and "12 + length s * (snd x + 2) \<le> ps"
proof -
  have "taken s = length s * (snd x + 2)" using assms by (induction s) (auto simp: even_sizes_def)
  then show "spare ps s = ps - 12 - length s * (snd x + 2)" "12 + length s * (snd x + 2) \<le> ps"
    using assms by (simp_all add: even_sizes_def spare_def)
qed

lemma even_full:
  assumes "even_sizes ps x s" and "fits_evenly ps (snd x)"
  shows "\<not> spare ps s < snd x \<Longrightarrow> snd x + 2 \<le> spare ps s" and "spare ps s < snd x \<Longrightarrow> 2 \<le> length s"
proof -
  let ?n = "snd x"
  note R = even_taken [OF assms(1)]
  have "ps - 12 = spare ps s + length s * (?n + 2)" using R by linarith
  then have "spare ps s mod (?n + 2) = (ps - 12) mod (?n + 2)" by (simp only: mod_mult_self1)
  then have m: "spare ps s mod (?n + 2) < ?n" using assms(2) by (simp add: fits_evenly_def)
  show "?n + 2 \<le> spare ps s" if "\<not> spare ps s < ?n"
  proof (rule ccontr)
    assume "\<not> ?n + 2 \<le> spare ps s"
    then have "spare ps s mod (?n + 2) = spare ps s" by simp
    with m that show False by simp
  qed
  show "2 \<le> length s" if f: "spare ps s < ?n"
  proof (rule ccontr)
    assume "\<not> 2 \<le> length s"
    then have "length s * (?n + 2) \<le> 1 * (?n + 2)" by (intro mult_le_mono1) simp
    then have "length s * (?n + 2) \<le> ?n + 2" by (simp only: mult_1)
    moreover have "2 * ?n + 16 \<le> ps" using assms(2) by (simp add: fits_evenly_def)
    ultimately show False using f R(1) by linarith
  qed
qed

lemma even_upper:
  assumes "even_sizes ps x s" and "2 \<le> length s"
  shows "even_sizes ps x (upper_half s)" and "snd x + 2 \<le> spare ps (upper_half s)" and "split_size s = fst x"
proof -
  have "taken s = taken (take (length s div 2) s) + taken (upper_half s)"
    unfolding upper_half_def by (metis append_take_drop_id taken_simps(3))
  then show e: "even_sizes ps x (upper_half s)" using assms(1) by (auto simp: even_sizes_def upper_half_def dest: in_set_dropD)
  have "length (upper_half s) + 1 \<le> length s" using assms(2) by (simp add: upper_half_def)
  then have "(length (upper_half s) + 1) * (snd x + 2) \<le> length s * (snd x + 2)" by (rule mult_le_mono1)
  then have "length (upper_half s) * (snd x + 2) + (snd x + 2) \<le> length s * (snd x + 2)" by (simp only: add_mult_distrib mult_1)
  with even_taken [OF e] even_taken(2) [OF assms(1)] show "snd x + 2 \<le> spare ps (upper_half s)" by linarith
  have "s ! (length s div 2 - 1) \<in> set s" using assms(2) by (intro nth_mem) simp
  then show "split_size s = fst x" using assms(1) by (auto simp: even_sizes_def split_size_def)
qed

lemma even_append: "even_sizes ps x s \<Longrightarrow> snd x + 2 \<le> spare ps s \<Longrightarrow> even_sizes ps x (s @ [x])"
  by (simp add: even_sizes_def spare_def)

lemma even_walk:
  assumes "fits_evenly ps el" and "fits_evenly ps (kl + 4)"
  shows "even_shape ps kl el (s # sh) \<Longrightarrow> needed (kl, el) sh + 2 \<le> spare ps s \<Longrightarrow>
    \<exists>n sh'. shape_walk ps (kl, el) (s # sh) = Some (n, sh') \<and> even_shape ps kl el sh' \<and> n \<le> length sh"
proof (induction sh arbitrary: s)
  case Nil
  then show ?case using even_append [of ps "(kl, el)" s] by simp
next
  case (Cons t sh)
  let ?x = "if sh = [] then (kl, el) else inner_size kl"
  have t: "even_sizes ps ?x t" "even_shape ps kl el (t # sh)" using Cons.prems(1) by simp_all
  have s: "even_sizes ps (inner_size kl) s" "kl + 6 \<le> spare ps s" using Cons.prems by simp_all
  have f: "fits_evenly ps (snd ?x)" using assms by simp
  have n: "needed (kl, el) sh = snd ?x" by (simp add: needed_def)
  show ?case
  proof (cases "spare ps t < snd ?x")
    case False
    from even_full(1) [OF t(1) f False] Cons.IH [OF t(2)] obtain n sh' where
      w: "shape_walk ps (kl, el) (t # sh) = Some (n, sh')" "even_shape ps kl el sh'" "n \<le> length sh" unfolding n by blast
    have "sh' \<noteq> []" using shape_walk_length [OF w(1)] by auto
    with w s False show ?thesis by (simp add: n shape_step_def)
  next
    case True
    note l = even_full(2) [OF t(1) f True]
    note U = even_upper [OF t(1) l]
    have "even_shape ps kl el (upper_half t # sh)" using U(1) t(2) by simp
    from Cons.IH [OF this] U(2) obtain n' sh' where
      w: "shape_walk ps (kl, el) (upper_half t # sh) = Some (n', sh')" "even_shape ps kl el sh'" "n' \<le> length sh" unfolding n by blast
    have "sh' \<noteq> []" using shape_walk_length [OF w(1)] by auto
    moreover have "split_size t = kl" using U(3) by (simp split: if_splits)
    moreover have "even_sizes ps (inner_size kl) (s @ [inner_size kl])" using even_append [OF s(1)] s(2) by simp
    ultimately show ?thesis using w s(2) l True by (simp add: n shape_step_def)
  qed
qed

lemma even_insert:
  assumes fits: "fits_evenly ps el" "fits_evenly ps (kl + 4)" and e: "even_shape ps kl el sh"
  shows "\<exists>n sh'. shape_insert ps (kl, el) sh = Some (n, sh') \<and> even_shape ps kl el sh' \<and> n \<le> Suc (length sh)"
proof -
  obtain s ts where sh: "sh = s # ts" using e by (cases sh) auto
  let ?x = "if ts = [] then (kl, el) else inner_size kl"
  have s: "even_sizes ps ?x s" "even_shape ps kl el (s # ts)" using e by (simp_all add: sh)
  have f: "fits_evenly ps (snd ?x)" using fits by simp
  have n: "needed (kl, el) ts = snd ?x" by (simp add: needed_def)
  show ?thesis
  proof (cases "spare ps s < snd ?x")
    case False
    from even_full(1) [OF s(1) f False] even_walk [OF fits s(2)] show ?thesis using False by (auto simp: n sh shape_root_def)
  next
    case True
    note l = even_full(2) [OF s(1) f True]
    note U = even_upper [OF s(1) l]
    have "even_shape ps kl el (upper_half s # ts)" using U(1) s(2) by simp
    from even_walk [OF fits this] U(2) obtain n' sh' where
      w: "shape_walk ps (kl, el) (upper_half s # ts) = Some (n', sh')" "even_shape ps kl el sh'" "n' \<le> length ts" unfolding n by blast
    have "sh' \<noteq> []" using shape_walk_length [OF w(1)] by auto
    moreover have "split_size s = kl" using U(3) by (simp split: if_splits)
    moreover have "even_sizes ps (inner_size kl) [inner_size kl]" using fits(2) by (simp add: even_sizes_def fits_evenly_def)
    ultimately show ?thesis using w l True by (simp add: n sh shape_root_def)
  qed
qed

lemma even_fill:
  assumes fits: "fits_evenly ps el" "fits_evenly ps (kl + 4)"
  shows "even_shape ps kl el sh \<Longrightarrow>
    \<exists>n sh'. shape_fill ps (replicate m (kl, el)) sh = Some (n, sh') \<and> n \<le> m * (length sh + m) \<and> length sh' \<le> length sh + m"
proof (induction m arbitrary: sh)
  case (Suc m)
  from even_insert [OF fits Suc.prems] obtain n sh' where
    i: "shape_insert ps (kl, el) sh = Some (n, sh')" "even_shape ps kl el sh'" "n \<le> Suc (length sh)" by blast
  note l = shape_insert_length [OF i(1)]
  from Suc.IH [OF i(2)] obtain n' sh2 where
    f: "shape_fill ps (replicate m (kl, el)) sh' = Some (n', sh2)" "n' \<le> m * (length sh' + m)" "length sh2 \<le> length sh' + m" by blast
  have "n' \<le> m * (Suc (length sh) + m)" using l by (intro order_trans [OF f(2)] mult_le_mono2) simp
  then have "n + n' \<le> Suc m * (length sh + Suc m)" using i(3) by simp
  moreover have "length sh2 \<le> length sh + Suc m" using f(3) l by simp
  ultimately show ?case using i(1) f(1) by simp
qed simp

end
