(* ===== verification/BtreeSplit.thy ===== *)
theory BtreeSplit
  imports BtreeInsert PageSplit AppendShape
begin

text \<open>
  The split of a leaf or an inner page of the tree, the split key, and the new root.
\<close>

section \<open>The split key\<close>

definition keyed_payload :: "u16 \<Rightarrow> byte list \<Rightarrow> u64 \<Rightarrow> bool" where
  "keyed_payload fl bs k \<longleftrightarrow> unat k < 2 ^ 56 \<and> (\<exists>pre rest. bs = pre @ vint_bytes k @ rest \<and> length pre = key_pos fl)"

lemma keyed_leaf: "page_is_leaf fl \<Longrightarrow> table_entry e \<Longrightarrow> keyed_payload fl (leaf_entry e) (fst e)"
  by (auto simp: keyed_payload_def leaf_entry_def key_pos_def page_is_leaf_def page_is_inner_def table_entry_def)

lemma keyed_inner: "page_is_inner fl \<Longrightarrow> unat k < 2 ^ 56 \<Longrightarrow> keyed_payload fl (inner_entry c k) k"
  unfolding keyed_payload_def inner_entry_def key_pos_def by (intro conjI exI [of _ "le_bytes 4 c"] exI [of _ "[]"]) simp_all

lemma payload_key_read:
  assumes "keyed_payload fl bs k" and "\<not> page_is_index_uuid fl"
  shows "\<exists>b. payload_get_key fl (bs @ rest) = Inr b \<and> key_blob b k"
proof -
  from assms(1) obtain pre tl where k: "unat k < 2 ^ 56" "bs = pre @ vint_bytes k @ tl" "length pre = key_pos fl"
    by (auto simp: keyed_payload_def)
  let ?n = "length (vint_bytes k)"
  have n: "?n \<le> 8" by (rule vint_len_8 [OF k(1)])
  have "payload_get_key_ptr fl (bs @ rest) = Inr (vint_bytes k @ tl @ rest)"
    using k(2,3) by (auto simp: payload_get_key_ptr_def key_pos_def ptr_add_def)
  moreover have "payload_get_key_len fl (vint_bytes k @ tl @ rest) = Inr (of_nat ?n)"
    using assms(2) varint_get_len_vint [OF k(1)] by (simp add: payload_get_key_len_def)
  moreover have "unat (ucast (of_nat ?n :: u16) :: u64) = ?n"
    using n by (simp add: unsigned_ucast_eq unat_of_nat_u16_lt)
  ultimately show ?thesis
    by (simp add: payload_get_key_def key_blob_def blob_valid_def blob_bytes_def)
qed

lemma split_key_read:
  assumes rep: "page_rep ps page fl r pls" and i: "i < length pls" and k: "keyed_payload fl (pls ! i) k"
    and fl: "\<not> page_is_index_uuid fl"
  shows "\<exists>off b. page_get_payload page (of_nat i) = Inr off \<and> payload_get_key fl (drop off page) = Inr b \<and> key_blob b k"
proof -
  note D = page_repD [OF rep]
  have u: "unat (of_nat i :: u16) = i" using i D(1,2,3) by (intro unat_of_nat_u16_lt) simp
  have s: "off_at page i + length (pls ! i) \<le> length page" "fetch page (off_at page i) (length (pls ! i)) = pls ! i"
    using D(10) [OF i] by (simp_all add: slot_ok_def)
  have "page_get_payload page (of_nat i) = Inr (off_at page i)"
    using page_get_payload_in [of "of_nat i" page] s(1) i D(3) by (simp add: u)
  moreover have "drop (off_at page i) page = pls ! i @ drop (off_at page i + length (pls ! i)) page"
    by (rule fetch_drop [OF s(2,1)])
  ultimately show ?thesis using payload_key_read [OF k fl] by metis
qed

section \<open>Splitting a fixed page\<close>

text \<open>The two pages that \<^verbatim>\<open>page_split\<close> makes of a page with the payloads \<open>pls\<close>.\<close>

definition halved ::
  "nat \<Rightarrow> u16 \<Rightarrow> page_id_t \<Rightarrow> byte list list \<Rightarrow> page_id_t \<Rightarrow> byte list \<Rightarrow> byte list \<Rightarrow> bool" where
  "halved ps fl r pls nid d s \<longleftrightarrow> page_rep ps d fl nid (take (length pls div 2) pls) \<and>
     page_rep ps s fl r (drop (length pls div 2) pls) \<and> free_exact s \<and>
     free_space (header_of d) = of_nat (total (take (length pls div 2) pls)) - of_nat (12 + 2 * (length pls div 2))"

lemma split_pages_correct:
  assumes c: "caches ps c p M hs" and pg: "pg \<in> set hs" "pg' \<in> set hs" "tid pg \<noteq> tid pg'"
    and M: "M (tid pg) = Some d" "M (tid pg') = Some s" and len: "length s = ps"
    and rep: "page_rep ps d fl r pls" and n: "2 \<le> length pls" and fl: "\<not> page_is_index_uuid fl"
    and k: "keyed_payload fl (pls ! (length pls div 2 - 1)) k"
  shows "\<exists>d' s' q b. split_pages p pg pg' (of_nat ps) = Inr (q, b) \<and> key_blob b k \<and>
    caches ps c q (M(tid pg \<mapsto> d', tid pg' \<mapsto> s')) hs \<and>
    halved ps fl r pls (tid pg') d' s'"
proof -
  let ?h = "length pls div 2"
  from page_split_correct [OF page_rep_readable [OF rep] page_rep_ok [OF rep] len, of "tid pg'"] obtain d' s' where
    s: "page_split d s (tid pg') (of_nat ps) = Inr (d', s', of_nat ?h)" "page_rep ps d' fl (tid pg') (take ?h pls)"
    "page_rep ps s' fl r (drop ?h pls)" "free_exact s'"
    "free_space (header_of d') = of_nat (total (take ?h pls)) - of_nat (12 + 2 * ?h)" by blast
  have "1 \<le> ?h" using n by simp
  then have i: "(of_nat ?h - 1 :: u16) = of_nat (?h - 1)" by (simp add: of_nat_diff)
  have lt: "?h - 1 < length (take ?h pls)" "take ?h pls ! (?h - 1) = pls ! (?h - 1)" using n by simp_all
  have "keyed_payload fl (take ?h pls ! (?h - 1)) k" unfolding lt(2) by (rule k)
  from split_key_read [OF s(2) lt(1) this fl] obtain off b where
    b: "page_get_payload d' (of_nat ?h - 1) = Inr off" "payload_get_key fl (drop off d') = Inr b" "key_blob b k"
    unfolding i by blast
  note D = page_repD [OF s(2)] and D' = page_repD [OF s(3)]
  have rd: "page_data p pg = Inr d" "page_data p pg' = Inr s"
    using caches_read [OF c pg(1) M(1)] caches_read [OF c pg(2) M(2)] by simp_all
  have "caches ps c (write_data (write_data p (tptr pg) d') (tptr pg') s') (M(tid pg \<mapsto> d', tid pg' \<mapsto> s')) hs"
    by (rule caches_write [OF caches_write [OF c pg(1) D(1)] pg(2) D'(1)])
  moreover have "split_pages p pg pg' (of_nat ps) = Inr (write_data (write_data p (tptr pg) d') (tptr pg') s', b)"
    using rd s(1) b(1,2) D(4,5) by (simp add: split_pages_def Let_def)
  ultimately show ?thesis using b(3) s(2-5) unfolding halved_def by blast
qed

text \<open>A page with less than two payloads leaves nothing below: the split key is read out of bounds.\<close>

lemma split_pages_stuck:
  assumes c: "caches ps c p M hs" and pg: "pg \<in> set hs" "pg' \<in> set hs"
    and M: "M (tid pg) = Some d" "M (tid pg') = Some s" and len: "length s = ps"
    and rep: "page_rep ps d fl r pls" and n: "length pls < 2"
  shows "split_pages p pg pg' (of_nat ps) = Inl Out_of_bounds"
proof -
  have h: "length pls div 2 = 0" using n by simp
  from page_split_correct [OF page_rep_readable [OF rep] page_rep_ok [OF rep] len, of "tid pg'"] obtain d' s' where
    s: "page_split d s (tid pg') (of_nat ps) = Inr (d', s', 0)" "page_rep ps d' fl (tid pg') []" unfolding h by auto
  have rd: "page_data p pg = Inr d" "page_data p pg' = Inr s"
    using caches_read [OF c pg(1) M(1)] caches_read [OF c pg(2) M(2)] by simp_all
  note D = page_repD [OF s(2)]
  have "page_get_payload d' (0 - 1) = Inl Out_of_bounds"
    using D(1,2) by (simp add: page_get_payload_def page_get_cell_def sizeof_header_def unsigned_minus_1_eq_mask mask_eq_exp_minus_1)
  then show ?thesis using rd s(1) D(4,5) by (simp add: split_pages_def Let_def)
qed

text \<open>A new page is reserved and takes the upper half of a page that is held.\<close>

lemma next_split:
  assumes c: "caches ps c p M hs" and pg: "pg \<in> set hs" and d: "M (tid pg) = Some d"
    and rep: "page_rep ps d fl r pls" and n: "2 \<le> length pls" and fl: "\<not> page_is_index_uuid fl"
    and k: "keyed_payload fl (pls ! (length pls div 2 - 1)) k" and room: "roomy (Suc m) fuel c M" and es: "error_wf es"
  shows "\<exists>pg' p1 q c' b d' s'. pager_next fuel p es = Inr (SUCCESS, Some pg', p1, es) \<and>
    split_pages p1 pg pg' (of_nat ps) = Inr (q, b) \<and> key_blob b k \<and>
    caches ps c' q (M(tid pg \<mapsto> d', tid pg' \<mapsto> s')) (pg' # hs) \<and> roomy m fuel c' (M(tid pg \<mapsto> d', tid pg' \<mapsto> s')) \<and>
    M (tid pg') = None \<and> tid pg' \<noteq> 0 \<and> halved ps fl r pls (tid pg') d' s' \<and>
    tid pg' = next_id c \<and> next_id c' = next_id c + 1"
proof -
  from caches_next [OF c room es] obtain pg' s p1 c' where
    n1: "pager_next fuel p es = Inr (SUCCESS, Some pg', p1, es)" "caches ps c' p1 (M(tid pg' \<mapsto> s)) (pg' # hs)"
    "roomy m fuel c' (M(tid pg' \<mapsto> s))" "length s = ps" "tid pg' \<noteq> 0" "M (tid pg') = None"
    "tid pg' = next_id c" "next_id c' = next_id c + 1" by blast
  have ne: "tid pg \<noteq> tid pg'" using n1(6) d by auto
  have M1: "(M(tid pg' \<mapsto> s)) (tid pg) = Some d" "(M(tid pg' \<mapsto> s)) (tid pg') = Some s" using d ne by simp_all
  have mem: "pg \<in> set (pg' # hs)" "pg' \<in> set (pg' # hs)" using pg by simp_all
  from split_pages_correct [OF n1(2) mem ne M1 n1(4) rep n fl k] obtain d' s' q b where
    s: "split_pages p1 pg pg' (of_nat ps) = Inr (q, b)" "key_blob b k"
    "caches ps c' q (M(tid pg' \<mapsto> s, tid pg \<mapsto> d', tid pg' \<mapsto> s')) (pg' # hs)" "halved ps fl r pls (tid pg') d' s'" by blast
  have "M(tid pg' \<mapsto> s, tid pg \<mapsto> d', tid pg' \<mapsto> s') = M(tid pg \<mapsto> d', tid pg' \<mapsto> s')" using ne by (auto simp: fun_eq_iff)
  moreover have "roomy m fuel c' (M(tid pg \<mapsto> d', tid pg' \<mapsto> s'))" by (rule roomy_contents [OF n1(3)]) (use d in auto)
  ultimately show ?thesis using n1(1,5-8) s by metis
qed

section \<open>The sizes of a page\<close>

text \<open>A page with payloads of the sizes \<open>s\<close>.\<close>

definition sizes_of :: "nat \<Rightarrow> byte list \<Rightarrow> byte list list \<Rightarrow> sizes \<Rightarrow> bool" where
  "sizes_of ps d pls s \<longleftrightarrow> (\<exists>fl r. page_rep ps d fl r pls) \<and> map length pls = map snd s"

lemma sizes_room:
  assumes "sizes_of ps d pls s"
  shows "room d = spare ps s" and "12 + taken s \<le> ps" and "unat (cell_count (header_of d)) = length s" and "length pls = length s"
proof -
  from assms obtain fl r where rep: "page_rep ps d fl r pls" and l: "map length pls = map snd s" by (auto simp: sizes_of_def)
  have "total pls + 2 * length pls = taken s" using l
    by (induction pls arbitrary: s) (auto simp: Cons_eq_map_conv map_eq_Cons_conv)
  then show "room d = spare ps s" "12 + taken s \<le> ps"
    using page_rep_words(3) [OF rep] page_repD(8,9) [OF rep] by (simp_all add: spare_def)
  show "length pls = length s" using l by (rule map_eq_imp_length_eq)
  then show "unat (cell_count (header_of d)) = length s" using page_repD(7) [OF rep] by simp
qed

section \<open>The new root\<close>

lemma drop_store_end: "off + length bs = length m \<Longrightarrow> drop off (store m off bs) = bs"
  by (simp add: store_def)

lemma inner_flags:
  "page_is_inner (fl AND NOT PAGE_FLAG_LEAF)"
  "\<not> page_is_index_uuid fl \<Longrightarrow> \<not> page_is_index_uuid (fl AND NOT PAGE_FLAG_LEAF)"
proof -
  show "page_is_inner (fl AND NOT PAGE_FLAG_LEAF)"
    unfolding page_is_inner_def by (rule bit_word_eqI) (simp add: bit_and_iff bit_not_iff)
  have "(fl AND NOT PAGE_FLAG_LEAF) AND PAGE_FLAG_INDEX_UUID = (fl AND PAGE_FLAG_INDEX_UUID) AND NOT PAGE_FLAG_LEAF"
    by (simp add: ac_simps)
  then show "\<not> page_is_index_uuid fl \<Longrightarrow> \<not> page_is_index_uuid (fl AND NOT PAGE_FLAG_LEAF)"
    by (simp add: page_is_index_uuid_def)
qed

lemma new_root_correct:
  assumes len: "length d = ps" and ps: "ps < 2 ^ 16" "18 + length (vint_bytes k) \<le> ps"
    and key: "key_blob key k" and k: "unat k < 2 ^ 56" and fl: "\<not> page_is_index_uuid fl"
  shows "\<exists>d'. new_root d (of_nat ps) fl l key r = Inr d' \<and> inner_page ps (fl AND NOT PAGE_FLAG_LEAF) d' [k] [l, r]"
proof -
  let ?n = "length (vint_bytes k)" and ?fl = "fl AND NOT PAGE_FLAG_LEAF" and ?bs = "inner_entry l k"
  have valid: "blob_valid key" "blob_bytes key = vint_bytes k" using key by (simp_all add: key_blob_def)
  have kn: "unat (bsize key) = ?n" using length_blob_bytes [OF valid(1)] valid(2) by simp
  have n: "?n \<le> 8" by (rule vint_len_8 [OF k])
  define off where "off = ps - (4 + ?n)"
  have off: "off + length ?bs = ps" "14 \<le> off" using ps(2) by (simp_all add: off_def)
  have "(ucast (bsize key) :: u16) = of_nat ?n" by (metis kn ucast_of_unat)
  then have ds: "of_nat ps - (4 + ucast (bsize key)) = (of_nat off :: u16)" using ps(2) by (simp add: off_def of_nat_diff)
  have u: "unat (of_nat off :: u16) = off" using ps(1) by (intro unat_of_nat_u16_lt) (simp add: off_def)
  define h where "h = \<lparr>cell_count = 1, data_start = of_nat off, free_space = of_nat off - 14, flags = ?fl, right = r\<rparr>"
  let ?d1 = "store d 0 (header_bytes h)"
  let ?d2 = "store ?d1 sizeof_header (le_bytes 2 (of_nat off :: u16))"
  let ?d3 = "store ?d2 off ?bs"
  have l2: "length ?d2 = ps" using len off by (simp add: sizeof_header_def)
  have st: "store (store ?d2 off (le_bytes 4 l)) (off + 4) (vint_bytes k) = ?d3"
    using store_store_append [of off "le_bytes 4 l" "vint_bytes k" ?d2] off l2 by (simp add: inner_entry_def)
  have c0: "cell_at ?d2 0 = of_nat off" using cell_at_set [of 0 ?d1 0 "of_nat off"] off len by simp
  have rd: "mem_read (bdata key) 0 (unat (bsize key)) = Inr (vint_bytes k)"
    using valid by (simp add: blob_valid_def fetch_blob_bytes)
  have "page_get_payload ?d2 0 = Inr off"
    using page_get_payload_in [of 0 ?d2] c0 u off l2 by simp
  then have w: "new_root d (of_nat ps) fl l key r = Inr ?d3"
    using len l2 off rd by (simp add: new_root_def Let_def ds st flip: h_def)
  have h3: "header_of ?d3 = h"
    using len l2 off by (simp add: header_of_store_after header_of_put sizeof_header_def)
  note fi = inner_flags(1) [of fl] inner_flags(2) [OF fl]
  have rep: "page_rep ps ?d3 ?fl r [?bs]"
  proof (rule page_rep_packed)
    have "drop off ?d3 = ?bs" by (rule drop_store_end) (use off l2 in simp)
    then show "drop (ps - total [?bs]) ?d3 = concat (rev [?bs])" by (simp add: off_def)
    fix j
    assume "j < length [?bs]"
    then show "cell_at ?d3 j = of_nat (packed_at ps [?bs] j)"
      using off l2 c0 by (simp add: cell_at_store_after packed_at_def off_def)
  qed (use l2 ps off h3 payload_ok_inner [OF fi k] in \<open>simp_all add: h_def off_def\<close>)
  have "room ?d3 = off - 14" using page_rep_words(3) [OF rep] by (simp add: off_def)
  moreover have "free_space (header_of ?d3) = of_nat (off - 14)" unfolding h3 using off(2) by (simp add: h_def of_nat_diff)
  moreover have "unat (of_nat (off - 14) :: u16) = off - 14" using ps(1) by (intro unat_of_nat_u16_lt) (simp add: off_def)
  ultimately have "free_exact ?d3" by (simp only: free_exact_def)
  then have "inner_page ps ?fl ?d3 [k] [l, r]" using rep fi k by (simp add: inner_page_def inner_payloads_def)
  with w show ?thesis by blast
qed

end
