(* ===== verification/BtreeSpine.thy ===== *)
theory BtreeSpine
  imports BtreeSplit
begin

text \<open>
  The right edge of a tree, the \<open>spine\<close>: the pages that insertions of growing ids change. They
  have an exact \<^verbatim>\<open>free_space\<close>; the subtrees to their left need only be readable, and are
  never written again.
\<close>

section \<open>Splitting the order\<close>

lemma separated_upper:
  assumes "separated ks als" and "t < s" and "s \<le> length ks" and "e \<in> set (als ! t)"
  shows "fst e \<le> ks ! (s - 1)"
proof -
  have "fst e \<le> ks ! t" using assms by (simp add: separated_def)
  also have "\<dots> \<le> ks ! (s - 1)" using assms by (intro sorted_nth_mono) (simp_all add: separated_def)
  finally show ?thesis .
qed

lemma separated_lower:
  assumes "separated ks als" and "0 < s" and "s \<le> t" and "t \<le> length ks" and "e \<in> set (als ! t)"
  shows "ks ! (s - 1) < fst e"
proof -
  obtain t' where t: "t = Suc t'" using assms(2,3) by (cases t) auto
  have "ks ! (s - 1) \<le> ks ! t'" using assms t by (intro sorted_nth_mono) (simp_all add: separated_def)
  also have "\<dots> < fst e" using assms t by (simp add: separated_def)
  finally show ?thesis .
qed

lemma in_concat: "e \<in> set (concat xss) \<longleftrightarrow> (\<exists>t < length xss. e \<in> set (xss ! t))"
  by (metis UN_iff in_set_conv_nth nth_mem set_concat)

lemma separated_halves:
  assumes sep: "separated ks als" and s: "0 < s" "s \<le> length ks"
  shows "separated (take s ks) (take s als @ [[]])" and "separated (drop s ks) (drop s als)"
    and "\<forall>e \<in> set (concat (take s als)). fst e \<le> ks ! (s - 1)"
    and "\<forall>e \<in> set (concat (drop s als)). ks ! (s - 1) < fst e"
proof -
  have S: "sorted ks" "\<forall>x \<in> set ks. unat x < 2 ^ 31" "length als = Suc (length ks)"
    "\<forall>j < length ks. (\<forall>e \<in> set (als ! j). fst e \<le> ks ! j) \<and> (\<forall>e \<in> set (als ! Suc j). ks ! j < fst e)"
    using sep by (simp_all add: separated_def)
  show "separated (take s ks) (take s als @ [[]])"
    using S s by (auto simp: separated_def nth_append sorted_wrt_take dest: in_set_takeD)
  have "separated (drop s ks) (drop s als)" unfolding separated_def
  proof (intro conjI allI impI)
    fix j
    assume "j < length (drop s ks)"
    then have "s + j < length ks" by simp
    with S(4) S(3) show "\<forall>e \<in> set (drop s als ! j). fst e \<le> drop s ks ! j" "\<forall>e \<in> set (drop s als ! Suc j). drop s ks ! j < fst e"
      by simp_all
  qed (use S s in \<open>auto simp: sorted_wrt_drop dest: in_set_dropD\<close>)
  then show "separated (drop s ks) (drop s als)" .
  show "\<forall>e \<in> set (concat (take s als)). fst e \<le> ks ! (s - 1)"
  proof
    fix e
    assume "e \<in> set (concat (take s als))"
    then obtain t where "t < s" "e \<in> set (als ! t)" by (auto simp: in_concat simp del: set_concat)
    then show "fst e \<le> ks ! (s - 1)" using separated_upper [OF sep _ s(2)] by blast
  qed
  show "\<forall>e \<in> set (concat (drop s als)). ks ! (s - 1) < fst e"
  proof
    fix e
    assume "e \<in> set (concat (drop s als))"
    then obtain t where "t < length als - s" "e \<in> set (als ! (s + t))" using S(3) s by (auto simp: in_concat simp del: set_concat)
    then show "ks ! (s - 1) < fst e" using separated_lower [OF sep s(1), of "s + t"] S(3) s by simp
  qed
qed

lemma separated_above:
  assumes "separated ks (als @ [sub])" and "e \<in> set sub" and "x \<in> set ks"
  shows "x < fst e"
proof -
  from assms(3) obtain t where t: "t < length ks" "ks ! t = x" by (auto simp: in_set_conv_nth)
  have la: "length als = length ks" "sorted ks" using assms(1) by (simp_all add: separated_def)
  have "x \<le> ks ! (length ks - 1)" using sorted_nth_mono [OF la(2), of t "length ks - 1"] t by simp
  also have "\<dots> < fst e"
    using separated_lower [OF assms(1), of "length ks" "length ks" e] assms(2) t(1) la(1) by (cases ks) (auto simp: nth_append)
  finally show ?thesis .
qed

text \<open>A new last subtree, and a last subtree that is divided.\<close>

lemma separated_last:
  assumes "separated ks (als @ [al])" and "\<forall>e \<in> set al'. \<forall>x \<in> set ks. x < fst e"
  shows "separated ks (als @ [al'])"
  unfolding separated_def
proof (intro conjI allI impI)
  fix j
  assume j: "j < length ks"
  show "\<forall>e \<in> set ((als @ [al']) ! j). fst e \<le> ks ! j" using assms(1) j by (simp add: separated_def nth_append)
  show "\<forall>e \<in> set ((als @ [al']) ! Suc j). ks ! j < fst e"
    using assms j by (cases "Suc j = length ks") (auto simp: separated_def nth_append)
qed (use assms(1) in \<open>simp_all add: separated_def\<close>)

lemma separated_divide:
  assumes sep: "separated ks (als @ [lft @ rgt])" and k: "unat k < 2 ^ 31" "\<forall>x \<in> set ks. x \<le> k"
    and "\<forall>e \<in> set lft. fst e \<le> k" and "\<forall>e \<in> set rgt. k < fst e"
  shows "separated (ks @ [k]) (als @ [lft, rgt])"
proof -
  have S: "sorted ks" "\<forall>x \<in> set ks. unat x < 2 ^ 31" "length als = length ks" using sep by (simp_all add: separated_def)
  have L: "\<forall>e \<in> set ((als @ [lft @ rgt]) ! j). fst e \<le> ks ! j" "\<forall>e \<in> set ((als @ [lft @ rgt]) ! Suc j). ks ! j < fst e"
    if "j < length ks" for j using sep that by (simp_all add: separated_def)
  have "(\<forall>e \<in> set ((als @ [lft, rgt]) ! j). fst e \<le> (ks @ [k]) ! j) \<and> (\<forall>e \<in> set ((als @ [lft, rgt]) ! Suc j). (ks @ [k]) ! j < fst e)"
    if j: "j < length (ks @ [k])" for j
  proof (cases "j = length ks")
    case True
    then show ?thesis using S(3) assms(4,5) by (simp add: nth_append)
  next
    case False
    then have lt: "j < length ks" using j by simp
    then show ?thesis using L [OF lt] S(3) by (cases "Suc j = length ks") (auto simp: nth_append)
  qed
  then show ?thesis using S k by (simp add: separated_def sorted_append)
qed

section \<open>The halves of a page\<close>

lemma leaf_readable_halves:
  assumes lp: "leaf_readable ps fl r d al" and "page_rep ps d' fl nid (take h (map leaf_entry al))"
    and "page_rep ps s' fl r (drop h (map leaf_entry al))"
  shows "leaf_readable ps fl nid d' (take h al)" and "leaf_readable ps fl r s' (drop h al)"
  using assms
  by (auto simp: leaf_readable_def take_map drop_map sorted_wrt_take sorted_wrt_drop
      distinct_take distinct_drop dest: in_set_takeD in_set_dropD simp flip: take_map drop_map)

lemma leaf_halves:
  assumes lp: "leaf_page ps fl r d al" and "page_rep ps d' fl nid (take h (map leaf_entry al))"
    and "page_rep ps s' fl r (drop h (map leaf_entry al))" and "free_exact s'"
  shows "leaf_readable ps fl nid d' (take h al)" and "leaf_page ps fl r s' (drop h al)"
  using leaf_readable_halves [OF leaf_page_readable [OF lp] assms(2,3)] assms(4) by (simp_all add: leaf_page_def leaf_readable_def)

lemma inner_readable_halves:
  assumes ip: "inner_readable ps fl d ks cs" and h: "h \<le> length ks"
    and "page_rep ps d' fl nid (take h (inner_payloads ks cs))"
    and "page_rep ps s' fl (last cs) (drop h (inner_payloads ks cs))"
  shows "inner_readable ps fl d' (take h ks) (take h cs @ [nid])" and "inner_readable ps fl s' (drop h ks) (drop h cs)"
proof -
  have I: "length cs = Suc (length ks)" "page_is_inner fl" "\<not> page_is_index_uuid fl" "\<forall>k \<in> set ks. unat k < 2 ^ 56"
    using ip by (simp_all add: inner_readable_def)
  have "inner_payloads (take h ks) (take h cs @ [nid]) = take h (inner_payloads ks cs)"
    using I(1) h by (simp add: inner_payloads_def take_map take_zip butlast_append min_def take_butlast)
  then show "inner_readable ps fl d' (take h ks) (take h cs @ [nid])"
    using I assms(3) h by (auto simp: inner_readable_def dest: in_set_takeD)
  have "inner_payloads (drop h ks) (drop h cs) = drop h (inner_payloads ks cs)"
    using I(1) h by (simp add: inner_payloads_def drop_map drop_zip butlast_drop)
  then show "inner_readable ps fl s' (drop h ks) (drop h cs)"
    using I assms(4) h by (auto simp: inner_readable_def last_drop dest: in_set_dropD)
qed

lemma inner_halves:
  assumes ip: "inner_page ps fl d ks cs" and "h \<le> length ks"
    and "page_rep ps d' fl nid (take h (inner_payloads ks cs))"
    and "page_rep ps s' fl (last cs) (drop h (inner_payloads ks cs))" and "free_exact s'"
  shows "inner_readable ps fl d' (take h ks) (take h cs @ [nid])" and "inner_page ps fl s' (drop h ks) (drop h cs)"
  using inner_readable_halves [OF inner_page_readable [OF ip] assms(2-4)] assms(5) by (simp_all add: inner_page_def inner_readable_def)

section \<open>The spine\<close>

definition entry_size :: "u64 \<times> byte list \<Rightarrow> nat \<times> nat" where
  "entry_size e = (length (vint_bytes (fst e)), length (leaf_entry e))"

definition key_sizes :: "u64 list \<Rightarrow> sizes" where
  "key_sizes ks = map (\<lambda>k. inner_size (length (vint_bytes k))) ks"

text \<open>
  \<open>spine ps b Lo M ids sh al\<close>: the pages \<open>ids\<close>, from the root of a tree down to its last leaf,
  have the contents \<open>M\<close> with payloads of the sizes \<open>sh\<close>; the trees to the left of them are in
  \<open>Lo\<close>; the tree has the entries \<open>al\<close>, none of which is above \<open>b\<close>.
\<close>

fun spine ::
  "nat \<Rightarrow> u64 \<Rightarrow> (u32 \<Rightarrow> byte list option) \<Rightarrow> (u32 \<Rightarrow> byte list option) \<Rightarrow> u32 list \<Rightarrow> sizes list \<Rightarrow> (u64 \<times> byte list) list \<Rightarrow> bool" where
  "spine ps b Lo M [] sh al \<longleftrightarrow> False"
| "spine ps b Lo M [i] sh al \<longleftrightarrow> i \<noteq> 0 \<and> sh = [map entry_size al] \<and>
     (\<exists>d fl r. M i = Some d \<and> leaf_page ps fl r d al \<and> (\<forall>e \<in> set al. fst e \<le> b))"
| "spine ps b Lo M (i # j # ids) sh al \<longleftrightarrow> i \<noteq> 0 \<and>
     (\<exists>d fl ks cs als sub sh'. sh = key_sizes ks # sh' \<and> M i = Some d \<and> inner_page ps fl d ks (cs @ [j]) \<and>
       separated ks (als @ [sub]) \<and> (\<forall>x \<in> set ks. x < b) \<and>
       (\<forall>t < length ks. tree_at (length ids) ps Lo (ks ! t) (cs ! t) (als ! t)) \<and>
       [] \<notin> set als \<and> spine ps b Lo M (j # ids) sh' sub \<and> al = concat als @ sub)"

lemma spine_length: "spine ps b Lo M ids sh al \<Longrightarrow> length sh = length ids"
  by (induction ps b Lo M ids sh al rule: spine.induct) auto

lemma spine_frame:
  "spine ps b Lo M ids sh al \<Longrightarrow> Lo \<subseteq>\<^sub>m Lo' \<Longrightarrow> \<forall>x \<in> set ids. M' x = M x \<Longrightarrow> b \<le> b' \<Longrightarrow> spine ps b' Lo' M' ids sh al"
proof (induction ps b Lo M ids sh al rule: spine.induct)
  case (2 ps b Lo M i sh al)
  then show ?case using order_trans by fastforce
next
  case (3 ps b Lo M i j ids sh al)
  from 3(2) obtain d fl ks cs als sub sh' where
    s: "i \<noteq> 0" "M i = Some d" "inner_page ps fl d ks (cs @ [j])" "separated ks (als @ [sub])"
      "\<forall>x \<in> set ks. x < b" "al = concat als @ sub"
      "\<forall>t < length ks. tree_at (length ids) ps Lo (ks ! t) (cs ! t) (als ! t)" "spine ps b Lo M (j # ids) sh' sub"
      "[] \<notin> set als" "sh = key_sizes ks # sh'" by auto
  have "spine ps b' Lo' M' (j # ids) sh' sub" using 3(1) [OF s(8)] 3(3-5) by simp
  moreover have "\<forall>t < length ks. tree_at (length ids) ps Lo' (ks ! t) (cs ! t) (als ! t)"
    using s(7) tree_at_mono [OF _ 3(3)] by blast
  moreover have "\<forall>x \<in> set ks. x < b'" using s(5) 3(5) by (auto intro: less_le_trans)
  moreover have "M' i = Some d" using 3(4) s(2) by simp
  ultimately show ?case using s(1,3,4,6,9,10) unfolding spine.simps by blast
qed simp

text \<open>What every page of the spine has, be it a leaf or not.\<close>

lemma leaf_sizes: "leaf_page ps fl r d al \<Longrightarrow> sizes_of ps d (map leaf_entry al) (map entry_size al)"
  by (auto simp: sizes_of_def leaf_page_def entry_size_def)

lemma inner_sizes:
  assumes ip: "inner_page ps fl d ks cs"
  shows "sizes_of ps d (inner_payloads ks cs) (key_sizes ks)"
proof -
  have l: "length cs = Suc (length ks)" "\<exists>fl r. page_rep ps d fl r (inner_payloads ks cs)" using ip by (auto simp: inner_page_def)
  have "map length (inner_payloads ks cs) = map snd (key_sizes ks)"
    using inner_payloads_nth [of cs ks] l(1) by (intro nth_equalityI) (simp_all add: key_sizes_def)
  with l(2) show ?thesis by (simp add: sizes_of_def)
qed

lemma spine_head:
  assumes sp: "spine ps b Lo M (i # ids) sh al" and d: "M i = Some d"
  obtains fl r pls s ts where "sh = s # ts" and "page_rep ps d fl r pls" and "\<not> page_is_index_uuid fl"
    and "free_exact d" and "sizes_of ps d pls s" and "flags (header_of d) = fl"
    and "page_is_leaf fl \<longleftrightarrow> ids = []" and "page_is_inner fl \<longleftrightarrow> ids \<noteq> []"
proof (cases ids)
  case Nil
  with sp d obtain fl r where s: "leaf_page ps fl r d al" "sh = [map entry_size al]" by auto
  have L: "page_rep ps d fl r (map leaf_entry al)" "page_is_leaf fl" "\<not> page_is_index_uuid fl" "free_exact d"
    using s(1) by (simp_all add: leaf_page_def)
  then show thesis using that [OF s(2) L(1,3,4) leaf_sizes [OF s(1)] page_repD(5) [OF L(1)]] Nil
    by (simp add: page_is_leaf_def page_is_inner_def)
next
  case (Cons j tl)
  with sp d obtain fl ks cs ts where s: "inner_page ps fl d ks (cs @ [j])" "sh = key_sizes ks # ts" by auto
  have L: "page_rep ps d fl (last (cs @ [j])) (inner_payloads ks (cs @ [j]))" "page_is_inner fl" "\<not> page_is_index_uuid fl" "free_exact d"
    using s(1) by (simp_all add: inner_page_def)
  then show thesis using that [OF s(2) L(1,3,4) inner_sizes [OF s(1)] page_repD(5) [OF L(1)]] Cons
    by (simp add: page_is_leaf_def page_is_inner_def)
qed

text \<open>
  Splitting a page of the spine: the lower half becomes a tree for the ids up to the split
  key, the upper half takes the page's place on the spine.
\<close>

definition half_of ::
  "nat \<Rightarrow> u64 \<Rightarrow> (u32 \<Rightarrow> byte list option) \<Rightarrow> (u32 \<Rightarrow> byte list option) \<Rightarrow> u32 \<Rightarrow> u32 list \<Rightarrow> sizes \<Rightarrow> sizes list \<Rightarrow>
   byte list list \<Rightarrow> u16 \<Rightarrow> page_id_t \<Rightarrow> u64 \<Rightarrow> (u64 \<times> byte list) list \<Rightarrow> (u64 \<times> byte list) list \<Rightarrow> bool" where
  "half_of ps b Lo M j ids s sh pls fl r k lft rgt \<longleftrightarrow>
     keyed_payload fl (pls ! (length pls div 2 - 1)) k \<and> length (vint_bytes k) = split_size s \<and> unat k < 2 ^ 31 \<and> k < b \<and>
     lft \<noteq> [] \<and> (\<forall>e \<in> set lft. fst e \<le> k) \<and> (\<forall>e \<in> set rgt. k < fst e) \<and>
     (\<forall>d' s' nid Lo' M'. halved ps fl r pls nid d' s' \<longrightarrow> nid \<noteq> 0 \<longrightarrow> nid \<noteq> j \<longrightarrow>
        Lo \<subseteq>\<^sub>m Lo' \<longrightarrow> Lo' j = Some d' \<longrightarrow> M' nid = Some s' \<longrightarrow> (\<forall>x \<in> set ids. M' x = M x) \<longrightarrow>
        tree_at (length ids) ps Lo' k j lft \<and> spine ps b Lo' M' (nid # ids) (upper_half s # sh) rgt)"

lemma half_ofD:
  assumes "half_of ps b Lo M j ids s sh pls fl r k lft rgt"
  shows "keyed_payload fl (pls ! (length pls div 2 - 1)) k" and "length (vint_bytes k) = split_size s" and "unat k < 2 ^ 31" and "k < b"
    and "lft \<noteq> []" and "\<forall>e \<in> set lft. fst e \<le> k" and "\<forall>e \<in> set rgt. k < fst e"
    and "halved ps fl r pls nid d' s' \<Longrightarrow> nid \<noteq> 0 \<Longrightarrow> nid \<noteq> j \<Longrightarrow> Lo \<subseteq>\<^sub>m Lo' \<Longrightarrow> Lo' j = Some d' \<Longrightarrow> M' nid = Some s' \<Longrightarrow>
      \<forall>x \<in> set ids. M' x = M x \<Longrightarrow> tree_at (length ids) ps Lo' k j lft \<and> spine ps b Lo' M' (nid # ids) (upper_half s # sh) rgt"
  using assms unfolding half_of_def by blast+

lemma leaf_half:
  assumes j: "j \<noteq> 0" and lp: "leaf_page ps fl r d al" and al: "\<forall>e \<in> set al. fst e \<le> b" and n: "2 \<le> length al"
  shows "half_of ps b Lo M j [] (map entry_size al) [] (map leaf_entry al) fl r (fst (al ! (length al div 2 - 1)))
    (take (length al div 2) al) (drop (length al div 2) al)"
proof -
  let ?h = "length al div 2" and ?k = "fst (al ! (length al div 2 - 1))"
  have L: "page_is_leaf fl" "sorted (map fst al)" "distinct (map fst al)" "\<forall>e \<in> set al. table_entry e"
    using lp by (simp_all add: leaf_page_def)
  have lt: "?h - 1 < length al" "0 < ?h" "?h < length al" using n by simp_all
  have mem: "al ! (?h - 1) \<in> set al" using lt(1) by simp
  have up: "fst e \<le> ?k" if "e \<in> set (take ?h al)" for e
  proof -
    from that obtain t where t: "t < ?h" "e = al ! t" by (auto simp: in_set_conv_nth)
    then show ?thesis using sorted_nth_mono [OF L(2), of t "?h - 1"] lt by simp
  qed
  have low: "?k < fst e" if "e \<in> set (drop ?h al)" for e
  proof -
    from that obtain t where t: "t < length al - ?h" "e = al ! (?h + t)" using lt by (auto simp: in_set_conv_nth)
    have "?k \<le> fst e" using sorted_nth_mono [OF L(2), of "?h - 1" "?h + t"] lt t by simp
    moreover have "?k \<noteq> fst e" using nth_eq_iff_index_eq [OF L(3), of "?h - 1" "?h + t"] lt t by simp
    ultimately show ?thesis by simp
  qed
  have "al ! ?h \<in> set (drop ?h al)" using lt by (metis Cons_nth_drop_Suc list.set_intros(1))
  then have "?k < fst (al ! ?h)" by (rule low)
  also have "\<dots> \<le> b" using al lt(3) by simp
  finally have "?k < b" .
  moreover have "keyed_payload fl (map leaf_entry al ! (?h - 1)) ?k" using keyed_leaf [OF L(1)] L(4) mem lt(1) by simp
  moreover have "length (vint_bytes ?k) = split_size (map entry_size al)" using lt(1) by (simp add: split_size_def entry_size_def)
  moreover have "unat ?k < 2 ^ 31" using L(4) mem by (simp add: table_entry_def)
  moreover have "\<forall>e \<in> set (drop ?h al). fst e \<le> b" using al by (auto dest: in_set_dropD)
  moreover have "upper_half (map entry_size al) = map entry_size (drop ?h al)" by (simp add: upper_half_def drop_map)
  moreover have "take ?h al \<noteq> []" using lt(2,3) by auto
  ultimately show ?thesis
    using up low leaf_halves [OF lp] j unfolding half_of_def halved_def length_map tree_at.simps spine.simps list.size by blast
qed

lemma inner_half_trees:
  assumes ip: "inner_page ps fl d ks (cs @ [i])" and sep: "separated ks (als @ [sub])"
    and ks: "\<forall>x \<in> set ks. x < b"
    and trees: "\<forall>t < length ks. tree_at (length ids) ps Lo (ks ! t) (cs ! t) (als ! t)"
    and sp: "spine ps b Lo M (i # ids) sh sub" and ne: "[] \<notin> set als"
    and j: "j \<noteq> 0" "Lo j = None" and h: "h = length ks div 2" "0 < h" "h < length ks"
    and p: "halved ps fl i (inner_payloads ks (cs @ [i])) nid d' s'" "nid \<noteq> 0" "nid \<noteq> j"
      "Lo \<subseteq>\<^sub>m Lo'" "Lo' j = Some d'" "M' nid = Some s'" "\<forall>x \<in> set (i # ids). M' x = M x"
  shows "tree_at (length (i # ids)) ps Lo' (ks ! (h - 1)) j (concat (take h als))"
    and "spine ps b Lo' M' (nid # i # ids) (upper_half (key_sizes ks) # sh) (concat (drop h als) @ sub)"
proof -
  have la: "length als = length ks" "length cs = length ks" using sep ip by (simp_all add: separated_def inner_page_def)
  note H = separated_halves [OF sep h(2) less_imp_le [OF h(3)]]
  have "page_rep ps d' fl nid (take h (inner_payloads ks (cs @ [i])))"
    "page_rep ps s' fl (last (cs @ [i])) (drop h (inner_payloads ks (cs @ [i])))" "free_exact s'"
    using p(1) la h(1) by (simp_all add: halved_def)
  note hv = inner_halves [OF ip less_imp_le [OF h(3)] this]
  have sub: "\<forall>t < length ks. tree_at (length ids) ps Lo' (ks ! t) (cs ! t) (als ! t)" using trees tree_at_mono [OF _ p(4)] by blast
  have "j \<notin> set (take h cs)"
  proof
    assume "j \<in> set (take h cs)"
    then obtain t where "t < h" "cs ! t = j" by (auto simp: in_set_conv_nth)
    then have "tree_at (length ids) ps Lo (ks ! t) j (als ! t)" using trees h(3) by auto
    then show False using tree_at_page j(2) by blast
  qed
  moreover have "take h (cs @ [i]) = take h cs" "take h (als @ [sub]) = take h als" using h(3) la by simp_all
  moreover have "ks ! (h - 1) \<in> set (take h ks)"
    using h by (metis One_nat_def diff_less in_set_conv_nth length_take less_imp_le min.absorb2 nth_take zero_less_one)
  ultimately show "tree_at (length (i # ids)) ps Lo' (ks ! (h - 1)) j (concat (take h als))"
    using j(1) p(3,5) hv(1) H(1) sub h(3) la
    by (simp, intro exI [of _ fl] exI [of _ "take h ks"] exI [of _ "take h cs @ [nid]"] conjI
        exI [of _ "take h als @ [[]]"]) (simp_all add: nth_append)
  have "spine ps b Lo' M' (i # ids) sh sub" by (rule spine_frame [OF sp p(4,7)]) simp
  moreover have "drop h (cs @ [i]) = drop h cs @ [i]" "drop h (als @ [sub]) = drop h als @ [sub]" using h(3) la by simp_all
  moreover have "\<forall>t < length (drop h ks). tree_at (length ids) ps Lo' (drop h ks ! t) (drop h cs ! t) (drop h als ! t)"
    using sub la by simp
  moreover have "\<forall>x \<in> set (drop h ks). x < b" "[] \<notin> set (drop h als)"
    using ks ne by (auto dest: in_set_dropD)
  moreover have "upper_half (key_sizes ks) = key_sizes (drop h ks)" by (simp add: upper_half_def key_sizes_def drop_map h(1))
  ultimately show "spine ps b Lo' M' (nid # i # ids) (upper_half (key_sizes ks) # sh) (concat (drop h als) @ sub)"
    using p(2,6) hv(2) H(2) unfolding spine.simps by metis
qed

lemma inner_half:
  assumes sp: "spine ps b Lo M (j # i # ids) (s # sh) al" and d: "M j = Some d" and n: "2 \<le> unat (cell_count (header_of d))" and j: "Lo j = None"
  shows "\<exists>fl r pls k lft rgt. page_rep ps d fl r pls \<and> al = lft @ rgt \<and> half_of ps b Lo M j (i # ids) s sh pls fl r k lft rgt"
proof -
  from sp d obtain fl ks cs als sub where
    s: "j \<noteq> 0" "inner_page ps fl d ks (cs @ [i])" "separated ks (als @ [sub])"
      "\<forall>x \<in> set ks. x < b"
      "\<forall>t < length ks. tree_at (length ids) ps Lo (ks ! t) (cs ! t) (als ! t)" "spine ps b Lo M (i # ids) sh sub"
      "al = concat als @ sub" "[] \<notin> set als" "s = key_sizes ks" by auto
  let ?pls = "inner_payloads ks (cs @ [i])"
  have I: "page_is_inner fl" "length cs = length ks" "page_rep ps d fl i ?pls" "\<forall>k \<in> set ks. unat k < 2 ^ 56"
    using s(2) by (simp_all add: inner_page_def)
  have la: "length als = length ks" "\<forall>x \<in> set ks. unat x < 2 ^ 31" using s(3) by (simp_all add: separated_def)
  have lp: "length ?pls = length ks" using I(2) by simp
  have n2: "2 \<le> length ks" using n page_repD(7) [OF I(3)] lp by simp
  define h where "h = length ks div 2"
  have h: "0 < h" "h < length ks" "h - 1 < length ks" using n2 by (simp_all add: h_def)
  let ?k = "ks ! (h - 1)"
  note H = separated_halves [OF s(3) h(1) less_imp_le [OF h(2)]]
  have kmem: "?k \<in> set ks" using h(3) by simp
  have "keyed_payload fl (?pls ! (h - 1)) ?k"
    using keyed_inner [OF I(1), of ?k] I(2,4) kmem inner_payloads_nth [of "cs @ [i]" ks "h - 1"] h(3) by simp
  moreover note inner_half_trees [OF s(2-6,8,1) j h_def h(1,2)]
  moreover have "als ! 0 \<in> set (take h als)" using h la(1) by (metis gr_implies_not0 in_set_conv_nth length_take less_imp_le min.absorb2 nth_take neq0_conv)
  then have "concat (take h als) \<noteq> []" using s(8) by (force dest: in_set_takeD)
  moreover have "length (vint_bytes ?k) = split_size s" using h(3) by (simp add: s(9) split_size_def key_sizes_def h_def)
  ultimately have "half_of ps b Lo M j (i # ids) s sh ?pls fl i ?k (concat (take h als)) (concat (drop h als) @ sub)"
    using s(4) la kmem H(3,4) h(2) unfolding half_of_def lp h_def [symmetric] s(9) by simp
  moreover have "al = concat (take h als) @ concat (drop h als) @ sub"
    using s(7) by (metis append_assoc append_take_drop_id concat_append)
  ultimately show ?thesis using I(3) by blast
qed

lemma spine_half:
  assumes sp: "spine ps b Lo M (j # ids) (s # sh) al" and d: "M j = Some d" and n: "2 \<le> unat (cell_count (header_of d))" and j: "Lo j = None"
  shows "\<exists>fl r pls k lft rgt. page_rep ps d fl r pls \<and> al = lft @ rgt \<and> half_of ps b Lo M j ids s sh pls fl r k lft rgt"
proof (cases ids)
  case Nil
  with sp d obtain fl r where l: "j \<noteq> 0" "leaf_page ps fl r d al" "\<forall>e \<in> set al. fst e \<le> b"
    "s = map entry_size al" "sh = []" by auto
  have rep: "page_rep ps d fl r (map leaf_entry al)" using l(2) by (simp add: leaf_page_def)
  then have "2 \<le> length al" using n page_repD(7) [OF rep] by simp
  from leaf_half [OF l(1-3) this] show ?thesis unfolding l(4,5) using rep Nil by (metis append_take_drop_id)
next
  case (Cons i tl)
  with inner_half [of ps b Lo M j i tl s sh al d] sp d n j show ?thesis by simp
qed

section \<open>Trees that grow at the right edge\<close>

definition edge ::
  "nat \<Rightarrow> u64 \<Rightarrow> (u32 \<Rightarrow> byte list option) \<Rightarrow> (u32 \<Rightarrow> byte list option) \<Rightarrow> u32 list \<Rightarrow> sizes list \<Rightarrow> (u64 \<times> byte list) list \<Rightarrow> bool" where
  "edge ps b Lo M ids sh al \<longleftrightarrow> spine ps b Lo M ids sh al \<and> distinct ids \<and> Lo \<subseteq>\<^sub>m M \<and> dom Lo \<inter> set ids = {}"

text \<open>Only pages of the edge are written, and pages join it only if they are new.\<close>

definition grown ::
  "u32 list \<Rightarrow> (u32 \<Rightarrow> byte list option) \<Rightarrow> (u32 \<Rightarrow> byte list option) \<Rightarrow>
   u32 list \<Rightarrow> (u32 \<Rightarrow> byte list option) \<Rightarrow> (u32 \<Rightarrow> byte list option) \<Rightarrow> bool" where
  "grown ids Lo M ids' Lo' M' \<longleftrightarrow> Lo \<subseteq>\<^sub>m Lo' \<and> dom M \<subseteq> dom M' \<and> (\<forall>x. x \<notin> set ids \<longrightarrow> M x \<noteq> None \<longrightarrow> M' x = M x) \<and>
     (\<forall>x \<in> set ids' \<union> dom Lo'. x \<in> set ids \<union> dom Lo \<or> M x = None)"

lemma grown_refl: "dom M \<subseteq> dom M' \<Longrightarrow> \<forall>x. x \<notin> set ids \<longrightarrow> M x \<noteq> None \<longrightarrow> M' x = M x \<Longrightarrow> grown ids Lo M ids Lo M'"
  by (simp add: grown_def)

lemma grown_trans:
  assumes a: "grown ids Lo M ids1 Lo1 M1" and b: "grown ids1 Lo1 M1 ids2 Lo2 M2" and dj: "dom Lo1 \<inter> set ids1 = {}"
  shows "grown ids Lo M ids2 Lo2 M2"
  unfolding grown_def
proof (intro conjI allI impI ballI)
  have A: "\<forall>x \<in> set ids1 \<union> dom Lo1. x \<in> set ids \<union> dom Lo \<or> M x = None" and D: "dom M \<subseteq> dom M1"
    using a by (simp_all add: grown_def)
  have B: "\<forall>x \<in> set ids2 \<union> dom Lo2. x \<in> set ids1 \<union> dom Lo1 \<or> M1 x = None"
    using b by (simp add: grown_def)
  show "Lo \<subseteq>\<^sub>m Lo2" using a b map_le_trans by (fastforce simp: grown_def)
  show "dom M \<subseteq> dom M2" using a b by (auto simp: grown_def)
  fix x
  { assume x: "x \<in> set ids2 \<union> dom Lo2"
    from bspec [OF B x] show "x \<in> set ids \<union> dom Lo \<or> M x = None"
    proof
      assume "x \<in> set ids1 \<union> dom Lo1"
      then show ?thesis by (rule bspec [OF A])
    next
      assume "M1 x = None"
      then show ?thesis using D by (auto simp: dom_def)
    qed }
  { assume x: "x \<notin> set ids" "M x \<noteq> None"
    then have M1: "M1 x = M x" using a by (simp add: grown_def)
    have "x \<notin> set ids1"
    proof
      assume "x \<in> set ids1"
      then have "x \<in> dom Lo" using a x by (auto simp: grown_def)
      then have "x \<in> dom Lo1" using a by (auto simp: grown_def map_le_def dom_def)
      with dj \<open>x \<in> set ids1\<close> show False by blast
    qed
    with b M1 x(2) show "M2 x = M x" by (simp add: grown_def) }
qed

lemma spine_pages: "spine ps b Lo M ids sh al \<Longrightarrow> \<forall>x \<in> set ids. x \<noteq> 0 \<and> M x \<noteq> None"
  by (induction ps b Lo M ids sh al rule: spine.induct) auto

lemma edge_spine: "edge ps b Lo M ids sh al \<Longrightarrow> spine ps b Lo M ids sh al"
  by (simp add: edge_def)

lemma edgeD:
  assumes "edge ps b Lo M ids sh al"
  shows "distinct ids" and "Lo \<subseteq>\<^sub>m M" and "dom Lo \<inter> set ids = {}"
  using assms by (simp_all add: edge_def)

lemma edge_fresh:
  assumes "edge ps b Lo M ids sh al" and "M x = None"
  shows "x \<notin> set ids \<and> x \<notin> dom Lo"
proof
  show "x \<notin> set ids" using spine_pages [OF edge_spine [OF assms(1)]] assms(2) by blast
  show "x \<notin> dom Lo" using edgeD(2) [OF assms(1)] assms(2) by (auto simp: map_le_def dom_def)
qed

text \<open>The rest of the edge below its first page, and what becomes of the whole when that rest grows.\<close>

lemma edge_tail:
  assumes "edge ps b Lo M (i # j # ids) (s # sh) al"
  obtains pre sub where "al = pre @ sub" and "edge ps b Lo M (j # ids) sh sub"
    and "\<forall>b' Lo' M' ids' sh' k v. edge ps b' Lo' M' (j # ids') sh' (sub @ [(k, v)]) \<longrightarrow> length ids' = length ids \<longrightarrow>
      grown (j # ids) Lo M (j # ids') Lo' M' \<longrightarrow> b \<le> b' \<longrightarrow> b \<le> k \<longrightarrow>
      edge ps b' Lo' M' (i # j # ids') (s # sh') (pre @ sub @ [(k, v)]) \<and> grown (i # j # ids) Lo M (i # j # ids') Lo' M'"
proof -
  from edge_spine [OF assms] obtain d fl ks cs als sub where
    s: "i \<noteq> 0" "M i = Some d" "inner_page ps fl d ks (cs @ [j])" "separated ks (als @ [sub])"
      "\<forall>x \<in> set ks. x < b" "al = concat als @ sub"
      "\<forall>t < length ks. tree_at (length ids) ps Lo (ks ! t) (cs ! t) (als ! t)" "spine ps b Lo M (j # ids) sh sub"
      "[] \<notin> set als" "s = key_sizes ks" by auto
  have e: "distinct (i # j # ids)" "Lo \<subseteq>\<^sub>m M" "dom Lo \<inter> set (i # j # ids) = {}" using assms by (simp_all only: edge_def)
  have "edge ps b Lo M (j # ids) sh sub" using s(8) e by (auto simp: edge_def)
  moreover have "edge ps b' Lo' M' (i # j # ids') (s # sh') (concat als @ sub @ [(k, v)]) \<and> grown (i # j # ids) Lo M (i # j # ids') Lo' M'"
    if g: "edge ps b' Lo' M' (j # ids') sh' (sub @ [(k, v)])" "length ids' = length ids"
      "grown (j # ids) Lo M (j # ids') Lo' M'" "b \<le> b'" "b \<le> k" for b' Lo' M' ids' sh' k v
  proof
    have "M' i = Some d" using g(3) e(1) s(2) by (auto simp: grown_def)
    moreover have new: "i \<notin> set ids'" "i \<notin> dom Lo'" using g(3) e(1,3) s(2) by (auto simp: grown_def)
    moreover have "\<forall>e \<in> set (sub @ [(k, v)]). \<forall>x \<in> set ks. x < fst e"
    proof (intro ballI)
      fix e x
      assume x: "x \<in> set ks" and e: "e \<in> set (sub @ [(k, v)])"
      show "x < fst e"
      proof (cases "e \<in> set sub")
        case True
        then show ?thesis using separated_above [OF s(4)] x by blast
      next
        case False
        then show ?thesis using e s(5) x g(5) by (auto intro: less_le_trans)
      qed
    qed
    then have "separated ks (als @ [sub @ [(k, v)]])" by (rule separated_last [OF s(4)])
    moreover have "\<forall>t < length ks. tree_at (length ids') ps Lo' (ks ! t) (cs ! t) (als ! t)"
      using s(7) tree_at_mono g(2,3) by (auto simp: grown_def)
    moreover have "\<forall>x \<in> set ks. x < b'" using s(5) g(4) by (auto intro: less_le_trans)
    moreover have "spine ps b' Lo' M' (j # ids') sh' (sub @ [(k, v)])" using g(1) by (simp add: edge_def)
    ultimately have "spine ps b' Lo' M' (i # j # ids') (s # sh') (concat als @ sub @ [(k, v)])"
      using s(1,3,9,10) unfolding spine.simps append_assoc by blast
    then show "edge ps b' Lo' M' (i # j # ids') (s # sh') (concat als @ sub @ [(k, v)])"
      using g(1) new e(1) by (auto simp: edge_def)
    show "grown (i # j # ids) Lo M (i # j # ids') Lo' M'" using g(3) unfolding grown_def by auto
  qed
  ultimately show thesis using s(6) by (intro that [of "concat als" sub]) blast+
qed

section \<open>Attaching the halves\<close>

lemma map_le_new: "Lo \<subseteq>\<^sub>m M \<Longrightarrow> Lo j = None \<Longrightarrow> Lo \<subseteq>\<^sub>m Lo(j \<mapsto> d)"
  by (auto simp: map_le_def)

text \<open>Below an inner page of the spine: it gets the split key and the new page.\<close>

lemma edge_split_child:
  assumes e: "edge ps b Lo M (i # j # ids) (s # t # sh) al" and di: "M i = Some di" and dj: "M j = Some dj"
    and n: "2 \<le> unat (cell_count (header_of dj))"
  obtains fli ks cs fl r pls k where "inner_page ps fli di ks (cs @ [j])" and "page_rep ps dj fl r pls"
    and "keyed_payload fl (pls ! (length pls div 2 - 1)) k" and "length (vint_bytes k) = split_size t" and "unat k < 2 ^ 31" and "k < b"
    and "\<forall>nid dj' s' di'. M nid = None \<longrightarrow> nid \<noteq> 0 \<longrightarrow> halved ps fl r pls nid dj' s' \<longrightarrow>
      inner_page ps fli di' (ks @ [k]) (cs @ [j, nid]) \<longrightarrow>
      edge ps b (Lo(j \<mapsto> dj')) (M(j \<mapsto> dj', nid \<mapsto> s', i \<mapsto> di')) (i # nid # ids) ((s @ [inner_size (split_size t)]) # upper_half t # sh) al \<and>
      grown (i # j # ids) Lo M (i # nid # ids) (Lo(j \<mapsto> dj')) (M(j \<mapsto> dj', nid \<mapsto> s', i \<mapsto> di'))"
proof -
  from edge_spine [OF e] di obtain fli ks cs als sub where
    s: "i \<noteq> 0" "inner_page ps fli di ks (cs @ [j])" "separated ks (als @ [sub])"
      "\<forall>x \<in> set ks. x < b" "al = concat als @ sub"
      "\<forall>t < length ks. tree_at (length ids) ps Lo (ks ! t) (cs ! t) (als ! t)" "spine ps b Lo M (j # ids) (t # sh) sub"
      "[] \<notin> set als" "s = key_sizes ks" by auto
  note E = edgeD [OF e]
  have loj: "Lo j = None" using E(3) by auto
  from spine_half [of ps b Lo M j ids t sh sub dj] s(7) dj n loj obtain fl r pls k lft rgt where
    h: "page_rep ps dj fl r pls" "sub = lft @ rgt" "half_of ps b Lo M j ids t sh pls fl r k lft rgt" by blast
  note H = half_ofD [OF h(3)]
  have la: "length als = length ks" "length cs = length ks" using s(2,3) by (simp_all add: separated_def inner_page_def)
  have "hd lft \<in> set sub" "fst (hd lft) \<le> k" using H(5,6) h(2) by simp_all
  then have ks: "\<forall>x \<in> set ks. x \<le> k" using separated_above [OF s(3)] by (meson less_imp_le order_trans)
  have sep: "separated (ks @ [k]) (als @ [lft, rgt])" using separated_divide [OF _ H(3) ks H(6,7)] s(3) h(2) by simp
  have "edge ps b (Lo(j \<mapsto> dj')) (M(j \<mapsto> dj', nid \<mapsto> s', i \<mapsto> di')) (i # nid # ids) ((s @ [inner_size (split_size t)]) # upper_half t # sh) al \<and>
      grown (i # j # ids) Lo M (i # nid # ids) (Lo(j \<mapsto> dj')) (M(j \<mapsto> dj', nid \<mapsto> s', i \<mapsto> di'))"
    if nid: "M nid = None" "nid \<noteq> 0" and p: "halved ps fl r pls nid dj' s'" "inner_page ps fli di' (ks @ [k]) (cs @ [j, nid])"
    for nid dj' s' di'
  proof -
    let ?Lo = "Lo(j \<mapsto> dj')" and ?M = "M(j \<mapsto> dj', nid \<mapsto> s', i \<mapsto> di')"
    have nn: "nid \<notin> set (i # j # ids)" "i \<noteq> j" "nid \<notin> dom Lo" using edge_fresh [OF e nid(1)] E(1) by auto
    have lo: "Lo \<subseteq>\<^sub>m ?Lo" by (rule map_le_new [OF E(2) loj])
    have M: "?M nid = Some s'" "?M i = Some di'" "?Lo j = Some dj'" "nid \<noteq> j" "\<forall>x \<in> set ids. ?M x = M x" using nn E(1) by auto
    have tr: "tree_at (length ids) ps ?Lo k j lft" "spine ps b ?Lo ?M (nid # ids) (upper_half t # sh) rgt"
      using H(8) [OF p(1) nid(2) M(4) lo M(3,1,5)] by blast+
    have "\<forall>t < length (ks @ [k]). tree_at (length ids) ps ?Lo ((ks @ [k]) ! t) ((cs @ [j]) ! t) ((als @ [lft]) ! t)"
      using tr(1) s(6) tree_at_mono [OF _ lo] la by (auto simp: nth_append less_Suc_eq)
    moreover have "inner_page ps fli di' (ks @ [k]) ((cs @ [j]) @ [nid])" "separated (ks @ [k]) ((als @ [lft]) @ [rgt])"
      using p(2) sep by simp_all
    moreover have "\<forall>x \<in> set (ks @ [k]). x < b" using s(4) H(4) by simp
    moreover have "s @ [inner_size (split_size t)] = key_sizes (ks @ [k])" by (simp add: s(9) key_sizes_def H(2))
    moreover have "[] \<notin> set (als @ [lft])" "al = concat (als @ [lft]) @ rgt" using s(5,8) H(5) h(2) by auto
    ultimately have "spine ps b ?Lo ?M (i # nid # ids) ((s @ [inner_size (split_size t)]) # upper_half t # sh) al" using s(1) M(2) tr(2) unfolding spine.simps by blast
    moreover have "?Lo \<subseteq>\<^sub>m ?M" using E nn by (auto simp: map_le_def)
    moreover have "dom ?Lo \<inter> set (i # nid # ids) = {}" "distinct (i # nid # ids)" using E nn by auto
    ultimately show ?thesis using lo nn nid(1) by (auto simp: edge_def grown_def)
  qed
  then show thesis by (intro that [OF s(2) h(1) H(1-4)]) blast
qed

text \<open>At the root: a new root with one key above the halves.\<close>

lemma edge_split_root:
  assumes e: "edge ps b Lo M (j # ids) (s # sh) al" and dj: "M j = Some dj" and n: "2 \<le> unat (cell_count (header_of dj))"
  obtains fl r pls k where "page_rep ps dj fl r pls"
    and "keyed_payload fl (pls ! (length pls div 2 - 1)) k" and "length (vint_bytes k) = split_size s" and "unat k < 2 ^ 31" and "k < b"
    and "\<forall>nid rt dj' s' dr flr. M nid = None \<longrightarrow> nid \<noteq> 0 \<longrightarrow> M rt = None \<longrightarrow> rt \<noteq> 0 \<longrightarrow> rt \<noteq> nid \<longrightarrow>
      halved ps fl r pls nid dj' s' \<longrightarrow> inner_page ps flr dr [k] [j, nid] \<longrightarrow>
      edge ps b (Lo(j \<mapsto> dj')) (M(j \<mapsto> dj', nid \<mapsto> s', rt \<mapsto> dr)) (rt # nid # ids) ([inner_size (split_size s)] # upper_half s # sh) al"
proof -
  note E = edgeD [OF e]
  have loj: "Lo j = None" using E(3) by auto
  from spine_half [OF edge_spine [OF e] dj n loj] obtain fl r pls k lft rgt where
    h: "page_rep ps dj fl r pls" "al = lft @ rgt" "half_of ps b Lo M j ids s sh pls fl r k lft rgt" by blast
  note H = half_ofD [OF h(3)]
  have "edge ps b (Lo(j \<mapsto> dj')) (M(j \<mapsto> dj', nid \<mapsto> s', rt \<mapsto> dr)) (rt # nid # ids) ([inner_size (split_size s)] # upper_half s # sh) al"
    if nid: "M nid = None" "nid \<noteq> 0" and rt: "M rt = None" "rt \<noteq> 0" "rt \<noteq> nid"
      and p: "halved ps fl r pls nid dj' s'" "inner_page ps flr dr [k] [j, nid]" for nid rt dj' s' dr flr
  proof -
    let ?Lo = "Lo(j \<mapsto> dj')" and ?M = "M(j \<mapsto> dj', nid \<mapsto> s', rt \<mapsto> dr)"
    have nn: "nid \<notin> set (j # ids)" "rt \<notin> set (j # ids)" "nid \<notin> dom Lo" "rt \<notin> dom Lo"
      using edge_fresh [OF e nid(1)] edge_fresh [OF e rt(1)] by auto
    have lo: "Lo \<subseteq>\<^sub>m ?Lo" by (rule map_le_new [OF E(2) loj])
    have M: "?M nid = Some s'" "?M rt = Some dr" "?Lo j = Some dj'" "nid \<noteq> j" "\<forall>x \<in> set ids. ?M x = M x"
      using nn rt(3) E(1) by auto
    have t: "tree_at (length ids) ps ?Lo k j lft" "spine ps b ?Lo ?M (nid # ids) (upper_half s # sh) rgt"
      using H(8) [OF p(1) nid(2) M(4) lo M(3,1,5)] by blast+
    have "separated [k] ([lft] @ [rgt])" using H(3,6,7) by (simp add: separated_def less_Suc_eq)
    moreover have "inner_page ps flr dr [k] ([j] @ [nid])" using p(2) by simp
    moreover have "\<forall>t < length [k]. tree_at (length ids) ps ?Lo ([k] ! t) ([j] ! t) ([lft] ! t)" using t(1) by simp
    moreover have "[] \<notin> set [lft]" "al = concat [lft] @ rgt" using H(5) h(2) by simp_all
    moreover have "\<forall>x \<in> set [k]. x < b" using H(4) by simp
    moreover have "[inner_size (split_size s)] = key_sizes [k]" by (simp add: key_sizes_def H(2))
    ultimately have "spine ps b ?Lo ?M (rt # nid # ids) ([inner_size (split_size s)] # upper_half s # sh) al" using rt(2) M(2) t(2) unfolding spine.simps by blast
    moreover have "?Lo \<subseteq>\<^sub>m ?M" using E(2) nn by (auto simp: map_le_def)
    moreover have "dom ?Lo \<inter> set (rt # nid # ids) = {}" "distinct (rt # nid # ids)" using E nn rt(3) by auto
    ultimately show ?thesis by (simp add: edge_def)
  qed
  then show thesis by (intro that [OF h(1) H(1-4)]) blast
qed

text \<open>Insertion into the last leaf, and the tree that the spine is part of.\<close>

lemma edge_leaf:
  assumes e: "edge ps b Lo M [i] [s] al" and d: "M i = Some d" and k: "b < k" "id_ok k" "val_ok v"
  obtains fl r where "leaf_page ps fl r d al" and "k \<notin> fst ` set al"
    and "\<forall>d'. leaf_page ps fl r d' (leaf_insert k v al) \<longrightarrow> edge ps k Lo (M(i \<mapsto> d')) [i] [s @ [entry_size (k, v)]] (al @ [(k, v)]) \<and>
      grown [i] Lo M [i] Lo (M(i \<mapsto> d'))"
proof -
  from edge_spine [OF e] d obtain fl r where s: "i \<noteq> 0" "leaf_page ps fl r d al" "\<forall>e \<in> set al. fst e \<le> b"
    "s = map entry_size al" by auto
  have E: "Lo \<subseteq>\<^sub>m M" "dom Lo \<inter> set [i] = {}" using e by (simp_all only: edge_def)
  have new: "k \<notin> fst ` set al" using s(3) k(1) by fastforce
  have "filter (\<lambda>x. x < k) (map fst al) = map fst al" using s(3) k(1) by (auto simp: filter_id_conv intro: le_less_trans)
  then have ins: "leaf_insert k v al = al @ [(k, v)]" by (simp add: leaf_insert_def leaf_pos_def insert_at_def)
  show thesis
  proof (rule that [OF s(2) new], intro allI impI conjI)
    fix d'
    assume l: "leaf_page ps fl r d' (leaf_insert k v al)"
    have "spine ps k Lo (M(i \<mapsto> d')) [i] [s @ [entry_size (k, v)]] (al @ [(k, v)])"
      using s(1,3,4) l k(1) by (auto simp: ins intro: less_imp_le le_less_trans)
    then show "edge ps k Lo (M(i \<mapsto> d')) [i] [s @ [entry_size (k, v)]] (al @ [(k, v)])" using E by (auto simp: edge_def map_le_def)
    show "grown [i] Lo M [i] Lo (M(i \<mapsto> d'))" using d by (intro grown_refl) auto
  qed
qed

lemma edge_tree: "edge ps b Lo M (i # ids) sh al \<Longrightarrow> id_ok b \<Longrightarrow> tree_at (length ids) ps M max_id i al"
proof (induction ids arbitrary: i sh al)
  case Nil
  then show ?case using leaf_page_readable by (fastforce simp: edge_def)
next
  case (Cons j ids)
  from edge_spine [OF Cons.prems(1)] obtain d fl ks cs als sub sh' where
    s: "i \<noteq> 0" "M i = Some d" "inner_page ps fl d ks (cs @ [j])" "separated ks (als @ [sub])"
      "\<forall>x \<in> set ks. x < b" "al = concat als @ sub"
      "\<forall>t < length ks. tree_at (length ids) ps Lo (ks ! t) (cs ! t) (als ! t)" "spine ps b Lo M (j # ids) sh' sub" by auto
  have E: "distinct (i # j # ids)" "Lo \<subseteq>\<^sub>m M" "dom Lo \<inter> set (i # j # ids) = {}" using Cons.prems(1) by (simp_all only: edge_def)
  have "edge ps b Lo M (j # ids) sh' sub" using s(8) E by (auto simp: edge_def)
  then have t: "tree_at (length ids) ps M max_id j sub" using Cons by blast
  have la: "length als = length ks" "length cs = length ks" using s(3,4) by (simp_all add: separated_def inner_page_def)
  have sub: "\<forall>t < length ks. tree_at (length ids) ps M (ks ! t) (cs ! t) (als ! t)" using s(7) tree_at_mono [OF _ E(2)] by blast
  have "max_id \<notin> set ks"
  proof
    assume "max_id \<in> set ks"
    then have "max_id < b" using s(5) by blast
    then show False using Cons.prems(2) by (simp add: word_less_nat_alt id_ok_def)
  qed
  moreover have "i \<notin> set (cs @ [j])"
  proof
    assume "i \<in> set (cs @ [j])"
    then obtain t where "t < length ks" "cs ! t = i" using E(1) la(2) by (auto simp: in_set_conv_nth)
    then have "Lo i \<noteq> None" using s(7) tree_at_page by blast
    then show False using E(3) by auto
  qed
  ultimately show ?case
    using s(1,2,4,6) sub t la inner_page_readable [OF s(3)]
    by (simp, intro exI [of _ fl] exI [of _ ks] exI [of _ "cs @ [j]"] conjI exI [of _ "als @ [sub]"]) (simp_all add: nth_append)
qed

end
