(* ===== verification/BtreeTable.thy ===== *)
theory BtreeTable
  imports BtreeInsert
begin

text \<open>
  The table functions: ids and values are encoded into stack buffers and handed to the tree.
  From here on a value is a byte string \<open>v\<close>, passed as the blob \<open>value_arg v\<close>; the contents of
  the buffers before the call, \<open>kb\<close> and \<open>vb n\<close> for one of \<open>n\<close> bytes, are arbitrary.
\<close>

section \<open>Encoding the arguments\<close>

definition value_arg :: "byte list \<Rightarrow> blob_t" where
  "value_arg v = \<lparr>bsize = of_nat (length v), bdata = v\<rparr>"

lemma value_arg:
  assumes "val_ok v"
  shows "bsize (value_arg v) = of_nat (length v)" and "unat (bsize (value_arg v)) = length v"
    and "blob_valid (value_arg v)" and "blob_bytes (value_arg v) = v"
  using assms unat_len_u64 [of "length v"]
  by (simp_all add: value_arg_def blob_valid_def blob_bytes_def val_ok_def)

lemma table_key:
  assumes "id_ok k" and "length kb = 9"
  shows "\<exists>buf. varint_put kb k = Inr (buf, of_nat (length (vint_bytes k))) \<and>
    key_blob \<lparr>bsize = ucast (of_nat (length (vint_bytes k)) :: u16), bdata = buf\<rparr> k"
proof -
  have k: "unat k < 2 ^ 56" using assms(1) by (simp add: id_ok_def)
  note n = vint_len_8 [OF k]
  have "unat (of_nat (length (vint_bytes k)) :: u16) = length (vint_bytes k)" using n by (intro unat_of_nat_u16_lt) simp
  then have "unat (ucast (of_nat (length (vint_bytes k)) :: u16) :: u64) = length (vint_bytes k)"
    by (simp add: unsigned_ucast_eq)
  then show ?thesis using varint_put_correct [OF k, of kb] n assms(2) by (simp add: key_blob_def blob_valid_def blob_bytes_def)
qed

lemma table_value:
  assumes "val_ok v" and "length buf = unat (blob_put_len (value_arg v))"
  shows "\<exists>buf'. blob_put buf (value_arg v) = Inr (buf', blob_put_len (value_arg v)) \<and>
    val_blob \<lparr>bsize = blob_put_len (value_arg v), bdata = buf'\<rparr> v"
proof -
  note V = value_arg [OF assms(1)]
  have "unat (bsize (value_arg v)) < 2 ^ 56" using assms(1) by (simp add: V(2) val_ok_def)
  note p = blob_put_correct [OF this V(3), of buf] and l = unat_blob_put_len [OF this]
  have "blob_put buf (value_arg v) = Inr (vint_bytes (of_nat (length v)) @ v, blob_put_len (value_arg v))"
    using p assms(2) by (simp add: V(1,4))
  then show ?thesis using l V(2) by (simp add: val_blob_def blob_valid_def blob_bytes_def V(1))
qed

definition buffers_ok :: "byte list \<Rightarrow> (nat \<Rightarrow> byte list) \<Rightarrow> bool" where
  "buffers_ok kb vb \<longleftrightarrow> length kb = 9 \<and> (\<forall>n. length (vb n) = n)"

text \<open>The call of \<^verbatim>\<open>btree_table_insert\<close> for a value, with its variable-length array.\<close>

definition table_put ::
  "nat \<Rightarrow> nat \<Rightarrow> byte list \<Rightarrow> (nat \<Rightarrow> byte list) \<Rightarrow> btree_t \<Rightarrow> pager_t \<Rightarrow> u64 \<Rightarrow> byte list \<Rightarrow> error_state \<Rightarrow>
   (result \<times> btree_t \<times> pager_t \<times> error_state) outcome" where
  "table_put depth fuel kb vb bt p k v es =
     btree_table_insert depth fuel bt p k (value_arg v) kb (vb (unat (blob_put_len (value_arg v)))) es"

lemma table_put_insert:
  assumes "buffers_ok kb vb" and "id_ok k" and "val_ok v"
  obtains key val where "key_blob key k" and "val_blob val v"
    and "\<forall>depth fuel bt p es. table_put depth fuel kb vb bt p k v es = btree_insert depth fuel bt p key val es"
proof -
  have "length kb = 9" "length (vb (unat (blob_put_len (value_arg v)))) = unat (blob_put_len (value_arg v))"
    using assms(1) by (simp_all add: buffers_ok_def)
  with table_key [OF assms(2)] table_value [OF assms(3)] obtain kbuf vbuf where
    "varint_put kb k = Inr (kbuf, of_nat (length (vint_bytes k)))"
    "blob_put (vb (unat (blob_put_len (value_arg v)))) (value_arg v) = Inr (vbuf, blob_put_len (value_arg v))"
    and b: "key_blob \<lparr>bsize = ucast (of_nat (length (vint_bytes k)) :: u16), bdata = kbuf\<rparr> k"
    "val_blob \<lparr>bsize = blob_put_len (value_arg v), bdata = vbuf\<rparr> v" by blast
  then show thesis by (intro that [OF b]) (simp add: table_put_def btree_table_insert_def)
qed

section \<open>Lookup\<close>

text \<open>What a lookup of \<open>k\<close> must return if \<open>m k\<close> is stored: the value, or ENOENT.\<close>

definition lookup_answer :: "byte list option \<Rightarrow> error_state \<Rightarrow> result \<Rightarrow> blob_t option \<Rightarrow> error_state \<Rightarrow> bool" where
  "lookup_answer mk es r out es' \<longleftrightarrow>
     (case mk of
        Some v \<Rightarrow> r = SUCCESS \<and> es' = es \<and> (\<exists>b. out = Some b \<and> blob_valid b \<and> blob_bytes b = v)
      | None \<Rightarrow> r = FAILURE \<and> out = None \<and> error_code es' = ENOENT)"

lemma table_lookup_correct:
  assumes c: "caches ps c p M []" and tr: "tree_at h ps M max_id (root bt) al" and h: "h < depth"
    and key: "id_ok k" "length kb = 9" and es: "error_wf es"
  shows "\<exists>r out q es'. btree_table_lookup depth fuel bt p k kb es = Inr (r, out, q, es') \<and> caches ps c q M [] \<and>
    lookup_answer (map_of al k) es r out es'"
proof -
  from table_key [OF key] obtain buf where
    b: "varint_put kb k = Inr (buf, of_nat (length (vint_bytes k)))"
    "key_blob \<lparr>bsize = ucast (of_nat (length (vint_bytes k)) :: u16), bdata = buf\<rparr> k" by blast
  have "unat k < 2 ^ 31" using key(1) by (simp add: id_ok_def)
  from btree_lookup_correct [OF c tr h b(2) this es] obtain r out q es' where
    l: "btree_lookup depth fuel bt p \<lparr>bsize = ucast (of_nat (length (vint_bytes k)) :: u16), bdata = buf\<rparr> es = Inr (r, out, q, es')"
    "caches ps c q M []" "case map_of al k of
       Some v \<Rightarrow> r = SUCCESS \<and> es' = es \<and> table_entry (k, v) \<and> (\<exists>rest. out = vint_bytes (of_nat (length v)) @ v @ rest)
     | None \<Rightarrow> r = FAILURE \<and> error_wf es' \<and> error_code es' = ENOENT" by blast
  show ?thesis
  proof (cases "map_of al k")
    case (Some v)
    with l(3) have "length v + 16 < 2 ^ 16" by (simp add: table_entry_def)
    note get = value_blob_get [OF this]
    from Some l(3) obtain rest where "out = vint_bytes (of_nat (length v)) @ v @ rest" by auto
    with get [of rest] obtain x n where "blob_get out = Inr (x, n)" "blob_valid x" "blob_bytes x = v" by auto
    with Some l b(1) show ?thesis by (auto simp: btree_table_lookup_def lookup_answer_def)
  next
    case None
    with l(3) have f: "r = FAILURE" "error_wf es'" "error_code es' = ENOENT" by simp_all
    then have "error_code es' \<noteq> 0" by (simp add: ENOENT_def)
    from try_fail_correct [OF f(2) this] obtain es2 where
      "try_fail (''src/btree.c'', ''btree_table_lookup'', 501)
         ''try btree_lookup(btree, (blob_t){ key_len, key }, &value)'' es' = Inr (FAILURE, es2)" "error_code es2 = ENOENT"
      using f(3) by metis
    with None l b(1) f(1) show ?thesis by (auto simp: btree_table_lookup_def lookup_answer_def)
  qed
qed

section \<open>Filling a table\<close>

text \<open>The insertions of a program that stops at the first one that does not succeed.\<close>

primrec table_fill ::
  "nat \<Rightarrow> nat \<Rightarrow> byte list \<Rightarrow> (nat \<Rightarrow> byte list) \<Rightarrow> (u64 \<times> byte list) list \<Rightarrow> btree_t \<Rightarrow> pager_t \<Rightarrow> error_state \<Rightarrow>
   (result \<times> btree_t \<times> pager_t \<times> error_state) outcome" where
  "table_fill depth fuel kb vb [] bt p es = Inr (SUCCESS, bt, p, es)"
| "table_fill depth fuel kb vb (e # xs) bt p es =
     obind (table_put depth fuel kb vb bt p (fst e) (snd e) es) (\<lambda>(r, bt, p, es).
     if r \<noteq> SUCCESS then Inr (r, bt, p, es) else table_fill depth fuel kb vb xs bt p es)"

text \<open>As long as the entries fit into the root page, any order will do.\<close>

lemma table_fill_leaf:
  assumes "caches ps c p M []" and "M (root bt) = Some d" and "leaf_page ps fl r d al"
    and bt: "btree_page_size bt = of_nat ps" and buf: "buffers_ok kb vb" and es: "error_code es = 0"
    and "\<forall>e \<in> set xs. id_ok (fst e) \<and> val_ok (snd e)" and "distinct (map fst xs)" and "fst ` set al \<inter> fst ` set xs = {}"
    and "12 + leaf_used al + leaf_used xs \<le> ps"
  shows "\<exists>q d' al'. table_fill depth fuel kb vb xs bt p es = Inr (SUCCESS, bt, q, es) \<and>
    caches ps c q (M(root bt \<mapsto> d')) [] \<and> leaf_page ps fl r d' al' \<and> map_of al' = map_of al ++ map_of xs"
  using assms(1-3,7-10)
proof (induction xs arbitrary: p M d al)
  case Nil
  then have "M(root bt \<mapsto> d) = M" by (auto simp: fun_eq_iff)
  with Nil show ?case by (intro exI [of _ p] exI [of _ d] exI [of _ al]) simp
next
  case (Cons e xs)
  obtain k v where e: "e = (k, v)" by (cases e)
  have kv: "id_ok k" "val_ok v" "k \<notin> fst ` set al" using Cons.prems(4,6) by (simp_all add: e)
  obtain key val where b: "key_blob key k" "val_blob val v"
    "\<forall>depth fuel bt p es. table_put depth fuel kb vb bt p k v es = btree_insert depth fuel bt p key val es"
    by (rule table_put_insert [OF buf kv(1,2)])
  have fits: "12 + leaf_used ((k, v) # al) \<le> ps" using Cons.prems(7) by (simp add: e)
  from btree_insert_root_leaf [OF Cons.prems(1-3) bt b(1) kv(1) b(2) kv(2,3) fits, of es depth fuel] es obtain d' q where
    i: "leaf_page ps fl r d' (leaf_insert k v al)" "btree_insert depth fuel bt p key val es = Inr (SUCCESS, bt, q, es)"
    "caches ps c q (M(root bt \<mapsto> d')) []" by auto
  have L: "sorted (map fst al)" "distinct (map fst al)" using Cons.prems(3) by (simp_all add: leaf_page_def)
  note F = leaf_insert_facts [OF L kv(3), of v]
  have dj: "fst ` set (leaf_insert k v al) \<inter> fst ` set xs = {}" unfolding F(4) using Cons.prems(5,6) by (auto simp: e)
  have sz: "12 + leaf_used (leaf_insert k v al) + leaf_used xs \<le> ps" using Cons.prems(7) by (simp add: leaf_used_insert e)
  have tl: "\<forall>e \<in> set xs. id_ok (fst e) \<and> val_ok (snd e)" "distinct (map fst xs)" using Cons.prems(4,5) by simp_all
  have at: "(M(root bt \<mapsto> d')) (root bt) = Some d'" by simp
  from Cons.IH [OF i(3) at i(1) tl dj sz, unfolded fun_upd_upd] obtain q' d'' al' where
    t: "table_fill depth fuel kb vb xs bt q es = Inr (SUCCESS, bt, q', es)" "caches ps c q' (M(root bt \<mapsto> d'')) []"
    "leaf_page ps fl r d'' al'" "map_of al' = map_of (leaf_insert k v al) ++ map_of xs" by blast
  have "k \<notin> dom (map_of xs)" using Cons.prems(5) by (simp add: e dom_map_of_conv_image_fst)
  then have "map_of al' = map_of al ++ map_of (e # xs)" unfolding t(4) F(3) e by (simp add: map_add_upd_left)
  moreover have "table_fill depth fuel kb vb (e # xs) bt p es = Inr (SUCCESS, bt, q', es)" using t(1) i(2) b(3) by (simp add: e)
  ultimately show ?case using t(2,3) by blast
qed

section \<open>A new table\<close>

lemma tree_at_leaf: "i \<noteq> 0 \<Longrightarrow> M i = Some d \<Longrightarrow> leaf_page ps fl r d al \<Longrightarrow> tree_at 0 ps M u i al"
  using leaf_page_readable by fastforce

lemma opened_table_ids:
  assumes n: "power_of_two_or_zero n" "2 \<le> unat n" "Suc k < unat (seven_tenths n)" and ps: "12 \<le> unat ps"
    and ms: "\<forall>j. ms j \<noteq> None" and fuel: "length sp + 2 * unat (seven_tenths n) \<le> fuel" and ty: "\<not> page_is_index_uuid ty"
    and es: "error_wf es" "error_code es = 0"
  obtains p bt q c M d where "pager_open ps n ms sp es = Inr (SUCCESS, Some (Live p), es)"
    and "btree_create fuel p ty es = Inr (SUCCESS, Some (Live bt), q, es)"
    and "caches (unat ps) c q M []" and "roomy k fuel c M" and "M (root bt) = Some d" and "root bt \<noteq> 0"
    and "leaf_page (unat ps) (page_flags_package True ty) 0 d []" and "btree_page_size bt = of_nat (unat ps)"
    and "root bt = 1" and "next_id c = 2"
proof -
  let ?p = "fresh_pager ps n (\<lambda>j. ms (j + 3)) sp"
  have o: "pager_open ps n ms sp es = Inr (SUCCESS, Some (Live ?p), es)"
    using ms by (subst pager_open_fresh [OF n(1)]) (simp_all add: errdefer_runs_def error_get_code_def es(2))
  note c = caches_fresh [OF n(1,2), of ps "\<lambda>j. ms (j + 3)" sp]
  have "unat (seven_tenths n) < 2 ^ 32" using unsigned_less [of "seven_tenths n", where ?'a = nat] by simp
  then have "roomy (Suc k) fuel (seven_tenths n, 1, \<lambda>j. ms (j + 3), sp) Map.empty"
    using n(3) ms fuel by (simp add: roomy_def)
  moreover have "unat ps < 2 ^ 16" using unsigned_less [of ps, where ?'a = nat] by simp
  ultimately obtain bt q c' d where
    b: "btree_create fuel ?p ty es = Inr (SUCCESS, Some (Live bt), q, es)" "btree_page_size bt = of_nat (unat ps)"
    "root bt \<noteq> 0" "caches (unat ps) c' q [root bt \<mapsto> d] []" "roomy k fuel c' [root bt \<mapsto> d]"
    "leaf_page (unat ps) (page_flags_package True ty) 0 d []" "root bt = 1" "next_id c' = 2"
    using btree_create_correct [OF c _ es ps _ ty] by fastforce
  then show thesis by (intro that [OF o b(1,4,5) _ b(3,6,2,7,8)]) simp
qed

lemma opened_table_from:
  assumes n: "power_of_two_or_zero n" "2 \<le> unat n" "Suc k < unat (seven_tenths n)" and ps: "12 \<le> unat ps"
    and ms: "\<forall>j. ms j \<noteq> None" and fuel: "length sp + 2 * unat (seven_tenths n) \<le> fuel" and ty: "\<not> page_is_index_uuid ty"
    and es: "error_wf es" "error_code es = 0"
  obtains p bt q c M d where "pager_open ps n ms sp es = Inr (SUCCESS, Some (Live p), es)"
    and "btree_create fuel p ty es = Inr (SUCCESS, Some (Live bt), q, es)"
    and "caches (unat ps) c q M []" and "roomy k fuel c M" and "M (root bt) = Some d" and "root bt \<noteq> 0"
    and "leaf_page (unat ps) (page_flags_package True ty) 0 d []" and "btree_page_size bt = of_nat (unat ps)"
  by (rule opened_table_ids [OF n ps ms fuel ty es]) (rule that)

lemma opened_table:
  assumes n: "power_of_two_or_zero n" "2 \<le> unat n" "Suc k < unat (seven_tenths n)" and ps: "12 \<le> unat ps"
    and ms: "\<forall>j. ms j \<noteq> None" and fuel: "length sp + 2 * unat (seven_tenths n) \<le> fuel" and ty: "\<not> page_is_index_uuid ty"
  obtains p bt q c M d where "pager_open ps n ms sp error_init = Inr (SUCCESS, Some (Live p), error_init)"
    and "btree_create fuel p ty error_init = Inr (SUCCESS, Some (Live bt), q, error_init)"
    and "caches (unat ps) c q M []" and "roomy k fuel c M" and "M (root bt) = Some d" and "root bt \<noteq> 0"
    and "leaf_page (unat ps) (page_flags_package True ty) 0 d []" and "btree_page_size bt = of_nat (unat ps)"
proof -
  have "error_code error_init = 0" by (simp add: error_init_def)
  then show thesis by (rule opened_table_from [OF n ps ms fuel ty error_wf_init]) (rule that)
qed

section \<open>Properties\<close>

text \<open>
  C4: What a table stores it returns. A pager is opened, a table created in it and any list of
  entries with distinct ids that fits into one page is inserted, in whatever order and whatever
  the buffers on the stack and the memory from the allocator held. All the calls succeed, and
  afterwards \<^verbatim>\<open>btree_table_lookup\<close> returns the value of every id that was inserted and
  reports ENOENT for every other id.
\<close>

theorem table_fill_and_read:
  assumes "power_of_two_or_zero n" and "4 \<le> unat n" and "12 + leaf_used xs \<le> unat ps"
    and "\<forall>j. ms j \<noteq> None" and "length sp + 2 * unat n \<le> fuel" and "\<not> page_is_index_uuid ty" and "0 < depth"
    and "buffers_ok kb vb" and "distinct (map fst xs)" and "\<forall>e \<in> set xs. id_ok (fst e) \<and> val_ok (snd e)"
  shows "\<exists>p bt q s. pager_open ps n ms sp error_init = Inr (SUCCESS, Some (Live p), error_init) \<and>
    btree_create fuel p ty error_init = Inr (SUCCESS, Some (Live bt), q, error_init) \<and>
    table_fill depth fuel kb vb xs bt q error_init = Inr (SUCCESS, bt, s, error_init) \<and>
    (\<forall>k. id_ok k \<longrightarrow> (\<exists>r out s' es. btree_table_lookup depth fuel bt s k kb error_init = Inr (r, out, s', es) \<and>
      lookup_answer (map_of xs k) error_init r out es))"
proof -
  have sz: "unat (seven_tenths n) = 7 * unat n div 10" by (rule unat_seven_tenths [OF power_of_two_bound [OF assms(1)]])
  have "2 \<le> unat n" "Suc 0 < unat (seven_tenths n)" "12 \<le> unat ps" "length sp + 2 * unat (seven_tenths n) \<le> fuel"
    using assms(2,3,5) unfolding sz by simp_all
  note pre = this
  obtain p bt q c M d where
    o: "pager_open ps n ms sp error_init = Inr (SUCCESS, Some (Live p), error_init)"
      "btree_create fuel p ty error_init = Inr (SUCCESS, Some (Live bt), q, error_init)"
    and c: "caches (unat ps) c q M []" "M (root bt) = Some d" "root bt \<noteq> 0"
      "leaf_page (unat ps) (page_flags_package True ty) 0 d []" "btree_page_size bt = of_nat (unat ps)"
    by (rule opened_table [OF assms(1) pre(1-3) assms(4) pre(4) assms(6)])
  have es: "error_code error_init = 0" by (simp add: error_init_def)
  have fits: "fst ` set [] \<inter> fst ` set xs = {}" "12 + leaf_used [] + leaf_used xs \<le> unat ps" using assms(3) by simp_all
  from table_fill_leaf [OF c(1,2,4,5) assms(8) es assms(10,9) fits, of depth fuel] obtain s d' al where
    f: "table_fill depth fuel kb vb xs bt q error_init = Inr (SUCCESS, bt, s, error_init)"
    "caches (unat ps) c s (M(root bt \<mapsto> d')) []" "leaf_page (unat ps) (page_flags_package True ty) 0 d' al"
    "map_of al = map_of xs" by auto
  have t: "tree_at 0 (unat ps) (M(root bt \<mapsto> d')) max_id (root bt) al" by (rule tree_at_leaf [OF c(3) _ f(3)]) simp
  have "length kb = 9" using assms(8) by (simp add: buffers_ok_def)
  from table_lookup_correct [OF f(2) t assms(7) _ this error_wf_init] have
    "\<forall>k. id_ok k \<longrightarrow> (\<exists>r out s' es. btree_table_lookup depth fuel bt s k kb error_init = Inr (r, out, s', es) \<and>
      lookup_answer (map_of xs k) error_init r out es)" unfolding f(4) by blast
  with o f(1) show ?thesis by blast
qed

lemma example_buffers: "buffers_ok (replicate 9 0xaa) (\<lambda>n. replicate n 0xbb)"
  by (simp add: buffers_ok_def)

theorem table_fill_and_read_witness:
  "\<exists>p bt q s. pager_open 64 4 (\<lambda>_. Some (\<lambda>_. 0xcd)) [True] error_init = Inr (SUCCESS, Some (Live p), error_init) \<and>
    btree_create 9 p 0 error_init = Inr (SUCCESS, Some (Live bt), q, error_init) \<and>
    table_fill 1 9 (replicate 9 0xaa) (\<lambda>n. replicate n 0xbb) [(7, [1, 2]), (3, []), (300, [9])] bt q error_init =
      Inr (SUCCESS, bt, s, error_init) \<and>
    (\<forall>k. id_ok k \<longrightarrow> (\<exists>r out s' es. btree_table_lookup 1 9 bt s k (replicate 9 0xaa) error_init = Inr (r, out, s', es) \<and>
      lookup_answer (map_of [(7, [1, 2]), (3, []), (300, [9])] k) error_init r out es))"
  by (rule table_fill_and_read [OF _ _ _ _ _ _ _ example_buffers])
    (simp_all add: power_of_two_or_zero_def page_is_index_uuid_def PAGE_FLAG_INDEX_UUID_def
      id_ok_def val_ok_def leaf_entry_def vint_bytes.simps)

text \<open>A table with one entry, for the witnesses.\<close>

lemma example_table:
  "\<exists>(bt :: btree_t) c q M d fl r. caches 64 c q M [] \<and> M (root bt) = Some d \<and> root bt \<noteq> 0 \<and> leaf_page 64 fl r d [(5, [8])] \<and>
    btree_page_size bt = of_nat 64 \<and> roomy 4 40 c M"
proof -
  have n: "power_of_two_or_zero 16" "2 \<le> unat (16 :: u32)" "Suc 4 < unat (seven_tenths 16)" "12 \<le> unat (64 :: u16)"
    and ms: "\<forall>j :: nat. Some (\<lambda>_ :: nat. 0xcd :: byte) \<noteq> None" and fuel: "length [] + 2 * unat (seven_tenths 16) \<le> 40"
    and ty: "\<not> page_is_index_uuid 0"
    by (simp_all add: power_of_two_or_zero_def seven_tenths_def page_is_index_uuid_def)
  have u: "unat (64 :: u16) = 64" by simp
  obtain bt :: btree_t and q c M d where
    c: "caches 64 c q M []" "M (root bt) = Some d" "root bt \<noteq> 0" "btree_page_size bt = of_nat 64"
      "leaf_page 64 (page_flags_package True 0) 0 d []" "roomy 4 40 c M"
    by (rule opened_table [OF n ms fuel ty, unfolded u]) (rule that; assumption)
  have es: "error_code error_init = 0" by (simp add: error_init_def)
  have fits: "12 + leaf_used [(5, [8])] \<le> 64" by (simp add: leaf_entry_def vint_bytes.simps)
  have kv: "id_ok 5" "val_ok [8]" by (simp_all add: id_ok_def val_ok_def)
  from btree_insert_root_leaf [OF c(1,2,5,4) key_blob_of [OF kv(1)] kv(1) val_blob_of [OF kv(2)] kv(2) _ fits, of error_init 1 9]
  obtain d' q' where "leaf_page 64 (page_flags_package True 0) 0 d' (leaf_insert 5 [8] [])" "caches 64 c q' (M(root bt \<mapsto> d')) []"
    unfolding if_P [OF es] by auto
  moreover have "leaf_insert 5 [8] [] = [(5, [8 :: byte])]" by (simp add: leaf_insert_def leaf_pos_def insert_at_def)
  moreover have "roomy 4 40 c (M(root bt \<mapsto> d'))" by (rule roomy_contents [OF c(6)]) (use c(2) in auto)
  ultimately show ?thesis using c(3,4) by (metis fun_upd_same)
qed

text \<open>
  C6: Lookup in a tree of any height. If the pages below the root form a search tree for the
  entries \<open>al\<close>, \<^verbatim>\<open>btree_table_lookup\<close> descends to the right leaf, giving back every page on
  the way, and returns the value stored for the id, or ENOENT if there is none. Only the
  contents and the order of the pages matter, so the pages that a split leaves with a wrong
  \<^verbatim>\<open>free_space\<close> are searched correctly too.
\<close>

theorem table_lookup_finds:
  assumes "caches ps c p M []" and "tree_at h ps M max_id (root bt) al" and "h < depth"
    and "id_ok k" and "length kb = 9" and "error_wf es"
  shows "\<exists>r out q es'. btree_table_lookup depth fuel bt p k kb es = Inr (r, out, q, es') \<and> caches ps c q M [] \<and>
    lookup_answer (map_of al k) es r out es'"
  by (rule table_lookup_correct [OF assms])

theorem table_lookup_finds_witness:
  "\<exists>bt p M. (\<exists>c. caches 64 c p M []) \<and> tree_at 0 64 M max_id (root bt) [(5, [8])] \<and>
    (\<exists>b q. btree_table_lookup 1 9 bt p 5 (replicate 9 0xaa) error_init = Inr (SUCCESS, Some b, q, error_init) \<and>
      blob_valid b \<and> blob_bytes b = [8])"
proof -
  from example_table obtain bt :: btree_t and c q M d fl r where
    t: "caches 64 c q M []" "M (root bt) = Some d" "root bt \<noteq> 0" "leaf_page 64 fl r d [(5, [8])]" by blast
  have tr: "tree_at 0 64 M max_id (root bt) [(5, [8])]" by (rule tree_at_leaf [where M = M, OF t(3,2,4)])
  have k: "id_ok 5" "length (replicate 9 0xaa :: byte list) = 9" by (simp_all add: id_ok_def)
  from table_lookup_finds [OF t(1) tr zero_less_one k error_wf_init, of 9] obtain res out s es where
    "btree_table_lookup 1 9 bt q 5 (replicate 9 0xaa) error_init = Inr (res, out, s, es)"
    "lookup_answer (map_of [(5, [8])] (5 :: u64)) error_init res out es" by blast
  then have "\<exists>b s. btree_table_lookup 1 9 bt q 5 (replicate 9 0xaa) error_init = Inr (SUCCESS, Some b, s, error_init) \<and>
      blob_valid b \<and> blob_bytes b = [8]" by (auto simp: lookup_answer_def)
  with t(1) tr show ?thesis by blast
qed



text \<open>
  C15: Inserting after an earlier failure. While the error code of an earlier call has not been
  cleared, an insertion that would succeed aborts: the \<^verbatim>\<open>errdefer\<close> of \<^verbatim>\<open>btree_insert\<close> tests
  that code and unfixes the root a second time.
\<close>

theorem table_insert_stale_code_aborts:
  assumes "caches ps c p M []" and "M (root bt) = Some d" and "leaf_page ps fl r d al"
    and "btree_page_size bt = of_nat ps" and "buffers_ok kb vb" and "id_ok k" and "val_ok v" and "k \<notin> fst ` set al"
    and "12 + leaf_used ((k, v) # al) \<le> ps" and "error_code es \<noteq> 0"
  shows "table_put depth fuel kb vb bt p k v es = Inl Assertion_failed"
proof -
  obtain key val where "key_blob key k" "val_blob val v"
    "\<forall>depth fuel bt p es. table_put depth fuel kb vb bt p k v es = btree_insert depth fuel bt p key val es"
    by (rule table_put_insert [OF assms(5-7)])
  with btree_insert_root_leaf [OF assms(1-4) _ assms(6) _ assms(7-9), of key val es] assms(10) show ?thesis by simp
qed

theorem table_insert_stale_code_aborts_witness:
  "\<exists>bt p M. (\<exists>c. caches 64 c p M []) \<and> M (root bt) \<noteq> None \<and>
    table_put 1 9 (replicate 9 0xaa) (\<lambda>n. replicate n 0xbb) bt p 6 [1, 2] (error_init\<lparr>error_code := ENOENT\<rparr>) = Inl Assertion_failed"
proof -
  from example_table obtain bt :: btree_t and c q M d fl r where
    t: "caches 64 c q M []" "M (root bt) = Some d" "leaf_page 64 fl r d [(5, [8])]" "btree_page_size bt = of_nat 64" by blast
  have "table_put 1 9 (replicate 9 0xaa) (\<lambda>n. replicate n 0xbb) bt q 6 [1, 2] (error_init\<lparr>error_code := ENOENT\<rparr>) = Inl Assertion_failed"
    by (rule table_insert_stale_code_aborts [OF t example_buffers])
      (simp_all add: id_ok_def val_ok_def leaf_entry_def vint_bytes.simps ENOENT_def)
  with t(1,2) show ?thesis by blast
qed

text \<open>
  C16: Two bytes short. \<^verbatim>\<open>btree_insert\<close> splits a page only if \<^verbatim>\<open>free_space\<close> is less than the
  length of the payload. If the payload fits but the two bytes of its cell do not, the page
  is not split, and the assertion of \<^verbatim>\<open>page_insert_payload\<close> aborts the program.
\<close>

theorem table_insert_no_cell_aborts:
  assumes "caches ps c p M []" and "M (root bt) = Some d" and "leaf_page ps fl r d al"
    and "btree_page_size bt = of_nat ps" and "buffers_ok kb vb" and "id_ok k" and "val_ok v" and "k \<notin> fst ` set al"
    and "12 + leaf_used al + length (leaf_entry (k, v)) \<le> ps" and "ps < 12 + leaf_used ((k, v) # al)"
  shows "table_put depth fuel kb vb bt p k v es = Inl Assertion_failed"
proof -
  obtain key val where "key_blob key k" "val_blob val v"
    "\<forall>depth fuel bt p es. table_put depth fuel kb vb bt p k v es = btree_insert depth fuel bt p key val es"
    by (rule table_put_insert [OF assms(5-7)])
  with btree_insert_no_cell [OF assms(1-4) _ assms(6) _ assms(7-10)] show ?thesis by simp
qed

theorem table_insert_no_cell_aborts_witness:
  "\<exists>bt p M. (\<exists>c. caches 64 c p M []) \<and> M (root bt) \<noteq> None \<and>
    table_put 1 9 (replicate 9 0xaa) (\<lambda>n. replicate n 0xbb) bt p 6 (replicate 45 1) error_init = Inl Assertion_failed"
proof -
  from example_table obtain bt :: btree_t and c q M d fl r where
    t: "caches 64 c q M []" "M (root bt) = Some d" "leaf_page 64 fl r d [(5, [8])]" "btree_page_size bt = of_nat 64" by blast
  have "table_put 1 9 (replicate 9 0xaa) (\<lambda>n. replicate n 0xbb) bt q 6 (replicate 45 1) error_init = Inl Assertion_failed"
    by (rule table_insert_no_cell_aborts [OF t example_buffers])
      (simp_all add: id_ok_def val_ok_def leaf_entry_def vint_bytes.simps)
  with t(1,2) show ?thesis by blast
qed

end
