(* ===== verification/BtreeWalk.thy ===== *)
theory BtreeWalk
  imports BtreeSpine BtreeTable
begin

text \<open>
  \<^verbatim>\<open>btree_insert_walk\<close> for an id above all ids of the tree: the descent along the right edge, with
  the splits of full pages on the way. It does what \<open>shape_walk\<close> computes from the sizes: it
  succeeds with the sizes it gives, and aborts if there are none.
\<close>

section \<open>The test for a full page\<close>

lemma spine_cells:
  assumes "spine ps b Lo M (i # ids) (s # sh) al" and "M i = Some d"
  shows "room d = spare ps s" and "12 + taken s \<le> ps"
    and "unat (free_space (header_of d)) = spare ps s" and "unat (cell_count (header_of d)) = length s"
    and "\<not> page_is_index_uuid (flags (header_of d))" and "12 \<le> length d"
    and "page_is_leaf (flags (header_of d)) \<longleftrightarrow> ids = []" and "page_is_inner (flags (header_of d)) \<longleftrightarrow> ids \<noteq> []"
    and "ids = [] \<longleftrightarrow> sh = []"
proof -
  obtain fl r pls s' ts where h: "s # sh = s' # ts" "page_rep ps d fl r pls" "\<not> page_is_index_uuid fl" "free_exact d"
    "sizes_of ps d pls s'" "flags (header_of d) = fl" "page_is_leaf fl \<longleftrightarrow> ids = []" "page_is_inner fl \<longleftrightarrow> ids \<noteq> []"
    by (rule spine_head [OF assms])
  note S = sizes_room [OF h(5)]
  show "room d = spare ps s" "12 + taken s \<le> ps" "unat (cell_count (header_of d)) = length s" using S h(1) by simp_all
  then show "unat (free_space (header_of d)) = spare ps s" using h(4) by (simp add: free_exact_def)
  show "\<not> page_is_index_uuid (flags (header_of d))" "page_is_leaf (flags (header_of d)) \<longleftrightarrow> ids = []"
    "page_is_inner (flags (header_of d)) \<longleftrightarrow> ids \<noteq> []" using h by simp_all
  show "12 \<le> length d" using page_repD(4) [OF h(2)] .
  show "ids = [] \<longleftrightarrow> sh = []" using spine_length [OF assms(1)] by auto
qed

text \<open>The space that \<^verbatim>\<open>btree_insert\<close> asks for.\<close>

lemma unat_put_need:
  assumes "key_blob key k" and "val_blob val v" and "id_ok k" and "val_ok v"
  shows "unat (payload_put_len fl key val) = (if page_is_inner fl then fst (entry_size (k, v)) + 4 else snd (entry_size (k, v)))"
proof (cases "page_is_inner fl")
  case True
  have "unat (bsize key) = length (vint_bytes k)" using assms(1) length_blob_bytes [of key] by (simp add: key_blob_def)
  moreover have "length (vint_bytes k) \<le> 8" using assms(3) by (intro vint_len_8) (simp add: id_ok_def)
  ultimately show ?thesis
    using True by (simp add: payload_put_len_def entry_size_def unat_word_ariths unsigned_ucast_eq take_bit_eq_mod)
next
  case False
  then have "page_is_leaf fl" by (simp add: page_is_leaf_def page_is_inner_def)
  from unat_put_len [OF this assms] False show ?thesis by (simp add: entry_size_def)
qed

lemma full_test:
  assumes sp: "spine ps b Lo M (i # ids) (s # sh) al" and d: "M i = Some d"
    and e: "key_blob key k" "val_blob val v" "id_ok k" "val_ok v"
  shows "free_space (header_of d) < payload_put_len (flags (header_of d)) key val \<longleftrightarrow> spare ps s < needed (entry_size (k, v)) sh"
  using spine_cells(3,8,9) [OF sp d] unat_put_need [OF e] by (simp add: word_less_nat_alt needed_def)

lemma compare_keys:
  assumes "key_blob a x" and "key_blob b y" and "unat x < 2 ^ 31" and "unat y < 2 ^ 31"
  shows "\<exists>c. key_compare (bdata a) (bdata b) = Inr c \<and> (c < 0 \<longleftrightarrow> x < y) \<and> (0 < c \<longleftrightarrow> y < x)"
proof -
  have "unat x < 2 ^ 56" "unat y < 2 ^ 56" using assms(3,4) by simp_all
  from key_blob_get [OF assms(1) this(1)] key_blob_get [OF assms(2) this(2)]
  have "key_compare (bdata a) (bdata b) = Inr (cmp32 x y)" by (simp add: key_compare_def cmp32_def)
  moreover have "cmp32 x y < 0 \<longleftrightarrow> x < y" "0 < cmp32 x y \<longleftrightarrow> y < x"
    unfolding cmp32_small [OF assms(3,4)] word_less_nat_alt by linarith+
  ultimately show ?thesis by blast
qed

lemma compare_above:
  assumes "key_blob a x" and "key_blob b y" and "unat x < 2 ^ 31" and "unat y < 2 ^ 31" and "y < x"
  shows "\<exists>c. key_compare (bdata a) (bdata b) = Inr c \<and> 0 < c"
  using compare_keys [OF assms(1-4)] assms(5) by blast

lemma inner_cells:
  assumes "inner_page ps fl d ks cs"
  shows "unat (cell_count (header_of d)) = length ks" and "page_is_inner (flags (header_of d))"
    and "12 \<le> length d"
proof -
  from assms have I: "page_rep ps d fl (last cs) (inner_payloads ks cs)" "page_is_inner fl" "length cs = Suc (length ks)"
    by (simp_all add: inner_page_def)
  then show "unat (cell_count (header_of d)) = length ks" "page_is_inner (flags (header_of d))" "12 \<le> length d"
    using page_repD(4,5,7) [OF I(1)] by simp_all
qed

lemma roomy_mono: "roomy k fuel c M \<Longrightarrow> k' \<le> k \<Longrightarrow> roomy k' fuel c M"
  by (auto simp: roomy_def)

section \<open>One step down\<close>

lemma edge_page:
  assumes e: "edge ps b Lo M (j # ids) (s # sh) al" and d: "M j = Some d" "2 \<le> length s" and rep: "page_rep ps d fl r pls"
  shows "2 \<le> length pls" and "\<not> page_is_index_uuid fl" and "2 \<le> unat (cell_count (header_of d))"
  using spine_cells(4,5) [OF edge_spine [OF e] d(1)] page_repD(5,7) [OF rep] d(2) by simp_all

text \<open>
  The page below an inner page of the spine is full: it is split, and the descent goes on with
  the upper half.
\<close>

lemma walk_split_edge:
  assumes c: "caches ps c p M [pgc, pg]" and e: "edge ps b Lo M (tid pg # tid pgc # ids) (s # t # sh) al" and b: "b < k"
    and bt: "btree_page_size bt = of_nat ps" and key: "key_blob key k" "unat k < 2 ^ 31"
    and di: "M (tid pg) = Some di" "split_size t + 6 \<le> spare ps s" and dj: "M (tid pgc) = Some dj" "2 \<le> length t"
    and room: "roomy (Suc m) fuel c M" and es: "error_wf es"
  shows "\<exists>pgs q c' Lo' M'. walk_split fuel bt p pg (cell_count (header_of di)) pgc key es = Inr (SUCCESS, Some pgs, q, es) \<and>
    caches ps c' q M' [pgs, pg] \<and> roomy m fuel c' M' \<and> edge ps b Lo' M' (tid pg # tid pgs # ids) ((s @ [inner_size (split_size t)]) # upper_half t # sh) al \<and>
    grown (tid pg # tid pgc # ids) Lo M (tid pg # tid pgs # ids) Lo' M'"
proof -
  let ?i = "tid pg" and ?j = "tid pgc"
  obtain pre sub where tl: "edge ps b Lo M (?j # ids) (t # sh) sub" by (rule edge_tail [OF e])
  obtain fli ks cs fl r pls k0 where
    w: "inner_page ps fli di ks (cs @ [?j])" "page_rep ps dj fl r pls" "keyed_payload fl (pls ! (length pls div 2 - 1)) k0"
      "length (vint_bytes k0) = split_size t" "unat k0 < 2 ^ 31" "k0 < b"
    and fin: "\<forall>nid dj' s' di'. M nid = None \<longrightarrow> nid \<noteq> 0 \<longrightarrow> halved ps fl r pls nid dj' s' \<longrightarrow>
      inner_page ps fli di' (ks @ [k0]) (cs @ [?j, nid]) \<longrightarrow>
      edge ps b (Lo(?j \<mapsto> dj')) (M(?j \<mapsto> dj', nid \<mapsto> s', ?i \<mapsto> di')) (?i # nid # ids)
        ((s @ [inner_size (split_size t)]) # upper_half t # sh) al \<and>
      grown (?i # ?j # ids) Lo M (?i # nid # ids) (Lo(?j \<mapsto> dj')) (M(?j \<mapsto> dj', nid \<mapsto> s', ?i \<mapsto> di'))"
    by (rule edge_split_child [OF e di(1) dj(1)]) (use spine_cells(4) [OF edge_spine [OF tl] dj(1)] dj(2) in simp)
  note P = edge_page [OF tl dj w(2)]
  have "pgc \<in> set [pgc, pg]" by simp
  from next_split [OF c this dj(1) w(2) P(1,2) w(3) room es] obtain pgs p1 p2 c' sk dj' s' where
    n: "pager_next fuel p es = Inr (SUCCESS, Some pgs, p1, es)" "split_pages p1 pgc pgs (of_nat ps) = Inr (p2, sk)" "key_blob sk k0"
      "caches ps c' p2 (M(?j \<mapsto> dj', tid pgs \<mapsto> s')) [pgs, pgc, pg]" "roomy m fuel c' (M(?j \<mapsto> dj', tid pgs \<mapsto> s'))"
      "M (tid pgs) = None" "tid pgs \<noteq> 0" "halved ps fl r pls (tid pgs) dj' s'" by blast
  let ?n = "tid pgs"
  have ne: "?n \<noteq> ?i" "?n \<noteq> ?j" "?i \<noteq> ?j" using n(6) di(1) dj(1) e by (auto simp: edge_def)
  note ic = inner_cells(1) [OF w(1)] and fi = inner_cells(2) [OF w(1)]
  have "length (vint_bytes k0) + 6 \<le> room di" using di(2) w(4) spine_cells(1) [OF edge_spine [OF e] di(1)] by simp
  from page_insert_inner_correct [OF w(1) n(3) _ _ this, of "cell_count (header_of di)" ?n] ic w(5) obtain di' where
    pi: "page_insert_inner di (of_nat ps) (cell_count (header_of di)) sk ?n = Inr di'"
    "inner_page ps fli di' (ks @ [k0]) (cs @ [?j, ?n])"
    using w(1) by (auto simp: ic insert_at_def inner_page_def)
  have rd: "page_data p2 pg = Inr di" using caches_read [OF n(4), of pg] di(1) ne by simp
  let ?M = "M(?j \<mapsto> dj', ?n \<mapsto> s', ?i \<mapsto> di')"
  have "length di' = ps" using pi(2) page_repD(1) by (auto simp: inner_page_def)
  from caches_write [OF n(4) _ this, of pg] have wr: "caches ps c' (write_data p2 (tptr pg) di') ?M [pgs, pgc, pg]" by simp
  have "remove1 pgc [pgs, pgc, pg] = [pgs, pg]" using ne(2) by auto
  with caches_unfix [OF wr, of pgc] obtain q where
    u: "pager_unfix (write_data p2 (tptr pg) di') pgc = Inr q" "caches ps c' q ?M [pgs, pg]" by auto
  from compare_above [OF key(1) n(3) key(2) w(5) less_trans [OF w(6) b]] obtain x where
    x: "key_compare (bdata key) (bdata sk) = Inr x" "0 < x" by blast
  have ws: "walk_split fuel bt p pg (cell_count (header_of di)) pgc key es = Inr (SUCCESS, Some pgs, q, es)"
    using n(1,2) rd pi(1) x u(1) bt by (simp add: walk_split_def Let_def)
  have F: "edge ps b (Lo(?j \<mapsto> dj')) ?M (?i # ?n # ids) ((s @ [inner_size (split_size t)]) # upper_half t # sh) al" "grown (?i # ?j # ids) Lo M (?i # ?n # ids) (Lo(?j \<mapsto> dj')) ?M"
    using fin n(6-8) pi(2) by blast+
  have "roomy m fuel c' ?M" by (rule roomy_contents [OF n(5)]) (use di(1) in auto)
  with ws u(2) F show ?thesis by blast
qed

text \<open>It cannot be split, or the page above it has no room for the split key.\<close>

lemma walk_split_stuck:
  assumes c: "caches ps c p M [pgc, pg]" and e: "edge ps b Lo M (tid pg # tid pgc # ids) (s # t # sh) al"
    and bt: "btree_page_size bt = of_nat ps" and di: "M (tid pg) = Some di" and dj: "M (tid pgc) = Some dj"
    and bad: "length t < 2 \<or> spare ps s < split_size t + 6" and room: "roomy (Suc m) fuel c M" and es: "error_wf es"
  shows "\<exists>f. walk_split fuel bt p pg (cell_count (header_of di)) pgc key es = Inl f"
proof (cases "length t < 2")
  case True
  obtain pre sub where tl: "edge ps b Lo M (tid pgc # ids) (t # sh) sub" by (rule edge_tail [OF e])
  obtain fl r pls s' ts where h: "t # sh = s' # ts" "page_rep ps dj fl r pls" "sizes_of ps dj pls s'"
    by (rule spine_head [OF edge_spine [OF tl] dj])
  have short: "length pls < 2" using sizes_room(4) [OF h(3)] h(1) True by simp
  from caches_next [OF c room es] obtain pgs x p1 c' where
    n: "pager_next fuel p es = Inr (SUCCESS, Some pgs, p1, es)" "caches ps c' p1 (M(tid pgs \<mapsto> x)) [pgs, pgc, pg]"
    "length x = ps" "M (tid pgs) = None" by blast
  have "tid pgc \<noteq> tid pgs" using n(4) dj by auto
  then have "split_pages p1 pgc pgs (of_nat ps) = Inl Out_of_bounds"
    using dj by (intro split_pages_stuck [OF n(2) _ _ _ _ n(3) h(2) short]) simp_all
  then show ?thesis using n(1) bt by (simp add: walk_split_def)
next
  case False
  then have two: "2 \<le> length t" and full: "spare ps s < split_size t + 6" using bad by simp_all
  obtain pre sub where tl: "edge ps b Lo M (tid pgc # ids) (t # sh) sub" by (rule edge_tail [OF e])
  have cc: "2 \<le> unat (cell_count (header_of dj))" using spine_cells(4) [OF edge_spine [OF tl] dj] two by simp
  obtain fli ks cs fl r pls k0 where
    w: "inner_page ps fli di ks (cs @ [tid pgc])" "page_rep ps dj fl r pls" "keyed_payload fl (pls ! (length pls div 2 - 1)) k0"
      "length (vint_bytes k0) = split_size t" "unat k0 < 2 ^ 31" by (rule edge_split_child [OF e di dj cc])
  note P = edge_page [OF tl dj two w(2)]
  have "pgc \<in> set [pgc, pg]" by simp
  from next_split [OF c this dj w(2) P(1,2) w(3) room es] obtain pgs p1 p2 c' sk dj' s' where
    n: "pager_next fuel p es = Inr (SUCCESS, Some pgs, p1, es)" "split_pages p1 pgc pgs (of_nat ps) = Inr (p2, sk)" "key_blob sk k0"
      "caches ps c' p2 (M(tid pgc \<mapsto> dj', tid pgs \<mapsto> s')) [pgs, pgc, pg]" "M (tid pgs) = None" by blast
  have ne: "tid pgs \<noteq> tid pg" "tid pgc \<noteq> tid pg" using n(5) di e by (auto simp: edge_def)
  have rd: "page_data p2 pg = Inr di" using caches_read [OF n(4), of pg] di ne by simp
  have "unat k0 < 2 ^ 56" using w(5) by simp
  moreover have "room di < length (vint_bytes k0) + 6" using full w(4) spine_cells(1) [OF edge_spine [OF e] di] by simp
  ultimately have "page_insert_inner di (of_nat ps) (cell_count (header_of di)) sk (tid pgs) = Inl Assertion_failed"
    by (intro page_insert_inner_stuck [OF w(1) n(3) _ inner_cells(1) [OF w(1)]])
  then show ?thesis using n(1,2) rd bt by (simp add: walk_split_def Let_def)
qed

text \<open>The search in an inner page of the spine leads to the last child.\<close>

lemma spine_find:
  assumes sp: "spine ps b Lo M (i # j # ids) sh al" and d: "M i = Some d" and key: "key_blob key k" "unat k < 2 ^ 31" and b: "b < k"
  shows "page_find_pointer d key = Inr (False, cell_count (header_of d))"
    and "child_id d (cell_count (header_of d)) = Inr j" and "j \<noteq> 0"
proof -
  from sp d obtain fl ks cs als sub sh' where
    s: "inner_page ps fl d ks (cs @ [j])" "separated ks (als @ [sub])" "\<forall>x \<in> set ks. x < b"
      "spine ps b Lo M (j # ids) sh' sub" by auto
  note ir = inner_page_readable [OF s(1)]
  have S: "sorted ks" "\<forall>x \<in> set ks. unat x < 2 ^ 31" using s(2) by (simp_all add: separated_def)
  have up: "\<forall>x \<in> set ks. x < k" using s(3) b by (auto intro: less_trans)
  then have r: "key_rank ks k = length ks" by (simp add: key_rank_def)
  have "k \<notin> set ks" using up by auto
  moreover have cc: "of_nat (length ks) = cell_count (header_of d)" by (simp flip: inner_cells(1) [OF s(1)])
  ultimately show "page_find_pointer d key = Inr (False, cell_count (header_of d))"
    using inner_find [OF ir S key] r by simp
  have "length cs = length ks" using s(1) by (simp add: inner_page_def)
  then show "child_id d (cell_count (header_of d)) = Inr j"
    using inner_child [OF ir, of "length ks"] by (simp add: cc nth_append)
  show "j \<noteq> 0" using spine_pages [OF s(4)] by simp
qed

text \<open>The page below is fixed; it is full, or the round is over.\<close>

lemma walk_scope_start:
  assumes c: "caches ps c p M [pg]" and e: "edge ps b Lo M (tid pg # j # ids) (s # t # sh) al" and b: "b < k"
    and kv: "key_blob key k" "val_blob val v" "id_ok k" "val_ok v"
  obtains di dj pgc p1 where "M (tid pg) = Some di" and "M j = Some dj" and "tid pgc = j" and "caches ps c p1 M [pgc, pg]"
    and "\<And>bt. walk_scope fuel bt p pg key val es =
      (if spare ps t < needed (entry_size (k, v)) sh then walk_split fuel bt p1 pg (cell_count (header_of di)) pgc key es
       else Inr (SUCCESS, Some pgc, p1, es))"
proof -
  have k: "unat k < 2 ^ 31" using kv(3) by (simp add: id_ok_def)
  have "M (tid pg) \<noteq> None" "M j \<noteq> None" using spine_pages [OF edge_spine [OF e]] by simp_all
  then obtain di dj where di: "M (tid pg) = Some di" and dj: "M j = Some dj" by blast
  note F = spine_find [OF edge_spine [OF e] di kv(1) k b]
  have "j \<notin> tid ` set [pg]" using e by (auto simp: edge_def)
  from cache.fix_free [OF c \<open>M j \<noteq> None\<close> this] obtain pgc p1 where
    f: "pager_fix fuel p j True es = Inr (SUCCESS, Some pgc, p1, es)" "tid pgc = j" "caches ps c p1 M [pgc, pg]" by blast
  have rd: "page_data p pg = Inr di" "page_data p1 pgc = Inr dj"
    using caches_read [OF c _ di] caches_read [OF f(3), of pgc] dj f(2) by simp_all
  obtain pre sub where tl: "edge ps b Lo M (j # ids) (t # sh) sub" by (rule edge_tail [OF e])
  note T = full_test [OF edge_spine [OF tl] dj kv]
  have hd: "page_get_header dj = Inr (header_of dj)" using spine_cells(6) [OF edge_spine [OF tl] dj] by simp
  show thesis
    by (rule that [OF di dj f(2,3)]) (use rd F f(1) hd in \<open>simp add: walk_scope_def T cong: if_cong\<close>)
qed

lemma walk_scope_edge:
  assumes c: "caches ps c p M [pg]" and e: "edge ps b Lo M (tid pg # j # ids) (s # t # sh) al" and b: "b < k"
    and bt: "btree_page_size bt = of_nat ps"
    and kv: "key_blob key k" "val_blob val v" "id_ok k" "val_ok v"
    and w: "shape_step ps (entry_size (k, v)) s t sh = Some (n, s1, t1)"
    and room: "roomy (n + m) fuel c M" and es: "error_wf es"
  shows "\<exists>pgs q c' Lo' M'. walk_scope fuel bt p pg key val es = Inr (SUCCESS, Some pgs, q, es) \<and>
    caches ps c' q M' [pgs, pg] \<and> roomy m fuel c' M' \<and> edge ps b Lo' M' (tid pg # tid pgs # ids) (s1 # t1 # sh) al \<and>
    grown (tid pg # j # ids) Lo M (tid pg # tid pgs # ids) Lo' M'"
proof -
  have k: "unat k < 2 ^ 31" using kv(3) by (simp add: id_ok_def)
  obtain di dj pgc p1 where f: "M (tid pg) = Some di" "M j = Some dj" "tid pgc = j" "caches ps c p1 M [pgc, pg]"
    and start: "walk_scope fuel bt p pg key val es =
      (if spare ps t < needed (entry_size (k, v)) sh then walk_split fuel bt p1 pg (cell_count (header_of di)) pgc key es
       else Inr (SUCCESS, Some pgc, p1, es))" by (rule walk_scope_start [OF c e b kv]) blast
  show ?thesis
  proof (cases "spare ps t < needed (entry_size (k, v)) sh")
    case False
    then have st: "n = 0" "s1 = s" "t1 = t" using w by (auto simp: shape_step_def split: if_splits)
    have "grown (tid pg # j # ids) Lo M (tid pg # j # ids) Lo M" by (rule grown_refl) simp_all
    moreover have "walk_scope fuel bt p pg key val es = Inr (SUCCESS, Some pgc, p1, es)" using start False by simp
    ultimately show ?thesis using f(3,4) e room unfolding st add_0 by blast
  next
    case True
    then have st: "2 \<le> length t" "split_size t + 6 \<le> spare ps s" "n = 1" "s1 = s @ [inner_size (split_size t)]" "t1 = upper_half t"
      using w by (auto simp: shape_step_def split: if_splits)
    have rm: "roomy (Suc m) fuel c M" using room by (simp add: st(3))
    from walk_split_edge [OF f(4) e [folded f(3)] b bt kv(1) k f(1) st(2) f(2) [folded f(3)] st(1) rm es] start f(3) True st(4,5)
    show ?thesis by simp
  qed
qed

lemma walk_scope_stuck:
  assumes c: "caches ps c p M [pg]" and e: "edge ps b Lo M (tid pg # j # ids) (s # t # sh) al" and b: "b < k"
    and bt: "btree_page_size bt = of_nat ps"
    and kv: "key_blob key k" "val_blob val v" "id_ok k" "val_ok v"
    and w: "shape_step ps (entry_size (k, v)) s t sh = None" "fst (entry_size (k, v)) + 4 \<le> spare ps s"
    and room: "roomy (Suc m) fuel c M" and es: "error_wf es"
  shows "\<exists>f. walk_scope fuel bt p pg key val es = Inl f"
proof -
  obtain di dj pgc p1 where f: "M (tid pg) = Some di" "M j = Some dj" "tid pgc = j" "caches ps c p1 M [pgc, pg]"
    and start: "walk_scope fuel bt p pg key val es =
      (if spare ps t < needed (entry_size (k, v)) sh then walk_split fuel bt p1 pg (cell_count (header_of di)) pgc key es
       else Inr (SUCCESS, Some pgc, p1, es))" by (rule walk_scope_start [OF c e b kv]) blast
  have full: "spare ps t < needed (entry_size (k, v)) sh" "length t < 2 \<or> spare ps s < split_size t + 6"
    using w by (auto simp: shape_step_def split: if_splits)
  from walk_split_stuck [OF f(4) e [folded f(3)] bt f(1) f(2) [folded f(3)] full(2) room es] show ?thesis
    unfolding start if_P [OF full(1)] .
qed

section \<open>The descent\<close>

lemma remove1_second: "pg \<noteq> pgs \<Longrightarrow> remove1 pg [pgs, pg] = [pgs]"
  by simp

lemma leaf_insert_edge:
  assumes c: "caches ps c p M [pg]" and e: "edge ps b Lo M [tid pg] [s] al" and b: "b < k"
    and kv: "key_blob key k" "val_blob val v" "id_ok k" "val_ok v"
    and d: "M (tid pg) = Some d" "snd (entry_size (k, v)) + 2 \<le> spare ps s"
  shows "\<exists>q d'. insert_into_leaf site mt p pg (of_nat ps) key val es = Inr (SUCCESS, q, es) \<and>
    caches ps c q (M(tid pg \<mapsto> d')) [] \<and> edge ps k Lo (M(tid pg \<mapsto> d')) [tid pg] [s @ [entry_size (k, v)]] (al @ [(k, v)]) \<and>
    grown [tid pg] Lo M [tid pg] Lo (M(tid pg \<mapsto> d'))"
proof -
  obtain fl r where l: "leaf_page ps fl r d al" "k \<notin> fst ` set al"
    "\<forall>d'. leaf_page ps fl r d' (leaf_insert k v al) \<longrightarrow> edge ps k Lo (M(tid pg \<mapsto> d')) [tid pg] [s @ [entry_size (k, v)]] (al @ [(k, v)]) \<and>
      grown [tid pg] Lo M [tid pg] Lo (M(tid pg \<mapsto> d'))" by (rule edge_leaf [OF e d(1) b kv(3,4)])
  have r: "length (leaf_entry (k, v)) + 2 \<le> room d"
    using d(2) spine_cells(1) [OF edge_spine [OF e] d(1)] by (simp add: entry_size_def)
  have "unat k < 2 ^ 31" "length v + 16 < 2 ^ 16" using kv(3,4) by (simp_all add: id_ok_def val_ok_def)
  note put = leaf_page_insert [OF l(1) kv(1,2) this l(2), of es]
  obtain d' where ins: "page_insert_leaf d (of_nat ps) key val es = Inr (SUCCESS, d', es)" "leaf_page ps fl r d' (leaf_insert k v al)"
    using put unfolding if_P [OF r] by blast
  from insert_into_leaf_written [OF c d(1) free_space_leaf(3) [OF ins(2)] ins(1)] l(3) ins(2) show ?thesis by blast
qed

lemma leaf_insert_stuck:
  assumes c: "caches ps c p M [pg]" and e: "edge ps b Lo M [tid pg] [s] al" and b: "b < k"
    and kv: "key_blob key k" "val_blob val v" "id_ok k" "val_ok v"
    and full: "\<not> snd (entry_size (k, v)) + 2 \<le> spare ps s"
  shows "insert_into_leaf site mt p pg (of_nat ps) key val es = Inl Assertion_failed"
proof -
  have "M (tid pg) \<noteq> None" using spine_pages [OF edge_spine [OF e]] by simp
  then obtain d where d: "M (tid pg) = Some d" by blast
  obtain fl r where l: "leaf_page ps fl r d al" "k \<notin> fst ` set al" by (rule edge_leaf [OF e d b kv(3,4)])
  have r: "\<not> length (leaf_entry (k, v)) + 2 \<le> room d"
    using full spine_cells(1) [OF edge_spine [OF e] d] by (simp add: entry_size_def)
  have "unat k < 2 ^ 31" "length v + 16 < 2 ^ 16" using kv(3,4) by (simp_all add: id_ok_def val_ok_def)
  note put = leaf_page_insert [OF l(1) kv(1,2) this l(2), of es]
  have "page_data p pg = Inr d" using caches_read [OF c _ d] by simp
  then show ?thesis using put unfolding if_not_P [OF r] by (simp add: insert_into_leaf_def)
qed

declare btree_insert_walk.simps [simp del]

text \<open>One round of \<^verbatim>\<open>btree_insert_walk\<close>: what is left to do when the parent is unfixed.\<close>

lemma walk_start:
  assumes c: "caches ps c p M [pg]" and e: "edge ps b Lo M (tid pg # j # ids) (s # t # sh) al" and b: "b < k"
    and bt: "btree_page_size bt = of_nat ps"
    and kv: "key_blob key k" "val_blob val v" "id_ok k" "val_ok v"
    and w: "shape_step ps (entry_size (k, v)) s t sh = Some (n, s1, t1)"
    and room: "roomy (n + m) fuel c M" and es: "error_wf es"
  obtains pgs q c' Lo' M' where "caches ps c' q M' [pgs]" and "roomy m fuel c' M'"
    and "edge ps b Lo' M' (tid pg # tid pgs # ids) (s1 # t1 # sh) al"
    and "grown (tid pg # j # ids) Lo M (tid pg # tid pgs # ids) Lo' M'"
    and "btree_insert_walk (Suc dp) fuel bt p pg key val es =
      (if ids = [] then
         insert_into_leaf (''src/btree.c'', ''btree_insert_walk'', 383)
           ''try page_insert_leaf(page.data, btree->page_size, key, value)'' q pgs (of_nat ps) key val es
       else obind (btree_insert_walk dp fuel bt q pgs key val es) (\<lambda>(r, p, es).
         if r \<noteq> SUCCESS then
           obind (try_fail (''src/btree.c'', ''btree_insert_walk'', 385)
             ''try btree_insert_walk(btree, page, key, value)'' es) (\<lambda>(r, es). Inr (r, p, es))
         else Inr (SUCCESS, p, es)))"
proof -
  from walk_scope_edge [OF c e b bt kv w room es] obtain pgs q1 c' Lo' M' where
    s: "walk_scope fuel bt p pg key val es = Inr (SUCCESS, Some pgs, q1, es)" "caches ps c' q1 M' [pgs, pg]" "roomy m fuel c' M'"
    "edge ps b Lo' M' (tid pg # tid pgs # ids) (s1 # t1 # sh) al" "grown (tid pg # j # ids) Lo M (tid pg # tid pgs # ids) Lo' M'" by blast
  have "pg \<noteq> pgs" using s(4) by (auto simp: edge_def)
  with caches_unfix [OF s(2), of pg] obtain q where u: "pager_unfix q1 pg = Inr q" "caches ps c' q M' [pgs]"
    by (auto simp: remove1_second)
  have "M (tid pg) \<noteq> None" "M' (tid pgs) \<noteq> None" using spine_pages [OF edge_spine [OF e]] spine_pages [OF edge_spine [OF s(4)]] by simp_all
  then obtain di ds where d: "M (tid pg) = Some di" "M' (tid pgs) = Some ds" by blast
  have rd: "page_data p pg = Inr di" "page_data q pgs = Inr ds"
    using caches_read [OF c _ d(1)] caches_read [OF u(2) _ d(2)] by simp_all
  have ok: "\<not> spare ps s < fst (entry_size (k, v)) + 4" using w by (auto simp: shape_step_def split: if_splits)
  note P = spine_cells(6,8) [OF edge_spine [OF e] d(1)] full_test [OF edge_spine [OF e] d(1) kv]
  obtain pre sub where "edge ps b Lo' M' (tid pgs # ids) (t1 # sh) sub" by (rule edge_tail [OF s(4)])
  note C = spine_cells(6,7) [OF edge_spine [OF this] d(2)]
  show thesis
    by (rule that [OF u(2) s(3-5)]) (use rd P C s(1) u(1) ok bt in \<open>simp add: btree_insert_walk.simps not_less cong: if_cong\<close>)
qed

text \<open>A round that gets stuck.\<close>

lemma walk_stuck:
  assumes c: "caches ps c p M [pg]" and e: "edge ps b Lo M (tid pg # j # ids) (s # t # sh) al" and b: "b < k"
    and bt: "btree_page_size bt = of_nat ps"
    and kv: "key_blob key k" "val_blob val v" "id_ok k" "val_ok v"
    and w: "shape_step ps (entry_size (k, v)) s t sh = None"
    and room: "roomy (Suc m) fuel c M" and es: "error_wf es"
  shows "\<exists>f. btree_insert_walk (Suc dp) fuel bt p pg key val es = Inl f"
proof -
  have "M (tid pg) \<noteq> None" using spine_pages [OF edge_spine [OF e]] by simp
  then obtain d where d: "M (tid pg) = Some d" by blast
  have rd: "page_data p pg = Inr d" using caches_read [OF c _ d] by simp
  note P = spine_cells(6,8) [OF edge_spine [OF e] d] full_test [OF edge_spine [OF e] d kv]
  show ?thesis
  proof (cases "spare ps s < fst (entry_size (k, v)) + 4")
    case True
    with P have "\<not> payload_put_len (flags (header_of d)) key val \<le> free_space (header_of d)" by simp
    with rd P show ?thesis by (simp add: btree_insert_walk.simps c_assert_def cong: if_cong)
  next
    case False
    then have "fst (entry_size (k, v)) + 4 \<le> spare ps s" by simp
    from walk_scope_stuck [OF c e b bt kv w this room es] rd P False show ?thesis
      by (auto simp: btree_insert_walk.simps not_less cong: if_cong)
  qed
qed

lemma edge_pass:
  assumes e: "edge ps b Lo M (i # j # ids) (s # sh) al" and g: "grown is0 Lo0 M0 (i # j # ids) Lo M" and b: "b < k"
  obtains sub where "edge ps b Lo M (j # ids) sh sub"
    and "\<forall>Lo2 M2 ids' sh' v. edge ps k Lo2 M2 (j # ids') sh' (sub @ [(k, v)]) \<longrightarrow> length ids' = length ids \<longrightarrow>
      grown (j # ids) Lo M (j # ids') Lo2 M2 \<longrightarrow>
      edge ps k Lo2 M2 (i # j # ids') (s # sh') (al @ [(k, v)]) \<and> grown is0 Lo0 M0 (i # j # ids') Lo2 M2"
proof -
  obtain pre sub where tl: "al = pre @ sub" "edge ps b Lo M (j # ids) sh sub"
    and up: "\<forall>b' Lo2 M2 ids' sh' k v. edge ps b' Lo2 M2 (j # ids') sh' (sub @ [(k, v)]) \<longrightarrow> length ids' = length ids \<longrightarrow>
      grown (j # ids) Lo M (j # ids') Lo2 M2 \<longrightarrow> b \<le> b' \<longrightarrow> b \<le> k \<longrightarrow>
      edge ps b' Lo2 M2 (i # j # ids') (s # sh') (pre @ sub @ [(k, v)]) \<and> grown (i # j # ids) Lo M (i # j # ids') Lo2 M2"
    by (rule edge_tail [OF e])
  have d: "dom Lo \<inter> set (i # j # ids) = {}" using e by (simp only: edge_def)
  have "b \<le> k" using b by simp
  with up have "edge ps k Lo2 M2 (i # j # ids') (s # sh') (al @ [(k, v)])" "grown (i # j # ids) Lo M (i # j # ids') Lo2 M2"
    if "edge ps k Lo2 M2 (j # ids') sh' (sub @ [(k, v)])" "length ids' = length ids" "grown (j # ids) Lo M (j # ids') Lo2 M2"
    for Lo2 M2 ids' sh' v using that unfolding tl(1) append_assoc by blast+
  with grown_trans [OF g _ d] show thesis by (intro that [OF tl(2)]) blast
qed

lemma walk_edge_leaf:
  assumes c: "caches ps c p M [pg]" and e: "edge ps b Lo M [tid pg, j] [s, t] al" and b: "b < k"
    and bt: "btree_page_size bt = of_nat ps"
    and kv: "key_blob key k" "val_blob val v" "id_ok k" "val_ok v"
    and w: "shape_walk ps (entry_size (k, v)) [s, t] = Some (n, sh')"
    and room: "roomy (n + m) fuel c M" and es: "error_wf es"
  shows "\<exists>q c' Lo' M' j'. btree_insert_walk (Suc dp) fuel bt p pg key val es = Inr (SUCCESS, q, es) \<and>
    caches ps c' q M' [] \<and> roomy m fuel c' M' \<and> edge ps k Lo' M' [tid pg, j'] sh' (al @ [(k, v)]) \<and>
    grown [tid pg, j] Lo M [tid pg, j'] Lo' M'"
proof -
  obtain n1 s1 t1 n2 sh1 where st: "shape_step ps (entry_size (k, v)) s t [] = Some (n1, s1, t1)"
    "shape_walk ps (entry_size (k, v)) [t1] = Some (n2, sh1)" "n = n1 + n2" "sh' = s1 # sh1"
    using w by (auto split: option.splits)
  have rm: "roomy (n1 + (n2 + m)) fuel c M" using room by (simp add: st(3) add.assoc)
  obtain pgs q c' Lo' M' where
    s: "caches ps c' q M' [pgs]" "roomy (n2 + m) fuel c' M'" "edge ps b Lo' M' [tid pg, tid pgs] [s1, t1] al"
      "grown [tid pg, j] Lo M [tid pg, tid pgs] Lo' M'"
      "btree_insert_walk (Suc dp) fuel bt p pg key val es = insert_into_leaf (''src/btree.c'', ''btree_insert_walk'', 383)
         ''try page_insert_leaf(page.data, btree->page_size, key, value)'' q pgs (of_nat ps) key val es"
    by (rule walk_start [OF c e b bt kv st(1) rm es, of dp, unfolded if_P [OF refl]])
  obtain sub where tl: "edge ps b Lo' M' [tid pgs] [t1] sub"
    and up: "\<forall>Lo2 M2 ids' sh' v. edge ps k Lo2 M2 (tid pgs # ids') sh' (sub @ [(k, v)]) \<longrightarrow> length ids' = length ([] :: u32 list) \<longrightarrow>
      grown [tid pgs] Lo' M' (tid pgs # ids') Lo2 M2 \<longrightarrow>
      edge ps k Lo2 M2 (tid pg # tid pgs # ids') (s1 # sh') (al @ [(k, v)]) \<and> grown [tid pg, j] Lo M (tid pg # tid pgs # ids') Lo2 M2"
    by (rule edge_pass [OF s(3,4) b])
  have "M' (tid pgs) \<noteq> None" using spine_pages [OF edge_spine [OF tl]] by simp
  then obtain d where d: "M' (tid pgs) = Some d" by blast
  have t1: "snd (entry_size (k, v)) + 2 \<le> spare ps t1" "sh1 = [t1 @ [entry_size (k, v)]]" "n2 = 0"
    using st(2) by (auto split: if_splits)
  from leaf_insert_edge [OF s(1) tl b kv d t1(1)] obtain q2 d' where
    i: "insert_into_leaf (''src/btree.c'', ''btree_insert_walk'', 383)
         ''try page_insert_leaf(page.data, btree->page_size, key, value)'' q pgs (of_nat ps) key val es = Inr (SUCCESS, q2, es)"
    "caches ps c' q2 (M'(tid pgs \<mapsto> d')) []" "edge ps k Lo' (M'(tid pgs \<mapsto> d')) [tid pgs] sh1 (sub @ [(k, v)])"
    "grown [tid pgs] Lo' M' [tid pgs] Lo' (M'(tid pgs \<mapsto> d'))" unfolding t1(2) by blast
  have r: "roomy m fuel c' (M'(tid pgs \<mapsto> d'))" by (rule roomy_contents [OF s(2) [unfolded t1(3) add_0]]) (use d in auto)
  from up i(3,4) have "edge ps k Lo' (M'(tid pgs \<mapsto> d')) [tid pg, tid pgs] sh' (al @ [(k, v)]) \<and>
      grown [tid pg, j] Lo M [tid pg, tid pgs] Lo' (M'(tid pgs \<mapsto> d'))" unfolding st(4) by blast
  moreover have "btree_insert_walk (Suc dp) fuel bt p pg key val es = Inr (SUCCESS, q2, es)" using s(5) i(1) by simp
  ultimately show ?thesis using i(2) r by blast
qed

lemma walk_edge:
  assumes "caches ps c p M [pg]" and "edge ps b Lo M (tid pg # j # ids) (s # t # sh) al" and b: "b < k"
    and bt: "btree_page_size bt = of_nat ps"
    and kv: "key_blob key k" "val_blob val v" "id_ok k" "val_ok v"
    and "shape_walk ps (entry_size (k, v)) (s # t # sh) = Some (n, sh')"
    and "roomy (n + m) fuel c M" and es: "error_wf es" and "length ids < depth"
  shows "\<exists>q c' Lo' M' j' ids'. btree_insert_walk depth fuel bt p pg key val es = Inr (SUCCESS, q, es) \<and>
    caches ps c' q M' [] \<and> roomy m fuel c' M' \<and> edge ps k Lo' M' (tid pg # j' # ids') sh' (al @ [(k, v)]) \<and>
    length ids' = length ids \<and> grown (tid pg # j # ids) Lo M (tid pg # j' # ids') Lo' M'"
  using assms(1,2,9,10,12)
proof (induction ids arbitrary: c p M Lo pg j al depth s t sh n sh')
  case Nil
  then obtain dp where dp: "depth = Suc dp" by (cases depth) auto
  have "sh = []" using spine_length [OF edge_spine [OF Nil.prems(2)]] by simp
  from walk_edge_leaf [OF Nil.prems(1,2) [unfolded this] b bt kv Nil.prems(3) [unfolded this] Nil.prems(4) es, of dp] dp show ?case by blast
next
  case (Cons j2 ids)
  then obtain dp where dp: "depth = Suc dp" "length ids < dp" by (cases depth) auto
  obtain n1 s1 t1 n2 sh1 where st: "shape_step ps (entry_size (k, v)) s t sh = Some (n1, s1, t1)"
    "shape_walk ps (entry_size (k, v)) (t1 # sh) = Some (n2, sh1)" "n = n1 + n2" "sh' = s1 # sh1"
    using Cons.prems(3) by (auto split: option.splits)
  have rm: "roomy (n1 + (n2 + m)) fuel c M" using Cons.prems(4) by (simp add: st(3) add.assoc)
  note start = walk_start [OF Cons.prems(1,2) b bt kv st(1) rm es, of dp, unfolded if_not_P [OF list.distinct(2)]]
  obtain pgs q c' Lo' M' where
    s: "caches ps c' q M' [pgs]" "roomy (n2 + m) fuel c' M'" "edge ps b Lo' M' (tid pg # tid pgs # j2 # ids) (s1 # t1 # sh) al"
      "grown (tid pg # j # j2 # ids) Lo M (tid pg # tid pgs # j2 # ids) Lo' M'"
      "btree_insert_walk (Suc dp) fuel bt p pg key val es = obind (btree_insert_walk dp fuel bt q pgs key val es) (\<lambda>(r, p, es).
         if r \<noteq> SUCCESS then
           obind (try_fail (''src/btree.c'', ''btree_insert_walk'', 385)
             ''try btree_insert_walk(btree, page, key, value)'' es) (\<lambda>(r, es). Inr (r, p, es))
         else Inr (SUCCESS, p, es))" by (rule start)
  obtain sub where tl: "edge ps b Lo' M' (tid pgs # j2 # ids) (t1 # sh) sub"
    and up: "\<forall>Lo2 M2 ids' sh' v. edge ps k Lo2 M2 (tid pgs # ids') sh' (sub @ [(k, v)]) \<longrightarrow> length ids' = length (j2 # ids) \<longrightarrow>
      grown (tid pgs # j2 # ids) Lo' M' (tid pgs # ids') Lo2 M2 \<longrightarrow>
      edge ps k Lo2 M2 (tid pg # tid pgs # ids') (s1 # sh') (al @ [(k, v)]) \<and>
      grown (tid pg # j # j2 # ids) Lo M (tid pg # tid pgs # ids') Lo2 M2"
    by (rule edge_pass [OF s(3,4) b])
  obtain t2 sh2 where sh: "sh = t2 # sh2" using spine_length [OF edge_spine [OF tl]] by (cases sh) auto
  from Cons.IH [OF s(1) tl [unfolded sh] st(2) [unfolded sh] s(2) dp(2)] obtain q2 c2 Lo2 M2 j' ids' where
    i: "btree_insert_walk dp fuel bt q pgs key val es = Inr (SUCCESS, q2, es)" "caches ps c2 q2 M2 []" "roomy m fuel c2 M2"
    "edge ps k Lo2 M2 (tid pgs # j' # ids') sh1 (sub @ [(k, v)])" "length ids' = length ids"
    "grown (tid pgs # j2 # ids) Lo' M' (tid pgs # j' # ids') Lo2 M2" by blast
  have l: "length (j' # ids') = length (j2 # ids)" using i(5) by simp
  from up i(4,6) l have "edge ps k Lo2 M2 (tid pg # tid pgs # j' # ids') sh' (al @ [(k, v)]) \<and>
      grown (tid pg # j # j2 # ids) Lo M (tid pg # tid pgs # j' # ids') Lo2 M2" unfolding st(4) by blast
  with s(5) i(1-3) dp(1) l show ?case
    by (intro exI [of _ q2] exI [of _ c2] exI [of _ Lo2] exI [of _ M2] exI [of _ "tid pgs"] exI [of _ "j' # ids'"]) simp
qed

text \<open>When the sizes say so, the descent aborts.\<close>

lemma walk_edge_leaf_stuck:
  assumes c: "caches ps c p M [pg]" and e: "edge ps b Lo M [tid pg, j] [s, t] al" and b: "b < k"
    and bt: "btree_page_size bt = of_nat ps"
    and kv: "key_blob key k" "val_blob val v" "id_ok k" "val_ok v"
    and w: "shape_walk ps (entry_size (k, v)) [s, t] = None"
    and room: "roomy (Suc 0) fuel c M" and es: "error_wf es"
  shows "\<exists>f. btree_insert_walk (Suc dp) fuel bt p pg key val es = Inl f"
proof -
  show ?thesis
  proof (cases "shape_step ps (entry_size (k, v)) s t []")
    case None
    from walk_stuck [OF c e b bt kv None room es] show ?thesis .
  next
    case (Some x)
    then obtain n1 s1 t1 where st: "shape_step ps (entry_size (k, v)) s t [] = Some (n1, s1, t1)" by (cases x) auto
    have "n1 \<le> 1" using st by (auto simp: shape_step_def split: if_splits)
    then have rm: "roomy (n1 + (1 - n1)) fuel c M" using room by simp
    obtain pgs q c' Lo' M' where
      s: "caches ps c' q M' [pgs]" "edge ps b Lo' M' [tid pg, tid pgs] [s1, t1] al"
        "btree_insert_walk (Suc dp) fuel bt p pg key val es = insert_into_leaf (''src/btree.c'', ''btree_insert_walk'', 383)
           ''try page_insert_leaf(page.data, btree->page_size, key, value)'' q pgs (of_nat ps) key val es"
      by (rule walk_start [OF c e b bt kv st rm es, of dp, unfolded if_P [OF refl]])
    obtain pre sub where tl: "edge ps b Lo' M' [tid pgs] [t1] sub" by (rule edge_tail [OF s(2)])
    have "\<not> snd (entry_size (k, v)) + 2 \<le> spare ps t1" using w st by (auto split: if_splits)
    from leaf_insert_stuck [OF s(1) tl b kv this] s(3) show ?thesis by simp
  qed
qed

lemma walk_edge_stuck:
  assumes "caches ps c p M [pg]" and "edge ps b Lo M (tid pg # j # ids) (s # t # sh) al" and b: "b < k"
    and bt: "btree_page_size bt = of_nat ps"
    and kv: "key_blob key k" "val_blob val v" "id_ok k" "val_ok v"
    and "shape_walk ps (entry_size (k, v)) (s # t # sh) = None"
    and "roomy (Suc (length ids)) fuel c M" and es: "error_wf es" and "length ids < depth"
  shows "\<exists>f. btree_insert_walk depth fuel bt p pg key val es = Inl f"
  using assms(1,2,9,10,12)
proof (induction ids arbitrary: c p M Lo pg j al depth s t sh)
  case Nil
  then obtain dp where dp: "depth = Suc dp" by (cases depth) auto
  have "sh = []" using spine_length [OF edge_spine [OF Nil.prems(2)]] by simp
  from walk_edge_leaf_stuck [OF Nil.prems(1,2) [unfolded this] b bt kv Nil.prems(3) [unfolded this] _ es, of fuel dp] Nil.prems(4) dp
  show ?case by simp
next
  case (Cons j2 ids)
  then obtain dp where dp: "depth = Suc dp" "length ids < dp" by (cases depth) auto
  show ?case
  proof (cases "shape_step ps (entry_size (k, v)) s t sh")
    case None
    from walk_stuck [OF Cons.prems(1,2) b bt kv None Cons.prems(4) es] show ?thesis by (simp add: dp)
  next
    case (Some x)
    then obtain n1 s1 t1 where st: "shape_step ps (entry_size (k, v)) s t sh = Some (n1, s1, t1)" by (cases x) auto
    have "n1 \<le> 1" using st by (auto simp: shape_step_def split: if_splits)
    then have rm: "roomy (n1 + Suc (length ids)) fuel c M" by (intro roomy_mono [OF Cons.prems(4)]) simp
    obtain pgs q c' Lo' M' where
      s: "caches ps c' q M' [pgs]" "roomy (Suc (length ids)) fuel c' M'" "edge ps b Lo' M' (tid pg # tid pgs # j2 # ids) (s1 # t1 # sh) al"
        "btree_insert_walk (Suc dp) fuel bt p pg key val es = obind (btree_insert_walk dp fuel bt q pgs key val es) (\<lambda>(r, p, es).
         if r \<noteq> SUCCESS then
           obind (try_fail (''src/btree.c'', ''btree_insert_walk'', 385)
             ''try btree_insert_walk(btree, page, key, value)'' es) (\<lambda>(r, es). Inr (r, p, es))
         else Inr (SUCCESS, p, es))"
      by (rule walk_start [OF Cons.prems(1,2) b bt kv st rm es, of dp, unfolded if_not_P [OF list.distinct(2)]])
    obtain pre sub where tl: "edge ps b Lo' M' (tid pgs # j2 # ids) (t1 # sh) sub" by (rule edge_tail [OF s(3)])
    obtain t2 sh2 where sh: "sh = t2 # sh2" using spine_length [OF edge_spine [OF tl]] by (cases sh) auto
    have "shape_walk ps (entry_size (k, v)) (t1 # sh) = None" using Cons.prems(3) st by simp
    from Cons.IH [OF s(1) tl [unfolded sh] this [unfolded sh] s(2) dp(2)] s(4) dp(1) show ?thesis by auto
  qed
qed

end
