(* ===== verification/BtreeAppend.thy ===== *)
theory BtreeAppend
  imports BtreeWalk
begin

text \<open>
  \<^verbatim>\<open>btree_insert\<close> for an id above all ids of the tree: the split of the root and the descent
  below it, as \<open>shape_insert\<close> computes them from the sizes.
\<close>

section \<open>Insertion\<close>

text \<open>A page with two payloads is large enough for a root with one key.\<close>

lemma root_has_room:
  assumes sp: "spine ps b Lo M (j # ids) (s # sh) al" and d: "M j = Some d" "2 \<le> length s"
  shows "18 + split_size s \<le> ps"
proof -
  have sz: "\<forall>x \<in> set s. fst x < snd x \<and> 0 < fst x"
    using sp by (cases ids) (auto simp: key_sizes_def inner_size_def entry_size_def leaf_entry_def)
  let ?i = "length s div 2 - 1"
  have i: "?i < length s" "Suc ?i < length s" using d(2) by simp_all
  have "taken s = taken (take ?i s) + taken (s ! ?i # s ! Suc ?i # drop (Suc (Suc ?i)) s)"
    using i by (metis Cons_nth_drop_Suc append_take_drop_id taken_simps(3))
  then have "snd (s ! ?i) + snd (s ! Suc ?i) + 4 \<le> taken s" by simp
  moreover have "s ! ?i \<in> set s" "s ! Suc ?i \<in> set s" using i by simp_all
  then have "fst (s ! ?i) < snd (s ! ?i)" "2 \<le> snd (s ! Suc ?i)" using sz by fastforce+
  ultimately show ?thesis using spine_cells(2) [OF sp d(1)] unfolding split_size_def by linarith
qed

lemma split_root_edge:
  assumes c: "caches ps c p M [pg]" and e: "edge ps b Lo M (tid pg # ids) (s # sh) al" and b: "b < k"
    and bt: "btree_page_size bt = of_nat ps"
    and key: "key_blob key k" "unat k < 2 ^ 31" and dj: "M (tid pg) = Some dj" "2 \<le> length s"
    and room: "roomy (Suc (Suc m)) fuel c M" and es: "error_wf es"
  shows "\<exists>pgs q c' Lo' M' r. split_root fuel bt p pg key es = Inr (SUCCESS, pgs, bt\<lparr>root := r\<rparr>, q, es) \<and>
    caches ps c' q M' [pgs] \<and> roomy m fuel c' M' \<and> edge ps b Lo' M' (r # tid pgs # ids) ([inner_size (split_size s)] # upper_half s # sh) al"
proof -
  let ?j = "tid pg"
  obtain fl r pls k0 where
    w0: "page_rep ps dj fl r pls" "keyed_payload fl (pls ! (length pls div 2 - 1)) k0"
      "length (vint_bytes k0) = split_size s" "unat k0 < 2 ^ 31" "k0 < b"
    and fin: "\<forall>nid rt dj' s' dr flr. M nid = None \<longrightarrow> nid \<noteq> 0 \<longrightarrow> M rt = None \<longrightarrow> rt \<noteq> 0 \<longrightarrow> rt \<noteq> nid \<longrightarrow>
      halved ps fl r pls nid dj' s' \<longrightarrow> inner_page ps flr dr [k0] [?j, nid] \<longrightarrow>
      edge ps b (Lo(?j \<mapsto> dj')) (M(?j \<mapsto> dj', nid \<mapsto> s', rt \<mapsto> dr)) (rt # nid # ids)
        ([inner_size (split_size s)] # upper_half s # sh) al"
    by (rule edge_split_root [OF e dj(1)]) (use spine_cells(4) [OF edge_spine [OF e] dj(1)] dj(2) in simp)
  note P = edge_page [OF e dj w0(1)]
  have "pg \<in> set [pg]" by simp
  from next_split [OF c this dj(1) w0(1) P(1,2) w0(2) room es] obtain pgs p1 p2 c1 sk dj' s' where
    n: "pager_next fuel p es = Inr (SUCCESS, Some pgs, p1, es)" "split_pages p1 pg pgs (of_nat ps) = Inr (p2, sk)" "key_blob sk k0"
      "caches ps c1 p2 (M(?j \<mapsto> dj', tid pgs \<mapsto> s')) [pgs, pg]" "roomy (Suc m) fuel c1 (M(?j \<mapsto> dj', tid pgs \<mapsto> s'))"
      "M (tid pgs) = None" "tid pgs \<noteq> 0" "halved ps fl r pls (tid pgs) dj' s'" by blast
  from caches_next [OF n(4,5) es] obtain new x p3 c2 where
    w: "pager_next fuel p2 es = Inr (SUCCESS, Some new, p3, es)"
    "caches ps c2 p3 (M(?j \<mapsto> dj', tid pgs \<mapsto> s', tid new \<mapsto> x)) [new, pgs, pg]"
    "roomy m fuel c2 (M(?j \<mapsto> dj', tid pgs \<mapsto> s', tid new \<mapsto> x))" "length x = ps" "tid new \<noteq> 0"
    "(M(?j \<mapsto> dj', tid pgs \<mapsto> s')) (tid new) = None" by blast
  let ?n = "tid pgs" and ?r = "tid new"
  have nr: "?r \<noteq> ?n" "?r \<noteq> ?j" "?n \<noteq> ?j" "M ?r = None" using w(6) n(6) dj(1) by (auto split: if_splits)
  have pss: "ps < 2 ^ 16" "18 + length (vint_bytes k0) \<le> ps"
    using page_repD(2) [OF w0(1)] root_has_room [OF edge_spine [OF e] dj] w0(3) by simp_all
  have "unat k0 < 2 ^ 56" using w0(4) by simp
  from new_root_correct [OF w(4) pss n(3) this P(2), of ?j ?n] obtain dr where
    dr: "new_root x (of_nat ps) fl ?j sk ?n = Inr dr" "inner_page ps (fl AND NOT PAGE_FLAG_LEAF) dr [k0] [?j, ?n]" by blast
  have rd: "page_data p3 pg = Inr dj'" "page_data p3 new = Inr x"
    using caches_read [OF w(2), of pg] caches_read [OF w(2), of new] nr by simp_all
  have "length dr = ps" using dr(2) page_repD(1) by (auto simp: inner_page_def)
  let ?M = "M(?j \<mapsto> dj', ?n \<mapsto> s', ?r \<mapsto> dr)"
  from caches_write [OF w(2) _ \<open>length dr = ps\<close>, of new]
  have c4: "caches ps c2 (write_data p3 (tptr new) dr) ?M [new, pgs, pg]" by simp
  have "remove1 pg [new, pgs, pg] = [new, pgs]" using nr by auto
  with caches_unfix [OF c4, of pg] obtain p5 where
    u1: "pager_unfix (write_data p3 (tptr new) dr) pg = Inr p5" "caches ps c2 p5 ?M [new, pgs]" by auto
  from caches_unfix [OF u1(2), of new] obtain q where u2: "pager_unfix p5 new = Inr q" "caches ps c2 q ?M [pgs]" by auto
  from compare_above [OF key(1) n(3) key(2) w0(4) less_trans [OF w0(5) b]] obtain y where
    y: "key_compare (bdata key) (bdata sk) = Inr y" "0 < y" by blast
  have "page_rep ps dj' fl ?n (take (length pls div 2) pls)" using n(8) by (simp add: halved_def)
  note D = page_repD(4,5) [OF this]
  have ws: "split_root fuel bt p pg key es = Inr (SUCCESS, pgs, bt\<lparr>root := ?r\<rparr>, q, es)"
    using n(1,2) w(1) rd D dr(1) y u1(1) u2(1) bt by (simp add: split_root_def Let_def)
  have F: "edge ps b (Lo(?j \<mapsto> dj')) ?M (?r # ?n # ids) ([inner_size (split_size s)] # upper_half s # sh) al" using fin n(6-8) dr(2) nr w(5) by blast
  have "roomy m fuel c2 ?M" by (rule roomy_contents [OF w(3)]) auto
  with ws u2(2) F show ?thesis by blast
qed

text \<open>The end of \<^verbatim>\<open>btree_insert\<close>, when the page to start from has room.\<close>

lemma insert_below_edge_cases:
  assumes c: "caches ps c p M [pg]" and e: "edge ps b Lo M (tid pg # ids) (s # sh) al" and b: "b < k"
    and bt: "btree_page_size bt = of_nat ps"
    and kv: "key_blob key k" "val_blob val v" "id_ok k" "val_ok v"
    and w: "shape_walk ps (entry_size (k, v)) (s # sh) = Some (n, sh')"
    and room: "roomy (n + m) fuel c M" and es: "error_wf es" and depth: "length ids \<le> depth"
  shows "\<exists>q c' Lo' M' ids'.
    (if ids = [] then insert_into_leaf site mt p pg (of_nat ps) key val es else btree_insert_walk depth fuel bt p pg key val es) =
      Inr (SUCCESS, q, es) \<and>
    caches ps c' q M' [] \<and> roomy m fuel c' M' \<and> edge ps k Lo' M' (tid pg # ids') sh' (al @ [(k, v)]) \<and>
    length ids' = length ids \<and> grown (tid pg # ids) Lo M (tid pg # ids') Lo' M'"
proof (cases ids)
  case Nil
  have sh: "sh = []" using spine_length [OF edge_spine [OF e]] Nil by simp
  then have w1: "snd (entry_size (k, v)) + 2 \<le> spare ps s" "n = 0" "sh' = [s @ [entry_size (k, v)]]" using w by (auto split: if_splits)
  have "M (tid pg) \<noteq> None" using spine_pages [OF edge_spine [OF e]] by simp
  then obtain d where d: "M (tid pg) = Some d" by blast
  from leaf_insert_edge [OF c e [unfolded Nil sh] b kv d w1(1)] obtain q d' where
    i: "insert_into_leaf site mt p pg (of_nat ps) key val es = Inr (SUCCESS, q, es)" "caches ps c q (M(tid pg \<mapsto> d')) []"
    "edge ps k Lo (M(tid pg \<mapsto> d')) [tid pg] sh' (al @ [(k, v)])" "grown [tid pg] Lo M [tid pg] Lo (M(tid pg \<mapsto> d'))" unfolding w1(3) by blast
  have "roomy m fuel c (M(tid pg \<mapsto> d'))" by (rule roomy_contents) (use room d w1(2) in auto)
  with i Nil show ?thesis by (metis list.size(3))
next
  case (Cons j tl)
  obtain t sh1 where sh: "sh = t # sh1" using spine_length [OF edge_spine [OF e]] Cons by (cases sh) auto
  have "length tl < depth" using depth Cons by simp
  from walk_edge [OF c e [unfolded Cons sh] b bt kv w [unfolded sh] room es this] obtain q c' Lo' M' j' ids' where
    w: "btree_insert_walk depth fuel bt p pg key val es = Inr (SUCCESS, q, es)" "caches ps c' q M' []" "roomy m fuel c' M'"
    "edge ps k Lo' M' (tid pg # j' # ids') sh' (al @ [(k, v)])" "length ids' = length tl"
    "grown (tid pg # j # tl) Lo M (tid pg # j' # ids') Lo' M'" by blast
  have "length (j' # ids') = length ids" using w(5) Cons by simp
  with w(1-4,6) Cons show ?thesis by (metis list.distinct(1))
qed

lemma insert_below_edge:
  assumes c: "caches ps c p M [pg]" and e: "edge ps b Lo M (tid pg # ids) (s # sh) al" and b: "b < k"
    and bt: "btree_page_size bt = of_nat ps"
    and kv: "key_blob key k" "val_blob val v" "id_ok k" "val_ok v"
    and w: "shape_walk ps (entry_size (k, v)) (s # sh) = Some (n, sh')"
    and room: "roomy (n + m) fuel c M" and es: "error_wf es" and depth: "length ids \<le> depth"
  shows "\<exists>q c' Lo' M' ids'. insert_below depth fuel bt p pg key val es = Inr (SUCCESS, q, es) \<and>
    caches ps c' q M' [] \<and> roomy m fuel c' M' \<and> edge ps k Lo' M' (tid pg # ids') sh' (al @ [(k, v)]) \<and>
    length ids' = length ids \<and> grown (tid pg # ids) Lo M (tid pg # ids') Lo' M'"
proof -
  from insert_below_edge_cases [OF c e b bt kv w room es depth, of "(''src/btree.c'', ''btree_insert'', 437)"
      "''try page_insert_leaf(root.data, btree->page_size, key, value)''"] obtain q c' Lo' M' ids' where
    i: "(if ids = [] then insert_into_leaf (''src/btree.c'', ''btree_insert'', 437)
         ''try page_insert_leaf(root.data, btree->page_size, key, value)'' p pg (of_nat ps) key val es
       else btree_insert_walk depth fuel bt p pg key val es) = Inr (SUCCESS, q, es)"
    and r: "caches ps c' q M' []" "roomy m fuel c' M'" "edge ps k Lo' M' (tid pg # ids') sh' (al @ [(k, v)])"
      "length ids' = length ids" "grown (tid pg # ids) Lo M (tid pg # ids') Lo' M'" by blast
  have "M (tid pg) \<noteq> None" using spine_pages [OF edge_spine [OF e]] by simp
  then obtain d where d: "M (tid pg) = Some d" by blast
  have rd: "page_data p pg = Inr d" using caches_read [OF c _ d] by simp
  note S = spine_cells(6,7) [OF edge_spine [OF e] d]
  have "insert_below depth fuel bt p pg key val es = Inr (SUCCESS, q, es)"
    using rd S i bt by (cases "ids = []") (simp_all add: insert_below_def)
  with r show ?thesis by blast
qed

lemma split_root_stuck:
  assumes c: "caches ps c p M [pg]" and e: "edge ps b Lo M (tid pg # ids) (s # sh) al"
    and bt: "btree_page_size bt = of_nat ps" and n: "length s < 2" and room: "roomy (Suc m) fuel c M" and es: "error_wf es"
  shows "\<exists>f. split_root fuel bt p pg key es = Inl f"
proof -
  have "M (tid pg) \<noteq> None" using spine_pages [OF edge_spine [OF e]] by simp
  then obtain dj where dj: "M (tid pg) = Some dj" by blast
  obtain fl r pls s' ts where h: "s # sh = s' # ts" "page_rep ps dj fl r pls" "sizes_of ps dj pls s'"
    by (rule spine_head [OF edge_spine [OF e] dj])
  have short: "length pls < 2" using sizes_room(4) [OF h(3)] h(1) n by simp
  from caches_next [OF c room es] obtain pgs x p1 c' where
    n1: "pager_next fuel p es = Inr (SUCCESS, Some pgs, p1, es)" "caches ps c' p1 (M(tid pgs \<mapsto> x)) [pgs, pg]"
    "length x = ps" "M (tid pgs) = None" by blast
  have "tid pg \<noteq> tid pgs" using n1(4) dj by auto
  then have "split_pages p1 pg pgs (of_nat ps) = Inl Out_of_bounds"
    using dj by (intro split_pages_stuck [OF n1(2) _ _ _ _ n1(3) h(2) short]) simp_all
  then show ?thesis using n1(1) bt by (simp add: split_root_def)
qed

text \<open>The whole insertion, up to the split of the root.\<close>

lemma btree_insert_start:
  assumes c: "caches ps c p M []" and e: "edge ps b Lo M (root bt # ids) (s # sh) al"
    and kv: "key_blob key k" "val_blob val v" "id_ok k" "val_ok v"
  obtains d pg p1 where "M (tid pg) = Some d" and "tid pg = root bt" and "caches ps c p1 M [pg]"
    and "btree_insert depth fuel bt p key val es =
      obind (if spare ps s < needed (entry_size (k, v)) sh then split_root fuel bt p1 pg key es else Inr (SUCCESS, pg, bt, p1, es))
        (\<lambda>(r, rt, bt, p, es).
      obind (if r \<noteq> SUCCESS then Inr (r, p, es) else insert_below depth fuel bt p rt key val es) (\<lambda>(r, p, es).
      obind (if errdefer_runs es then pager_unfix p rt else Inr p) (\<lambda>p. Inr (r, bt, p, es))))"
proof -
  have i: "root bt \<notin> tid ` set []" "M (root bt) \<noteq> None" using spine_pages [OF edge_spine [OF e]] by simp_all
  then obtain d where d: "M (root bt) = Some d" by blast
  from cache.fix_free [OF c i(2,1)] obtain pg p1 where
    f: "pager_fix fuel p (root bt) True es = Inr (SUCCESS, Some pg, p1, es)" "tid pg = root bt" "caches ps c p1 M [pg]" by blast
  have rd: "page_data p1 pg = Inr d" using caches_read [OF f(3), of pg] d f(2) by simp
  note S = spine_cells(6) [OF edge_spine [OF e] d] and T = full_test [OF edge_spine [OF e] d kv]
  show thesis
    by (rule that [OF _ f(2,3)]) (use d f(1,2) rd S T in \<open>simp_all add: btree_insert_def cong: if_cong\<close>)
qed

text \<open>After the split of the root the insertion goes on below its upper half.\<close>

lemma split_insert_edge:
  assumes c: "caches ps c p M [pg]" and e: "edge ps b Lo M (tid pg # ids) (s # sh) al" and b: "b < k"
    and bt: "btree_page_size bt = of_nat ps"
    and kv: "key_blob key k" "val_blob val v" "id_ok k" "val_ok v" and n: "2 \<le> length s"
    and w: "shape_walk ps (entry_size (k, v)) (upper_half s # sh) = Some (n, sh')"
    and room: "roomy (Suc (Suc (n + m))) fuel c M" and es: "error_wf es" and depth: "length ids \<le> depth"
  shows "\<exists>pgs q1 r q c' Lo' M' ids'. split_root fuel bt p pg key es = Inr (SUCCESS, pgs, bt\<lparr>root := r\<rparr>, q1, es) \<and>
    insert_below depth fuel (bt\<lparr>root := r\<rparr>) q1 pgs key val es = Inr (SUCCESS, q, es) \<and> caches ps c' q M' [] \<and> roomy m fuel c' M' \<and>
    edge ps k Lo' M' (r # ids') ([inner_size (split_size s)] # sh') (al @ [(k, v)])"
proof -
  have "M (tid pg) \<noteq> None" using spine_pages [OF edge_spine [OF e]] by simp
  then obtain d where d: "M (tid pg) = Some d" by blast
  have k: "unat k < 2 ^ 31" using kv(3) by (simp add: id_ok_def)
  from split_root_edge [OF c e b bt kv(1) k d n room es] obtain pgs q c' Lo' M' r where
    s: "split_root fuel bt p pg key es = Inr (SUCCESS, pgs, bt\<lparr>root := r\<rparr>, q, es)" "caches ps c' q M' [pgs]"
    "roomy (n + m) fuel c' M'" "edge ps b Lo' M' (r # tid pgs # ids) ([inner_size (split_size s)] # upper_half s # sh) al" by blast
  have g: "grown (r # tid pgs # ids) Lo' M' (r # tid pgs # ids) Lo' M'" by (rule grown_refl) simp_all
  obtain sub where tl: "edge ps b Lo' M' (tid pgs # ids) (upper_half s # sh) sub"
    and up: "\<forall>Lo2 M2 ids' sh' v. edge ps k Lo2 M2 (tid pgs # ids') sh' (sub @ [(k, v)]) \<longrightarrow> length ids' = length ids \<longrightarrow>
      grown (tid pgs # ids) Lo' M' (tid pgs # ids') Lo2 M2 \<longrightarrow>
      edge ps k Lo2 M2 (r # tid pgs # ids') ([inner_size (split_size s)] # sh') (al @ [(k, v)]) \<and>
      grown (r # tid pgs # ids) Lo' M' (r # tid pgs # ids') Lo2 M2"
    by (rule edge_pass [OF s(4) g b])
  have bt': "btree_page_size (bt\<lparr>root := r\<rparr>) = of_nat ps" using bt by simp
  from insert_below_edge [OF s(2) tl b bt' kv w s(3) es depth] obtain q2 c2 Lo2 M2 ids' where
    i: "insert_below depth fuel (bt\<lparr>root := r\<rparr>) q pgs key val es = Inr (SUCCESS, q2, es)"
    "caches ps c2 q2 M2 []" "roomy m fuel c2 M2" "edge ps k Lo2 M2 (tid pgs # ids') sh' (sub @ [(k, v)])"
    "length ids' = length ids" "grown (tid pgs # ids) Lo' M' (tid pgs # ids') Lo2 M2" by blast
  have "edge ps k Lo2 M2 (r # tid pgs # ids') ([inner_size (split_size s)] # sh') (al @ [(k, v)])" using up i(4-6) by blast
  with s(1) i(1-3) show ?thesis by blast
qed

lemma btree_insert_edge:
  assumes c: "caches ps c p M []" and e: "edge ps b Lo M (root bt # ids) sh al" and b: "b < k"
    and bt: "btree_page_size bt = of_nat ps"
    and kv: "key_blob key k" "val_blob val v" "id_ok k" "val_ok v"
    and w: "shape_insert ps (entry_size (k, v)) sh = Some (n, sh')"
    and room: "roomy (n + m) fuel c M" and es: "error_wf es" "error_code es = 0" and depth: "length ids \<le> depth"
  shows "\<exists>q c' Lo' M' r ids'. btree_insert depth fuel bt p key val es = Inr (SUCCESS, bt\<lparr>root := r\<rparr>, q, es) \<and>
    caches ps c' q M' [] \<and> roomy m fuel c' M' \<and> edge ps k Lo' M' (r # ids') sh' (al @ [(k, v)])"
proof -
  obtain s ts where sh: "sh = s # ts" using spine_length [OF edge_spine [OF e]] by (cases sh) auto
  obtain n0 rt s1 n1 sh1 where w': "shape_root ps (entry_size (k, v)) s ts = Some (n0, rt, s1)"
    "shape_walk ps (entry_size (k, v)) (s1 # ts) = Some (n1, sh1)" "n = n0 + n1" "sh' = rt @ sh1"
    using w by (auto simp: sh split: option.splits)
  obtain d pg p1 where dm: "M (tid pg) = Some d" and f: "tid pg = root bt" "caches ps c p1 M [pg]"
    and start: "btree_insert depth fuel bt p key val es =
      obind (if spare ps s < needed (entry_size (k, v)) ts then split_root fuel bt p1 pg key es else Inr (SUCCESS, pg, bt, p1, es))
        (\<lambda>(r, rt, bt, p, es).
      obind (if r \<noteq> SUCCESS then Inr (r, p, es) else insert_below depth fuel bt p rt key val es) (\<lambda>(r, p, es).
      obind (if errdefer_runs es then pager_unfix p rt else Inr p) (\<lambda>p. Inr (r, bt, p, es))))"
    by (rule btree_insert_start [OF c e [unfolded sh] kv])
  have em: "edge ps b Lo M (tid pg # ids) (s # ts) al" using e f(1) sh by simp
  have quiet: "\<not> errdefer_runs es" using es(2) by (simp add: errdefer_runs_def error_get_code_def)
  show ?thesis
  proof (cases "spare ps s < needed (entry_size (k, v)) ts")
    case False
    then have st: "n0 = 0" "rt = []" "s1 = s" using w'(1) by (auto simp: shape_root_def)
    have w1: "shape_walk ps (entry_size (k, v)) (s # ts) = Some (n, sh')" using w' st by simp
    from insert_below_edge [OF f(2) em b bt kv w1 room es(1) depth] obtain q c' Lo' M' ids' where
      i: "insert_below depth fuel bt p1 pg key val es = Inr (SUCCESS, q, es)"
      "caches ps c' q M' []" "roomy m fuel c' M'" "edge ps k Lo' M' (tid pg # ids') sh' (al @ [(k, v)])" by blast
    have "btree_insert depth fuel bt p key val es = Inr (SUCCESS, bt\<lparr>root := tid pg\<rparr>, q, es)"
      using start False i(1) quiet f(1) by simp
    then show ?thesis using i(2-4) by blast
  next
    case True
    then have st: "2 \<le> length s" "n0 = 2" "rt = [[inner_size (split_size s)]]" "s1 = upper_half s"
      using w'(1) by (auto simp: shape_root_def split: if_splits)
    have rm: "roomy (Suc (Suc (n1 + m))) fuel c M" using room by (simp add: w'(3) st(2))
    from split_insert_edge [OF f(2) em b bt kv st(1) w'(2) [unfolded st(4)] rm es(1) depth] obtain pgs q1 r q c' Lo' M' ids' where
      s: "split_root fuel bt p1 pg key es = Inr (SUCCESS, pgs, bt\<lparr>root := r\<rparr>, q1, es)"
      "insert_below depth fuel (bt\<lparr>root := r\<rparr>) q1 pgs key val es = Inr (SUCCESS, q, es)" "caches ps c' q M' []" "roomy m fuel c' M'"
      "edge ps k Lo' M' (r # ids') ([inner_size (split_size s)] # sh1) (al @ [(k, v)])" by blast
    have "btree_insert depth fuel bt p key val es = Inr (SUCCESS, bt\<lparr>root := r\<rparr>, q, es)"
      using start True s(1,2) quiet by simp
    moreover have "sh' = [inner_size (split_size s)] # sh1" by (simp add: w'(4) st(3))
    ultimately show ?thesis using s(3-5) by blast
  qed
qed

text \<open>When the sizes say so, the insertion aborts.\<close>

lemma insert_below_stuck:
  assumes c: "caches ps c p M [pg]" and e: "edge ps b Lo M (tid pg # ids) (s # sh) al" and b: "b < k"
    and bt: "btree_page_size bt = of_nat ps"
    and kv: "key_blob key k" "val_blob val v" "id_ok k" "val_ok v"
    and w: "shape_walk ps (entry_size (k, v)) (s # sh) = None"
    and room: "roomy (length ids) fuel c M" and es: "error_wf es" and depth: "length ids \<le> depth"
  shows "\<exists>f. insert_below depth fuel bt p pg key val es = Inl f"
proof -
  have "M (tid pg) \<noteq> None" using spine_pages [OF edge_spine [OF e]] by simp
  then obtain d where d: "M (tid pg) = Some d" by blast
  have rd: "page_data p pg = Inr d" using caches_read [OF c _ d] by simp
  note S = spine_cells(6,7,9) [OF edge_spine [OF e] d]
  show ?thesis
  proof (cases ids)
    case Nil
    then have sh: "sh = []" using S(3) by simp
    then have "\<not> snd (entry_size (k, v)) + 2 \<le> spare ps s" using w by (auto split: if_splits)
    from leaf_insert_stuck [OF c e [unfolded Nil sh] b kv this] rd S Nil bt show ?thesis by (simp add: insert_below_def)
  next
    case (Cons j tl)
    then obtain t sh1 where sh: "sh = t # sh1" using S(3) by (cases sh) auto
    have "roomy (Suc (length tl)) fuel c M" "length tl < depth" using room depth Cons by simp_all
    from walk_edge_stuck [OF c e [unfolded Cons sh] b bt kv w [unfolded sh] this(1) es this(2)] rd S Cons
    show ?thesis by (auto simp: insert_below_def)
  qed
qed

lemma btree_insert_stuck:
  assumes c: "caches ps c p M []" and e: "edge ps b Lo M (root bt # ids) sh al" and b: "b < k"
    and bt: "btree_page_size bt = of_nat ps"
    and kv: "key_blob key k" "val_blob val v" "id_ok k" "val_ok v"
    and w: "shape_insert ps (entry_size (k, v)) sh = None"
    and room: "roomy (length ids + 2) fuel c M" and es: "error_wf es" and depth: "length ids \<le> depth"
  shows "\<exists>f. btree_insert depth fuel bt p key val es = Inl f"
proof -
  obtain s ts where sh: "sh = s # ts" using spine_length [OF edge_spine [OF e]] by (cases sh) auto
  obtain d pg p1 where dm: "M (tid pg) = Some d" and f: "tid pg = root bt" "caches ps c p1 M [pg]"
    and start: "btree_insert depth fuel bt p key val es =
      obind (if spare ps s < needed (entry_size (k, v)) ts then split_root fuel bt p1 pg key es else Inr (SUCCESS, pg, bt, p1, es))
        (\<lambda>(r, rt, bt, p, es).
      obind (if r \<noteq> SUCCESS then Inr (r, p, es) else insert_below depth fuel bt p rt key val es) (\<lambda>(r, p, es).
      obind (if errdefer_runs es then pager_unfix p rt else Inr p) (\<lambda>p. Inr (r, bt, p, es))))"
    by (rule btree_insert_start [OF c e [unfolded sh] kv])
  have em: "edge ps b Lo M (tid pg # ids) (s # ts) al" using e f(1) sh by simp
  have k: "unat k < 2 ^ 31" using kv(3) by (simp add: id_ok_def)
  show ?thesis
  proof (cases "spare ps s < needed (entry_size (k, v)) ts")
    case False
    then have w1: "shape_walk ps (entry_size (k, v)) (s # ts) = None" using w sh by (auto simp: shape_root_def)
    have "roomy (length ids) fuel c M" by (rule roomy_mono [OF room]) simp
    from insert_below_stuck [OF f(2) em b bt kv w1 this es depth] start False show ?thesis by auto
  next
    case True
    show ?thesis
    proof (cases "length s < 2")
      case True
      have "roomy (Suc (Suc (length ids))) fuel c M" using room by simp
      from split_root_stuck [OF f(2) em bt True this es, of key] start \<open>spare ps s < needed _ ts\<close> show ?thesis by auto
    next
      case False
      then have two: "2 \<le> length s" by simp
      have w1: "shape_walk ps (entry_size (k, v)) (upper_half s # ts) = None"
        using w sh True False by (simp add: shape_root_def split: option.splits)
      have rm: "roomy (Suc (Suc (length ids))) fuel c M" using room by simp
      from split_root_edge [OF f(2) em b bt kv(1) k dm two rm es] obtain pgs q c' Lo' M' r where
        s: "split_root fuel bt p1 pg key es = Inr (SUCCESS, pgs, bt\<lparr>root := r\<rparr>, q, es)" "caches ps c' q M' [pgs]"
        "roomy (length ids) fuel c' M'" "edge ps b Lo' M' (r # tid pgs # ids) ([inner_size (split_size s)] # upper_half s # ts) al"
        by blast
      obtain pre sub where tl: "edge ps b Lo' M' (tid pgs # ids) (upper_half s # ts) sub" by (rule edge_tail [OF s(4)])
      have bt': "btree_page_size (bt\<lparr>root := r\<rparr>) = of_nat ps" using bt by simp
      from insert_below_stuck [OF s(2) tl b bt' kv w1 s(3) es depth] start True s(1) show ?thesis by auto
    qed
  qed
qed

end
