(* ===== verification/TableAppend.thy ===== *)
theory TableAppend
  imports BtreeAppend
begin

text \<open>
  A table that is filled with growing ids, as an allocator of ids hands them out: the pages
  split, the tree grows, and every entry is found again.
\<close>

section \<open>Appending to a table\<close>

lemma table_put_edge:
  assumes c: "caches ps c p M []" and e: "edge ps b Lo M (root bt # ids) sh al" and b: "b < k"
    and bt: "btree_page_size bt = of_nat ps" and buf: "buffers_ok kb vb" and kv: "id_ok k" "val_ok v"
    and w: "shape_insert ps (entry_size (k, v)) sh = Some (n, sh')"
    and room: "roomy (n + m) fuel c M" and es: "error_wf es" "error_code es = 0" and depth: "length ids \<le> depth"
  shows "\<exists>q c' Lo' M' r ids'. table_put depth fuel kb vb bt p k v es = Inr (SUCCESS, bt\<lparr>root := r\<rparr>, q, es) \<and>
    caches ps c' q M' [] \<and> roomy m fuel c' M' \<and> edge ps k Lo' M' (r # ids') sh' (al @ [(k, v)])"
proof -
  obtain key val where kb: "key_blob key k" "val_blob val v"
    "\<forall>depth fuel bt p es. table_put depth fuel kb vb bt p k v es = btree_insert depth fuel bt p key val es"
    by (rule table_put_insert [OF buf kv])
  from btree_insert_edge [OF c e b bt kb(1,2) kv w room es depth] show ?thesis unfolding kb(3) [rule_format] .
qed

lemma table_put_stuck:
  assumes c: "caches ps c p M []" and e: "edge ps b Lo M (root bt # ids) sh al" and b: "b < k"
    and bt: "btree_page_size bt = of_nat ps" and buf: "buffers_ok kb vb" and kv: "id_ok k" "val_ok v"
    and w: "shape_insert ps (entry_size (k, v)) sh = None"
    and room: "roomy (length ids + 2) fuel c M" and es: "error_wf es" and depth: "length ids \<le> depth"
  shows "\<exists>f. table_put depth fuel kb vb bt p k v es = Inl f"
proof -
  obtain key val where kb: "key_blob key k" "val_blob val v"
    "\<forall>depth fuel bt p es. table_put depth fuel kb vb bt p k v es = btree_insert depth fuel bt p key val es"
    by (rule table_put_insert [OF buf kv])
  from btree_insert_stuck [OF c e b bt kb(1,2) kv w room es depth] show ?thesis unfolding kb(3) [rule_format] .
qed

text \<open>The first entry, whose id may be 0.\<close>

lemma table_put_first:
  assumes c: "caches ps c p M []" and M: "M (root bt) = Some d" "root bt \<noteq> 0" and lp: "leaf_page ps fl r d []"
    and bt: "btree_page_size bt = of_nat ps" and buf: "buffers_ok kb vb" and kv: "id_ok k" "val_ok v"
    and w: "shape_insert ps (entry_size (k, v)) [[]] = Some (n, sh)"
    and room: "roomy (n + m) fuel c M" and es: "error_wf es" "error_code es = 0"
  shows "\<exists>q M'. table_put depth fuel kb vb bt p k v es = Inr (SUCCESS, bt, q, es) \<and>
    caches ps c q M' [] \<and> roomy m fuel c M' \<and> edge ps k Map.empty M' [root bt] sh [(k, v)]"
proof -
  obtain key val where kb: "key_blob key k" "val_blob val v"
    "\<forall>depth fuel bt p es. table_put depth fuel kb vb bt p k v es = btree_insert depth fuel bt p key val es"
    by (rule table_put_insert [OF buf kv])
  have s: "n = 0" "sh = [[entry_size (k, v)]]" "12 + leaf_used [(k, v)] \<le> ps"
    using w unfolding shape_insert_empty by (auto simp: entry_size_def split: if_splits)
  from btree_insert_root_leaf [OF c M(1) lp bt kb(1) kv(1) kb(2) kv(2) _ s(3), of es depth fuel] obtain d' q where
    i: "leaf_page ps fl r d' (leaf_insert k v [])" "btree_insert depth fuel bt p key val es = Inr (SUCCESS, bt, q, es)"
    "caches ps c q (M(root bt \<mapsto> d')) []" unfolding if_P [OF es(2)] by auto
  have "leaf_insert k v [] = [(k, v)]" by (simp add: leaf_insert_def leaf_pos_def insert_at_def)
  then have "edge ps k Map.empty (M(root bt \<mapsto> d')) [root bt] sh [(k, v)]" using i(1) M(2) by (auto simp: edge_def s(2))
  moreover have "roomy m fuel c (M(root bt \<mapsto> d'))" by (rule roomy_contents) (use room M(1) s(1) in auto)
  ultimately show ?thesis using i(2,3) kb(3) by auto
qed

lemma table_fill_edge:
  assumes "caches ps c p M []" and "edge ps b Lo M (root bt # ids) sh al" and "btree_page_size bt = of_nat ps"
    and buf: "buffers_ok kb vb" and es: "error_wf es" "error_code es = 0"
    and "\<forall>e \<in> set xs. id_ok (fst e) \<and> val_ok (snd e)" and "sorted_wrt (<) (b # map fst xs)"
    and "shape_fill ps (map entry_size xs) sh = Some (n, sh')"
    and "roomy (n + m) fuel c M" and "length sh' \<le> Suc depth" and "id_ok b"
  shows "\<exists>bt' q c' Lo' M' ids' b'. table_fill depth fuel kb vb xs bt p es = Inr (SUCCESS, bt', q, es) \<and>
    caches ps c' q M' [] \<and> roomy m fuel c' M' \<and> edge ps b' Lo' M' (root bt' # ids') sh' (al @ xs) \<and>
    btree_page_size bt' = of_nat ps \<and> id_ok b'"
  using assms(1-3,7-12)
proof (induction xs arbitrary: bt c p M b Lo ids sh al n)
  case Nil
  then show ?case by (intro exI [of _ bt] exI [of _ p] exI [of _ c] exI [of _ Lo] exI [of _ M] exI [of _ ids] exI [of _ b]) simp
next
  case (Cons e xs)
  obtain k v where e: "e = (k, v)" by (cases e)
  have kv: "id_ok k" "val_ok v" "b < k" using Cons.prems(4,5) by (simp_all add: e)
  obtain n1 sh1 n2 where w: "shape_insert ps (entry_size (k, v)) sh = Some (n1, sh1)"
    "shape_fill ps (map entry_size xs) sh1 = Some (n2, sh')" "n = n1 + n2"
    using Cons.prems(6) by (auto simp: e split: option.splits)
  have room: "roomy (n1 + (n2 + m)) fuel c M" using Cons.prems(7) by (simp add: w(3) add.assoc)
  have "length sh \<le> Suc depth"
    using shape_insert_length [OF w(1)] shape_fill_length [OF w(2)] Cons.prems(8) by linarith
  then have "length ids \<le> depth" using spine_length [OF edge_spine [OF Cons.prems(2)]] by simp
  from table_put_edge [OF Cons.prems(1,2) kv(3) Cons.prems(3) buf kv(1,2) w(1) room es this] obtain q c' Lo' M' r ids' where
    s: "table_put depth fuel kb vb bt p k v es = Inr (SUCCESS, bt\<lparr>root := r\<rparr>, q, es)" "caches ps c' q M' []"
    "roomy (n2 + m) fuel c' M'" "edge ps k Lo' M' (root (bt\<lparr>root := r\<rparr>) # ids') sh1 (al @ [(k, v)])" by auto
  have "sorted_wrt (<) (k # map fst xs)" "\<forall>e \<in> set xs. id_ok (fst e) \<and> val_ok (snd e)"
    "btree_page_size (bt\<lparr>root := r\<rparr>) = of_nat ps" using Cons.prems(3,4,5) by (simp_all add: e)
  from Cons.IH [OF s(2,4) this(3,2,1) w(2) s(3) Cons.prems(8) kv(1)] obtain bt' q2 c2 Lo2 M2 ids2 b2 where
    t: "table_fill depth fuel kb vb xs (bt\<lparr>root := r\<rparr>) q es = Inr (SUCCESS, bt', q2, es)"
    "caches ps c2 q2 M2 []" "roomy m fuel c2 M2" "edge ps b2 Lo2 M2 (root bt' # ids2) sh' ((al @ [(k, v)]) @ xs)"
    "btree_page_size bt' = of_nat ps" "id_ok b2" by blast
  have "table_fill depth fuel kb vb (e # xs) bt p es = Inr (SUCCESS, bt', q2, es)" using s(1) t(1) by (simp add: e)
  moreover have "(al @ [(k, v)]) @ xs = al @ e # xs" by (simp add: e)
  ultimately show ?case using t(2-6) by metis
qed

lemma table_fill_ascending:
  assumes c: "caches ps c p M []" and M: "M (root bt) = Some d" "root bt \<noteq> 0" and lp: "leaf_page ps fl r d []"
    and bt: "btree_page_size bt = of_nat ps" and buf: "buffers_ok kb vb" and es: "error_wf es" "error_code es = 0"
    and xs: "\<forall>e \<in> set xs. id_ok (fst e) \<and> val_ok (snd e)" "sorted_wrt (<) (map fst xs)"
    and w: "shape_fill ps (map entry_size xs) [[]] = Some (n, sh)"
    and room: "roomy (n + m) fuel c M" and depth: "length sh \<le> Suc depth"
  shows "\<exists>bt' q c' Lo' M' ids' b'. table_fill depth fuel kb vb xs bt p es = Inr (SUCCESS, bt', q, es) \<and>
    caches ps c' q M' [] \<and> roomy m fuel c' M' \<and> edge ps b' Lo' M' (root bt' # ids') sh xs \<and>
    btree_page_size bt' = of_nat ps \<and> id_ok b'"
proof (cases xs)
  case Nil
  have "edge ps 0 Map.empty M [root bt] [[]] []" using M lp by (auto simp: edge_def)
  then show ?thesis using c bt room w Nil
    by (intro exI [of _ bt] exI [of _ p] exI [of _ c] exI [of _ Map.empty] exI [of _ M] exI [of _ "[]"] exI [of _ 0])
      (simp add: id_ok_def)
next
  case (Cons e tl)
  obtain k v where e: "e = (k, v)" by (cases e)
  have kv: "id_ok k" "val_ok v" using xs(1) by (simp_all add: Cons e)
  obtain n1 sh1 n2 where w': "shape_insert ps (entry_size (k, v)) [[]] = Some (n1, sh1)"
    "shape_fill ps (map entry_size tl) sh1 = Some (n2, sh)" "n = n1 + n2"
    using w by (auto simp: Cons e split: option.splits)
  have rm: "roomy (n1 + (n2 + m)) fuel c M" using room by (simp add: w'(3) add.assoc)
  from table_put_first [OF c M lp bt buf kv w'(1) rm es] obtain q M' where
    i: "table_put depth fuel kb vb bt p k v es = Inr (SUCCESS, bt, q, es)" "caches ps c q M' []"
    "roomy (n2 + m) fuel c M'" "edge ps k Map.empty M' [root bt] sh1 [(k, v)]" by blast
  have tl: "\<forall>e \<in> set tl. id_ok (fst e) \<and> val_ok (snd e)" "sorted_wrt (<) (k # map fst tl)"
    using xs by (simp_all add: Cons e)
  from table_fill_edge [OF i(2,4) bt buf es tl w'(2) i(3) depth kv(1)] i(1) show ?thesis by (simp add: Cons e)
qed

text \<open>Entries of one size.\<close>

definition sized :: "nat \<Rightarrow> nat \<Rightarrow> u64 \<times> byte list \<Rightarrow> bool" where
  "sized kl el e \<longleftrightarrow> length (vint_bytes (fst e)) = kl \<and> length (leaf_entry e) = el"

lemma even_shape_fill:
  assumes fits: "fits_evenly ps el" "fits_evenly ps (kl + 4)" and xs: "\<forall>e \<in> set xs. sized kl el e"
  shows "\<exists>n sh. shape_fill ps (map entry_size xs) [[]] = Some (n, sh) \<and> n \<le> length xs * length xs \<and> length sh \<le> Suc (length xs)"
proof -
  have "map entry_size xs = map (\<lambda>_. (kl, el)) xs" using xs by (auto simp: entry_size_def sized_def)
  then have m: "map entry_size xs = replicate (length xs) (kl, el)" by (simp add: map_replicate_const)
  show ?thesis
  proof (cases "length xs")
    case (Suc k)
    have el: "el + 2 \<le> ps - 12" using fits(1) unfolding fits_evenly_def by linarith
    then have e: "even_shape ps kl el [[(kl, el)]]" "shape_insert ps (kl, el) [[]] = Some (0, [[(kl, el)]])"
      unfolding shape_insert_empty by (simp_all add: even_sizes_def)
    from even_fill [OF fits e(1), of k] obtain n sh where
      f: "shape_fill ps (replicate k (kl, el)) [[(kl, el)]] = Some (n, sh)" "n \<le> k * Suc k" "length sh \<le> Suc k" by auto
    have "shape_fill ps (replicate (Suc k) (kl, el)) [[]] = Some (n, sh)" using f(1) e(2) by simp
    moreover have "n \<le> Suc k * Suc k" using f(2) by simp
    ultimately show ?thesis unfolding m Suc using f(3) by auto
  qed simp
qed

section \<open>Properties\<close>

lemma table_append_correct:
  assumes "power_of_two_or_zero n" and "2 \<le> unat n" and "12 \<le> unat ps" and "\<forall>j. ms j \<noteq> None"
    and "length sp + 2 * unat n \<le> fuel" and "\<not> page_is_index_uuid ty" and "buffers_ok kb vb"
    and "\<forall>e \<in> set xs. id_ok (fst e) \<and> val_ok (snd e)" and "sorted_wrt (<) (map fst xs)"
    and "shape_fill (unat ps) (map entry_size xs) [[]] = Some (pages, sh)"
    and "pages + 1 < 7 * unat n div 10" and "length sh \<le> depth"
  shows "\<exists>p bt q bt' s. pager_open ps n ms sp error_init = Inr (SUCCESS, Some (Live p), error_init) \<and>
    btree_create fuel p ty error_init = Inr (SUCCESS, Some (Live bt), q, error_init) \<and>
    table_fill depth fuel kb vb xs bt q error_init = Inr (SUCCESS, bt', s, error_init) \<and>
    (\<forall>k. id_ok k \<longrightarrow> (\<exists>r out s' es. btree_table_lookup depth fuel bt' s k kb error_init = Inr (r, out, s', es) \<and>
      lookup_answer (map_of xs k) error_init r out es))"
proof -
  have sz: "unat (seven_tenths n) = 7 * unat n div 10" by (rule unat_seven_tenths [OF power_of_two_bound [OF assms(1)]])
  have pre: "Suc pages < unat (seven_tenths n)" "length sp + 2 * unat (seven_tenths n) \<le> fuel"
    using assms(5,11) unfolding sz by simp_all
  obtain p bt q c M d where
    o: "pager_open ps n ms sp error_init = Inr (SUCCESS, Some (Live p), error_init)"
      "btree_create fuel p ty error_init = Inr (SUCCESS, Some (Live bt), q, error_init)"
    and c: "caches (unat ps) c q M []" "roomy pages fuel c M" "M (root bt) = Some d" "root bt \<noteq> 0"
      "leaf_page (unat ps) (page_flags_package True ty) 0 d []" "btree_page_size bt = of_nat (unat ps)"
    by (rule opened_table [OF assms(1,2) pre(1) assms(3,4) pre(2) assms(6)])
  have es: "error_code error_init = 0" by (simp add: error_init_def)
  have rm: "roomy (pages + 0) fuel c M" and dp: "length sh \<le> Suc depth" using c(2) assms(12) by simp_all
  from table_fill_ascending [OF c(1,3,4,5,6) assms(7) error_wf_init es assms(8,9,10) rm dp] obtain bt' s c' Lo' M' ids' b' where
    f: "table_fill depth fuel kb vb xs bt q error_init = Inr (SUCCESS, bt', s, error_init)"
    "caches (unat ps) c' s M' []" "edge (unat ps) b' Lo' M' (root bt' # ids') sh xs" "id_ok b'" by blast
  have "length ids' < depth" using spine_length [OF edge_spine [OF f(3)]] assms(12) by simp
  from table_lookup_correct [OF f(2) edge_tree [OF f(3,4)] this _ _ error_wf_init] assms(7) have
    "\<forall>k. id_ok k \<longrightarrow> (\<exists>r out s' es. btree_table_lookup depth fuel bt' s k kb error_init = Inr (r, out, s', es) \<and>
      lookup_answer (map_of xs k) error_init r out es)" unfolding buffers_ok_def by blast
  with o f(1) show ?thesis by blast
qed

section \<open>Properties\<close>


text \<open>Entries with ids of one and of two bytes and values of up to five bytes, on pages of 43 bytes.\<close>

definition growing :: "(u64 \<times> byte list) list" where
  "growing = [(1, [11]), (2, [12, 12]), (3, []), (5, [15, 15, 15, 15, 15]), (8, [18]), (13, [23, 23]), (21, [31, 31, 31]), (130, [44]),
    (131, [45]), (132, [46, 46]), (260, [47, 47, 47]), (300, [])]"


text \<open>
  Entries of one size. If the size of the entries suits the page size (\<open>fits_evenly\<close>), all
  of them find room, however many there are, in a cache with \<open>length xs\<close> pages for each of them.
\<close>

theorem table_append_and_read:
  assumes "power_of_two_or_zero n" and "length xs * length xs + 1 < 7 * unat n div 10" and "2 \<le> unat n"
    and "fits_evenly (unat ps) el" and "fits_evenly (unat ps) (kl + 4)"
    and "\<forall>j. ms j \<noteq> None" and "length sp + 2 * unat n \<le> fuel" and "\<not> page_is_index_uuid ty" and "length xs < depth"
    and "buffers_ok kb vb" and "sorted_wrt (<) (map fst xs)" and "\<forall>e \<in> set xs. id_ok (fst e) \<and> val_ok (snd e) \<and> sized kl el e"
  shows "\<exists>p bt q bt' s. pager_open ps n ms sp error_init = Inr (SUCCESS, Some (Live p), error_init) \<and>
    btree_create fuel p ty error_init = Inr (SUCCESS, Some (Live bt), q, error_init) \<and>
    table_fill depth fuel kb vb xs bt q error_init = Inr (SUCCESS, bt', s, error_init) \<and>
    (\<forall>k. id_ok k \<longrightarrow> (\<exists>r out s' es. btree_table_lookup depth fuel bt' s k kb error_init = Inr (r, out, s', es) \<and>
      lookup_answer (map_of xs k) error_init r out es))"
proof -
  have xs: "\<forall>e \<in> set xs. sized kl el e" "\<forall>e \<in> set xs. id_ok (fst e) \<and> val_ok (snd e)" using assms(12) by simp_all
  from even_shape_fill [OF assms(4,5) xs(1)] obtain pages sh where
    f: "shape_fill (unat ps) (map entry_size xs) [[]] = Some (pages, sh)" "pages \<le> length xs * length xs" "length sh \<le> Suc (length xs)"
    by blast
  have "12 \<le> unat ps" "pages + 1 < 7 * unat n div 10" "length sh \<le> depth" using f(2,3) assms(2,4,9) by (simp_all add: fits_evenly_def)
  then show ?thesis by (rule table_append_correct [OF assms(1,3) _ assms(6,7,8,10) xs(2) assms(11) f(1)])
qed

text \<open>Twelve entries on pages of 34 bytes, with room for four entries or three keys: the tree gets two levels of inner pages.\<close>

definition twelve :: "(u64 \<times> byte list) list" where
  "twelve = [(1, [11]), (2, [12]), (3, [13]), (5, [15]), (8, [18]), (13, [23]), (21, [31]), (34, [44]), (35, [45]), (36, [46]), (37, [47]), (40, [50])]"

theorem table_append_and_read_witness:
  "\<exists>p bt q bt' s. pager_open 34 256 (\<lambda>_. Some (\<lambda>_. 0xcd)) [True] error_init = Inr (SUCCESS, Some (Live p), error_init) \<and>
    btree_create 600 p 0 error_init = Inr (SUCCESS, Some (Live bt), q, error_init) \<and>
    table_fill 13 600 (replicate 9 0xaa) (\<lambda>n. replicate n 0xbb) twelve bt q error_init = Inr (SUCCESS, bt', s, error_init) \<and>
    (\<forall>k. id_ok k \<longrightarrow> (\<exists>r out s' es. btree_table_lookup 13 600 bt' s k (replicate 9 0xaa) error_init = Inr (r, out, s', es) \<and>
      lookup_answer (map_of twelve k) error_init r out es))"
proof (rule table_append_and_read [of 256 twelve 34 3 1])
  show "\<forall>e \<in> set twelve. id_ok (fst e) \<and> val_ok (snd e) \<and> sized 1 3 e"
    by (simp add: twelve_def id_ok_def val_ok_def sized_def leaf_entry_def vint_bytes.simps)
qed (simp_all add: twelve_def power_of_two_or_zero_def fits_evenly_def page_is_index_uuid_def buffers_ok_def)

text \<open>
  One step of it, for an id above all ids of the tree. If \<open>shape_insert\<close> finds room, then
  whatever pages are full on the way down, \<^verbatim>\<open>btree_table_insert\<close> succeeds, gives back every
  page it fixed, and adds the entry at the end; the right edge of the tree has the sizes that
  \<open>shape_insert\<close> computed and keeps its invariant: exact \<^verbatim>\<open>free_space\<close>, ordered keys, and
  untouched subtrees to its left. If \<open>shape_insert\<close> finds no room, the program aborts.
\<close>

theorem table_put_keeps_edge:
  assumes "caches ps c p M []" and "edge ps b Lo M (root bt # ids) sh al" and "b < k"
    and "btree_page_size bt = of_nat ps" and "buffers_ok kb vb" and "id_ok k" and "val_ok v"
    and "roomy (length ids + 2 + m) fuel c M" and "error_wf es" and "error_code es = 0" and "length ids \<le> depth"
  shows "case shape_insert ps (entry_size (k, v)) sh of
      None \<Rightarrow> \<exists>f. table_put depth fuel kb vb bt p k v es = Inl f
    | Some (n, sh') \<Rightarrow>
        \<exists>q c' Lo' M' r ids'. table_put depth fuel kb vb bt p k v es = Inr (SUCCESS, bt\<lparr>root := r\<rparr>, q, es) \<and>
          caches ps c' q M' [] \<and> roomy m fuel c' M' \<and> edge ps k Lo' M' (r # ids') sh' (al @ [(k, v)]) \<and>
          tree_at (length ids') ps M' max_id r (al @ [(k, v)]) \<and> length ids' \<le> Suc (length ids)"
proof (cases "shape_insert ps (entry_size (k, v)) sh")
  case None
  have "roomy (length ids + 2) fuel c M" by (rule roomy_mono [OF assms(8)]) simp
  from table_put_stuck [OF assms(1-7) None this assms(9,11)] show ?thesis by (simp add: None)
next
  case (Some x)
  then obtain n sh' where w: "shape_insert ps (entry_size (k, v)) sh = Some (n, sh')" by (cases x) auto
  note L = spine_length [OF edge_spine [OF assms(2)]]
  have "roomy (n + m) fuel c M" by (rule roomy_mono [OF assms(8)]) (use shape_insert_pages [OF w] L in simp)
  from table_put_edge [OF assms(1-7) w this assms(9-11)] obtain q c' Lo' M' r ids' where
    t: "table_put depth fuel kb vb bt p k v es = Inr (SUCCESS, bt\<lparr>root := r\<rparr>, q, es)" "caches ps c' q M' []" "roomy m fuel c' M'"
    "edge ps k Lo' M' (r # ids') sh' (al @ [(k, v)])" by blast
  have "length ids' \<le> Suc (length ids)"
    using shape_insert_length [OF w] L spine_length [OF edge_spine [OF t(4)]] by simp
  with t edge_tree [OF t(4) assms(6)] show ?thesis unfolding w option.case prod.case by blast
qed

theorem table_put_keeps_edge_witness:
  "\<exists>(bt :: btree_t) p.
    (\<exists>q c' Lo' M' r ids'. table_put 1 40 (replicate 9 0xaa) (\<lambda>n. replicate n 0xbb) bt p 9 [1] error_init =
        Inr (SUCCESS, bt\<lparr>root := r\<rparr>, q, error_init) \<and>
      caches 64 c' q M' [] \<and> edge 64 9 Lo' M' (r # ids') [[(1, 3), (1, 3)]] [(5, [8]), (9, [1])]) \<and>
    (\<exists>f. table_put 1 40 (replicate 9 0xaa) (\<lambda>n. replicate n 0xbb) bt p 9 (replicate 50 1) error_init = Inl f)"
proof -
  from example_table obtain bt :: btree_t and c q M d fl r where
    t: "caches 64 c q M []" "M (root bt) = Some d" "root bt \<noteq> 0" "leaf_page 64 fl r d [(5, [8])]" "btree_page_size bt = of_nat 64"
      "roomy 4 40 c M" by blast
  have e: "edge 64 5 Map.empty M (root bt # []) [[(1, 3)]] [(5, [8])]"
    using t(2-4) by (auto simp: edge_def entry_size_def leaf_entry_def vint_bytes.simps)
  have s: "entry_size (9, [1]) = (1, 3)" "entry_size (9, replicate 50 1) = (1, 52)"
    by (simp_all add: entry_size_def leaf_entry_def vint_bytes.simps)
  have w: "shape_insert 64 (1, 3) [[(1, 3)]] = Some (0, [[(1, 3), (1, 3)]])" "shape_insert 64 (1, 52) [[(1, 3)]] = None"
    by (simp_all add: shape_root_def spare_def)
  have ok: "id_ok 9" "val_ok [1]" "val_ok (replicate 50 1)" "(5 :: u64) < 9" "error_code error_init = 0"
    by (simp_all add: id_ok_def val_ok_def error_init_def)
  have rm: "roomy (length ([] :: u32 list) + 2 + 2) 40 c M" using roomy_mono [OF t(6), of 4] by (simp add: numeral_eq_Suc)
  have dp: "length ([] :: u32 list) \<le> 1" by simp
  note put = table_put_keeps_edge [OF t(1) e ok(4) t(5) example_buffers ok(1) _ rm error_wf_init ok(5) dp]
  from put [OF ok(2), unfolded s w option.case prod.case] obtain q' c' Lo' M' r ids' where
    "table_put 1 40 (replicate 9 0xaa) (\<lambda>n. replicate n 0xbb) bt q 9 [1] error_init = Inr (SUCCESS, bt\<lparr>root := r\<rparr>, q', error_init)"
    "caches 64 c' q' M' []" "edge 64 9 Lo' M' (r # ids') [[(1, 3), (1, 3)]] ([(5, [8])] @ [(9, [1])])"
    by (elim exE conjE) (rule that)
  moreover from put [OF ok(3), unfolded s w option.case] obtain f where
    "table_put 1 40 (replicate 9 0xaa) (\<lambda>n. replicate n 0xbb) bt q 9 (replicate 50 1) error_init = Inl f" ..
  ultimately show ?thesis unfolding append.simps by blast
qed

end
