(* ===== verification/ClaimTree.thy ===== *)
theory ClaimTree
  imports BtreeSpine
begin

text \<open>
  A B-tree as a value: its pages with their entries or keys, and with the free space that each
  header claims. Insertion of an id in any place is a function on this value, \<open>put_root\<close>, which
  also says when the program aborts, and when a page claims space that it does not have.
\<close>

section \<open>Trees\<close>

text \<open>
  A node has the id of its page, the \<^verbatim>\<open>free_space\<close> in the page's header, and the entries of a
  leaf, or the keys and the subtrees of an inner page. An inner page that kept the lower half at
  a split has no last child: its right link leads to its new sibling.
\<close>

datatype node =
    Leaf_node u32 u16 "(u64 \<times> byte list) list"
  | Inner_node u32 u16 "u64 list" "node list" "u32 option"

fun node_id :: "node \<Rightarrow> u32" where
  "node_id (Leaf_node i c al) = i"
| "node_id (Inner_node i c ks ts r) = i"

fun claim :: "node \<Rightarrow> u16" where
  "claim (Leaf_node i c al) = c"
| "claim (Inner_node i c ks ts r) = c"

fun node_entries :: "node \<Rightarrow> (u64 \<times> byte list) list" where
  "node_entries (Leaf_node i c al) = al"
| "node_entries (Inner_node i c ks ts r) = concat (map node_entries ts)"

fun node_pages :: "node \<Rightarrow> u32 list" where
  "node_pages (Leaf_node i c al) = [i]"
| "node_pages (Inner_node i c ks ts r) = i # concat (map node_pages ts)"

fun node_height :: "node \<Rightarrow> nat" where
  "node_height (Inner_node i c ks (t # ts) r) = Suc (node_height t)"
| "node_height t = 0"

fun payload_sizes :: "node \<Rightarrow> nat list" where
  "payload_sizes (Leaf_node i c al) = map (\<lambda>e. length (leaf_entry e)) al"
| "payload_sizes (Inner_node i c ks ts r) = map (\<lambda>k. 4 + length (vint_bytes k)) ks"

definition real_room :: "nat \<Rightarrow> nat list \<Rightarrow> nat" where
  "real_room ps ns = ps - 12 - (sum_list ns + 2 * length ns)"

text \<open>What the payload of an entry takes on the page.\<close>

fun need :: "u64 \<Rightarrow> byte list \<Rightarrow> node \<Rightarrow> nat" where
  "need k v (Leaf_node i c al) = length (leaf_entry (k, v))"
| "need k v (Inner_node i c ks ts r) = length (vint_bytes k) + 4"

section \<open>Insertion\<close>

text \<open>
  A split. The upper half has an exact header. The lower half claims what its payloads take,
  less what it needs for its header and cells, as \<^verbatim>\<open>page_compact\<close> computes it.
\<close>

definition low_claim :: "nat list \<Rightarrow> u16" where
  "low_claim ns = of_nat (sum_list ns) - of_nat (12 + 2 * length ns)"

fun halve :: "nat \<Rightarrow> u32 \<Rightarrow> node \<Rightarrow> node \<times> u64 \<times> node" where
  "halve ps nid (Leaf_node i c al) =
     (let s = length al div 2; ns = payload_sizes (Leaf_node i c al) in
      (Leaf_node i (low_claim (take s ns)) (take s al), fst (al ! (s - 1)),
       Leaf_node nid (of_nat (real_room ps (drop s ns))) (drop s al)))"
| "halve ps nid (Inner_node i c ks ts r) =
     (let s = length ks div 2; ns = payload_sizes (Inner_node i c ks ts r) in
      (Inner_node i (low_claim (take s ns)) (take s ks) (take s ts) (Some nid), ks ! (s - 1),
       Inner_node nid (of_nat (real_room ps (drop s ns))) (drop s ks) (drop s ts) r))"

text \<open>The result, an abort, or a page that is written over its cells.\<close>

datatype 'a fate = Done 'a | Abort | Spoiled

fun fate_bind :: "'a fate \<Rightarrow> ('a \<Rightarrow> 'b fate) \<Rightarrow> 'b fate" where
  "fate_bind (Done x) f = f x"
| "fate_bind Abort f = Abort"
| "fate_bind Spoiled f = Spoiled"

text \<open>\<open>claims c rm n\<close>: \<open>n\<close> bytes are written where \<open>c\<close> are claimed and \<open>rm\<close> are there.\<close>

definition claims :: "u16 \<Rightarrow> nat \<Rightarrow> nat \<Rightarrow> 'a \<Rightarrow> 'a fate" where
  "claims c rm n x = (if unat c < n then Abort else if rm < n then Spoiled else Done x)"

text \<open>
  The step from an inner page to the child for \<open>k\<close>: the number of new pages, the page with the
  child split if the child claims too little, and the position of the child to go on with.
\<close>

fun aim :: "nat \<Rightarrow> u32 \<Rightarrow> u64 \<Rightarrow> byte list \<Rightarrow> node \<Rightarrow> (nat \<times> node \<times> nat) fate" where
  "aim ps nid k v (Leaf_node i c al) = Abort"
| "aim ps nid k v (Inner_node i c ks ts r) =
     (let j = key_rank ks k; t = ts ! j in
      if need k v t \<le> unat (claim t) then Done (0, Inner_node i c ks ts r, j)
      else if length (payload_sizes t) < 2 then Abort
      else case halve ps nid t of (lo, k0, up) \<Rightarrow>
        let n = length (vint_bytes k0) + 6 in
        claims c (real_room ps (payload_sizes (Inner_node i c ks ts r))) n
          (1, Inner_node i (c - of_nat n) (insert_at j k0 ks) (take j ts @ lo # up # drop (Suc j) ts) r,
           if k < k0 then j else Suc j))"

fun child :: "node \<Rightarrow> nat \<Rightarrow> node" where
  "child (Inner_node i c ks ts r) j = ts ! j"
| "child (Leaf_node i c al) j = Leaf_node i c al"

fun plug :: "node \<Rightarrow> nat \<Rightarrow> node \<Rightarrow> node" where
  "plug (Inner_node i c ks ts r) j u = Inner_node i c ks (ts[j := u]) r"
| "plug (Leaf_node i c al) j u = u"

fun put :: "nat \<Rightarrow> nat \<Rightarrow> u32 \<Rightarrow> u64 \<Rightarrow> byte list \<Rightarrow> node \<Rightarrow> (nat \<times> node) fate" where
  "put h ps nid k v (Leaf_node i c al) =
     (let n = length (leaf_entry (k, v)) + 2 in
      claims c (real_room ps (payload_sizes (Leaf_node i c al))) n (0, Leaf_node i (c - of_nat n) (leaf_insert k v al)))"
| "put 0 ps nid k v (Inner_node i c ks ts r) = Abort"
| "put (Suc h) ps nid k v (Inner_node i c ks ts r) =
     (if unat c < need k v (Inner_node i c ks ts r) then Abort
      else fate_bind (aim ps nid k v (Inner_node i c ks ts r)) (\<lambda>(a, t, j).
        fate_bind (put h ps (nid + of_nat a) k v (child t j)) (\<lambda>(b, u). Done (a + b, plug t j u))))"

definition new_root_node :: "nat \<Rightarrow> u32 \<Rightarrow> node \<Rightarrow> u64 \<Rightarrow> node \<Rightarrow> node" where
  "new_root_node ps i lo k0 up = Inner_node i (of_nat (ps - 12 - (length (vint_bytes k0) + 6))) [k0] [lo, up] None"

definition put_root :: "nat \<Rightarrow> u32 \<Rightarrow> u64 \<Rightarrow> byte list \<Rightarrow> node \<Rightarrow> (nat \<times> node) fate" where
  "put_root ps nid k v t =
     (if need k v t \<le> unat (claim t) then put (node_height t) ps nid k v t
      else if length (payload_sizes t) < 2 then Abort
      else case halve ps nid t of (lo, k0, up) \<Rightarrow>
        let rt = new_root_node ps (nid + 1) lo k0 up; j = if k < k0 then 0 else 1 in
        fate_bind (put (node_height t) ps (nid + 2) k v (child rt j)) (\<lambda>(b, u). Done (2 + b, plug rt j u)))"

fun put_all :: "nat \<Rightarrow> u32 \<Rightarrow> (u64 \<times> byte list) list \<Rightarrow> node \<Rightarrow> (nat \<times> node) fate" where
  "put_all ps nid [] t = Done (0, t)"
| "put_all ps nid (e # es) t =
     fate_bind (put_root ps nid (fst e) (snd e) t) (\<lambda>(a, t).
     fate_bind (put_all ps (nid + of_nat a) es t) (\<lambda>(b, u). Done (a + b, u)))"

section \<open>Order\<close>

text \<open>
  \<open>sound h u t\<close>: a search tree of height \<open>h\<close> for ids up to \<open>u\<close>, in which every key is an id of
  the subtree to its left.
\<close>

fun sound :: "nat \<Rightarrow> u64 \<Rightarrow> node \<Rightarrow> bool" where
  "sound 0 u (Leaf_node i c al) \<longleftrightarrow> sorted (map fst al) \<and> distinct (map fst al) \<and> (\<forall>e \<in> set al. fst e \<le> u \<and> unat (fst e) < 2 ^ 31)"
| "sound (Suc h) u (Inner_node i c ks ts r) \<longleftrightarrow>
     separated ks (map node_entries ts @ (if r = None then [] else [[]])) \<and>
     (\<forall>j < length ks. ks ! j \<in> fst ` set (node_entries (ts ! j)) \<and> sound h (ks ! j) (ts ! j)) \<and>
     (case r of
        None \<Rightarrow> sound h u (ts ! length ks) \<and> node_entries (ts ! length ks) \<noteq> []
      | Some x \<Rightarrow> ks \<noteq> [] \<and> last ks = u)"
| "sound h u t \<longleftrightarrow> False"

lemma sound_cases:
  assumes "sound h u t"
  obtains i c al where "h = 0" and "t = Leaf_node i c al"
  | h' i c ks ts r where "h = Suc h'" and "t = Inner_node i c ks ts r"
  using assms by (cases t; cases h) auto

text \<open>The parts of a sound inner node, for the child \<open>j\<close> with the ids up to \<open>bound u ks j\<close>.\<close>

definition bound :: "u64 \<Rightarrow> u64 list \<Rightarrow> nat \<Rightarrow> u64" where
  "bound u ks j = (if j < length ks then ks ! j else u)"

definition sub_lists :: "node list \<Rightarrow> u32 option \<Rightarrow> (u64 \<times> byte list) list list" where
  "sub_lists ts r = map node_entries ts @ (if r = None then [] else [[]])"

lemma sound_inner:
  assumes "sound (Suc h) u (Inner_node i c ks ts r)"
  shows "separated ks (sub_lists ts r)" and "length (sub_lists ts r) = Suc (length ks)"
    and "length ts = (if r = None then Suc (length ks) else length ks)"
    and "j < length ts \<Longrightarrow> sound h (bound u ks j) (ts ! j)" and "j < length ts \<Longrightarrow> node_entries (ts ! j) \<noteq> []"
    and "j < length ts \<Longrightarrow> sub_lists ts r ! j = node_entries (ts ! j)" and "concat (sub_lists ts r) = node_entries (Inner_node i c ks ts r)"
    and "j < length ks \<Longrightarrow> ks ! j \<in> fst ` set (node_entries (ts ! j))" and "r \<noteq> None \<Longrightarrow> ks \<noteq> [] \<and> last ks = u"
proof -
  show sep: "separated ks (sub_lists ts r)" using assms by (simp add: sub_lists_def)
  then show l: "length (sub_lists ts r) = Suc (length ks)" by (simp add: separated_def)
  then show lt: "length ts = (if r = None then Suc (length ks) else length ks)" by (auto simp: sub_lists_def split: if_splits)
  show "j < length ts \<Longrightarrow> sound h (bound u ks j) (ts ! j)" "j < length ts \<Longrightarrow> node_entries (ts ! j) \<noteq> []"
    using assms lt by (auto simp: bound_def less_Suc_eq split: option.splits if_splits)
  show "j < length ts \<Longrightarrow> sub_lists ts r ! j = node_entries (ts ! j)" by (simp add: sub_lists_def nth_append)
  show "concat (sub_lists ts r) = node_entries (Inner_node i c ks ts r)" by (simp add: sub_lists_def)
  show "j < length ks \<Longrightarrow> ks ! j \<in> fst ` set (node_entries (ts ! j))" using assms by simp
  show "r \<noteq> None \<Longrightarrow> ks \<noteq> [] \<and> last ks = u" using assms by auto
qed

lemma sound_innerI:
  assumes "separated ks (sub_lists ts r)" and "\<And>j. j < length ts \<Longrightarrow> sound h (bound u ks j) (ts ! j) \<and> node_entries (ts ! j) \<noteq> []"
    and "\<And>j. j < length ks \<Longrightarrow> ks ! j \<in> fst ` set (node_entries (ts ! j))"
    and "\<And>x. r \<noteq> None \<Longrightarrow> ks \<noteq> [] \<and> last ks = u"
  shows "sound (Suc h) u (Inner_node i c ks ts r)"
proof -
  have "length (sub_lists ts r) = Suc (length ks)" using assms(1) by (simp add: separated_def)
  then have lt: "length ts = (if r = None then Suc (length ks) else length ks)" by (auto simp: sub_lists_def split: if_splits)
  have "sound h (ks ! j) (ts ! j)" if "j < length ks" for j
    using assms(2) [of j] that lt by (auto simp: bound_def split: if_splits)
  moreover have "sound h u (ts ! length ks) \<and> node_entries (ts ! length ks) \<noteq> []" if "r = None"
    using assms(2) [of "length ks"] that lt by (simp add: bound_def)
  ultimately show ?thesis using assms(1,3,4) by (auto simp: sub_lists_def split: option.splits)
qed

lemma sound_le: "sound h u t \<Longrightarrow> e \<in> set (node_entries t) \<Longrightarrow> fst e \<le> u"
proof (induction h u t arbitrary: e rule: sound.induct)
  case (2 h u i c ks ts r)
  note S = sound_inner [OF 2(3)]
  from 2(4) obtain j where j: "j < length ts" "e \<in> set (node_entries (ts ! j))"
    using in_concat [of e "map node_entries ts"] by auto
  show ?case
  proof (cases "j < length ks")
    case False
    then have "r = None" "j = length ks" using j(1) S(3) by (auto split: if_splits)
    then show ?thesis using 2(2) 2(3) j(2) by simp
  next
    case True
    have le: "fst e \<le> ks ! j" using S(1) S(6) [OF j(1)] j(2) True by (simp add: separated_def)
    show ?thesis
    proof (cases r)
      case None
      then have n: "length ks < length ts" using S(3) by simp
      have "node_entries (ts ! length ks) \<noteq> []" using S(5) [OF n] .
      then have h: "hd (node_entries (ts ! length ks)) \<in> set (node_entries (ts ! length ks))" by simp
      have "fst (hd (node_entries (ts ! length ks))) \<le> u" using 2(2) 2(3) None h by simp
      moreover have "fst e < fst (hd (node_entries (ts ! length ks)))"
      proof -
        have "ks ! (Suc j - 1) < fst (hd (node_entries (ts ! length ks)))"
          by (rule separated_lower [OF S(1), of "Suc j" "length ks"]) (use True h S(6) [OF n] in simp_all)
        then show ?thesis using le by simp
      qed
      ultimately show ?thesis by simp
    next
      case (Some x)
      then have "last ks = u" "ks \<noteq> []" using S(9) by blast+
      then have "ks ! j \<le> u" using True S(1) sorted_nth_mono [of ks j "length ks - 1"] by (simp add: separated_def last_conv_nth)
      then show ?thesis using le by simp
    qed
  qed
qed auto

text \<open>Only the last key of a page that was split can be the greatest id of its subtree.\<close>

lemma sound_top:
  assumes "sound (Suc h) u (Inner_node i c ks ts r)"
  shows "r = None \<Longrightarrow> u \<notin> set ks" and "r \<noteq> None \<Longrightarrow> u \<in> set ks" and "r \<noteq> None \<Longrightarrow> sub_lists ts r ! length ks = []"
proof -
  note S = sound_inner [OF assms]
  show "r \<noteq> None \<Longrightarrow> u \<in> set ks" using S(9) by auto
  show "r \<noteq> None \<Longrightarrow> sub_lists ts r ! length ks = []" using S(3) by (auto simp: sub_lists_def nth_append)
  assume None: "r = None"
  then have n: "length ks < length ts" using S(3) by simp
  show "u \<notin> set ks"
  proof
    assume "u \<in> set ks"
    then obtain j where j: "j < length ks" "ks ! j = u" by (auto simp: in_set_conv_nth)
    obtain e where e: "e \<in> set (node_entries (ts ! length ks))" using S(5) [OF n] by (cases "node_entries (ts ! length ks)") auto
    then have "e \<in> set (sub_lists ts r ! length ks)" using S(6) [OF n] by simp
    from separated_lower [OF S(1), of "Suc j" "length ks" e] this j have "u < fst e" by simp
    moreover have "fst e \<le> u" using sound_le [OF S(4) [OF n] e] by (simp add: bound_def)
    ultimately show False by simp
  qed
qed

section \<open>Halves\<close>

lemma separated_concat:
  assumes "separated ks als" and "j < length als" and "e \<in> set (als ! j)"
  shows "t < j \<Longrightarrow> ks ! t < fst e" and "j \<le> t \<Longrightarrow> t < length ks \<Longrightarrow> fst e \<le> ks ! t"
proof -
  have l: "length als = Suc (length ks)" using assms(1) by (simp add: separated_def)
  show "t < j \<Longrightarrow> ks ! t < fst e" using separated_lower [OF assms(1), of "Suc t" j e] assms(2,3) l by simp
  show "j \<le> t \<Longrightarrow> t < length ks \<Longrightarrow> fst e \<le> ks ! t" using separated_upper [OF assms(1), of j "Suc t" e] assms(3) by simp
qed

lemma halve_leaf:
  assumes s: "sorted (map fst al)" "distinct (map fst al)" "\<forall>e \<in> set al. fst e \<le> u \<and> unat (fst e) < 2 ^ 31" and n: "2 \<le> length al"
    and k: "k0 = fst (al ! (length al div 2 - 1))"
  shows "k0 \<in> fst ` set (take (length al div 2) al)" and "drop (length al div 2) al \<noteq> []"
    and "\<forall>e \<in> set (take (length al div 2) al). fst e \<le> k0" and "\<forall>e \<in> set (drop (length al div 2) al). k0 < fst e"
proof -
  let ?h = "length al div 2"
  have lt: "?h - 1 < length al" "0 < ?h" "?h < length al" using n by simp_all
  have "al ! (?h - 1) = take ?h al ! (?h - 1)" using lt by simp
  also have "\<dots> \<in> set (take ?h al)" using lt by (intro nth_mem) simp
  finally show "k0 \<in> fst ` set (take ?h al)" by (auto simp: k)
  show "drop ?h al \<noteq> []" using lt(3) by simp
  show "\<forall>e \<in> set (take ?h al). fst e \<le> k0"
  proof
    fix e
    assume "e \<in> set (take ?h al)"
    then obtain t where t: "t < ?h" "e = al ! t" by (auto simp: in_set_conv_nth)
    then show "fst e \<le> k0" using sorted_nth_mono [OF s(1), of t "?h - 1"] lt by (simp add: k)
  qed
  show "\<forall>e \<in> set (drop ?h al). k0 < fst e"
  proof
    fix e
    assume "e \<in> set (drop ?h al)"
    then obtain t where t: "t < length al - ?h" "e = al ! (?h + t)" using lt by (auto simp: in_set_conv_nth)
    have "k0 \<le> fst e" using sorted_nth_mono [OF s(1), of "?h - 1" "?h + t"] lt t by (simp add: k)
    moreover have "k0 \<noteq> fst e" using nth_eq_iff_index_eq [OF s(2), of "?h - 1" "?h + t"] lt t by (simp add: k)
    ultimately show "k0 < fst e" by simp
  qed
qed

text \<open>What a split keeps: the halves are sound, and together they hold what the node held.\<close>

definition halves_ok :: "nat \<Rightarrow> u64 \<Rightarrow> node \<Rightarrow> node \<Rightarrow> u64 \<Rightarrow> node \<Rightarrow> bool" where
  "halves_ok h u t lo k0 up \<longleftrightarrow> sound h k0 lo \<and> sound h u up \<and> node_entries t = node_entries lo @ node_entries up \<and>
     k0 \<in> fst ` set (node_entries lo) \<and> node_entries up \<noteq> [] \<and> (\<forall>e \<in> set (node_entries lo). fst e \<le> k0) \<and>
     (\<forall>e \<in> set (node_entries up). k0 < fst e) \<and> unat k0 < 2 ^ 31"

lemma inner_halves_sound:
  assumes st: "sound (Suc h) u (Inner_node i c ks ts r)" and s: "0 < s" "s < length ks"
  shows "sound (Suc h) (ks ! (s - 1)) (Inner_node i c' (take s ks) (take s ts) (Some nid))"
    and "sound (Suc h) u (Inner_node nid c'' (drop s ks) (drop s ts) r)"
proof -
  note S = sound_inner [OF st] and H = separated_halves [OF sound_inner(1) [OF st] s(1) less_imp_le [OF s(2)]]
  have lt: "s \<le> length ts" using S(3) s(2) by (simp split: if_splits)
  then have tk: "take s (sub_lists ts r) @ [[]] = sub_lists (take s ts) (Some nid)" "drop s (sub_lists ts r) = sub_lists (drop s ts) r"
    by (simp_all add: sub_lists_def take_map drop_map)
  have "take s ks \<noteq> []" "length (take s ks) = s" using s by auto
  then have lk: "last (take s ks) = ks ! (s - 1)" using s(1) by (simp add: last_conv_nth)
  show "sound (Suc h) (ks ! (s - 1)) (Inner_node i c' (take s ks) (take s ts) (Some nid))"
  proof (rule sound_innerI)
    show "separated (take s ks) (sub_lists (take s ts) (Some nid))" using H(1) by (simp only: tk)
    show "sound h (bound (ks ! (s - 1)) (take s ks) j) (take s ts ! j) \<and> node_entries (take s ts ! j) \<noteq> []" if "j < length (take s ts)" for j
      using S(4,5) [of j] that s by (simp add: bound_def)
    show "take s ks ! j \<in> fst ` set (node_entries (take s ts ! j))" if "j < length (take s ks)" for j using S(8) [of j] that by simp
    show "take s ks \<noteq> [] \<and> last (take s ks) = ks ! (s - 1)" using s lk by auto
  qed
  show "sound (Suc h) u (Inner_node nid c'' (drop s ks) (drop s ts) r)"
  proof (rule sound_innerI)
    show "separated (drop s ks) (sub_lists (drop s ts) r)" using H(2) by (simp only: tk)
    show "sound h (bound u (drop s ks) j) (drop s ts ! j) \<and> node_entries (drop s ts ! j) \<noteq> []" if "j < length (drop s ts)" for j
      using S(4,5) [of "s + j"] that s by (simp add: bound_def add.commute less_diff_conv split: if_splits)
    show "drop s ks ! j \<in> fst ` set (node_entries (drop s ts ! j))" if "j < length (drop s ks)" for j using S(8) [of "s + j"] that lt by simp
    show "drop s ks \<noteq> [] \<and> last (drop s ks) = u" if "r \<noteq> None" using S(9) [OF that] s by simp
  qed
qed

lemma halve_sound:
  assumes t: "sound h u t" and n: "2 \<le> length (payload_sizes t)" and hv: "halve ps nid t = (lo, k0, up)"
  shows "halves_ok h u t lo k0 up"
  using t
proof (cases rule: sound_cases)
  case (1 i c al)
  have s: "sorted (map fst al)" "distinct (map fst al)" "\<forall>e \<in> set al. fst e \<le> u \<and> unat (fst e) < 2 ^ 31" "2 \<le> length al"
    using t n by (simp_all add: 1)
  let ?h = "length al div 2"
  have e: "node_entries lo = take ?h al" "k0 = fst (al ! (?h - 1))" "node_entries up = drop ?h al"
    "lo = Leaf_node i (claim lo) (take ?h al)" "up = Leaf_node nid (claim up) (drop ?h al)" using hv by (auto simp: 1 Let_def)
  note L = halve_leaf [OF s e(2)]
  have "unat k0 < 2 ^ 31" using L(1) s(3) by (auto dest: in_set_takeD)
  moreover have "sound 0 k0 (Leaf_node i (claim lo) (take ?h al))" "sound 0 u (Leaf_node nid (claim up) (drop ?h al))"
    using s L(3) by (auto simp: sorted_wrt_take sorted_wrt_drop distinct_take distinct_drop dest: in_set_takeD in_set_dropD simp flip: take_map drop_map)
  ultimately show ?thesis using L e unfolding halves_ok_def 1 by simp
next
  case (2 h' i c ks ts r)
  let ?h = "length ks div 2"
  have h: "0 < ?h" "?h \<le> length ks" "?h < length ks" using n by (simp_all add: 2)
  have st: "sound (Suc h') u (Inner_node i c ks ts r)" using t by (simp add: 2)
  note S = sound_inner [OF st] and H = separated_halves [OF sound_inner(1) [OF st] h(1,2)]
  have lt: "?h \<le> length ts" "?h < length ts" using S(3) h(3) by (simp_all split: if_splits)
  have ln: "?h - 1 < length ks" "?h - 1 < length ts" using h lt by simp_all
  have e: "lo = Inner_node i (claim lo) (take ?h ks) (take ?h ts) (Some nid)" "k0 = ks ! (?h - 1)"
    "up = Inner_node nid (claim up) (drop ?h ks) (drop ?h ts) r" using hv by (auto simp: 2 Let_def)
  have en: "node_entries lo = concat (take ?h (sub_lists ts r))" "node_entries up = concat (drop ?h (sub_lists ts r))"
    using lt(1) by (subst e, simp add: sub_lists_def take_map drop_map)+
  have "take ?h ts ! (?h - 1) \<in> set (take ?h ts)" using h lt by (intro nth_mem) simp
  then have "ts ! (?h - 1) \<in> set (take ?h ts)" using h by simp
  then have k: "k0 \<in> fst ` set (node_entries lo)" using S(8) [OF ln(1)] by (subst e(1)) (auto simp: e(2))
  have "ts ! ?h \<in> set (drop ?h ts)" "node_entries (ts ! ?h) \<noteq> []" using S(5) lt(2) by (simp_all flip: Cons_nth_drop_Suc)
  then have "node_entries up \<noteq> []" by (subst e(3)) auto
  moreover have "node_entries t = concat (take ?h (sub_lists ts r) @ drop ?h (sub_lists ts r))"
    unfolding append_take_drop_id S(7) 2(2) ..
  moreover have "unat k0 < 2 ^ 31" using S(1) ln(1) by (simp add: separated_def e(2))
  moreover note inner_halves_sound(1) [OF st h(1,3), of "claim lo" nid] inner_halves_sound(2) [OF st h(1,3), of nid "claim up"]
  ultimately show ?thesis using k en H(3,4) e unfolding halves_ok_def 2(1) concat_append by (metis e(2))
qed

section \<open>One step down\<close>

lemma separated_divide_at:
  assumes sep: "separated ks als" and j: "j \<le> length ks" "als ! j = l @ r"
    and l: "\<forall>e \<in> set l. fst e \<le> k0" and r: "\<forall>e \<in> set r. k0 < fst e" and k0: "k0 \<in> fst ` set l" "unat k0 < 2 ^ 31"
  shows "separated (insert_at j k0 ks) (take j als @ l # r # drop (Suc j) als)"
proof -
  have S: "sorted ks" "\<forall>x \<in> set ks. unat x < 2 ^ 31" "length als = Suc (length ks)" using sep by (simp_all add: separated_def)
  from k0(1) obtain e0 where e0: "e0 \<in> set (als ! j)" "fst e0 = k0" by (auto simp: j(2))
  have k: "t < j \<Longrightarrow> ks ! t < k0" "j \<le> t \<Longrightarrow> t < length ks \<Longrightarrow> k0 \<le> ks ! t" for t
    using separated_concat [OF sep _ e0(1), of t] j(1) S(3) by (simp_all add: e0(2))
  let ?ks = "insert_at j k0 ks" and ?als = "take j als @ l # r # drop (Suc j) als"
  have ks: "?ks ! t = (if t < j then ks ! t else if t = j then k0 else ks ! (t - 1))" if "t \<le> length ks" for t
    using insert_at_nth [OF j(1) that] .
  have als: "?als ! t = (if t < j then als ! t else if t = j then l else if t = Suc j then r else als ! (t - 1))"
    if "t \<le> Suc (length ks)" for t
  proof -
    consider "t < j" | "t = j" | "t = Suc j" | d where "t = Suc (Suc (j + d))" using less_imp_Suc_add not_less_eq by (metis nat_neq_iff)
    then show ?thesis using that j(1) S(3) by cases (simp_all add: nth_append)
  qed
  have "sorted ?ks"
  proof -
    have "\<forall>x \<in> set (take j ks). x \<le> k0" using k(1) [THEN less_imp_le] by (auto simp: in_set_conv_nth)
    moreover have "\<forall>x \<in> set (drop j ks). k0 \<le> x" using k(2) by (auto simp: in_set_conv_nth)
    ultimately show ?thesis using S(1) by (fastforce simp: insert_at_def sorted_append sorted_wrt_take sorted_wrt_drop intro: order_trans)
  qed
  moreover have "(\<forall>e \<in> set (?als ! t). fst e \<le> ?ks ! t) \<and> (\<forall>e \<in> set (?als ! Suc t). ?ks ! t < fst e)" if t: "t < length ?ks" for t
  proof -
    have tl: "t \<le> length ks" using t by simp
    have sub: "set l \<subseteq> set (als ! j)" "set r \<subseteq> set (als ! j)" by (simp_all add: j(2))
    have jl: "j < length als" using j(1) S(3) by simp
    note C = separated_concat [OF sep]
    consider "t < j" | "t = j" | "t = Suc j" | "Suc j < t" by linarith
    then show ?thesis
    proof cases
      case 1
      then show ?thesis using ks [OF tl] als [of t] als [of "Suc t"] C(2) [of t _ t] C(1) [OF jl] C(1) [of "Suc t" _ t] sub j(1) S(3) tl
        by (cases "Suc t = j") auto
    next
      case 2
      then show ?thesis using ks [OF tl] als [of t] als [of "Suc t"] l r tl by simp
    next
      case 3
      then show ?thesis using ks [OF tl] als [of t] als [of "Suc t"] C(2) [OF jl, of _ j] C(1) [of "Suc j" _ j] sub S(3) tl by auto
    next
      case 4
      then show ?thesis using ks [OF tl] als [of t] als [of "Suc t"] C(2) [of "t - 1" _ "t - 1"] C(1) [of t _ "t - 1"] S(3) tl by auto
    qed
  qed
  moreover have "\<forall>x \<in> set ?ks. unat x < 2 ^ 31" using S(2) k0(2) by simp
  moreover have "length ?als = Suc (length ?ks)" using S(3) j(1) by simp
  ultimately show ?thesis unfolding separated_def by blast
qed

lemma separated_replace:
  assumes sep: "separated ks als" and j: "j = key_rank ks k" and dom: "fst ` set al' = insert k (fst ` set (als ! j))" and k: "k \<notin> set ks"
  shows "separated ks (als[j := al'])"
proof -
  have S: "sorted ks" "length als = Suc (length ks)" using sep by (simp_all add: separated_def)
  have jl: "j < length als" using key_rank_le [of ks k] S(2) j by simp
  have r: "t < j \<Longrightarrow> ks ! t < k" "j \<le> t \<Longrightarrow> t < length ks \<Longrightarrow> k \<le> ks ! t" for t
    using key_rank_nth [OF S(1), of t k] key_rank_le [of ks k] by (auto simp: j not_less)
  note C = separated_concat [OF sep jl]
  have up: "fst e \<le> ks ! t" if "e \<in> set al'" "j \<le> t" "t < length ks" for e t
  proof -
    have "fst e \<in> insert k (fst ` set (als ! j))" using that(1) dom by auto
    then show ?thesis using r(2) [OF that(2,3)] C(2) [OF _ that(2,3)] by auto
  qed
  have low: "ks ! t < fst e" if "e \<in> set al'" "t < j" for e t
  proof -
    have "fst e \<in> insert k (fst ` set (als ! j))" using that(1) dom by auto
    then show ?thesis using r(1) [OF that(2)] C(1) [OF _ that(2)] by auto
  qed
  have "(\<forall>e \<in> set (als[j := al'] ! t). fst e \<le> ks ! t) \<and> (\<forall>e \<in> set (als[j := al'] ! Suc t). ks ! t < fst e)" if t: "t < length ks" for t
    using sep t up [of _ t] low [of _ t] jl by (auto simp: separated_def nth_list_update)
  then show ?thesis using sep by (simp add: separated_def)
qed

lemma sub_lists_update: "j < length ts \<Longrightarrow> sub_lists (ts[j := w]) r = (sub_lists ts r)[j := node_entries w]"
  by (simp add: sub_lists_def map_update list_update_append)

lemma map_of_concat_update:
  assumes "j < length als" and "k \<notin> fst ` set (concat als)" and "map_of al' = (map_of (als ! j))(k \<mapsto> v)"
  shows "map_of (concat (als[j := al'])) = (map_of (concat als))(k \<mapsto> v)"
proof -
  have e: "als = take j als @ als ! j # drop (Suc j) als" using assms(1) by (rule id_take_nth_drop)
  have u: "als[j := al'] = take j als @ al' # drop (Suc j) als" using assms(1) by (rule upd_conv_take_nth_drop)
  have "k \<notin> fst ` set (concat (take j als))" using assms(2) by (auto dest: in_set_takeD)
  then have "map_of (concat (take j als)) k = None" by (simp only: map_of_eq_None_iff not_False_eq_True)
  then have n: "k \<notin> dom (map_of (concat (take j als)))" by (simp add: domIff)
  have "map_of (concat (als[j := al'])) = (map_of (concat (drop (Suc j) als)) ++ map_of (als ! j))(k \<mapsto> v) ++ map_of (concat (take j als))"
    unfolding u by (simp add: assms(3) map_add_upd)
  also have "\<dots> = (map_of (concat (drop (Suc j) als)) ++ map_of (als ! j) ++ map_of (concat (take j als)))(k \<mapsto> v)"
    by (rule map_add_upd_left [OF n])
  also have "map_of (concat (drop (Suc j) als)) ++ map_of (als ! j) ++ map_of (concat (take j als)) = map_of (concat als)"
    by (subst (4) e) simp
  finally show ?thesis .
qed

text \<open>The child for an id that is not in the tree.\<close>

definition aimed :: "nat \<Rightarrow> u64 \<Rightarrow> u64 \<Rightarrow> node \<Rightarrow> nat \<Rightarrow> bool" where
  "aimed h u k t j \<longleftrightarrow> sound (Suc h) u t \<and> (\<exists>i c ks ts r. t = Inner_node i c ks ts r \<and> j = key_rank ks k \<and> j < length ts \<and>
     k \<le> bound u ks j \<and> k \<notin> set ks \<and> sound h (bound u ks j) (ts ! j) \<and> k \<notin> fst ` set (node_entries (ts ! j)))"

lemma aimed_here:
  assumes t: "sound (Suc h) u (Inner_node i c ks ts r)" and k: "k \<le> u" "k \<notin> fst ` set (node_entries (Inner_node i c ks ts r))"
  shows "aimed h u k (Inner_node i c ks ts r) (key_rank ks k)" and "key_rank ks k < length ts"
proof -
  note S = sound_inner [OF t]
  have so: "sorted ks" using S(1) by (simp add: separated_def)
  have ks: "k \<notin> set ks"
  proof
    assume "k \<in> set ks"
    then obtain j where j: "j < length ks" "k = ks ! j" by (auto simp: in_set_conv_nth)
    have lt: "j < length ts" using j(1) S(3) by (simp split: if_splits)
    have "k \<in> fst ` set (node_entries (ts ! j))" unfolding j(2) by (rule S(8) [OF j(1)])
    moreover have "ts ! j \<in> set ts" using lt by simp
    ultimately show False using k(2) by auto
  qed
  show lt: "key_rank ks k < length ts"
  proof (cases r)
    case None
    then show ?thesis using S(3) key_rank_le [of ks k] by simp
  next
    case (Some x)
    then have "ks \<noteq> []" "last ks = u" using S(9) by auto
    then have l: "ks \<noteq> []" "ks ! (length ks - 1) = u" by (simp_all add: last_conv_nth)
    then have "\<not> length ks - 1 < key_rank ks k" using key_rank_nth [OF so, of "length ks - 1" k] k(1) leD by auto
    moreover have "length ts = length ks" using S(3) Some by simp
    ultimately show ?thesis using l(1) by (cases ks) simp_all
  qed
  have "k \<le> bound u ks (key_rank ks k)"
    using k(1) key_rank_nth [OF so, of "key_rank ks k" k] by (auto simp: bound_def not_less)
  moreover have "ts ! key_rank ks k \<in> set ts" using lt by simp
  then have "k \<notin> fst ` set (node_entries (ts ! key_rank ks k))" using k(2) by auto
  ultimately show "aimed h u k (Inner_node i c ks ts r) (key_rank ks k)"
    using t ks lt S(4) [OF lt] by (auto simp: aimed_def simp del: sound.simps)
qed

lemma divide_nth:
  assumes "j < length ts" and "n \<le> length ts"
  shows "(take j ts @ lo # up # drop (Suc j) ts) ! n = (if n < j then ts ! n else if n = j then lo else if n = Suc j then up else ts ! (n - 1))"
proof -
  consider "n < j" | "n = j" | "n = Suc j" | d where "n = Suc (Suc (j + d))" using less_imp_Suc_add not_less_eq by (metis nat_neq_iff)
  then show ?thesis using assms by cases (simp_all add: nth_append)
qed

text \<open>Every key is an id of the subtree to its left, also next to a split child.\<close>

lemma divided_keys:
  assumes t: "sound (Suc h) u (Inner_node i c ks ts r)" and j: "j < length ts" "j \<le> length ks"
    and hv: "halves_ok h (bound u ks j) (ts ! j) lo k0 up" and n: "n \<le> length ks"
  shows "insert_at j k0 ks ! n \<in> fst ` set (node_entries ((take j ts @ lo # up # drop (Suc j) ts) ! n))"
proof -
  note S = sound_inner [OF t] and H = hv [unfolded halves_ok_def]
  have nt: "n \<le> length ts" using n S(3) by (simp split: if_splits)
  note nth = divide_nth [OF j(1) nt, of lo up] and kn = insert_at_nth [OF j(2) n, of k0]
  consider "n < j" | "n = j" | "n = Suc j" | "Suc j < n" by linarith
  then show ?thesis
  proof cases
    case 1
    then show ?thesis using nth kn S(8) [of n] j by simp
  next
    case 2
    then show ?thesis using nth kn H by simp
  next
    case 3
    have kj: "ks ! j \<in> fst ` set (node_entries (ts ! j))" using S(8) [of j] 3 n by simp
    have "bound u ks j = ks ! j" using 3 n by (simp add: bound_def)
    moreover obtain e where "e \<in> set (node_entries up)" "k0 < fst e" using H by (cases "node_entries up") auto
    then have "k0 < bound u ks j" using sound_le [of h "bound u ks j" up e] H by (auto intro: less_le_trans)
    then have "\<not> ks ! j \<le> k0" using calculation by simp
    then have "ks ! j \<in> fst ` set (node_entries up)" using kj H by auto
    then show ?thesis using nth kn 3 by simp
  next
    case 4
    then show ?thesis using nth kn S(8) [of "n - 1"] n by simp
  qed
qed

lemma divided_sound:
  assumes t: "sound (Suc h) u (Inner_node i c ks ts r)" and j: "j < length ts" "j \<le> length ks"
    and hv: "halves_ok h (bound u ks j) (ts ! j) lo k0 up"
  shows "sound (Suc h) u (Inner_node i c' (insert_at j k0 ks) (take j ts @ lo # up # drop (Suc j) ts) r)"
    and "concat (map node_entries (take j ts @ lo # up # drop (Suc j) ts)) = concat (map node_entries ts)"
proof -
  note S = sound_inner [OF t] and H = hv [unfolded halves_ok_def]
  let ?ts = "take j ts @ lo # up # drop (Suc j) ts" and ?ks = "insert_at j k0 ks"
  have e: "ts = take j ts @ ts ! j # drop (Suc j) ts" using j(1) by (rule id_take_nth_drop)
  show "concat (map node_entries ?ts) = concat (map node_entries ts)" by (subst (3) e) (simp add: H)
  have al: "sub_lists ts r ! j = node_entries lo @ node_entries up" using S(6) [OF j(1)] H by simp
  have "separated ?ks (take j (sub_lists ts r) @ node_entries lo # node_entries up # drop (Suc j) (sub_lists ts r))"
    by (rule separated_divide_at [OF S(1) j(2) al]) (use H in blast)+
  moreover have "take j (sub_lists ts r) @ node_entries lo # node_entries up # drop (Suc j) (sub_lists ts r) = sub_lists ?ts r"
    using j(1) by (simp add: sub_lists_def take_map drop_map)
  ultimately have sep: "separated ?ks (sub_lists ?ts r)" by simp
  show "sound (Suc h) u (Inner_node i c' ?ks ?ts r)"
  proof (rule sound_innerI [OF sep])
    fix n
    assume "n < length ?ts"
    then have n: "n \<le> length ts" using j(1) by simp
    note nth = divide_nth [OF j(1) n, of lo up] and kn = insert_at_nth [OF j(2), of n k0]
    have lo: "node_entries lo \<noteq> []" using H by auto
    consider "n < j" | "n = j" | "n = Suc j" | n' where "Suc j < n" "n = Suc n'"
      by (metis linorder_less_linear less_imp_Suc_add Suc_lessI)
    then show "sound h (bound u ?ks n) (?ts ! n) \<and> node_entries (?ts ! n) \<noteq> []"
    proof cases
      case 4
      then show ?thesis using nth kn S(4,5) [of n'] j n by (auto simp: bound_def split: if_splits)
    qed (use nth kn S(4,5) [of n] H lo j in \<open>auto simp: bound_def split: if_splits\<close>)
  next
    show "?ks ! n \<in> fst ` set (node_entries (?ts ! n))" if "n < length ?ks" for n
      using divided_keys [OF t j hv, of n] that by simp
    show "?ks \<noteq> [] \<and> last ?ks = u" if "r \<noteq> None"
      using S(3) S(9) [OF that] that j last_insert_at [of j ks k0] by (auto simp: insert_at_def)
  qed
qed

lemma aim_sound:
  assumes t: "sound (Suc h) u (Inner_node i c ks ts r)" and k: "k \<le> u" "k \<notin> fst ` set (node_entries (Inner_node i c ks ts r))"
    and a: "aim ps nid k v (Inner_node i c ks ts r) = Done (n, t', j)"
  shows "aimed h u k t' j \<and> node_entries t' = node_entries (Inner_node i c ks ts r) \<and> n \<le> 1"
proof -
  let ?j = "key_rank ks k" and ?t = "ts ! key_rank ks k"
  note A = aimed_here [OF t k] and S = sound_inner [OF t]
  have lt: "?j < length ts" "?j \<le> length ks" using A(2) key_rank_le by simp_all
  show ?thesis
  proof (cases "need k v ?t \<le> unat (claim ?t)")
    case True
    then show ?thesis using a A(1) by (auto simp: Let_def)
  next
    case False
    obtain lo k0 up where hv: "halve ps nid ?t = (lo, k0, up)" by (cases "halve ps nid ?t") auto
    let ?n = "length (vint_bytes k0) + 6"
    have d: "2 \<le> length (payload_sizes ?t)" "n = 1"
      "t' = Inner_node i (c - of_nat ?n) (insert_at ?j k0 ks) (take ?j ts @ lo # up # drop (Suc ?j) ts) r"
      "j = (if k < k0 then ?j else Suc ?j)"
      using a False hv by (auto simp: Let_def claims_def split: if_splits)
    note H = halve_sound [OF S(4) [OF lt(1)] d(1) hv]
    note D = divided_sound [OF t lt H]
    have e: "node_entries t' = node_entries (Inner_node i c ks ts r)" using D(2) by (simp add: d(3))
    have "k0 \<noteq> k" using H k(2) lt(1) unfolding halves_ok_def by (metis A(1) aimed_def image_Un node.inject(2) set_append UnCI)
    then have "j = key_rank (insert_at ?j k0 ks) k" by (simp add: d(4) key_rank_insert) (metis not_less_iff_gr_or_eq)
    then show ?thesis
      using aimed_here(1) [OF D(1) [of "c - of_nat ?n"] k(1)] k(2) e by (simp add: d(2,3) del: node_entries.simps)
  qed
qed

lemma plug_sound:
  assumes t: "aimed h u k t j" and k: "k \<notin> fst ` set (node_entries t)"
    and w: "\<And>b. sound h b (child t j) \<Longrightarrow> k \<le> b \<Longrightarrow> k \<notin> fst ` set (node_entries (child t j)) \<Longrightarrow>
      sound h b w \<and> map_of (node_entries w) = (map_of (node_entries (child t j)))(k \<mapsto> v)"
  shows "sound (Suc h) u (plug t j w)" and "map_of (node_entries (plug t j w)) = (map_of (node_entries t))(k \<mapsto> v)"
proof -
  from t obtain i c ks ts r where T: "t = Inner_node i c ks ts r" "j = key_rank ks k" "j < length ts" "k \<le> bound u ks j" "k \<notin> set ks"
    "sound h (bound u ks j) (ts ! j)" "k \<notin> fst ` set (node_entries (ts ! j))" "sound (Suc h) u (Inner_node i c ks ts r)"
    by (auto simp: aimed_def simp del: sound.simps)
  note S = sound_inner [OF T(8)]
  have W: "sound h (bound u ks j) w" "map_of (node_entries w) = (map_of (node_entries (ts ! j)))(k \<mapsto> v)"
    using w [of "bound u ks j"] T by simp_all
  have jl: "j < length (sub_lists ts r)" using T(3) by (simp add: sub_lists_def)
  have mj: "map_of (node_entries w) = (map_of (sub_lists ts r ! j))(k \<mapsto> v)" using W(2) S(6) [OF T(3)] by simp
  have "fst ` set (node_entries w) = insert k (fst ` set (sub_lists ts r ! j))"
    using arg_cong [OF mj, of dom] by (simp add: dom_map_of_conv_image_fst)
  from separated_replace [OF S(1) T(2) this T(5)] have sep: "separated ks (sub_lists (ts[j := w]) r)"
    by (simp only: sub_lists_update [OF T(3)])
  have ids: "fst ` set (node_entries w) = insert k (fst ` set (node_entries (ts ! j)))"
    using arg_cong [OF W(2), of dom] by (simp add: dom_map_of_conv_image_fst)
  have "sound (Suc h) u (Inner_node i c ks (ts[j := w]) r)"
  proof (rule sound_innerI [OF sep])
    show "sound h (bound u ks n) (ts[j := w] ! n) \<and> node_entries (ts[j := w] ! n) \<noteq> []" if "n < length (ts[j := w])" for n
      using that S(4,5) [of n] W(1) ids by (cases "n = j") auto
    show "ks ! n \<in> fst ` set (node_entries (ts[j := w] ! n))" if "n < length ks" for n
      using that S(8) [of n] ids T(3) by (cases "n = j") auto
    show "ks \<noteq> [] \<and> last ks = u" if "r \<noteq> None" using S(9) [OF that] .
  qed
  then show "sound (Suc h) u (plug t j w)" by (simp add: T(1))
  have "k \<notin> fst ` set (concat (sub_lists ts r))" using k by (simp add: S(7) T(1))
  note u = map_of_concat_update [OF jl this mj]
  have "concat ((sub_lists ts r)[j := node_entries w]) = node_entries (plug t j w)"
    unfolding sub_lists_update [OF T(3), symmetric] by (simp add: sub_lists_def T(1))
  moreover have "concat (sub_lists ts r) = node_entries t" by (simp only: S(7) T(1))
  ultimately show "map_of (node_entries (plug t j w)) = (map_of (node_entries t))(k \<mapsto> v)" using u by simp
qed

lemma fate_bind_Done: "fate_bind x f = Done y \<longleftrightarrow> (\<exists>z. x = Done z \<and> f z = Done y)"
  by (cases x) auto

lemma fate_bind_Abort: "fate_bind x f = Abort \<longleftrightarrow> x = Abort \<or> (\<exists>z. x = Done z \<and> f z = Abort)"
  by (cases x) auto

lemma put_sound:
  "put h ps nid k v t = Done (n, t') \<Longrightarrow> sound h u t \<Longrightarrow> k \<le> u \<Longrightarrow> k \<notin> fst ` set (node_entries t) \<Longrightarrow> unat k < 2 ^ 31 \<Longrightarrow>
    sound h u t' \<and> map_of (node_entries t') = (map_of (node_entries t))(k \<mapsto> v) \<and> n \<le> h"
proof (induction h arbitrary: nid t n t' u)
  case 0
  then obtain i c al where t: "t = Leaf_node i c al" by (cases t) auto
  with 0 have s: "sorted (map fst al)" "distinct (map fst al)" "k \<notin> fst ` set al" by simp_all
  note F = leaf_insert_facts [OF s]
  show ?case using 0 F by (auto simp: t Let_def claims_def split: if_splits)
next
  case (Suc h)
  then obtain i c ks ts r where t: "t = Inner_node i c ks ts r" by (cases t) auto
  from Suc.prems(1) obtain a t1 j b w where
    s: "aim ps nid k v t = Done (a, t1, j)" "put h ps (nid + of_nat a) k v (child t1 j) = Done (b, w)" "n = a + b" "t' = plug t1 j w"
    by (auto simp: t fate_bind_Done simp del: aim.simps split: if_splits)
  from aim_sound [OF Suc.prems(2,3) [unfolded t] Suc.prems(4) [unfolded t] s(1) [unfolded t]] have
    A: "aimed h u k t1 j" "node_entries t1 = node_entries t" "a \<le> 1" by (simp_all add: t)
  have k: "k \<notin> fst ` set (node_entries t1)" using Suc.prems(4) A(2) by simp
  have w: "sound h b' w \<and> map_of (node_entries w) = (map_of (node_entries (child t1 j)))(k \<mapsto> v)"
    if "sound h b' (child t1 j)" "k \<le> b'" "k \<notin> fst ` set (node_entries (child t1 j))" for b'
    using Suc.IH [OF s(2) that Suc.prems(5)] by blast
  have "b \<le> h"
  proof -
    from A(1) obtain b' where "sound h b' (child t1 j)" "k \<le> b'" "k \<notin> fst ` set (node_entries (child t1 j))"
      by (auto simp: aimed_def simp del: sound.simps)
    from Suc.IH [OF s(2) this Suc.prems(5)] show ?thesis by blast
  qed
  then show ?case using plug_sound [OF A(1) k w] A(2,3) s(3,4) by simp
qed

section \<open>The root\<close>

lemma sound_height: "sound h u t \<Longrightarrow> node_height t = h"
proof (induction h arbitrary: u t)
  case 0
  then show ?case by (cases t) auto
next
  case (Suc h)
  then obtain i c ks ts r where t: "t = Inner_node i c ks ts r" by (cases t) auto
  note S = sound_inner [OF Suc.prems [unfolded t]]
  have "0 < length ts" using S(3,9) by (cases "r = None") simp_all
  with S(4) [of 0] Suc.IH show ?case by (cases ts) (auto simp: t)
qed

lemma new_root_sound:
  assumes hv: "halves_ok h u t lo k0 up" and k: "k \<le> u" "k \<notin> fst ` set (node_entries t)"
  shows "aimed h u k (new_root_node ps i lo k0 up) (if k < k0 then 0 else 1)"
    and "node_entries (new_root_node ps i lo k0 up) = node_entries t"
proof -
  note H = hv [unfolded halves_ok_def]
  let ?rt = "Inner_node i (of_nat (ps - 12 - (length (vint_bytes k0) + 6))) [k0] [lo, up] None"
  show e: "node_entries (new_root_node ps i lo k0 up) = node_entries t" using H by (simp add: new_root_node_def)
  have "sound (Suc h) u ?rt"
  proof (rule sound_innerI)
    show "separated [k0] (sub_lists [lo, up] None)" using H by (simp add: separated_def sub_lists_def less_Suc_eq)
    have "node_entries lo \<noteq> []" using H by auto
    then show "sound h (bound u [k0] j) ([lo, up] ! j) \<and> node_entries ([lo, up] ! j) \<noteq> []" if "j < length [lo, up]" for j
      using that H by (auto simp: bound_def less_Suc_eq)
    show "[k0] ! j \<in> fst ` set (node_entries ([lo, up] ! j))" if "j < length [k0]" for j using that H by simp
  qed simp
  moreover have "k0 \<noteq> k" using H k(2) by auto
  then have "(if k < k0 then 0 else 1) = key_rank [k0] k" by (auto simp: key_rank_def)
  moreover have "k \<notin> fst ` set (node_entries ?rt)" using k(2) e unfolding new_root_node_def by (simp only: not_False_eq_True)
  ultimately show "aimed h u k (new_root_node ps i lo k0 up) (if k < k0 then 0 else 1)"
    unfolding new_root_node_def using aimed_here(1) [OF _ k(1)] by (simp only:)
qed

text \<open>What an insertion has to give.\<close>

definition put_ok :: "u64 \<Rightarrow> u64 \<Rightarrow> byte list \<Rightarrow> node \<Rightarrow> node \<Rightarrow> bool" where
  "put_ok u k v t t' \<longleftrightarrow> sound (node_height t') u t' \<and> map_of (node_entries t') = (map_of (node_entries t))(k \<mapsto> v) \<and>
     node_height t \<le> node_height t' \<and> node_height t' \<le> Suc (node_height t)"

lemma put_root_sound:
  assumes p: "put_root ps nid k v t = Done (n, t')" and t: "sound (node_height t) u t"
    and k: "k \<le> u" "k \<notin> fst ` set (node_entries t)" "unat k < 2 ^ 31"
  shows "put_ok u k v t t' \<and> n \<le> node_height t + 2"
proof (cases "need k v t \<le> unat (claim t)")
  case True
  then have "put (node_height t) ps nid k v t = Done (n, t')" using p by (simp add: put_root_def)
  from put_sound [OF this t k] show ?thesis using sound_height by (fastforce simp: put_ok_def)
next
  case False
  obtain lo k0 up where hv: "halve ps nid t = (lo, k0, up)" by (cases "halve ps nid t") auto
  let ?rt = "new_root_node ps (nid + 1) lo k0 up" and ?j = "if k < k0 then 0 else 1 :: nat"
  from p False hv obtain b w where n: "2 \<le> length (payload_sizes t)" and
    w: "put (node_height t) ps (nid + 2) k v (child ?rt ?j) = Done (b, w)" "n = 2 + b" "t' = plug ?rt ?j w"
    by (auto simp: put_root_def fate_bind_Done Let_def simp del: child.simps plug.simps split: if_splits)
  note A = new_root_sound [OF halve_sound [OF t n hv] k(1,2), of ps "nid + 1"]
  have k': "k \<notin> fst ` set (node_entries ?rt)" using k(2) A(2) by simp
  have W: "sound (node_height t) b' w \<and> map_of (node_entries w) = (map_of (node_entries (child ?rt ?j)))(k \<mapsto> v) \<and> b \<le> node_height t"
    if "sound (node_height t) b' (child ?rt ?j)" "k \<le> b'" "k \<notin> fst ` set (node_entries (child ?rt ?j))" for b'
    using put_sound [OF w(1) that k(3)] .
  from A(1) obtain b' where "sound (node_height t) b' (child ?rt ?j)" "k \<le> b'" "k \<notin> fst ` set (node_entries (child ?rt ?j))"
    by (auto simp: aimed_def simp del: sound.simps)
  from W [OF this] have "b \<le> node_height t" by blast
  moreover have "sound (Suc (node_height t)) u t'" "map_of (node_entries t') = (map_of (node_entries t))(k \<mapsto> v)"
    using plug_sound [OF A(1) k', of w v] W A(2) by (simp_all add: w(3))
  ultimately show ?thesis using sound_height by (fastforce simp: put_ok_def w(2))
qed

text \<open>A list of entries with new ids, in any order.\<close>

lemma map_add_fresh:
  assumes "k \<notin> fst ` set xs"
  shows "m(k \<mapsto> v) ++ map_of xs = m ++ map_of ((k, v) # xs)"
proof -
  have "k \<notin> dom (map_of xs)" using assms by (simp add: dom_map_of_conv_image_fst)
  then show ?thesis by (simp add: map_add_upd_left)
qed

lemma put_all_sound:
  assumes "put_all ps nid xs t = Done (n, t')" and "sound (node_height t) u t" and "\<forall>e \<in> set xs. fst e \<le> u \<and> unat (fst e) < 2 ^ 31"
    and "distinct (map fst xs)" and "\<forall>e \<in> set xs. map_of (node_entries t) (fst e) = None"
  shows "sound (node_height t') u t' \<and> map_of (node_entries t') = map_of (node_entries t) ++ map_of xs \<and> node_height t \<le> node_height t'"
  using assms
proof (induction xs arbitrary: nid n t)
  case Nil
  then show ?case by auto
next
  case (Cons e xs)
  obtain k v where e: "e = (k, v)" by (cases e)
  from Cons.prems(1) obtain a t1 b where p: "put_root ps nid k v t = Done (a, t1)" "put_all ps (nid + of_nat a) xs t1 = Done (b, t')"
    by (auto simp: e fate_bind_Done)
  have k: "k \<le> u" "k \<notin> fst ` set (node_entries t)" "unat k < 2 ^ 31" using Cons.prems(3,5) by (auto simp: e map_of_eq_None_iff)
  note O = put_root_sound [OF p(1) Cons.prems(2) k, unfolded put_ok_def]
  have x: "k \<notin> fst ` set xs" using Cons.prems(4) by (simp add: e)
  have "\<forall>e \<in> set xs. fst e \<noteq> k" using x by auto
  then have "\<forall>e \<in> set xs. map_of (node_entries t1) (fst e) = None" using O Cons.prems(5) by simp
  moreover have "\<forall>e \<in> set xs. fst e \<le> u \<and> unat (fst e) < 2 ^ 31" "distinct (map fst xs)" using Cons.prems(3,4) by simp_all
  ultimately have I: "sound (node_height t') u t' \<and> map_of (node_entries t') = map_of (node_entries t1) ++ map_of xs \<and> node_height t1 \<le> node_height t'"
    using Cons.IH [OF p(2)] O by blast
  have "map_of (node_entries t1) ++ map_of xs = map_of (node_entries t) ++ map_of (e # xs)"
    using O map_add_fresh [OF x] unfolding e by metis
  then show ?case using O I by (metis order_trans)
qed

end
