(* ===== verification/BtreeStored.thy ===== *)
theory BtreeStored
  imports ClaimTree BtreeWalk
begin

text \<open>
  The pages of a tree of the theory ClaimTree in the page cache, and how they change when a child
  of an inner page is replaced.
\<close>

section \<open>Trees in the page cache\<close>

definition child_ids :: "node list \<Rightarrow> u32 option \<Rightarrow> u32 list" where
  "child_ids ts r = map node_id ts @ (case r of None \<Rightarrow> [] | Some x \<Rightarrow> [x])"

fun stored :: "nat \<Rightarrow> (u32 \<Rightarrow> byte list option) \<Rightarrow> node \<Rightarrow> bool" where
  "stored ps M (Leaf_node i c al) \<longleftrightarrow> i \<noteq> 0 \<and> (\<exists>d fl r. M i = Some d \<and> leaf_readable ps fl r d al \<and> free_space (header_of d) = c)"
| "stored ps M (Inner_node i c ks ts r) \<longleftrightarrow> i \<noteq> 0 \<and>
     (\<exists>d fl. M i = Some d \<and> inner_readable ps fl d ks (child_ids ts r) \<and> free_space (header_of d) = c) \<and>
     (\<forall>x. r = Some x \<longrightarrow> x \<noteq> i \<and> M x \<noteq> None) \<and> (\<forall>t \<in> set ts. stored ps M t)"

definition held :: "nat \<Rightarrow> (u32 \<Rightarrow> byte list option) \<Rightarrow> node \<Rightarrow> bool" where
  "held ps M t \<longleftrightarrow> stored ps M t \<and> distinct (node_pages t)"

lemma node_id_page: "node_id t \<in> set (node_pages t)"
  by (cases t) simp_all

lemma stored_pages: "stored ps M t \<Longrightarrow> x \<in> set (node_pages t) \<Longrightarrow> M x \<noteq> None"
  by (induction t) auto

lemma stored_frame:
  "stored ps M t \<Longrightarrow> \<forall>x \<in> set (node_pages t). M' x = M x \<Longrightarrow> dom M \<subseteq> dom M' \<Longrightarrow> stored ps M' t"
proof (induction t)
  case (Inner_node i c ks ts r)
  then have "\<forall>t \<in> set ts. stored ps M' t" by auto
  moreover have "M' x \<noteq> None" if "M x \<noteq> None" for x using Inner_node.prems(3) that unfolding domIff [symmetric] by (rule subsetD)
  then have "\<forall>x. r = Some x \<longrightarrow> x \<noteq> i \<and> M' x \<noteq> None" using Inner_node.prems(1) by simp
  ultimately show ?case using Inner_node.prems by simp
qed simp

text \<open>What every page of the tree has.\<close>

definition is_leaf :: "node \<Rightarrow> bool" where
  "is_leaf t \<longleftrightarrow> (\<exists>i c al. t = Leaf_node i c al)"

lemma is_leaf_simps [simp]: "is_leaf (Leaf_node i c al)" "\<not> is_leaf (Inner_node i c ks ts r)"
  by (simp_all add: is_leaf_def)

definition page_of :: "nat \<Rightarrow> node \<Rightarrow> byte list \<Rightarrow> u16 \<Rightarrow> page_id_t \<Rightarrow> byte list list \<Rightarrow> bool" where
  "page_of ps t d fl r pls \<longleftrightarrow> page_rep ps d fl r pls \<and> map length pls = payload_sizes t \<and> \<not> page_is_index_uuid fl \<and>
     flags (header_of d) = fl \<and> free_space (header_of d) = claim t \<and> (page_is_leaf fl \<longleftrightarrow> is_leaf t) \<and> (page_is_inner fl \<longleftrightarrow> \<not> is_leaf t)"

lemma rep_sizes: "page_rep ps d fl r pls \<Longrightarrow> room d = real_room ps (map length pls)"
  using page_rep_words(3) [of ps d fl r pls] by (simp add: real_room_def total_def)

lemma page_ofD:
  assumes "page_of ps t d fl r pls"
  shows "page_rep ps d fl r pls" and "length pls = length (payload_sizes t)" and "\<not> page_is_index_uuid fl" and "12 \<le> length d"
    and "flags (header_of d) = fl" and "free_space (header_of d) = claim t" and "page_is_leaf fl \<longleftrightarrow> is_leaf t"
    and "page_is_inner fl \<longleftrightarrow> \<not> is_leaf t" and "room d = real_room ps (payload_sizes t)"
proof -
  have e: "page_rep ps d fl r pls" "map length pls = payload_sizes t" using assms by (simp_all add: page_of_def)
  show "length pls = length (payload_sizes t)" using e(2) by (metis length_map)
  show "room d = real_room ps (payload_sizes t)" using rep_sizes [OF e(1)] e(2) by simp
  show "page_rep ps d fl r pls" "12 \<le> length d" using e(1) page_repD(4) [OF e(1)] by simp_all
qed (use assms in \<open>simp_all add: page_of_def\<close>)

lemma stored_head:
  assumes "stored ps M t"
  obtains d fl r pls where "M (node_id t) = Some d" and "node_id t \<noteq> 0" and "page_of ps t d fl r pls"
proof (cases t)
  case (Leaf_node i c al)
  with assms obtain d fl r where d: "M i = Some d" "i \<noteq> 0" "leaf_readable ps fl r d al" "free_space (header_of d) = c" by auto
  then have "page_of ps t d fl r (map leaf_entry al)"
    using page_repD(5) by (auto simp: page_of_def Leaf_node leaf_readable_def page_is_leaf_def page_is_inner_def)
  with d show thesis by (intro that) (simp_all add: Leaf_node)
next
  case (Inner_node i c ks ts r)
  with assms obtain d fl where d: "M i = Some d" "i \<noteq> 0" "inner_readable ps fl d ks (child_ids ts r)" "free_space (header_of d) = c" by auto
  have l: "length (child_ids ts r) = Suc (length ks)" using d(3) by (simp add: inner_readable_def)
  have "map length (inner_payloads ks (child_ids ts r)) = map (\<lambda>k. 4 + length (vint_bytes k)) ks"
    using inner_payloads_nth [OF l] l by (intro nth_equalityI) simp_all
  then have "page_of ps t d fl (last (child_ids ts r)) (inner_payloads ks (child_ids ts r))"
    using d page_repD(5) by (auto simp: page_of_def Inner_node inner_readable_def page_is_leaf_def page_is_inner_def)
  with d show thesis by (intro that) (simp_all add: Inner_node)
qed

lemma claim_test:
  assumes "page_of ps t d fl r pls" and "key_blob key k" "val_blob val v" "id_ok k" "val_ok v"
  shows "free_space (header_of d) < payload_put_len (flags (header_of d)) key val \<longleftrightarrow> unat (claim t) < need k v t"
proof -
  note P = page_ofD [OF assms(1)]
  have "need k v t = (if page_is_inner fl then fst (entry_size (k, v)) + 4 else snd (entry_size (k, v)))"
    using P(8) by (cases t) (simp_all add: entry_size_def)
  then show ?thesis using P(5,6) unat_put_need [OF assms(2-5), of fl] by (simp add: word_less_nat_alt)
qed

text \<open>How an insertion changes the cache: pages outside the tree stay, and new ones are added.\<close>

definition grows :: "(u32 \<Rightarrow> byte list option) \<Rightarrow> node \<Rightarrow> (u32 \<Rightarrow> byte list option) \<Rightarrow> node \<Rightarrow> bool" where
  "grows M t M' t' \<longleftrightarrow> (\<forall>x. x \<notin> set (node_pages t) \<longrightarrow> M x \<noteq> None \<longrightarrow> M' x = M x) \<and> dom M \<subseteq> dom M' \<and>
     (\<forall>x \<in> set (node_pages t'). x \<in> set (node_pages t) \<or> M x = None)"

lemma grows_trans: "grows M t M1 t1 \<Longrightarrow> grows M1 t1 M2 t2 \<Longrightarrow> grows M t M2 t2"
  unfolding grows_def by (smt (verit, ccfv_threshold) domIff subset_iff)

section \<open>Replacing a child\<close>

lemma held_parts:
  assumes "held ps M (Inner_node i c ks (A @ t # B) r)"
  shows "stored ps M t" and "distinct (node_pages t)" and "i \<notin> set (node_pages t)" and "M i \<noteq> None" and "i \<noteq> 0"
  using assms by (auto simp: held_def)

lemma held_child:
  assumes "held ps M (Inner_node i c ks ts r)" and "j < length ts"
  shows "held ps M (ts ! j)"
proof -
  have "ts = take j ts @ ts ! j # drop (Suc j) ts" using assms(2) by (rule id_take_nth_drop)
  from held_parts(1,2) [OF assms(1) [unfolded arg_cong [OF this, of "\<lambda>ts. Inner_node i c ks ts r"]]] show ?thesis by (simp add: held_def)
qed

lemma held_apart:
  assumes "held ps M (Inner_node i c ks ts r)"
  shows "i \<notin> set (child_ids ts r)"
proof
  assume "i \<in> set (child_ids ts r)"
  then consider x where "x \<in> set ts" "node_id x = i" | "r = Some i" by (auto simp: child_ids_def split: option.splits)
  then show False
  proof cases
    case 1
    then have "i \<in> set (node_pages x)" using node_id_page [of x] by simp
    with 1(1) assms show False by (auto simp: held_def)
  qed (use assms in \<open>simp add: held_def\<close>)
qed

text \<open>The pages of the subtrees \<open>W\<close> that replace the child \<open>t\<close> belong to \<open>t\<close> or are new.\<close>

definition replaces :: "(u32 \<Rightarrow> byte list option) \<Rightarrow> u32 \<Rightarrow> node \<Rightarrow> (u32 \<Rightarrow> byte list option) \<Rightarrow> node list \<Rightarrow> bool" where
  "replaces M i t M' W \<longleftrightarrow> (\<forall>x. x \<notin> set (node_pages t) \<longrightarrow> x \<noteq> i \<longrightarrow> M x \<noteq> None \<longrightarrow> M' x = M x) \<and> dom M \<subseteq> dom M' \<and>
     (\<forall>x \<in> set (concat (map node_pages W)). x \<in> set (node_pages t) \<or> M x = None)"

lemma replace_apart:
  assumes T: "held ps M (Inner_node i c ks (A @ t # B) r)" and g: "replaces M i t M' W" and x: "x \<in> set (concat (map node_pages W))"
  shows "x \<noteq> i" and "x \<notin> set (concat (map node_pages (A @ B)))"
proof -
  have s: "stored ps M (Inner_node i c ks (A @ t # B) r)" and di: "distinct (node_pages (Inner_node i c ks (A @ t # B) r))"
    using T by (simp_all add: held_def)
  have c: "x \<in> set (node_pages t) \<or> M x = None" using g x by (simp only: replaces_def)
  have "x \<noteq> i \<and> x \<notin> set (concat (map node_pages (A @ B)))"
  proof (cases "x \<in> set (node_pages t)")
    case True
    then show ?thesis using di by auto
  next
    case False
    then have "M x = None" using c by simp
    then have "x \<notin> set (node_pages (Inner_node i c ks (A @ t # B) r))" using stored_pages [OF s] by blast
    then show ?thesis by auto
  qed
  then show "x \<noteq> i" and "x \<notin> set (concat (map node_pages (A @ B)))" by blast+
qed

lemma replace_siblings:
  assumes T: "held ps M (Inner_node i c ks (A @ t # B) r)" and g: "replaces M i t M' W" and x: "x \<in> set (A @ B)"
  shows "stored ps M' x"
proof (rule stored_frame)
  have s: "stored ps M (Inner_node i c ks (A @ t # B) r)" and di: "distinct (node_pages (Inner_node i c ks (A @ t # B) r))"
    using T by (simp_all add: held_def)
  show sx: "stored ps M x" using s x by auto
  show "dom M \<subseteq> dom M'" using g by (simp add: replaces_def)
  show "\<forall>y \<in> set (node_pages x). M' y = M y"
  proof
    fix y
    assume y: "y \<in> set (node_pages x)"
    have "y \<notin> set (node_pages t)" "y \<noteq> i" using di x y by auto
    moreover have "M y \<noteq> None" by (rule stored_pages [OF sx y])
    ultimately show "M' y = M y" using g by (simp add: replaces_def)
  qed
qed

lemma replace_held:
  assumes T: "held ps M (Inner_node i c ks (A @ t # B) r)"
    and W: "\<forall>w \<in> set W. stored ps M' w" "distinct (concat (map node_pages W))" and g: "replaces M i t M' W"
    and d: "M' i = Some d'" "inner_readable ps fl d' ks' (child_ids (A @ W @ B) r)" "free_space (header_of d') = c'"
  shows "held ps M' (Inner_node i c' ks' (A @ W @ B) r)" and "grows M (Inner_node i c ks (A @ t # B) r) M' (Inner_node i c' ks' (A @ W @ B) r)"
proof -
  have s: "stored ps M (Inner_node i c ks (A @ t # B) r)" and di: "distinct (node_pages (Inner_node i c ks (A @ t # B) r))"
    using T by (simp_all add: held_def)
  note G = g [unfolded replaces_def, THEN conjunct1] g [unfolded replaces_def, THEN conjunct2, THEN conjunct1]
    g [unfolded replaces_def, THEN conjunct2, THEN conjunct2]
  have nn: "M' x \<noteq> None" if "M x \<noteq> None" for x using G(2) that unfolding domIff [symmetric] by (rule subsetD)
  have "\<forall>x. r = Some x \<longrightarrow> x \<noteq> i \<and> M' x \<noteq> None" using s nn by auto
  moreover have "\<forall>x \<in> set (A @ W @ B). stored ps M' x" using replace_siblings [OF T g] W(1) by auto
  moreover have "i \<noteq> 0" using s by simp
  ultimately have "stored ps M' (Inner_node i c' ks' (A @ W @ B) r)" using d by auto
  moreover have "distinct (node_pages (Inner_node i c' ks' (A @ W @ B) r))"
  proof -
    have "set (concat (map node_pages W)) \<inter> set (concat (map node_pages (A @ B))) = {}" "i \<notin> set (concat (map node_pages W))"
      using replace_apart [OF T g] by blast+
    then show ?thesis using di W(2) by auto
  qed
  ultimately show "held ps M' (Inner_node i c' ks' (A @ W @ B) r)" by (simp add: held_def)
  show "grows M (Inner_node i c ks (A @ t # B) r) M' (Inner_node i c' ks' (A @ W @ B) r)"
    unfolding grows_def
  proof (intro conjI allI impI ballI)
    show "dom M \<subseteq> dom M'" by (rule G(2))
    show "M' x = M x" if "x \<notin> set (node_pages (Inner_node i c ks (A @ t # B) r))" "M x \<noteq> None" for x
      using that(1) by (intro G(1) [rule_format] that(2)) auto
    show "x \<in> set (node_pages (Inner_node i c ks (A @ t # B) r)) \<or> M x = None" if "x \<in> set (node_pages (Inner_node i c' ks' (A @ W @ B) r))" for x
    proof (cases "x \<in> set (concat (map node_pages W))")
      case True
      then have "x \<in> set (node_pages t) \<or> M x = None" by (rule bspec [OF G(3)])
      then show ?thesis by auto
    qed (use that in auto)
  qed
qed

lemma plug_held:
  assumes T: "held ps M (Inner_node i c ks ts r)" and j: "j < length ts" and w: "held ps M' w" and g: "grows M (ts ! j) M' w"
    and i: "node_id w = node_id (ts ! j)"
  shows "held ps M' (plug (Inner_node i c ks ts r) j w)" and "grows M (Inner_node i c ks ts r) M' (plug (Inner_node i c ks ts r) j w)"
proof -
  have e: "ts = take j ts @ ts ! j # drop (Suc j) ts" using j by (rule id_take_nth_drop)
  have u: "ts[j := w] = take j ts @ [w] @ drop (Suc j) ts" using upd_conv_take_nth_drop [OF j] by simp
  have T': "held ps M (Inner_node i c ks (take j ts @ ts ! j # drop (Suc j) ts) r)" using T by (simp flip: e)
  from T obtain d fl where d: "M i = Some d" "inner_readable ps fl d ks (child_ids ts r)" "free_space (header_of d) = c"
    by (auto simp: held_def)
  have "i \<notin> set (node_pages (ts ! j))" using held_parts(3) [OF T'] .
  then have d': "M' i = Some d" using g d(1) by (simp add: grows_def)
  have ids: "child_ids (take j ts @ [w] @ drop (Suc j) ts) r = child_ids ts r"
  proof -
    have "map node_id (ts[j := w]) = (map node_id ts)[j := node_id w]" by (rule map_update)
    also have "\<dots> = map node_id ts" using i j by (metis list_update_id nth_map)
    finally show ?thesis unfolding u [symmetric] child_ids_def by (simp only:)
  qed
  have w': "\<forall>x \<in> set [w]. stored ps M' x" "distinct (concat (map node_pages [w]))" using w by (simp_all add: held_def)
  have g': "replaces M i (ts ! j) M' [w]" using g by (simp add: grows_def replaces_def)
  note R = replace_held [OF T' w' g' d' d(2) [folded ids] d(3)]
  show "held ps M' (plug (Inner_node i c ks ts r) j w)" using R(1) by (simp add: u)
  show "grows M (Inner_node i c ks ts r) M' (plug (Inner_node i c ks ts r) j w)" using R(2) by (simp add: u flip: e)
qed

end
