(* ===== verification/BtreePut.thy ===== *)
theory BtreePut
  imports BtreeStored
begin

text \<open>
  \<^verbatim>\<open>btree_insert_walk\<close> on the pages of a tree of the theory ClaimTree: insertion in any place
  does what \<open>put\<close> says.
\<close>

section \<open>The halves of a page in the cache\<close>

lemma halve_pages:
  assumes hv: "halve ps nid t = (lo, k0, up)" and t: "distinct (node_pages t)" "nid \<notin> set (node_pages t)"
  shows "distinct (node_pages lo @ node_pages up)" and "set (node_pages lo @ node_pages up) = insert nid (set (node_pages t))"
proof -
  have "distinct (node_pages lo @ node_pages up) \<and> set (node_pages lo @ node_pages up) = insert nid (set (node_pages t))"
  proof (cases t)
    case (Leaf_node i c al)
    then show ?thesis using hv t by (auto simp: Let_def)
  next
    case (Inner_node i c ks ts r)
    define A B where "A = concat (map node_pages (take (length ks div 2) ts))" and "B = concat (map node_pages (drop (length ks div 2) ts))"
    have "concat (map node_pages ts) = A @ B" unfolding A_def B_def by (metis append_take_drop_id concat_append map_append)
    then have "node_pages t = i # A @ B" by (simp add: Inner_node)
    moreover have "node_pages lo = i # A" "node_pages up = nid # B"
      using hv by (auto simp: Inner_node Let_def A_def B_def)
    ultimately show ?thesis using t by (auto simp: Inner_node)
  qed
  then show "distinct (node_pages lo @ node_pages up)" and "set (node_pages lo @ node_pages up) = insert nid (set (node_pages t))"
    by blast+
qed

lemma halve_ids: "halve ps nid t = (lo, k0, up) \<Longrightarrow> node_id lo = node_id t \<and> node_id up = nid"
  by (cases t) (auto simp: Let_def)

lemma halved_claims:
  assumes h: "halved ps fl r pls nid d' s'" and ns: "map length pls = ns"
  shows "free_space (header_of d') = low_claim (take (length ns div 2) ns)"
    and "free_space (header_of s') = of_nat (real_room ps (drop (length ns div 2) ns))"
proof -
  have l: "length ns = length pls" using ns by auto
  show "free_space (header_of d') = low_claim (take (length ns div 2) ns)"
    using h by (simp add: halved_def low_claim_def total_def l take_map flip: ns)
  have "unat (free_space (header_of s')) = real_room ps (map length (drop (length pls div 2) pls))"
    using h rep_sizes by (auto simp: halved_def free_exact_def)
  then have u: "unat (free_space (header_of s')) = real_room ps (drop (length ns div 2) ns)" by (simp add: drop_map l flip: ns)
  show "free_space (header_of s') = of_nat (real_room ps (drop (length ns div 2) ns))" by (simp flip: u)
qed

lemma leaf_split:
  assumes T: "stored ps M (Leaf_node i c al)" and d: "M i = Some d" and hv: "halve ps nid (Leaf_node i c al) = (lo, k0, up)" and n: "2 \<le> length al"
  shows "\<exists>fl r pls. page_of ps (Leaf_node i c al) d fl r pls \<and> keyed_payload fl (pls ! (length pls div 2 - 1)) k0 \<and>
    (\<forall>d' s' M'. halved ps fl r pls nid d' s' \<longrightarrow> nid \<noteq> 0 \<longrightarrow> M' i = Some d' \<longrightarrow> M' nid = Some s' \<longrightarrow> stored ps M' lo \<and> stored ps M' up)"
proof -
  from T d obtain fl r where l: "i \<noteq> 0" "leaf_readable ps fl r d al" "free_space (header_of d) = c" by auto
  let ?h = "length al div 2"
  have L: "page_is_leaf fl" "\<forall>e \<in> set al. table_entry e" "page_rep ps d fl r (map leaf_entry al)" "\<not> page_is_index_uuid fl"
    using l(2) by (simp_all add: leaf_readable_def)
  have p: "page_of ps (Leaf_node i c al) d fl r (map leaf_entry al)"
    using L l(3) page_repD(5) [OF L(3)] by (simp add: page_of_def page_is_leaf_def page_is_inner_def)
  have lt: "?h - 1 < length al" using n by simp
  have k0: "k0 = fst (al ! (?h - 1))" using hv by (simp add: Let_def)
  have "keyed_payload fl (map leaf_entry al ! (?h - 1)) k0" using keyed_leaf [OF L(1)] L(2) lt by (simp add: k0)
  moreover have "stored ps M' lo \<and> stored ps M' up"
    if h: "halved ps fl r (map leaf_entry al) nid d' s'" and M': "nid \<noteq> 0" "M' i = Some d'" "M' nid = Some s'" for d' s' M'
  proof -
    note C = halved_claims [OF h, of "payload_sizes (Leaf_node i c al)"]
    have "page_rep ps d' fl nid (take ?h (map leaf_entry al))" "page_rep ps s' fl r (drop ?h (map leaf_entry al))"
      using h by (simp_all add: halved_def)
    note R = leaf_readable_halves [OF l(2) this]
    have "lo = Leaf_node i (free_space (header_of d')) (take ?h al)" "up = Leaf_node nid (free_space (header_of s')) (drop ?h al)"
      using hv C by (auto simp: Let_def)
    then show ?thesis using M' l(1) R by (simp, blast)
  qed
  ultimately show ?thesis using p by (intro exI [of _ fl] exI [of _ r] exI [of _ "map leaf_entry al"]) simp
qed

lemma inner_split:
  assumes T: "stored ps M (Inner_node i c ks ts r)" and d: "M i = Some d" and hv: "halve ps nid (Inner_node i c ks ts r) = (lo, k0, up)"
    and n: "2 \<le> length ks" and di: "distinct (node_pages (Inner_node i c ks ts r))"
  shows "\<exists>fl rt pls. page_of ps (Inner_node i c ks ts r) d fl rt pls \<and> keyed_payload fl (pls ! (length pls div 2 - 1)) k0 \<and>
    (\<forall>d' s' M'. halved ps fl rt pls nid d' s' \<longrightarrow> nid \<noteq> 0 \<longrightarrow> M nid = None \<longrightarrow> M' i = Some d' \<longrightarrow> M' nid = Some s' \<longrightarrow>
      (\<forall>x. x \<noteq> i \<longrightarrow> M x \<noteq> None \<longrightarrow> M' x = M x) \<longrightarrow> stored ps M' lo \<and> stored ps M' up)"
proof -
  let ?cs = "child_ids ts r" and ?h = "length ks div 2"
  from T d obtain fl where l: "i \<noteq> 0" "inner_readable ps fl d ks ?cs" "free_space (header_of d) = c"
    "\<forall>x. r = Some x \<longrightarrow> x \<noteq> i \<and> M x \<noteq> None" "\<forall>t \<in> set ts. stored ps M t" by auto
  let ?pls = "inner_payloads ks ?cs"
  have L: "page_is_inner fl" "length ?cs = Suc (length ks)" "page_rep ps d fl (last ?cs) ?pls" "\<not> page_is_index_uuid fl" "\<forall>x \<in> set ks. unat x < 2 ^ 56"
    using l(2) by (simp_all add: inner_readable_def)
  have lp: "length ?pls = length ks" using L(2) by simp
  have ns: "map length ?pls = payload_sizes (Inner_node i c ks ts r)"
    using inner_payloads_nth [OF L(2)] L(2) by (intro nth_equalityI) simp_all
  have p: "page_of ps (Inner_node i c ks ts r) d fl (last ?cs) ?pls"
    using L l(3) ns page_repD(5) [OF L(3)] by (simp add: page_of_def page_is_leaf_def page_is_inner_def)
  have lt: "?h - 1 < length ks" "?h \<le> length ks" "?h \<le> length ts" using n L(2) by (auto simp: child_ids_def split: option.splits)
  have k0: "k0 = ks ! (?h - 1)" using hv by (simp add: Let_def)
  have "keyed_payload fl (?pls ! (?h - 1)) k0" using keyed_inner [OF L(1), of k0] L(5) lt inner_payloads_nth [OF L(2) lt(1)] by (simp add: k0)
  moreover have "stored ps M' lo \<and> stored ps M' up"
    if h: "halved ps fl (last ?cs) ?pls nid d' s'" and M': "nid \<noteq> 0" "M nid = None" "M' i = Some d'" "M' nid = Some s'"
      and g: "\<forall>x. x \<noteq> i \<longrightarrow> M x \<noteq> None \<longrightarrow> M' x = M x" for d' s' M'
  proof -
    note C = halved_claims [OF h ns]
    have "page_rep ps d' fl nid (take ?h ?pls)" "page_rep ps s' fl (last ?cs) (drop ?h ?pls)" using h by (simp_all add: halved_def lp)
    note R = inner_readable_halves [OF l(2) lt(2) this]
    have "stored ps M' t" if t: "t \<in> set ts" for t
    proof (rule stored_frame)
      show "stored ps M t" using l(5) t by simp
      then have "M x \<noteq> None" if "x \<in> set (node_pages t)" for x using stored_pages that by blast
      moreover have "i \<notin> set (node_pages t)" using di t by auto
      ultimately show "\<forall>x \<in> set (node_pages t). M' x = M x" using g by metis
      show "dom M \<subseteq> dom M'"
      proof
        fix x
        assume "x \<in> dom M"
        then show "x \<in> dom M'" using g M'(3) by (cases "x = i") (auto simp: domIff)
      qed
    qed
    then have "\<forall>t \<in> set (take ?h ts). stored ps M' t" "\<forall>t \<in> set (drop ?h ts). stored ps M' t" by (auto dest: in_set_takeD in_set_dropD)
    moreover have "take ?h ?cs @ [nid] = child_ids (take ?h ts) (Some nid)" "drop ?h ?cs = child_ids (drop ?h ts) r"
      using lt(3) by (simp_all add: child_ids_def take_map drop_map)
    moreover have "nid \<noteq> i" using d M'(2) by auto
    moreover have "x \<noteq> nid \<and> M' x \<noteq> None" if "r = Some x" for x using l(4) that g M'(2) by auto
    moreover have "lo = Inner_node i (free_space (header_of d')) (take ?h ks) (take ?h ts) (Some nid)"
      "up = Inner_node nid (free_space (header_of s')) (drop ?h ks) (drop ?h ts) r" using hv C by (auto simp: Let_def)
    ultimately show ?thesis using M' l(1) R by (simp, blast)
  qed
  ultimately show ?thesis using p lp by (intro exI [of _ fl] exI [of _ "last ?cs"] exI [of _ ?pls]) simp
qed

lemma stored_split:
  assumes T: "held ps M t" and d: "M (node_id t) = Some d" and hv: "halve ps nid t = (lo, k0, up)" and n: "2 \<le> length (payload_sizes t)"
  shows "\<exists>fl r pls. page_of ps t d fl r pls \<and> keyed_payload fl (pls ! (length pls div 2 - 1)) k0 \<and>
    (\<forall>d' s' M'. halved ps fl r pls nid d' s' \<longrightarrow> nid \<noteq> 0 \<longrightarrow> M nid = None \<longrightarrow> M' (node_id t) = Some d' \<longrightarrow> M' nid = Some s' \<longrightarrow>
      (\<forall>x. x \<noteq> node_id t \<longrightarrow> M x \<noteq> None \<longrightarrow> M' x = M x) \<longrightarrow> stored ps M' lo \<and> stored ps M' up)"
proof (cases t)
  case (Leaf_node i c al)
  with leaf_split [of ps M i c al d nid lo k0 up] T d hv n show ?thesis by (simp add: held_def del: stored.simps halve.simps) blast
next
  case (Inner_node i c ks ts r)
  with inner_split [of ps M i c ks ts r d nid lo k0 up] T d hv n show ?thesis
    by (simp add: held_def del: stored.simps halve.simps node_pages.simps)
qed

section \<open>The split of a child\<close>

lemma child_ids_split:
  assumes "j < length ts" and "node_id lo = node_id (ts ! j)"
  shows "child_ids (take j ts @ [lo, up] @ drop (Suc j) ts) r = insert_at (Suc j) (node_id up) (child_ids ts r)"
proof -
  have "ts = take j ts @ ts ! j # drop (Suc j) ts" using assms(1) by (rule id_take_nth_drop)
  then have "take (Suc j) (map node_id ts) = map node_id (take j ts) @ [node_id lo]"
    using assms by (simp add: take_Suc_conv_app_nth take_map)
  then show ?thesis using assms(1) by (simp add: child_ids_def insert_at_def drop_map)
qed

text \<open>What \<^verbatim>\<open>walk_split\<close> needs of the page above.\<close>

lemma stored_inner:
  assumes "stored ps M (Inner_node i cl ks ts r)" and "M i = Some d"
  shows "\<exists>fl. inner_readable ps fl d ks (child_ids ts r) \<and> free_space (header_of d) = cl \<and>
    room d = real_room ps (payload_sizes (Inner_node i cl ks ts r))"
proof -
  from assms obtain fl where f: "inner_readable ps fl d ks (child_ids ts r)" "free_space (header_of d) = cl" by auto
  obtain d' fl' r' pls where "M (node_id (Inner_node i cl ks ts r)) = Some d'" "page_of ps (Inner_node i cl ks ts r) d' fl' r' pls"
    by (rule stored_head [OF assms(1)])
  with assms(2) page_ofD(9) [of ps "Inner_node i cl ks ts r" d fl' r' pls] f show ?thesis by auto
qed

text \<open>The tree when a child is split.\<close>

lemma split_child_held:
  assumes T: "held ps M (Inner_node i cl ks ts r)" and j: "j < length ts" and dj: "M (node_id (ts ! j)) = Some dj"
    and hv: "halve ps nid (ts ! j) = (lo, k0, up)" "2 \<le> length (payload_sizes (ts ! j))"
  shows "\<exists>fl rt pls. page_of ps (ts ! j) dj fl rt pls \<and> keyed_payload fl (pls ! (length pls div 2 - 1)) k0 \<and>
    (\<forall>d' s' fli di' ks'. halved ps fl rt pls nid d' s' \<longrightarrow> nid \<noteq> 0 \<longrightarrow> M nid = None \<longrightarrow>
      inner_readable ps fli di' ks' (insert_at (Suc j) nid (child_ids ts r)) \<longrightarrow>
      held ps (M(node_id (ts ! j) \<mapsto> d', nid \<mapsto> s', i \<mapsto> di')) (Inner_node i (free_space (header_of di')) ks' (take j ts @ [lo, up] @ drop (Suc j) ts) r) \<and>
      grows M (Inner_node i cl ks ts r) (M(node_id (ts ! j) \<mapsto> d', nid \<mapsto> s', i \<mapsto> di'))
        (Inner_node i (free_space (header_of di')) ks' (take j ts @ [lo, up] @ drop (Suc j) ts) r))"
proof -
  let ?t = "ts ! j" and ?j = "node_id (ts ! j)"
  have e: "ts = take j ts @ ?t # drop (Suc j) ts" using j by (rule id_take_nth_drop)
  note Te = T [unfolded arg_cong [OF e, of "\<lambda>ts. Inner_node i cl ks ts r"]]
  note H = held_parts [OF Te]
  have ht: "held ps M ?t" using H(1,2) by (simp add: held_def)
  have grown: "held ps (M(?j \<mapsto> d', nid \<mapsto> s', i \<mapsto> di')) (Inner_node i (free_space (header_of di')) ks' (take j ts @ [lo, up] @ drop (Suc j) ts) r) \<and>
      grows M (Inner_node i cl ks ts r) (M(?j \<mapsto> d', nid \<mapsto> s', i \<mapsto> di'))
        (Inner_node i (free_space (header_of di')) ks' (take j ts @ [lo, up] @ drop (Suc j) ts) r)"
    if st: "stored ps (M(?j \<mapsto> d', nid \<mapsto> s')) lo" "stored ps (M(?j \<mapsto> d', nid \<mapsto> s')) up" and n: "M nid = None"
      and ir: "inner_readable ps fli di' ks' (insert_at (Suc j) nid (child_ids ts r))" for d' s' fli di' ks'
  proof -
    let ?M2 = "M(?j \<mapsto> d', nid \<mapsto> s')" and ?M = "M(?j \<mapsto> d', nid \<mapsto> s', i \<mapsto> di')"
    have "nid \<notin> set (node_pages ?t)" using stored_pages [OF H(1)] n by metis
    note HP = halve_pages [OF hv(1) H(2) this]
    have "nid \<noteq> i" using n H(4) by auto
    then have out: "i \<notin> set (node_pages lo @ node_pages up)" unfolding HP(2) using H(3) by simp
    have "stored ps ?M lo" by (rule stored_frame [OF st(1)]) (use out in auto)
    moreover have "stored ps ?M up" by (rule stored_frame [OF st(2)]) (use out in auto)
    ultimately have W: "\<forall>w \<in> set [lo, up]. stored ps ?M w" "distinct (concat (map node_pages [lo, up]))" using HP(1) by simp_all
    have cp: "set (concat (map node_pages [lo, up])) = insert nid (set (node_pages ?t))" using HP(2) by simp
    have g: "replaces M i ?t ?M [lo, up]" unfolding replaces_def cp using n node_id_page [of ?t] by auto
    have ids: "insert_at (Suc j) nid (child_ids ts r) = child_ids (take j ts @ [lo, up] @ drop (Suc j) ts) r"
      using child_ids_split [OF j, of lo up r] halve_ids [OF hv(1)] by simp
    have "?M i = Some di'" by simp
    from replace_held [OF Te W g this ir [unfolded ids] refl] show ?thesis unfolding e [symmetric] by blast
  qed
  from stored_split [OF ht dj hv] obtain fl rt pls where P: "page_of ps ?t dj fl rt pls" "keyed_payload fl (pls ! (length pls div 2 - 1)) k0"
    and fin: "\<forall>d' s' M'. halved ps fl rt pls nid d' s' \<longrightarrow> nid \<noteq> 0 \<longrightarrow> M nid = None \<longrightarrow> M' ?j = Some d' \<longrightarrow> M' nid = Some s' \<longrightarrow>
      (\<forall>x. x \<noteq> ?j \<longrightarrow> M x \<noteq> None \<longrightarrow> M' x = M x) \<longrightarrow> stored ps M' lo \<and> stored ps M' up" by blast
  have both: "stored ps (M(?j \<mapsto> d', nid \<mapsto> s')) lo \<and> stored ps (M(?j \<mapsto> d', nid \<mapsto> s')) up"
    if h: "halved ps fl rt pls nid d' s'" and n: "nid \<noteq> 0" "M nid = None" for d' s'
  proof (rule fin [rule_format, OF h n])
    show "(M(?j \<mapsto> d', nid \<mapsto> s')) ?j = Some d'" using n(2) dj by auto
    show "(M(?j \<mapsto> d', nid \<mapsto> s')) x = M x" if "x \<noteq> ?j" "M x \<noteq> None" for x using that n(2) by auto
  qed simp
  show ?thesis using P grown both by (intro exI [of _ fl] exI [of _ rt] exI [of _ pls] conjI allI impI; blast)
qed

lemma walk_split_done:
  assumes c: "caches ps c p M [pgc, pg]" and T: "held ps M (Inner_node i cl ks ts r)" "tid pg = i"
    and j: "j < length ts" "j \<le> length ks" "tid pgc = node_id (ts ! j)" and bt: "btree_page_size bt = of_nat ps"
    and key: "key_blob key k" "unat k < 2 ^ 31"
    and hv: "halve ps (next_id c) (ts ! j) = (lo, k0, up)" "unat k0 < 2 ^ 31" "2 \<le> length (payload_sizes (ts ! j))"
    and fits: "length (vint_bytes k0) + 6 \<le> unat cl" "length (vint_bytes k0) + 6 \<le> real_room ps (payload_sizes (Inner_node i cl ks ts r))"
    and T': "T' = Inner_node i (cl - of_nat (length (vint_bytes k0) + 6)) (insert_at j k0 ks) (take j ts @ [lo, up] @ drop (Suc j) ts) r"
    and room: "roomy (Suc m) fuel c M" and es: "error_wf es"
  shows "\<exists>pgs q c' M'. walk_split fuel bt p pg (of_nat j) pgc key es = Inr (SUCCESS, Some pgs, q, es) \<and>
    caches ps c' q M' [pgs, pg] \<and> roomy m fuel c' M' \<and> next_id c' = next_id c + 1 \<and> tid pgs = node_id (if k < k0 then lo else up) \<and>
    held ps M' T' \<and> grows M (Inner_node i cl ks ts r) M' T'"
proof -
  let ?t = "ts ! j" and ?j = "node_id (ts ! j)"
  obtain di where di: "M i = Some di" "stored ps M (Inner_node i cl ks ts r)" using T(1) by (auto simp: held_def)
  from stored_inner [OF di(2,1)] obtain fli where I: "inner_readable ps fli di ks (child_ids ts r)" "free_space (header_of di) = cl"
    "room di = real_room ps (payload_sizes (Inner_node i cl ks ts r))" by blast
  have "M ?j \<noteq> None" using stored_pages [OF di(2), of ?j] node_id_page [of ?t] nth_mem [OF j(1)] by auto
  then obtain dj where dj: "M ?j = Some dj" by blast
  from split_child_held [OF T(1) j(1) dj hv(1,3)] obtain fl rt pls where P: "page_of ps ?t dj fl rt pls" "keyed_payload fl (pls ! (length pls div 2 - 1)) k0"
    and fin: "\<forall>d' s' fli di' ks'. halved ps fl rt pls (next_id c) d' s' \<longrightarrow> next_id c \<noteq> 0 \<longrightarrow> M (next_id c) = None \<longrightarrow>
      inner_readable ps fli di' ks' (insert_at (Suc j) (next_id c) (child_ids ts r)) \<longrightarrow>
      held ps (M(?j \<mapsto> d', next_id c \<mapsto> s', i \<mapsto> di')) (Inner_node i (free_space (header_of di')) ks' (take j ts @ [lo, up] @ drop (Suc j) ts) r) \<and>
      grows M (Inner_node i cl ks ts r) (M(?j \<mapsto> d', next_id c \<mapsto> s', i \<mapsto> di'))
        (Inner_node i (free_space (header_of di')) ks' (take j ts @ [lo, up] @ drop (Suc j) ts) r)" by blast
  note PD = page_ofD [OF P(1)]
  have pn: "2 \<le> length pls" using PD(2) hv(3) by simp
  have mem: "pgc \<in> set [pgc, pg]" by simp
  from next_split [OF c mem dj [folded j(3)] PD(1) pn PD(3) P(2) room es] obtain pgs p1 p2 c' sk dj' s' where
    n: "pager_next fuel p es = Inr (SUCCESS, Some pgs, p1, es)" "split_pages p1 pgc pgs (of_nat ps) = Inr (p2, sk)" "key_blob sk k0"
      "caches ps c' p2 (M(?j \<mapsto> dj', tid pgs \<mapsto> s')) [pgs, pgc, pg]" "roomy m fuel c' (M(?j \<mapsto> dj', tid pgs \<mapsto> s'))"
      "M (tid pgs) = None" "tid pgs \<noteq> 0" "halved ps fl rt pls (tid pgs) dj' s'" "tid pgs = next_id c" "next_id c' = next_id c + 1"
    unfolding j(3) by blast
  let ?n = "tid pgs"
  have "?j \<noteq> i" using T(1) nth_mem [OF j(1)] node_id_page [of ?t] by (auto simp: held_def)
  then have ne: "?n \<noteq> i" "?n \<noteq> ?j" "i \<noteq> ?j" using n(6) di(1) dj by auto
  have uj: "unat (of_nat j :: u16) = j"
  proof -
    have "page_rep ps di fli (last (child_ids ts r)) (inner_payloads ks (child_ids ts r))" "length (child_ids ts r) = Suc (length ks)"
      using I(1) by (simp_all add: inner_readable_def)
    then have "length ks < 2 ^ 16" using page_repD(1-3) [of ps di] by fastforce
    then show ?thesis using j(2) by (intro unat_of_nat_u16_lt) simp
  qed
  have "unat k0 < 2 ^ 56" using hv(2) by simp
  from page_insert_inner_claimed [OF I(1) n(3) this _ fits(2) [folded I(3)] fits(1) [folded I(2)], of "of_nat j" ?n] j(2) obtain di' where
    pi: "page_insert_inner di (of_nat ps) (of_nat j) sk ?n = Inr di'" "free_space (header_of di') = cl - of_nat (length (vint_bytes k0) + 6)"
    "inner_readable ps fli di' (insert_at j k0 ks) (insert_at (Suc j) ?n (child_ids ts r))"
    unfolding uj I(2) by blast
  have rd: "page_data p2 pg = Inr di" using caches_read [OF n(4), of pg] di ne T(2) by simp
  let ?M = "M(?j \<mapsto> dj', ?n \<mapsto> s', i \<mapsto> di')"
  have "length di' = ps" using pi(3) page_repD(1) by (auto simp: inner_readable_def)
  from caches_write [OF n(4) _ this, of pg] have wr: "caches ps c' (write_data p2 (tptr pg) di') ?M [pgs, pgc, pg]" by (simp add: T(2))
  let ?drop = "if k < k0 then pgs else pgc" and ?keep = "if k < k0 then pgc else pgs"
  have "remove1 ?drop [pgs, pgc, pg] = [?keep, pg]" "?drop \<in> set [pgs, pgc, pg]" using ne(2) j(3) by auto
  with caches_unfix [OF wr, of ?drop] obtain q where
    u: "pager_unfix (write_data p2 (tptr pg) di') ?drop = Inr q" "caches ps c' q ?M [?keep, pg]" by metis
  from compare_keys [OF key(1) n(3) key(2) hv(2)] obtain x where x: "key_compare (bdata key) (bdata sk) = Inr x" "x < 0 \<longleftrightarrow> k < k0" by blast
  have ws: "walk_split fuel bt p pg (of_nat j) pgc key es = Inr (SUCCESS, Some ?keep, q, es)"
    using n(1,2) rd pi(1) x u(1) bt by (simp add: walk_split_def Let_def split: if_splits)
  have tk: "tid ?keep = node_id (if k < k0 then lo else up)" using halve_ids [OF hv(1)] j(3) n(9) by simp
  have "held ps ?M T' \<and> grows M (Inner_node i cl ks ts r) ?M T'" using fin n(6-9) pi(2,3) T' by (metis (no_types, lifting))
  moreover have "roomy m fuel c' ?M" by (rule roomy_contents [OF n(5)]) (use di in auto)
  ultimately show ?thesis using ws u(2) tk n(10) by blast
qed

lemma walk_split_abort:
  assumes c: "caches ps c p M [pgc, pg]" and T: "held ps M (Inner_node i cl ks ts r)" "tid pg = i"
    and j: "j < length ts" "j \<le> length ks" "tid pgc = node_id (ts ! j)" and bt: "btree_page_size bt = of_nat ps"
    and hv: "halve ps (next_id c) (ts ! j) = (lo, k0, up)"
    and bad: "length (payload_sizes (ts ! j)) < 2 \<or> unat k0 < 2 ^ 31 \<and> unat cl < length (vint_bytes k0) + 6"
    and room: "roomy (Suc m) fuel c M" and es: "error_wf es"
  shows "\<exists>f. walk_split fuel bt p pg (of_nat j) pgc key es = Inl f"
proof -
  let ?t = "ts ! j" and ?j = "node_id (ts ! j)"
  obtain di where di: "M i = Some di" "stored ps M (Inner_node i cl ks ts r)" using T(1) by (auto simp: held_def)
  from stored_inner [OF di(2,1)] obtain fli where I: "inner_readable ps fli di ks (child_ids ts r)" "free_space (header_of di) = cl" by blast
  have "stored ps M ?t" using di(2) nth_mem [OF j(1)] by simp
  then obtain dj fl rt pls where dj: "M ?j = Some dj" and P: "page_of ps ?t dj fl rt pls" by (rule stored_head)
  note PD = page_ofD [OF P]
  show ?thesis
  proof (cases "length (payload_sizes ?t) < 2")
    case True
    then have short: "length pls < 2" using PD(2) by simp
    from caches_next [OF c room es] obtain pgs x p1 c' where
      n: "pager_next fuel p es = Inr (SUCCESS, Some pgs, p1, es)" "caches ps c' p1 (M(tid pgs \<mapsto> x)) [pgs, pgc, pg]"
      "length x = ps" "M (tid pgs) = None" by blast
    have "tid pgc \<noteq> tid pgs" using n(4) dj j(3) by auto
    then have "split_pages p1 pgc pgs (of_nat ps) = Inl Out_of_bounds"
      using dj j(3) by (intro split_pages_stuck [OF n(2) _ _ _ _ n(3) PD(1) short]) simp_all
    then show ?thesis using n(1) bt by (simp add: walk_split_def)
  next
    case False
    then have two: "2 \<le> length (payload_sizes ?t)" and full: "unat k0 < 2 ^ 31" "unat cl < length (vint_bytes k0) + 6" using bad by simp_all
    from split_child_held [OF T(1) j(1) dj hv two] obtain fl rt pls where
      P: "page_of ps ?t dj fl rt pls" "keyed_payload fl (pls ! (length pls div 2 - 1)) k0" by blast
    note PD = page_ofD [OF P(1)]
    have pn: "2 \<le> length pls" using PD(2) two by simp
    have mem: "pgc \<in> set [pgc, pg]" by simp
    from next_split [OF c mem dj [folded j(3)] PD(1) pn PD(3) P(2) room es] obtain pgs p1 p2 c' sk dj' s' where
      n: "pager_next fuel p es = Inr (SUCCESS, Some pgs, p1, es)" "split_pages p1 pgc pgs (of_nat ps) = Inr (p2, sk)" "key_blob sk k0"
        "caches ps c' p2 (M(?j \<mapsto> dj', tid pgs \<mapsto> s')) [pgs, pgc, pg]" "M (tid pgs) = None" unfolding j(3) by blast
    have "?j \<noteq> i" using T(1) nth_mem [OF j(1)] node_id_page [of ?t] by (auto simp: held_def)
    moreover have "tid pgs \<noteq> i" using n(5) di(1) by auto
    ultimately have rd: "page_data p2 pg = Inr di" using caches_read [OF n(4), of pg] di T(2) by simp
    have "unat k0 < 2 ^ 56" using full(1) by simp
    moreover have "unat (of_nat j :: u16) \<le> length ks" by (rule order_trans [OF _ j(2)]) (simp add: unat_of_nat take_bit_eq_mod)
    ultimately have "page_insert_inner di (of_nat ps) (of_nat j) sk (tid pgs) = Inl Assertion_failed"
      using full(2) by (intro page_insert_inner_refused [OF I(1) n(3)]) (simp_all add: I(2))
    then show ?thesis using n(1,2) rd bt by (simp add: walk_split_def Let_def)
  qed
qed

section \<open>One step down\<close>

lemma scope_start:
  assumes c: "caches ps c p M [pg]" and T: "held ps M (Inner_node i cl ks ts r)" "tid pg = i"
    and s: "sound (Suc h) u (Inner_node i cl ks ts r)" and k: "k \<le> u" "k \<notin> fst ` set (node_entries (Inner_node i cl ks ts r))"
    and kv: "key_blob key k" "val_blob val v" "id_ok k" "val_ok v" and jt: "j = key_rank ks k" "t = ts ! j"
  obtains pgc p1 where "tid pgc = node_id t" and "caches ps c p1 M [pgc, pg]"
    and "\<And>bt. walk_scope fuel bt p pg key val es =
      (if need k v t \<le> unat (claim t) then Inr (SUCCESS, Some pgc, p1, es) else walk_split fuel bt p1 pg (of_nat j) pgc key es)"
proof -
  note A = aimed_here [OF s k]
  have j: "j < length ts" "j \<le> length ks" "k \<notin> set ks" using A key_rank_le [of ks k] by (auto simp: jt aimed_def)
  obtain di where di: "M i = Some di" "stored ps M (Inner_node i cl ks ts r)" using T(1) by (auto simp: held_def)
  from stored_inner [OF di(2,1)] obtain fli where I: "inner_readable ps fli di ks (child_ids ts r)" by blast
  have st: "stored ps M t" using di(2) nth_mem [OF j(1)] by (simp add: jt(2))
  then obtain dj fl rt pls where dj: "M (node_id t) = Some dj" "node_id t \<noteq> 0" "page_of ps t dj fl rt pls" by (rule stored_head)
  note PD = page_ofD [OF dj(3)]
  have kk: "unat k < 2 ^ 31" using kv(3) by (simp add: id_ok_def)
  have S: "sorted ks" "\<forall>x \<in> set ks. unat x < 2 ^ 31" using sound_inner(1) [OF s] by (simp_all add: separated_def)
  have f: "page_find_pointer di key = Inr (False, of_nat j)" using inner_find [OF I S kv(1) kk] j(3) by (simp add: jt(1))
  have "child_ids ts r ! j = node_id t" using j(1) by (simp add: child_ids_def nth_append jt(2))
  then have ch: "child_id di (of_nat j) = Inr (node_id t)" using inner_child [OF I j(2)] by simp
  have "node_id t \<noteq> i" using T(1) nth_mem [OF j(1)] node_id_page [of t] by (auto simp: held_def jt(2))
  then have "node_id t \<notin> tid ` set [pg]" using T(2) by simp
  from cache.fix_free [OF c _ this] dj(1) obtain pgc p1 where
    x: "pager_fix fuel p (node_id t) True es = Inr (SUCCESS, Some pgc, p1, es)" "tid pgc = node_id t" "caches ps c p1 M [pgc, pg]" by blast
  have rd: "page_data p pg = Inr di" "page_data p1 pgc = Inr dj"
    using caches_read [OF c _ di(1) [folded T(2)]] caches_read [OF x(3), of pgc] dj(1) x(2) by simp_all
  note ct = claim_test [OF dj(3) kv]
  have hd: "page_get_header dj = Inr (header_of dj)" using PD(4) by simp
  show thesis
    by (rule that [OF x(2,3)]) (use rd f ch dj(2) x(1) hd ct in \<open>simp add: walk_scope_def linorder_not_less [symmetric] cong: if_cong\<close>)
qed

text \<open>A step does what \<open>aim\<close> says.\<close>

lemma scope_done:
  assumes c: "caches ps c p M [pg]" and T: "held ps M t" "tid pg = node_id t"
    and s: "sound (Suc h) u t" and k: "k \<le> u" "k \<notin> fst ` set (node_entries t)"
    and kv: "key_blob key k" "val_blob val v" "id_ok k" "val_ok v" and bt: "btree_page_size bt = of_nat ps"
    and a: "aim ps (next_id c) k v t = Done (n, t', j)" and room: "roomy (n + m) fuel c M" and es: "error_wf es"
  shows "\<exists>pgs q c' M'. walk_scope fuel bt p pg key val es = Inr (SUCCESS, Some pgs, q, es) \<and>
    caches ps c' q M' [pgs, pg] \<and> roomy m fuel c' M' \<and> next_id c' = next_id c + of_nat n \<and> tid pgs = node_id (child t' j) \<and>
    held ps M' t' \<and> grows M t M' t'"
proof -
  obtain i cl ks ts r where t: "t = Inner_node i cl ks ts r" using s by (cases t) auto
  let ?j = "key_rank ks k" and ?t = "ts ! key_rank ks k"
  have kk: "unat k < 2 ^ 31" using kv(3) by (simp add: id_ok_def)
  have i: "tid pg = i" using T(2) t by simp
  have lt: "?j < length ts" "?j \<le> length ks" using aimed_here(2) [OF s [unfolded t] k [unfolded t]] key_rank_le by simp_all
  obtain pgc p1 where st: "tid pgc = node_id ?t" "caches ps c p1 M [pgc, pg]"
    "walk_scope fuel bt p pg key val es =
      (if need k v ?t \<le> unat (claim ?t) then Inr (SUCCESS, Some pgc, p1, es) else walk_split fuel bt p1 pg (of_nat ?j) pgc key es)"
    by (rule scope_start [OF c T(1) [unfolded t] i s [unfolded t] k [unfolded t] kv refl refl, of fuel es]) blast
  show ?thesis
  proof (cases "need k v ?t \<le> unat (claim ?t)")
    case True
    then have d: "n = 0" "t' = t" "j = ?j" using a by (simp_all add: t Let_def)
    have "grows M t M t" by (simp add: grows_def)
    moreover have "walk_scope fuel bt p pg key val es = Inr (SUCCESS, Some pgc, p1, es)" using st(3) True by simp
    ultimately show ?thesis using st(1,2) room T(1) by (intro exI [of _ pgc] exI [of _ p1] exI [of _ c] exI [of _ M]) (simp add: d t)
  next
    case False
    obtain lo k0 up where hv: "halve ps (next_id c) ?t = (lo, k0, up)" by (cases "halve ps (next_id c) ?t") auto
    let ?n = "length (vint_bytes k0) + 6"
    have d: "2 \<le> length (payload_sizes ?t)" "n = 1" "?n \<le> unat cl" "?n \<le> real_room ps (payload_sizes t)"
      "t' = Inner_node i (cl - of_nat ?n) (insert_at ?j k0 ks) (take ?j ts @ [lo, up] @ drop (Suc ?j) ts) r"
      "j = (if k < k0 then ?j else Suc ?j)"
      using a False hv by (auto simp: t Let_def claims_def split: if_splits)
    have "unat k0 < 2 ^ 31"
      using halve_sound [OF sound_inner(4) [OF s [unfolded t] lt(1)] d(1) hv] by (simp add: halves_ok_def)
    moreover have rm: "roomy (Suc m) fuel c M" using room by (simp add: d(2))
    ultimately obtain pgs q c' M' where w: "walk_split fuel bt p1 pg (of_nat ?j) pgc key es = Inr (SUCCESS, Some pgs, q, es)"
      "caches ps c' q M' [pgs, pg]" "roomy m fuel c' M'" "next_id c' = next_id c + 1" "tid pgs = node_id (if k < k0 then lo else up)"
      "held ps M' t'" "grows M t M' t'"
      using walk_split_done [OF st(2) T(1) [unfolded t] i lt st(1) bt kv(1) kk hv _ d(1,3) d(4) [unfolded t] d(5) _ es] unfolding t by blast
    have "child t' j = (if k < k0 then lo else up)" using lt(1) by (simp add: d(5,6) nth_append)
    moreover have "walk_scope fuel bt p pg key val es = Inr (SUCCESS, Some pgs, q, es)" using st(3) False w(1) by simp
    ultimately show ?thesis using w(2-7) by (intro exI [of _ pgs] exI [of _ q] exI [of _ c'] exI [of _ M']) (simp add: d(2))
  qed
qed

lemma scope_abort:
  assumes c: "caches ps c p M [pg]" and T: "held ps M t" "tid pg = node_id t"
    and s: "sound (Suc h) u t" and k: "k \<le> u" "k \<notin> fst ` set (node_entries t)"
    and kv: "key_blob key k" "val_blob val v" "id_ok k" "val_ok v" and bt: "btree_page_size bt = of_nat ps"
    and a: "aim ps (next_id c) k v t = Abort" and room: "roomy (Suc m) fuel c M" and es: "error_wf es"
  shows "\<exists>f. walk_scope fuel bt p pg key val es = Inl f"
proof -
  obtain i cl ks ts r where t: "t = Inner_node i cl ks ts r" using s by (cases t) auto
  let ?j = "key_rank ks k" and ?t = "ts ! key_rank ks k"
  have i: "tid pg = i" using T(2) t by simp
  have lt: "?j < length ts" "?j \<le> length ks" using aimed_here(2) [OF s [unfolded t] k [unfolded t]] key_rank_le by simp_all
  obtain pgc p1 where st: "tid pgc = node_id ?t" "caches ps c p1 M [pgc, pg]"
    "walk_scope fuel bt p pg key val es =
      (if need k v ?t \<le> unat (claim ?t) then Inr (SUCCESS, Some pgc, p1, es) else walk_split fuel bt p1 pg (of_nat ?j) pgc key es)"
    by (rule scope_start [OF c T(1) [unfolded t] i s [unfolded t] k [unfolded t] kv refl refl, of fuel es]) blast
  obtain lo k0 up where hv: "halve ps (next_id c) ?t = (lo, k0, up)" by (cases "halve ps (next_id c) ?t") auto
  have full: "\<not> need k v ?t \<le> unat (claim ?t)" using a by (auto simp: t Let_def)
  have bad: "length (payload_sizes ?t) < 2 \<or> unat k0 < 2 ^ 31 \<and> unat cl < length (vint_bytes k0) + 6"
  proof (cases "length (payload_sizes ?t) < 2")
    case False
    then have "unat k0 < 2 ^ 31"
      using halve_sound [OF sound_inner(4) [OF s [unfolded t] lt(1)] _ hv] by (simp add: halves_ok_def)
    moreover have "unat cl < length (vint_bytes k0) + 6" using a full False hv by (auto simp: t Let_def claims_def split: if_splits)
    ultimately show ?thesis by blast
  qed simp
  from walk_split_abort [OF st(2) T(1) [unfolded t] i lt st(1) bt hv bad room es] show ?thesis using st(3) full by simp
qed

section \<open>The leaf\<close>

lemma leaf_put_done:
  assumes c: "caches ps c p M [pg]" and T: "stored ps M (Leaf_node i cl al)" "tid pg = i" and new: "k \<notin> fst ` set al"
    and kv: "key_blob key k" "val_blob val v" "id_ok k" "val_ok v"
    and fits: "length (leaf_entry (k, v)) + 2 \<le> unat cl" "length (leaf_entry (k, v)) + 2 \<le> real_room ps (payload_sizes (Leaf_node i cl al))"
  shows "\<exists>q d'. insert_into_leaf site mt p pg (of_nat ps) key val es = Inr (SUCCESS, q, es) \<and>
    caches ps c q (M(i \<mapsto> d')) [] \<and> stored ps (M(i \<mapsto> d')) (Leaf_node i (cl - of_nat (length (leaf_entry (k, v)) + 2)) (leaf_insert k v al)) \<and>
    pager_unfix q pg = Inl Assertion_failed"
proof -
  obtain d fl r pls where "M (node_id (Leaf_node i cl al)) = Some d" "page_of ps (Leaf_node i cl al) d fl r pls" by (rule stored_head [OF T(1)])
  then have d: "M i = Some d" "room d = real_room ps (payload_sizes (Leaf_node i cl al))"
    using page_ofD(9) [of ps "Leaf_node i cl al" d fl r pls] by simp_all
  from T(1) d(1) obtain fl r where l: "i \<noteq> 0" "leaf_readable ps fl r d al" "free_space (header_of d) = cl" by auto
  have k: "unat k < 2 ^ 31" "length v + 16 < 2 ^ 16" using kv(3,4) by (simp_all add: id_ok_def val_ok_def)
  from leaf_readable_insert(1) [OF l(2) kv(1,2) k new fits(2) [folded d(2)] fits(1) [folded l(3)], of es] obtain d' where
    p: "page_insert_leaf d (of_nat ps) key val es = Inr (SUCCESS, d', es)" "leaf_readable ps fl r d' (leaf_insert k v al)"
    "free_space (header_of d') = cl - of_nat (length (leaf_entry (k, v)) + 2)" unfolding l(3) by blast
  have s: "stored ps (M(i \<mapsto> d')) (Leaf_node i (cl - of_nat (length (leaf_entry (k, v)) + 2)) (leaf_insert k v al))"
    using l(1) p(2,3) by auto
  have "length d' = ps" using p(2) page_repD(1) by (auto simp: leaf_readable_def)
  from insert_into_leaf_written [OF c d(1) [folded T(2)] this p(1)] s T(2) show ?thesis by blast
qed

lemma leaf_put_abort:
  assumes c: "caches ps c p M [pg]" and T: "stored ps M (Leaf_node i cl al)" "tid pg = i" and new: "k \<notin> fst ` set al"
    and kv: "key_blob key k" "val_blob val v" "id_ok k" "val_ok v" and full: "unat cl < length (leaf_entry (k, v)) + 2"
  shows "insert_into_leaf site mt p pg (of_nat ps) key val es = Inl Assertion_failed"
proof -
  from T(1) obtain d fl r where l: "M i = Some d" "leaf_readable ps fl r d al" "free_space (header_of d) = cl" by auto
  have k: "unat k < 2 ^ 31" "length v + 16 < 2 ^ 16" using kv(3,4) by (simp_all add: id_ok_def val_ok_def)
  note leaf_readable_insert(2) [OF l(2) kv(1,2) k new full [folded l(3)]]
  moreover have "page_data p pg = Inr d" using caches_read [OF c _ l(1) [folded T(2)]] by simp
  ultimately show ?thesis by (simp add: insert_into_leaf_def)
qed

section \<open>The descent\<close>


lemma aimed_child:
  assumes "aimed h u k t j" and "held ps M t"
  obtains i cl ks ts r where "t = Inner_node i cl ks ts r" and "j < length ts" and "child t j = ts ! j" and "held ps M (child t j)"
proof -
  from assms(1) obtain i cl ks ts r where t: "t = Inner_node i cl ks ts r" "j < length ts" by (auto simp: aimed_def)
  with held_child [OF assms(2) [unfolded t(1)] t(2)] show thesis by (intro that) simp_all
qed

text \<open>A round of \<^verbatim>\<open>btree_insert_walk\<close> up to the point where the page above is given back.\<close>

lemma round_done:
  assumes c: "caches ps c p M [pg]" and T: "held ps M t" "tid pg = node_id t"
    and s: "sound (Suc h) u t" and k: "k \<le> u" "k \<notin> fst ` set (node_entries t)"
    and kv: "key_blob key k" "val_blob val v" "id_ok k" "val_ok v" and bt: "btree_page_size bt = of_nat ps"
    and a: "need k v t \<le> unat (claim t)" "aim ps (next_id c) k v t = Done (n, t', j)" and room: "roomy (n + m) fuel c M" and es: "error_wf es"
  shows "\<exists>pgs q c' M'. caches ps c' q M' [pgs] \<and> roomy m fuel c' M' \<and> next_id c' = next_id c + of_nat n \<and> tid pgs = node_id (child t' j) \<and>
    held ps M' t' \<and> grows M t M' t' \<and>
    btree_insert_walk (Suc dp) fuel bt p pg key val es =
      (if is_leaf (child t' j) then
         insert_into_leaf (''src/btree.c'', ''btree_insert_walk'', 383)
           ''try page_insert_leaf(page.data, btree->page_size, key, value)'' q pgs (of_nat ps) key val es
       else obind (btree_insert_walk dp fuel bt q pgs key val es) (\<lambda>(r, p, es).
         if r \<noteq> SUCCESS then
           obind (try_fail (''src/btree.c'', ''btree_insert_walk'', 385)
             ''try btree_insert_walk(btree, page, key, value)'' es) (\<lambda>(r, es). Inr (r, p, es))
         else Inr (SUCCESS, p, es)))"
proof -
  from scope_done [OF c T s k kv bt a(2) room es] obtain pgs q1 c' M' where
    w: "walk_scope fuel bt p pg key val es = Inr (SUCCESS, Some pgs, q1, es)" "caches ps c' q1 M' [pgs, pg]" "roomy m fuel c' M'"
    "next_id c' = next_id c + of_nat n" "tid pgs = node_id (child t' j)" "held ps M' t'" "grows M t M' t'" by blast
  obtain i cl ks ts r where t: "t = Inner_node i cl ks ts r" using s by (cases t) auto
  from aim_sound [OF s [unfolded t] k [unfolded t] a(2) [unfolded t]] have A: "aimed h u k t' j" by simp
  obtain i' cl' ks' ts' r' where C: "t' = Inner_node i' cl' ks' ts' r'" "j < length ts'" "child t' j = ts' ! j" "held ps M' (child t' j)"
    by (rule aimed_child [OF A w(6)])
  have "i' = i" using a(2) by (auto simp: t C(1) Let_def claims_def split: if_splits prod.splits)
  then have "node_id (child t' j) \<noteq> i"
    using w(6) nth_mem [OF C(2)] node_id_page [of "ts' ! j"] unfolding C(3) by (auto simp: held_def C(1))
  then have "pg \<noteq> pgs" using w(5) T(2) by (auto simp: t)
  with caches_unfix [OF w(2), of pg] obtain q where u: "pager_unfix q1 pg = Inr q" "caches ps c' q M' [pgs]"
    by (auto simp: remove1_second)
  have "stored ps M t" "stored ps M' (child t' j)" using T(1) C(4) by (simp_all add: held_def)
  then obtain d fl rt pls ds fls rts plss where
    d: "M (node_id t) = Some d" "page_of ps t d fl rt pls" "M' (node_id (child t' j)) = Some ds" "page_of ps (child t' j) ds fls rts plss"
    by (metis stored_head)
  have rd: "page_data p pg = Inr d" "page_data q pgs = Inr ds"
    using caches_read [OF c _ d(1) [folded T(2)]] caches_read [OF u(2) _ d(3) [folded w(5)]] by simp_all
  note P = page_ofD(4,5,8) [OF d(2)] and C = page_ofD(4,5,7) [OF d(4)] and ct = claim_test [OF d(2) kv]
  have "\<not> is_leaf t" by (simp add: t)
  then have "btree_insert_walk (Suc dp) fuel bt p pg key val es =
      (if is_leaf (child t' j) then
         insert_into_leaf (''src/btree.c'', ''btree_insert_walk'', 383)
           ''try page_insert_leaf(page.data, btree->page_size, key, value)'' q pgs (of_nat ps) key val es
       else obind (btree_insert_walk dp fuel bt q pgs key val es) (\<lambda>(r, p, es).
         if r \<noteq> SUCCESS then
           obind (try_fail (''src/btree.c'', ''btree_insert_walk'', 385)
             ''try btree_insert_walk(btree, page, key, value)'' es) (\<lambda>(r, es). Inr (r, p, es))
         else Inr (SUCCESS, p, es)))"
    using rd P C ct a(1) w(1) u(1) bt by (simp add: btree_insert_walk.simps linorder_not_less [symmetric] cong: if_cong)
  with u(2) w(3-7) show ?thesis by blast
qed

lemma round_abort:
  assumes c: "caches ps c p M [pg]" and T: "held ps M t" "tid pg = node_id t"
    and s: "sound (Suc h) u t" and k: "k \<le> u" "k \<notin> fst ` set (node_entries t)"
    and kv: "key_blob key k" "val_blob val v" "id_ok k" "val_ok v" and bt: "btree_page_size bt = of_nat ps"
    and a: "unat (claim t) < need k v t \<or> aim ps (next_id c) k v t = Abort" and room: "roomy (Suc m) fuel c M" and es: "error_wf es"
  shows "\<exists>f. btree_insert_walk (Suc dp) fuel bt p pg key val es = Inl f"
proof -
  have "stored ps M t" using T(1) by (simp add: held_def)
  then obtain d fl rt pls where d: "M (node_id t) = Some d" "page_of ps t d fl rt pls" by (rule stored_head)
  have rd: "page_data p pg = Inr d" using caches_read [OF c _ d(1) [folded T(2)]] by simp
  note P = page_ofD(4,5,8) [OF d(2)] and ct = claim_test [OF d(2) kv]
  have nl: "\<not> is_leaf t" using s by (cases t) auto
  show ?thesis
  proof (cases "unat (claim t) < need k v t")
    case True
    then have "\<not> payload_put_len (flags (header_of d)) key val \<le> free_space (header_of d)" using ct by simp
    with rd P nl show ?thesis by (simp add: btree_insert_walk.simps c_assert_def cong: if_cong)
  next
    case False
    then have ok: "payload_put_len (flags (header_of d)) key val \<le> free_space (header_of d)" using ct by simp
    from scope_abort [OF c T s k kv bt _ room es] a False obtain f where "walk_scope fuel bt p pg key val es = Inl f" by blast
    with rd P nl ok show ?thesis by (simp add: btree_insert_walk.simps cong: if_cong)
  qed
qed

text \<open>
  The insertion below a page that is fixed: \<^verbatim>\<open>page_insert_leaf\<close> if it is a leaf, and
  \<^verbatim>\<open>btree_insert_walk\<close> otherwise.
\<close>

definition insert_at_page ::
  "nat \<Rightarrow> nat \<Rightarrow> btree_t \<Rightarrow> site \<Rightarrow> string \<Rightarrow> node \<Rightarrow> pager_t \<Rightarrow> page_t \<Rightarrow> blob_t \<Rightarrow> blob_t \<Rightarrow> error_state \<Rightarrow>
   (result \<times> pager_t \<times> error_state) outcome" where
  "insert_at_page depth fuel bt site mt t p pg key val es =
     (if is_leaf t then insert_into_leaf site mt p pg (btree_page_size bt) key val es else btree_insert_walk depth fuel bt p pg key val es)"

text \<open>What it leaves behind if the tree becomes \<open>t'\<close> with \<open>n\<close> new pages.\<close>

definition inserted ::
  "nat \<Rightarrow> nat \<Rightarrow> nat \<Rightarrow> u32 \<times> u32 \<times> mallocs \<times> bool list \<Rightarrow> (u32 \<Rightarrow> byte list option) \<Rightarrow> node \<Rightarrow> nat \<Rightarrow> node \<Rightarrow> pager_t \<Rightarrow> bool" where
  "inserted ps m fuel c M t n t' q \<longleftrightarrow> (\<exists>c' M'. caches ps c' q M' [] \<and> roomy m fuel c' M' \<and> next_id c' = next_id c + of_nat n \<and>
     held ps M' t' \<and> grows M t M' t')"

lemma put_leaf_done:
  assumes c: "caches ps c p M [pg]" and T: "held ps M t" "tid pg = node_id t"
    and k: "k \<notin> fst ` set (node_entries t)" and t: "t = Leaf_node i cl al"
    and kv: "key_blob key k" "val_blob val v" "id_ok k" "val_ok v" and bt: "btree_page_size bt = of_nat ps"
    and a: "put h ps nid k v t = Done (n, t')" and room: "roomy (n + m) fuel c M"
  shows "\<exists>q. insert_at_page depth fuel bt site mt t p pg key val es = Inr (SUCCESS, q, es) \<and> inserted ps m fuel c M t n t' q \<and> node_id t' = node_id t"
proof -
  let ?n = "length (leaf_entry (k, v)) + 2"
  have d: "?n \<le> unat cl" "?n \<le> real_room ps (payload_sizes (Leaf_node i cl al))" "n = 0" "t' = Leaf_node i (cl - of_nat ?n) (leaf_insert k v al)"
    using a by (auto simp: t Let_def claims_def split: if_splits)
  have T': "stored ps M (Leaf_node i cl al)" "tid pg = i" "k \<notin> fst ` set al" using T k by (simp_all add: held_def t)
  from leaf_put_done [OF c T' kv d(1,2)] obtain q d' where
    w: "insert_into_leaf site mt p pg (of_nat ps) key val es = Inr (SUCCESS, q, es)" "caches ps c q (M(i \<mapsto> d')) []" "stored ps (M(i \<mapsto> d')) t'"
    unfolding d(4) by blast
  have "held ps (M(i \<mapsto> d')) t'" using w(3) by (simp add: held_def d(4))
  moreover have "grows M t (M(i \<mapsto> d')) t'" by (auto simp: grows_def t d(4))
  moreover have "roomy m fuel c (M(i \<mapsto> d'))" by (rule roomy_contents) (use room T'(1) d(3) in auto)
  ultimately have "inserted ps m fuel c M t n t' q"
    using w(2) unfolding inserted_def by (intro exI [of _ c] exI [of _ "M(i \<mapsto> d')"]) (simp add: d(3))
  then show ?thesis using w(1) bt by (simp add: insert_at_page_def t d(4))
qed

lemma put_done:
  assumes "caches ps c p M [pg]" and "held ps M t" "tid pg = node_id t"
    and "sound h u t" and "k \<le> u" "k \<notin> fst ` set (node_entries t)"
    and kv: "key_blob key k" "val_blob val v" "id_ok k" "val_ok v" and bt: "btree_page_size bt = of_nat ps"
    and "put h ps (next_id c) k v t = Done (n, t')" and "roomy (n + m) fuel c M" and es: "error_wf es" and "h \<le> depth"
  shows "\<exists>q. insert_at_page depth fuel bt site mt t p pg key val es = Inr (SUCCESS, q, es) \<and> inserted ps m fuel c M t n t' q \<and> node_id t' = node_id t"
  using assms(1-6,12,13,15)
proof (induction h arbitrary: c p M pg t u n t' depth site mt)
  case 0
  then obtain i cl al where t: "t = Leaf_node i cl al" by (cases t) auto
  show ?case by (rule put_leaf_done [OF 0(1-3,6) t kv bt 0(7,8)])
next
  case (Suc h)
  then obtain i cl ks ts r where t: "t = Inner_node i cl ks ts r" by (cases t) auto
  from Suc.prems(9) obtain dp where dp: "depth = Suc dp" "h \<le> dp" by (cases depth) auto
  from Suc.prems(7) obtain a t1 j b w where
    s: "need k v t \<le> unat (claim t)" "aim ps (next_id c) k v t = Done (a, t1, j)" "put h ps (next_id c + of_nat a) k v (child t1 j) = Done (b, w)"
      "n = a + b" "t' = plug t1 j w"
    by (auto simp: t fate_bind_Done simp del: aim.simps split: if_splits)
  have rm: "roomy (a + (b + m)) fuel c M" using Suc.prems(8) by (simp add: s(4) add.assoc)
  from round_done [OF Suc.prems(1-6) kv bt s(1,2) rm es, of dp] obtain pgs q1 c1 M1 where
    w: "caches ps c1 q1 M1 [pgs]" "roomy (b + m) fuel c1 M1" "next_id c1 = next_id c + of_nat a" "tid pgs = node_id (child t1 j)"
    "held ps M1 t1" "grows M t M1 t1"
    and run: "btree_insert_walk (Suc dp) fuel bt p pg key val es =
      (if is_leaf (child t1 j) then
         insert_into_leaf (''src/btree.c'', ''btree_insert_walk'', 383)
           ''try page_insert_leaf(page.data, btree->page_size, key, value)'' q1 pgs (of_nat ps) key val es
       else obind (btree_insert_walk dp fuel bt q1 pgs key val es) (\<lambda>(r, p, es).
         if r \<noteq> SUCCESS then
           obind (try_fail (''src/btree.c'', ''btree_insert_walk'', 385)
             ''try btree_insert_walk(btree, page, key, value)'' es) (\<lambda>(r, es). Inr (r, p, es))
         else Inr (SUCCESS, p, es)))" by blast
  from aim_sound [OF Suc.prems(4) [unfolded t] Suc.prems(5) Suc.prems(6) [unfolded t] s(2) [unfolded t]] have
    A: "aimed h u k t1 j" by simp
  obtain i' cl' ks' ts' r' where C: "t1 = Inner_node i' cl' ks' ts' r'" "j < length ts'" "child t1 j = ts' ! j" "held ps M1 (child t1 j)"
    by (rule aimed_child [OF A w(5)])
  from A obtain b' where S: "sound h b' (child t1 j)" "k \<le> b'" "k \<notin> fst ` set (node_entries (child t1 j))"
    by (auto simp: aimed_def simp del: sound.simps)
  from Suc.IH [OF w(1) C(4) w(4) S s(3) [folded w(3)] w(2) dp(2)] obtain q where
    i: "insert_at_page dp fuel bt (''src/btree.c'', ''btree_insert_walk'', 383)
           ''try page_insert_leaf(page.data, btree->page_size, key, value)'' (child t1 j) q1 pgs key val es = Inr (SUCCESS, q, es)"
    "inserted ps m fuel c1 M1 (child t1 j) b w q" "node_id w = node_id (child t1 j)" by blast
  from i(2) obtain c2 M2 where g: "caches ps c2 q M2 []" "roomy m fuel c2 M2" "next_id c2 = next_id c1 + of_nat b" "held ps M2 w"
    "grows M1 (child t1 j) M2 w" by (auto simp: inserted_def)
  note pl = plug_held [OF w(5) [unfolded C(1)] C(2) g(4) g(5) [unfolded C(3)] i(3) [unfolded C(3)], folded C(1), folded s(5)]
  have "inserted ps m fuel c M t n t' q" unfolding inserted_def
    using g(1,2) pl(1) grows_trans [OF w(6) pl(2)] g(3) w(3)
    by (intro exI [of _ c2] exI [of _ M2]) (simp add: s(4) add.assoc)
  moreover have "insert_at_page depth fuel bt site mt t p pg key val es = Inr (SUCCESS, q, es)"
    using run i(1) bt unfolding insert_at_page_def dp(1) by (simp add: t split: if_splits)
  moreover have "node_id t' = node_id t" using s(2) by (auto simp: s(5) t Let_def claims_def split: if_splits prod.splits)
  ultimately show ?case by blast
qed

lemma put_abort:
  assumes "caches ps c p M [pg]" and "held ps M t" "tid pg = node_id t"
    and "sound h u t" and "k \<le> u" "k \<notin> fst ` set (node_entries t)"
    and kv: "key_blob key k" "val_blob val v" "id_ok k" "val_ok v" and bt: "btree_page_size bt = of_nat ps"
    and "put h ps (next_id c) k v t = Abort" and "roomy h fuel c M" and es: "error_wf es" and "h \<le> depth"
  shows "\<exists>f. insert_at_page depth fuel bt site mt t p pg key val es = Inl f"
  using assms(1-6,12,13,15)
proof (induction h arbitrary: c p M pg t u depth site mt)
  case 0
  then obtain i cl al where t: "t = Leaf_node i cl al" by (cases t) auto
  have T: "stored ps M (Leaf_node i cl al)" "tid pg = i" "k \<notin> fst ` set al" using 0 by (simp_all add: held_def t)
  have "unat cl < length (leaf_entry (k, v)) + 2" using 0(7) by (auto simp: t Let_def claims_def split: if_splits)
  from leaf_put_abort [OF 0(1) T kv this] bt show ?case by (simp add: insert_at_page_def t)
next
  case (Suc h)
  then obtain i cl ks ts r where t: "t = Inner_node i cl ks ts r" by (cases t) auto
  from Suc.prems(9) obtain dp where dp: "depth = Suc dp" "h \<le> dp" by (cases depth) auto
  show ?case
  proof (cases "unat (claim t) < need k v t \<or> aim ps (next_id c) k v t = Abort")
    case True
    from round_abort [OF Suc.prems(1-6) kv bt True Suc.prems(8) es] show ?thesis by (simp add: insert_at_page_def t dp(1))
  next
    case False
    with Suc.prems(7) obtain a t1 j where
      s: "need k v t \<le> unat (claim t)" "aim ps (next_id c) k v t = Done (a, t1, j)" "put h ps (next_id c + of_nat a) k v (child t1 j) = Abort"
      by (auto simp: t fate_bind_Abort simp del: aim.simps split: if_splits)
    from aim_sound [OF Suc.prems(4) [unfolded t] Suc.prems(5) Suc.prems(6) [unfolded t] s(2) [unfolded t]] have
      A: "aimed h u k t1 j" "a \<le> 1" by simp_all
    have "roomy (a + h) fuel c M" by (rule roomy_mono [OF Suc.prems(8)]) (use A(2) in simp)
    from round_done [OF Suc.prems(1-6) kv bt s(1,2) this es, of dp] obtain pgs q1 c1 M1 where
      w: "caches ps c1 q1 M1 [pgs]" "roomy h fuel c1 M1" "next_id c1 = next_id c + of_nat a" "tid pgs = node_id (child t1 j)" "held ps M1 t1"
      and run: "btree_insert_walk (Suc dp) fuel bt p pg key val es =
        (if is_leaf (child t1 j) then
           insert_into_leaf (''src/btree.c'', ''btree_insert_walk'', 383)
             ''try page_insert_leaf(page.data, btree->page_size, key, value)'' q1 pgs (of_nat ps) key val es
         else obind (btree_insert_walk dp fuel bt q1 pgs key val es) (\<lambda>(r, p, es).
           if r \<noteq> SUCCESS then
             obind (try_fail (''src/btree.c'', ''btree_insert_walk'', 385)
               ''try btree_insert_walk(btree, page, key, value)'' es) (\<lambda>(r, es). Inr (r, p, es))
           else Inr (SUCCESS, p, es)))" by blast
    obtain i' cl' ks' ts' r' where C: "t1 = Inner_node i' cl' ks' ts' r'" "j < length ts'" "child t1 j = ts' ! j" "held ps M1 (child t1 j)"
      by (rule aimed_child [OF A(1) w(5)])
    from A(1) obtain b' where S: "sound h b' (child t1 j)" "k \<le> b'" "k \<notin> fst ` set (node_entries (child t1 j))"
      by (auto simp: aimed_def simp del: sound.simps)
    from Suc.IH [OF w(1) C(4) w(4) S s(3) [folded w(3)] w(2) dp(2)] obtain f where
      "insert_at_page dp fuel bt (''src/btree.c'', ''btree_insert_walk'', 383)
        ''try page_insert_leaf(page.data, btree->page_size, key, value)'' (child t1 j) q1 pgs key val es = Inl f" by blast
    then show ?thesis using run bt unfolding insert_at_page_def dp(1) by (simp add: t split: if_splits)
  qed
qed

end
