(* ===== verification/BtreePutRoot.thy ===== *)
theory BtreePutRoot
  imports BtreePut
begin

text \<open>
  \<^verbatim>\<open>btree_insert\<close> and \<^verbatim>\<open>btree_table_insert\<close> on the pages of a tree of the theory ClaimTree: with
  the split of the root they do what \<open>put_root\<close> and \<open>put_all\<close> say.
\<close>

section \<open>The split of the root\<close>

lemma nth_take_drop_sizes:
  assumes "0 < s" and "s < length (ns :: nat list)"
  shows "ns ! (s - 1) + ns ! s \<le> sum_list ns"
proof -
  have "take s ns ! (s - 1) = ns ! (s - 1)" "drop s ns ! 0 = ns ! s" using assms by simp_all
  then have "ns ! (s - 1) \<in> set (take s ns)" "ns ! s \<in> set (drop s ns)"
    using assms nth_mem [of "s - 1" "take s ns"] nth_mem [of 0 "drop s ns"] by simp_all
  then have "ns ! (s - 1) \<le> sum_list (take s ns)" "ns ! s \<le> sum_list (drop s ns)" by (auto intro: member_le_sum_list)
  moreover have "sum_list ns = sum_list (take s ns) + sum_list (drop s ns)" by (metis append_take_drop_id sum_list_append)
  ultimately show ?thesis by simp
qed

text \<open>A page with two payloads is large enough for a root with one key.\<close>

lemma split_key_size:
  assumes hv: "halve ps nid t = (lo, k0, up)" and n: "2 \<le> length (payload_sizes t)"
  shows "length (vint_bytes k0) + 3 \<le> sum_list (payload_sizes t)"
proof -
  let ?ns = "payload_sizes t" and ?s = "length (payload_sizes t) div 2"
  have s: "0 < ?s" "?s < length ?ns" using n by simp_all
  have p: "1 \<le> length (vint_bytes x)" for x by (simp add: Suc_le_eq)
  have e: "length (vint_bytes (fst e)) + 1 \<le> length (leaf_entry e)" for e
    using p [of "of_nat (length (snd e))"] by (simp add: leaf_entry_def)
  have "2 \<le> length (leaf_entry e)" for e using e [of e] p [of "fst e"] by linarith
  then have "\<forall>x \<in> set ?ns. 2 \<le> x" by (cases t) auto
  then have "2 \<le> ?ns ! ?s" using nth_mem [OF s(2)] by blast
  moreover have "length (vint_bytes k0) + 1 \<le> ?ns ! (?s - 1)"
  proof (cases t)
    case (Leaf_node i c al)
    then show ?thesis using hv n e [of "al ! (length al div 2 - 1)"] by (auto simp: Let_def)
  next
    case (Inner_node i c ks ts r)
    then show ?thesis using hv n by (auto simp: Let_def)
  qed
  ultimately have "length (vint_bytes k0) + 3 \<le> ?ns ! (?s - 1) + ?ns ! ?s" by linarith
  with nth_take_drop_sizes [OF s] show ?thesis by linarith
qed

lemma root_room:
  assumes P: "page_of ps t d fl r pls" and hv: "halve ps nid t = (lo, k0, up)" "2 \<le> length (payload_sizes t)"
  shows "18 + length (vint_bytes k0) \<le> ps" and "ps < 2 ^ 16"
proof -
  note D = page_repD [OF page_ofD(1) [OF P]]
  have "total pls = sum_list (payload_sizes t)" using P by (simp add: total_def page_of_def)
  then show "18 + length (vint_bytes k0) \<le> ps" using D(8,9) split_key_size [OF hv] hv(2) page_ofD(2) [OF P] by simp
  show "ps < 2 ^ 16" by (rule D(2))
qed

lemma new_root_held:
  assumes T: "held ps M t" and hv: "halve ps nid t = (lo, k0, up)" and st: "stored ps M1 lo" "stored ps M1 up"
    and M1: "M1 = M(node_id t \<mapsto> d', nid \<mapsto> s')" and n: "M nid = None" "M1 rt = None" "rt \<noteq> 0"
    and ip: "inner_page ps fl dr [k0] [node_id t, nid]"
  shows "held ps (M1(rt \<mapsto> dr)) (new_root_node ps rt lo k0 up)"
    and "grows M t (M1(rt \<mapsto> dr)) (new_root_node ps rt lo k0 up)"
proof -
  have sd: "stored ps M t" "distinct (node_pages t)" using T by (simp_all add: held_def)
  have "nid \<notin> set (node_pages t)" using stored_pages [OF sd(1)] n(1) by metis
  note HP = halve_pages [OF hv sd(2) this] and HI = halve_ids [OF hv]
  have out: "rt \<notin> set (node_pages lo @ node_pages up)" using stored_pages [OF st(1), of rt] stored_pages [OF st(2), of rt] n(2) by auto
  have "stored ps (M1(rt \<mapsto> dr)) lo" by (rule stored_frame [OF st(1)]) (use out in auto)
  moreover have "stored ps (M1(rt \<mapsto> dr)) up" by (rule stored_frame [OF st(2)]) (use out in auto)
  moreover have "free_space (header_of dr) = of_nat (ps - 12 - (length (vint_bytes k0) + 6))"
  proof -
    have rep: "page_rep ps dr fl nid (inner_payloads [k0] [node_id t, nid])" using ip by (simp add: inner_page_def)
    have "room dr = ps - 12 - (length (vint_bytes k0) + 6)"
      using rep_sizes [OF rep] by (simp add: inner_payloads_def real_room_def)
    then have "unat (free_space (header_of dr)) = ps - 12 - (length (vint_bytes k0) + 6)" using ip by (simp add: inner_page_def free_exact_def)
    then show ?thesis by (metis of_nat_unat ucast_id)
  qed
  moreover have "child_ids [lo, up] None = [node_id t, nid]" using HI by (simp add: child_ids_def)
  ultimately have "stored ps (M1(rt \<mapsto> dr)) (new_root_node ps rt lo k0 up)"
    using n(3) inner_page_readable [OF ip] by (auto simp: new_root_node_def)
  moreover have "distinct (node_pages (new_root_node ps rt lo k0 up))" using HP(1) out by (simp add: new_root_node_def)
  ultimately show "held ps (M1(rt \<mapsto> dr)) (new_root_node ps rt lo k0 up)" by (simp add: held_def)
  have pg: "set (node_pages (new_root_node ps rt lo k0 up)) = insert rt (insert nid (set (node_pages t)))"
    using HP(2) by (simp add: new_root_node_def)
  have "M rt = None" using n(2) by (auto simp: M1 split: if_splits)
  then show "grows M t (M1(rt \<mapsto> dr)) (new_root_node ps rt lo k0 up)"
    unfolding grows_def pg using n(1) node_id_page [of t] by (auto simp: M1)
qed

lemma split_root_done:
  assumes c: "caches ps c p M [pg]" and T: "held ps M t" "tid pg = node_id t" and bt: "btree_page_size bt = of_nat ps"
    and key: "key_blob key k" "unat k < 2 ^ 31"
    and hv: "halve ps (next_id c) t = (lo, k0, up)" "2 \<le> length (payload_sizes t)" "unat k0 < 2 ^ 31"
    and room: "roomy (Suc (Suc m)) fuel c M" and es: "error_wf es"
  shows "\<exists>pgs q c' M'. split_root fuel bt p pg key es = Inr (SUCCESS, pgs, bt\<lparr>root := next_id c + 1\<rparr>, q, es) \<and>
    caches ps c' q M' [pgs] \<and> roomy m fuel c' M' \<and> next_id c' = next_id c + 2 \<and> tid pgs = node_id (if k < k0 then lo else up) \<and>
    held ps M' (new_root_node ps (next_id c + 1) lo k0 up) \<and> grows M t M' (new_root_node ps (next_id c + 1) lo k0 up)"
proof -
  let ?j = "node_id t"
  have "stored ps M t" using T(1) by (simp add: held_def)
  then obtain dj where dj: "M ?j = Some dj" by (metis stored_head)
  from stored_split [OF T(1) dj hv(1,2)] obtain fl rt pls where P: "page_of ps t dj fl rt pls" "keyed_payload fl (pls ! (length pls div 2 - 1)) k0"
    and fin: "\<forall>d' s' M'. halved ps fl rt pls (next_id c) d' s' \<longrightarrow> next_id c \<noteq> 0 \<longrightarrow> M (next_id c) = None \<longrightarrow> M' ?j = Some d' \<longrightarrow>
      M' (next_id c) = Some s' \<longrightarrow> (\<forall>x. x \<noteq> ?j \<longrightarrow> M x \<noteq> None \<longrightarrow> M' x = M x) \<longrightarrow> stored ps M' lo \<and> stored ps M' up" by blast
  note PD = page_ofD [OF P(1)]
  have pn: "2 \<le> length pls" using PD(2) hv(2) by simp
  have mem: "pg \<in> set [pg]" by simp
  from next_split [OF c mem dj [folded T(2)] PD(1) pn PD(3) P(2) room es] obtain pgs p1 p2 c1 sk dj' s' where
    n: "pager_next fuel p es = Inr (SUCCESS, Some pgs, p1, es)" "split_pages p1 pg pgs (of_nat ps) = Inr (p2, sk)" "key_blob sk k0"
      "caches ps c1 p2 (M(?j \<mapsto> dj', tid pgs \<mapsto> s')) [pgs, pg]" "roomy (Suc m) fuel c1 (M(?j \<mapsto> dj', tid pgs \<mapsto> s'))"
      "M (tid pgs) = None" "tid pgs \<noteq> 0" "halved ps fl rt pls (tid pgs) dj' s'" "tid pgs = next_id c" "next_id c1 = next_id c + 1"
    unfolding T(2) by blast
  let ?n = "tid pgs" and ?M1 = "M(?j \<mapsto> dj', tid pgs \<mapsto> s')"
  from caches_next [OF n(4,5) es] obtain new x p3 c2 where
    w: "pager_next fuel p2 es = Inr (SUCCESS, Some new, p3, es)" "caches ps c2 p3 (?M1(tid new \<mapsto> x)) [new, pgs, pg]"
    "roomy m fuel c2 (?M1(tid new \<mapsto> x))" "length x = ps" "tid new \<noteq> 0" "?M1 (tid new) = None" "tid new = next_id c1" "next_id c2 = next_id c1 + 1"
    by blast
  let ?r = "tid new"
  have nr: "?r \<noteq> ?n" "?r \<noteq> ?j" "?n \<noteq> ?j" using w(6) n(6) dj by (auto split: if_splits)
  have "unat k0 < 2 ^ 56" using hv(3) by simp
  from new_root_correct [OF w(4) root_room(2,1) [OF P(1) hv(1,2)] n(3) this PD(3), of ?j ?n] obtain dr where
    dr: "new_root x (of_nat ps) fl ?j sk ?n = Inr dr" "inner_page ps (fl AND NOT PAGE_FLAG_LEAF) dr [k0] [?j, ?n]" by blast
  have rd: "page_data p3 pg = Inr dj'" "page_data p3 new = Inr x"
    using caches_read [OF w(2), of pg] caches_read [OF w(2), of new] nr T(2) by simp_all
  have "length dr = ps" using dr(2) page_repD(1) by (auto simp: inner_page_def)
  let ?M = "?M1(?r \<mapsto> dr)"
  from caches_write [OF w(2) _ \<open>length dr = ps\<close>, of new] have c4: "caches ps c2 (write_data p3 (tptr new) dr) ?M [new, pgs, pg]" by simp
  let ?drop = "if k < k0 then pgs else pg" and ?keep = "if k < k0 then pg else pgs"
  have "remove1 ?drop [new, pgs, pg] = [new, ?keep]" "?drop \<in> set [new, pgs, pg]" using nr T(2) by auto
  with caches_unfix [OF c4, of ?drop] obtain p5 where
    u1: "pager_unfix (write_data p3 (tptr new) dr) ?drop = Inr p5" "caches ps c2 p5 ?M [new, ?keep]" by metis
  from caches_unfix [OF u1(2), of new] obtain q where u2: "pager_unfix p5 new = Inr q" "caches ps c2 q ?M [?keep]" by auto
  from compare_keys [OF key(1) n(3) key(2) hv(3)] obtain y where y: "key_compare (bdata key) (bdata sk) = Inr y" "y < 0 \<longleftrightarrow> k < k0" by blast
  have "page_rep ps dj' fl ?n (take (length pls div 2) pls)" using n(8) by (simp add: halved_def)
  note D = page_repD(4,5) [OF this]
  have rr: "?r = next_id c + 1" using w(7) n(10) by simp
  have ws: "split_root fuel bt p pg key es = Inr (SUCCESS, ?keep, bt\<lparr>root := next_id c + 1\<rparr>, q, es)"
    using n(1,2) w(1) rd D dr(1) y u1(1) u2(1) bt T(2) rr by (simp add: split_root_def Let_def split: if_splits)
  have st: "stored ps ?M1 lo \<and> stored ps ?M1 up"
    by (rule fin [rule_format, OF n(8) [unfolded n(9)]]) (use n(6,7,9) nr in auto)
  have "M (next_id c) = None" using n(6,9) by simp
  moreover have "?M1 = M(?j \<mapsto> dj', next_id c \<mapsto> s')" by (simp only: n(9))
  ultimately have R: "held ps ?M (new_root_node ps ?r lo k0 up)" "grows M t ?M (new_root_node ps ?r lo k0 up)"
    using new_root_held [OF T(1) hv(1) conjunct1 [OF st] conjunct2 [OF st] _ _ w(6,5) dr(2) [unfolded n(9)]] by blast+
  have tk: "tid ?keep = node_id (if k < k0 then lo else up)" using halve_ids [OF hv(1)] T(2) n(9) by simp
  have "roomy m fuel c2 ?M" by (rule roomy_contents [OF w(3)]) auto
  moreover have "next_id c2 = next_id c + 2" using w(8) n(10) by simp
  ultimately show ?thesis using ws u2(2) R tk unfolding rr by blast
qed

lemma split_root_abort:
  assumes c: "caches ps c p M [pg]" and T: "held ps M t" "tid pg = node_id t" and bt: "btree_page_size bt = of_nat ps"
    and n: "length (payload_sizes t) < 2" and room: "roomy (Suc m) fuel c M" and es: "error_wf es"
  shows "\<exists>f. split_root fuel bt p pg key es = Inl f"
proof -
  have "stored ps M t" using T(1) by (simp add: held_def)
  then obtain dj fl rt pls where dj: "M (node_id t) = Some dj" "page_of ps t dj fl rt pls" by (rule stored_head)
  note PD = page_ofD [OF dj(2)]
  have short: "length pls < 2" using PD(2) n by simp
  from caches_next [OF c room es] obtain pgs x p1 c' where
    n1: "pager_next fuel p es = Inr (SUCCESS, Some pgs, p1, es)" "caches ps c' p1 (M(tid pgs \<mapsto> x)) [pgs, pg]"
    "length x = ps" "M (tid pgs) = None" by blast
  have "tid pg \<noteq> tid pgs" using n1(4) dj T(2) by auto
  then have "split_pages p1 pg pgs (of_nat ps) = Inl Out_of_bounds"
    using dj T(2) by (intro split_pages_stuck [OF n1(2) _ _ _ _ n1(3) PD(1) short]) simp_all
  then show ?thesis using n1(1) bt by (simp add: split_root_def)
qed

section \<open>Insertion\<close>

lemma insert_below_page:
  assumes c: "caches ps c p M [pg]" and T: "held ps M t" "tid pg = node_id t"
  shows "insert_below depth fuel bt p pg key val es =
    obind (insert_at_page depth fuel bt (''src/btree.c'', ''btree_insert'', 437)
      ''try page_insert_leaf(root.data, btree->page_size, key, value)'' t p pg key val es) (\<lambda>(r, p, es).
    if \<not> is_leaf t \<and> r \<noteq> SUCCESS then
      obind (try_fail (''src/btree.c'', ''btree_insert'', 439)
        ''try btree_insert_walk(btree, root, key, value)'' es) (\<lambda>(r, es). Inr (r, p, es))
    else Inr (if is_leaf t then r else SUCCESS, p, es))"
proof -
  have "stored ps M t" using T(1) by (simp add: held_def)
  then obtain d fl rt pls where d: "M (node_id t) = Some d" "page_of ps t d fl rt pls" by (rule stored_head)
  have rd: "page_data p pg = Inr d" using caches_read [OF c _ d(1) [folded T(2)]] by simp
  note PD = page_ofD(4,5,7) [OF d(2)]
  show ?thesis
  proof (cases "is_leaf t")
    case True
    have "obind x (\<lambda>(r, p, es). Inr (r, p, es)) = x" for x :: "(result \<times> pager_t \<times> error_state) outcome"
      by (cases x) auto
    then show ?thesis using rd PD True by (simp add: insert_below_def insert_at_page_def)
  next
    case False
    then show ?thesis using rd PD by (simp add: insert_below_def insert_at_page_def cong: if_cong)
  qed
qed

lemma root_start:
  assumes c: "caches ps c p M []" and T: "held ps M t" "root bt = node_id t"
    and kv: "key_blob key k" "val_blob val v" "id_ok k" "val_ok v"
  obtains pg p1 where "tid pg = node_id t" and "caches ps c p1 M [pg]"
    and "btree_insert depth fuel bt p key val es =
      obind (if need k v t \<le> unat (claim t) then Inr (SUCCESS, pg, bt, p1, es) else split_root fuel bt p1 pg key es)
        (\<lambda>(r, rt, bt, p, es).
      obind (if r \<noteq> SUCCESS then Inr (r, p, es) else insert_below depth fuel bt p rt key val es) (\<lambda>(r, p, es).
      obind (if errdefer_runs es then pager_unfix p rt else Inr p) (\<lambda>p. Inr (r, bt, p, es))))"
proof -
  have "stored ps M t" using T(1) by (simp add: held_def)
  then obtain d fl rt pls where d: "M (node_id t) = Some d" "page_of ps t d fl rt pls" by (rule stored_head)
  have i: "root bt \<notin> tid ` set []" "M (root bt) \<noteq> None" using d(1) T(2) by simp_all
  from cache.fix_free [OF c i(2,1)] obtain pg p1 where
    f: "pager_fix fuel p (root bt) True es = Inr (SUCCESS, Some pg, p1, es)" "tid pg = root bt" "caches ps c p1 M [pg]" by blast
  have rd: "page_data p1 pg = Inr d" using caches_read [OF f(3), of pg] d(1) f(2) T(2) by simp
  note PD = page_ofD(4) [OF d(2)] and ct = claim_test [OF d(2) kv]
  show thesis
    by (rule that [OF _ f(3)]) (use f(1,2) T(2) rd PD ct in \<open>simp_all add: btree_insert_def linorder_not_less [symmetric] cong: if_cong\<close>)
qed

text \<open>After the split of the root, the insertion goes on in one of the halves.\<close>

lemma split_root_half:
  assumes c: "caches ps c p M [pg]" and T: "held ps M t" "tid pg = node_id t" and s: "sound (node_height t) u t"
    and k: "k \<le> u" "k \<notin> fst ` set (node_entries t)" and key: "key_blob key k" "id_ok k" and bt: "btree_page_size bt = of_nat ps"
    and hv: "halve ps (next_id c) t = (lo, k0, up)" "2 \<le> length (payload_sizes t)"
    and rt: "rt = new_root_node ps (next_id c + 1) lo k0 up" "j = (if k < k0 then 0 else 1)"
    and room: "roomy (Suc (Suc m)) fuel c M" and es: "error_wf es"
  shows "\<exists>pgs q c' M' b. split_root fuel bt p pg key es = Inr (SUCCESS, pgs, bt\<lparr>root := next_id c + 1\<rparr>, q, es) \<and>
    caches ps c' q M' [pgs] \<and> roomy m fuel c' M' \<and> next_id c' = next_id c + 2 \<and> tid pgs = node_id (child rt j) \<and>
    held ps M' rt \<and> grows M t M' rt \<and> held ps M' (child rt j) \<and>
    sound (node_height t) b (child rt j) \<and> k \<le> b \<and> k \<notin> fst ` set (node_entries (child rt j))"
proof -
  note hs = halve_sound [OF s hv(2,1)]
  have k0: "unat k0 < 2 ^ 31" "unat k < 2 ^ 31" using hs key(2) by (simp_all add: halves_ok_def id_ok_def)
  from split_root_done [OF c T bt key(1) k0(2) hv k0(1) room es] obtain pgs q c' M' where
    r: "split_root fuel bt p pg key es = Inr (SUCCESS, pgs, bt\<lparr>root := next_id c + 1\<rparr>, q, es)" "caches ps c' q M' [pgs]"
      "roomy m fuel c' M'" "next_id c' = next_id c + 2" "tid pgs = node_id (if k < k0 then lo else up)"
      "held ps M' rt" "grows M t M' rt" unfolding rt(1) by blast
  have A: "aimed (node_height t) u k rt j" using new_root_sound(1) [OF hs k] by (simp only: rt)
  from A obtain b where "sound (node_height t) b (child rt j)" "k \<le> b" "k \<notin> fst ` set (node_entries (child rt j))"
    by (auto simp: aimed_def simp del: sound.simps)
  moreover have "held ps M' (child rt j)" by (rule aimed_child [OF A r(6)])
  moreover have "tid pgs = node_id (child rt j)" using r(5) by (simp add: rt new_root_node_def)
  ultimately show ?thesis using r by blast
qed

text \<open>
  \<^verbatim>\<open>btree_insert\<close> does what \<open>put_root\<close> says: it succeeds with the tree that \<open>put_root\<close> gives, in
  which only new pages were added, or it aborts.
\<close>

lemma put_root_done:
  assumes c: "caches ps c p M []" and T: "held ps M t" "root bt = node_id t" and s: "sound (node_height t) u t"
    and k: "k \<le> u" "k \<notin> fst ` set (node_entries t)"
    and kv: "key_blob key k" "val_blob val v" "id_ok k" "val_ok v" and bt: "btree_page_size bt = of_nat ps"
    and a: "put_root ps (next_id c) k v t = Done (n, t')" and room: "roomy (n + m) fuel c M"
    and es: "error_wf es" "error_code es = 0" and depth: "node_height t \<le> depth"
  shows "\<exists>q. btree_insert depth fuel bt p key val es = Inr (SUCCESS, bt\<lparr>root := node_id t'\<rparr>, q, es) \<and> inserted ps m fuel c M t n t' q"
proof -
  let ?site = "(''src/btree.c'', ''btree_insert'', 437)" and ?mt = "''try page_insert_leaf(root.data, btree->page_size, key, value)''"
  obtain pg p1 where st: "tid pg = node_id t" "caches ps c p1 M [pg]" and run: "btree_insert depth fuel bt p key val es =
      obind (if need k v t \<le> unat (claim t) then Inr (SUCCESS, pg, bt, p1, es) else split_root fuel bt p1 pg key es)
        (\<lambda>(r, rt, bt, p, es).
      obind (if r \<noteq> SUCCESS then Inr (r, p, es) else insert_below depth fuel bt p rt key val es) (\<lambda>(r, p, es).
      obind (if errdefer_runs es then pager_unfix p rt else Inr p) (\<lambda>p. Inr (r, bt, p, es))))"
    by (rule root_start [OF c T kv])
  note fin = errdefer_runs_def error_get_code_def es(2)
  show ?thesis
  proof (cases "need k v t \<le> unat (claim t)")
    case True
    then have "put (node_height t) ps (next_id c) k v t = Done (n, t')" using a by (simp add: put_root_def)
    from put_done [OF st(2) T(1) st(1) s k kv bt this room es(1) depth, of ?site ?mt] obtain q where
      i: "insert_at_page depth fuel bt ?site ?mt t p1 pg key val es = Inr (SUCCESS, q, es)" "inserted ps m fuel c M t n t' q"
        "node_id t' = node_id t" by blast
    have "bt\<lparr>root := node_id t'\<rparr> = bt" using T(2) i(3) by simp
    then have "btree_insert depth fuel bt p key val es = Inr (SUCCESS, bt\<lparr>root := node_id t'\<rparr>, q, es)"
      using run True i(1) by (simp add: insert_below_page [OF st(2) T(1) st(1)] fin)
    with i(2) show ?thesis by blast
  next
    case False
    obtain lo k0 up where hv: "halve ps (next_id c) t = (lo, k0, up)" by (cases "halve ps (next_id c) t") auto
    define rt j where rt: "rt = new_root_node ps (next_id c + 1) lo k0 up" "j = (if k < k0 then 0 else 1 :: nat)"
    from a False hv obtain b w where n: "2 \<le> length (payload_sizes t)" and
      w: "put (node_height t) ps (next_id c + 2) k v (child rt j) = Done (b, w)" "n = 2 + b" "t' = plug rt j w"
      by (auto simp: put_root_def fate_bind_Done Let_def rt simp del: child.simps plug.simps split: if_splits)
    have rm: "roomy (Suc (Suc (b + m))) fuel c M" using room by (simp add: w(2))
    from split_root_half [OF st(2) T(1) st(1) s k kv(1,3) bt hv n rt rm es(1)] obtain pgs q1 c1 M1 b' where
      r: "split_root fuel bt p1 pg key es = Inr (SUCCESS, pgs, bt\<lparr>root := next_id c + 1\<rparr>, q1, es)" "caches ps c1 q1 M1 [pgs]"
        "roomy (b + m) fuel c1 M1" "next_id c1 = next_id c + 2" "tid pgs = node_id (child rt j)" "held ps M1 rt" "grows M t M1 rt"
        "held ps M1 (child rt j)" and S: "sound (node_height t) b' (child rt j)" "k \<le> b'" "k \<notin> fst ` set (node_entries (child rt j))"
      by blast
    obtain cl where R: "rt = Inner_node (next_id c + 1) cl [k0] [lo, up] None" "j < length [lo, up]" "child rt j = [lo, up] ! j"
      by (simp_all add: rt new_root_node_def)
    have bt': "btree_page_size (bt\<lparr>root := next_id c + 1\<rparr>) = of_nat ps" using bt by simp
    from put_done [OF r(2,8,5) S kv bt' w(1) [folded r(4)] r(3) es(1) depth, of ?site ?mt] obtain q where
      i: "insert_at_page depth fuel (bt\<lparr>root := next_id c + 1\<rparr>) ?site ?mt (child rt j) q1 pgs key val es = Inr (SUCCESS, q, es)"
        "inserted ps m fuel c1 M1 (child rt j) b w q" "node_id w = node_id (child rt j)" by blast
    from i(2) obtain c2 M2 where g: "caches ps c2 q M2 []" "roomy m fuel c2 M2" "next_id c2 = next_id c1 + of_nat b" "held ps M2 w"
      "grows M1 (child rt j) M2 w" by (auto simp: inserted_def)
    note pl = plug_held [OF r(6) [unfolded R(1)] R(2) g(4) g(5) [unfolded R(3)] i(3) [unfolded R(3)], folded R(1), folded w(3)]
    have "inserted ps m fuel c M t n t' q" unfolding inserted_def
      using g(1,2) pl(1) grows_trans [OF r(7) pl(2)] g(3) r(4)
      by (intro exI [of _ c2] exI [of _ M2]) (simp add: w(2) add.assoc)
    moreover have "node_id t' = next_id c + 1" by (simp add: w(3) rt new_root_node_def)
    then have "btree_insert depth fuel bt p key val es = Inr (SUCCESS, bt\<lparr>root := node_id t'\<rparr>, q, es)"
      using run False r(1) i(1) by (simp add: insert_below_page [OF r(2,8,5)] fin)
    ultimately show ?thesis by blast
  qed
qed

lemma put_root_abort:
  assumes c: "caches ps c p M []" and T: "held ps M t" "root bt = node_id t" and s: "sound (node_height t) u t"
    and k: "k \<le> u" "k \<notin> fst ` set (node_entries t)"
    and kv: "key_blob key k" "val_blob val v" "id_ok k" "val_ok v" and bt: "btree_page_size bt = of_nat ps"
    and a: "put_root ps (next_id c) k v t = Abort" and room: "roomy (node_height t + 2) fuel c M"
    and es: "error_wf es" and depth: "node_height t \<le> depth"
  shows "\<exists>f. btree_insert depth fuel bt p key val es = Inl f"
proof -
  let ?site = "(''src/btree.c'', ''btree_insert'', 437)" and ?mt = "''try page_insert_leaf(root.data, btree->page_size, key, value)''"
  obtain pg p1 where st: "tid pg = node_id t" "caches ps c p1 M [pg]" and run: "btree_insert depth fuel bt p key val es =
      obind (if need k v t \<le> unat (claim t) then Inr (SUCCESS, pg, bt, p1, es) else split_root fuel bt p1 pg key es)
        (\<lambda>(r, rt, bt, p, es).
      obind (if r \<noteq> SUCCESS then Inr (r, p, es) else insert_below depth fuel bt p rt key val es) (\<lambda>(r, p, es).
      obind (if errdefer_runs es then pager_unfix p rt else Inr p) (\<lambda>p. Inr (r, bt, p, es))))"
    by (rule root_start [OF c T kv])
  show ?thesis
  proof (cases "need k v t \<le> unat (claim t)")
    case True
    then have "put (node_height t) ps (next_id c) k v t = Abort" using a by (simp add: put_root_def)
    from put_abort [OF st(2) T(1) st(1) s k kv bt this roomy_mono [OF room] es(1) depth, of ?site ?mt] obtain f where
      "insert_at_page depth fuel bt ?site ?mt t p1 pg key val es = Inl f" by auto
    then show ?thesis using run True by (simp add: insert_below_page [OF st(2) T(1) st(1)])
  next
    case big: False
    show ?thesis
    proof (cases "length (payload_sizes t) < 2")
      case True
      have "\<exists>f. split_root fuel bt p1 pg key es = Inl f"
        by (rule split_root_abort [OF st(2) T(1) st(1) bt True roomy_mono [OF room, of "Suc 0"] es(1)]) simp
      with run big show ?thesis by auto
    next
      case False
      then have n: "2 \<le> length (payload_sizes t)" by simp
      obtain lo k0 up where hv: "halve ps (next_id c) t = (lo, k0, up)" by (cases "halve ps (next_id c) t") auto
      define rt j where rt: "rt = new_root_node ps (next_id c + 1) lo k0 up" "j = (if k < k0 then 0 else 1 :: nat)"
      have w: "put (node_height t) ps (next_id c + 2) k v (child rt j) = Abort"
        using a big False hv by (auto simp: put_root_def fate_bind_Abort Let_def rt simp del: child.simps plug.simps split: if_splits)
      have rm: "roomy (Suc (Suc (node_height t))) fuel c M" using room by simp
      from split_root_half [OF st(2) T(1) st(1) s k kv(1,3) bt hv n rt rm es(1)] obtain pgs q1 c1 M1 b' where
        r: "split_root fuel bt p1 pg key es = Inr (SUCCESS, pgs, bt\<lparr>root := next_id c + 1\<rparr>, q1, es)" "caches ps c1 q1 M1 [pgs]"
          "roomy (node_height t) fuel c1 M1" "next_id c1 = next_id c + 2" "tid pgs = node_id (child rt j)" "held ps M1 (child rt j)"
        and S: "sound (node_height t) b' (child rt j)" "k \<le> b'" "k \<notin> fst ` set (node_entries (child rt j))" by blast
      have bt': "btree_page_size (bt\<lparr>root := next_id c + 1\<rparr>) = of_nat ps" using bt by simp
      from put_abort [OF r(2,6,5) S kv bt' w [folded r(4)] r(3) es(1) depth, of ?site ?mt] obtain f where
        "insert_at_page depth fuel (bt\<lparr>root := next_id c + 1\<rparr>) ?site ?mt (child rt j) q1 pgs key val es = Inl f" by blast
      then show ?thesis using run big r(1) by (simp add: insert_below_page [OF r(2,6,5)])
    qed
  qed
qed

end
