(* ===== verification/TableAnyOrder.thy ===== *)
theory TableAnyOrder
  imports BtreePutRoot BtreeTable
begin

text \<open>
  Tables that are filled in any order: what \<open>put_all\<close> computes is what the program does, and a
  table that was filled returns what was inserted.
\<close>

section \<open>Reading\<close>

lemma sound_tree:
  "held ps M t \<Longrightarrow> sound h u t \<Longrightarrow> tree_at h ps M u (node_id t) (node_entries t)"
proof (induction h arbitrary: u t)
  case 0
  then show ?case by (cases t) (auto simp: held_def)
next
  case (Suc h)
  then obtain i cl ks ts r where t: "t = Inner_node i cl ks ts r" by (cases t) auto
  note S = sound_inner [OF Suc.prems(2) [unfolded t]]
  let ?cs = "child_ids ts r" and ?als = "sub_lists ts r"
  obtain d where d: "M i = Some d" "stored ps M (Inner_node i cl ks ts r)"
    using Suc.prems(1) by (auto simp: held_def t)
  from stored_inner [OF d(2,1)] obtain fl where I: "inner_readable ps fl d ks ?cs" by blast
  note child = held_child [OF Suc.prems(1) [unfolded t]]
  have sub: "tree_at h ps M (bound u ks j) (?cs ! j) (?als ! j)" if j: "j < length ts" for j
    using Suc.IH [OF child [OF j] S(4) [OF j]] S(6) [OF j] j by (simp add: child_ids_def nth_append)
  have "\<forall>j < length ks. tree_at h ps M (ks ! j) (?cs ! j) (?als ! j)"
  proof (intro allI impI)
    fix j
    assume j: "j < length ks"
    then have "j < length ts" using S(3) by (simp split: if_splits)
    from sub [OF this] show "tree_at h ps M (ks ! j) (?cs ! j) (?als ! j)" using j by (simp add: bound_def)
  qed
  moreover have "if u \<in> set ks then ?als ! length ks = [] else tree_at h ps M u (?cs ! length ks) (?als ! length ks)"
  proof (cases "r = None")
    case True
    then have "length ks < length ts" using S(3) by simp
    from sub [OF this] show ?thesis using sound_top(1) [OF Suc.prems(2) [unfolded t] True] by (simp add: bound_def)
  qed (use sound_top(2,3) [OF Suc.prems(2) [unfolded t]] in simp)
  moreover have "i \<notin> set ?cs" by (rule held_apart [OF Suc.prems(1) [unfolded t]])
  moreover have "node_entries (Inner_node i cl ks ts r) = concat ?als" by (simp only: S(7))
  moreover have "i \<noteq> 0" using d(2) by simp
  ultimately show ?case using d(1) I S(1) unfolding t tree_at.simps node_id.simps by blast
qed

section \<open>Filling\<close>

lemma table_put_done:
  assumes "caches ps c p M []" and "held ps M t" "root bt = node_id t" and "sound (node_height t) u t"
    and "k \<le> u" "k \<notin> fst ` set (node_entries t)" and kv: "id_ok k" "val_ok v" and "btree_page_size bt = of_nat ps" and buf: "buffers_ok kb vb"
    and "put_root ps (next_id c) k v t = Done (n, t')" and "roomy (n + m) fuel c M"
    and "error_wf es" "error_code es = 0" and "node_height t \<le> depth"
  shows "\<exists>q. table_put depth fuel kb vb bt p k v es = Inr (SUCCESS, bt\<lparr>root := node_id t'\<rparr>, q, es) \<and> inserted ps m fuel c M t n t' q"
proof -
  obtain key val where b: "key_blob key k" "val_blob val v"
    "\<forall>depth fuel bt p es. table_put depth fuel kb vb bt p k v es = btree_insert depth fuel bt p key val es"
    by (rule table_put_insert [OF buf kv])
  from put_root_done [OF assms(1-6) b(1,2) kv assms(9,11-)] b(3) show ?thesis by simp
qed

lemma table_put_abort:
  assumes "caches ps c p M []" and "held ps M t" "root bt = node_id t" and "sound (node_height t) u t"
    and "k \<le> u" "k \<notin> fst ` set (node_entries t)" and kv: "id_ok k" "val_ok v" and "btree_page_size bt = of_nat ps" and buf: "buffers_ok kb vb"
    and "put_root ps (next_id c) k v t = Abort" and "roomy (node_height t + 2) fuel c M"
    and "error_wf es" and "node_height t \<le> depth"
  shows "\<exists>f. table_put depth fuel kb vb bt p k v es = Inl f"
proof -
  obtain key val where b: "key_blob key k" "val_blob val v"
    "\<forall>depth fuel bt p es. table_put depth fuel kb vb bt p k v es = btree_insert depth fuel bt p key val es"
    by (rule table_put_insert [OF buf kv])
  from put_root_abort [OF assms(1-6) b(1,2) kv assms(9,11-)] b(3) show ?thesis by simp
qed

text \<open>The state of a table: its tree, with the entries of the map \<open>m\<close>.\<close>

definition table_state ::
  "nat \<Rightarrow> nat \<Rightarrow> nat \<Rightarrow> u32 \<Rightarrow> btree_t \<Rightarrow> pager_t \<Rightarrow> node \<Rightarrow> (u64 \<Rightarrow> byte list option) \<Rightarrow> bool" where
  "table_state ps pages fuel nxt bt p t m \<longleftrightarrow> (\<exists>c M. caches ps c p M [] \<and> roomy pages fuel c M \<and> next_id c = nxt \<and> held ps M t) \<and>
     sound (node_height t) max_id t \<and> root bt = node_id t \<and> btree_page_size bt = of_nat ps \<and> m = map_of (node_entries t)"

lemma id_ok_max: "id_ok k \<Longrightarrow> k \<le> max_id"
  by (simp add: id_ok_def word_le_nat_alt)

lemma table_state_mono: "table_state ps k fuel nxt bt p t m \<Longrightarrow> k' \<le> k \<Longrightarrow> table_state ps k' fuel nxt bt p t m"
  unfolding table_state_def using roomy_mono by blast

lemma put_root_state:
  assumes "table_state ps pages fuel nxt bt p t m" and "id_ok k" and "m k = None" and "put_root ps nid k v t = Done (n, t')"
  shows "sound (node_height t') max_id t'" and "map_of (node_entries t') = m(k \<mapsto> v)" and "n \<le> node_height t + 2"
    and "node_height t \<le> node_height t'" and "node_height t' \<le> Suc (node_height t)"
proof -
  have S: "sound (node_height t) max_id t" "m = map_of (node_entries t)" using assms(1) by (simp_all add: table_state_def)
  have k: "k \<le> max_id" "k \<notin> fst ` set (node_entries t)" "unat k < 2 ^ 31"
    using assms(2,3) id_ok_max S(2) by (auto simp: map_of_eq_None_iff id_ok_def)
  from put_root_sound [OF assms(4) S(1) k] show "sound (node_height t') max_id t'" "map_of (node_entries t') = m(k \<mapsto> v)"
    "n \<le> node_height t + 2" "node_height t \<le> node_height t'" "node_height t' \<le> Suc (node_height t)"
    by (simp_all add: put_ok_def S(2))
qed

lemma table_put_state:
  assumes s: "table_state ps (n + pages) fuel nxt bt p t m" and kv: "id_ok k" "val_ok v" "m k = None" and buf: "buffers_ok kb vb"
    and p: "put_root ps nxt k v t = Done (n, t')" and es: "error_wf es" "error_code es = 0" and depth: "node_height t \<le> depth"
  shows "\<exists>q. table_put depth fuel kb vb bt p k v es = Inr (SUCCESS, bt\<lparr>root := node_id t'\<rparr>, q, es) \<and>
    table_state ps pages fuel (nxt + of_nat n) (bt\<lparr>root := node_id t'\<rparr>) q t' (m(k \<mapsto> v))"
proof -
  from s obtain c M where c: "caches ps c p M []" "roomy (n + pages) fuel c M" "next_id c = nxt" "held ps M t" by (auto simp: table_state_def)
  have S: "sound (node_height t) max_id t" "root bt = node_id t" "btree_page_size bt = of_nat ps" "m = map_of (node_entries t)"
    using s by (simp_all add: table_state_def)
  have k: "k \<le> max_id" "k \<notin> fst ` set (node_entries t)" using kv id_ok_max S(4) by (auto simp: map_of_eq_None_iff)
  from table_put_done [OF c(1,4) S(2,1) k kv(1,2) S(3) buf p [folded c(3)] c(2) es depth] obtain q where
    q: "table_put depth fuel kb vb bt p k v es = Inr (SUCCESS, bt\<lparr>root := node_id t'\<rparr>, q, es)" "inserted ps pages fuel c M t n t' q" by blast
  from q(2) c(3) put_root_state(1,2) [OF s kv(1,3) p] S(3) have "table_state ps pages fuel (nxt + of_nat n) (bt\<lparr>root := node_id t'\<rparr>) q t' (m(k \<mapsto> v))"
    by (auto simp: table_state_def inserted_def)
  with q(1) show ?thesis by blast
qed

lemma table_put_state_abort:
  assumes s: "table_state ps (node_height t + 2) fuel nxt bt p t m" and kv: "id_ok k" "val_ok v" "m k = None" and buf: "buffers_ok kb vb"
    and p: "put_root ps nxt k v t = Abort" and es: "error_wf es" and depth: "node_height t \<le> depth"
  shows "\<exists>f. table_put depth fuel kb vb bt p k v es = Inl f"
proof -
  from s obtain c M where c: "caches ps c p M []" "roomy (node_height t + 2) fuel c M" "next_id c = nxt" "held ps M t" by (auto simp: table_state_def)
  have S: "sound (node_height t) max_id t" "root bt = node_id t" "btree_page_size bt = of_nat ps" "m = map_of (node_entries t)"
    using s by (simp_all add: table_state_def)
  have k: "k \<le> max_id" "k \<notin> fst ` set (node_entries t)" using kv id_ok_max S(4) by (auto simp: map_of_eq_None_iff)
  from table_put_abort [OF c(1,4) S(2,1) k kv(1,2) S(3) buf p [folded c(3)] c(2) es depth] show ?thesis .
qed

lemma table_fill_done:
  assumes "table_state ps (n + pages) fuel nxt bt p t m" and "\<forall>e \<in> set xs. id_ok (fst e) \<and> val_ok (snd e)"
    and "distinct (map fst xs)" and "\<forall>e \<in> set xs. m (fst e) = None" and buf: "buffers_ok kb vb"
    and "put_all ps nxt xs t = Done (n, t')" and es: "error_wf es" "error_code es = 0" and "node_height t' \<le> depth"
  shows "\<exists>q bt'. table_fill depth fuel kb vb xs bt p es = Inr (SUCCESS, bt', q, es) \<and>
    table_state ps pages fuel (nxt + of_nat n) bt' q t' (m ++ map_of xs)"
  using assms(1-4,6,9)
proof (induction xs arbitrary: n nxt bt p t m)
  case Nil
  then show ?case by auto
next
  case (Cons e xs)
  obtain k v where e: "e = (k, v)" by (cases e)
  from Cons.prems(5) obtain a t1 b where p: "put_root ps nxt k v t = Done (a, t1)" "put_all ps (nxt + of_nat a) xs t1 = Done (b, t')" "n = a + b"
    by (auto simp: e fate_bind_Done)
  have kv: "id_ok k" "val_ok v" "m k = None" using Cons.prems(2,4) by (simp_all add: e)
  have tl: "\<forall>e \<in> set xs. id_ok (fst e) \<and> val_ok (snd e)" "distinct (map fst xs)" "\<forall>e \<in> set xs. (m(k \<mapsto> v)) (fst e) = None"
    using Cons.prems(2-4) by (auto simp: e)
  have st: "table_state ps (a + (b + pages)) fuel nxt bt p t m" using Cons.prems(1) by (simp add: p(3) add.assoc)
  note O = put_root_state [OF st kv(1,3) p(1)]
  have "\<forall>e \<in> set xs. fst e \<le> max_id \<and> unat (fst e) < 2 ^ 31" using tl(1) id_ok_max by (auto simp: id_ok_def)
  then have "node_height t1 \<le> node_height t'" using put_all_sound [OF p(2) O(1) _ tl(2)] tl(3) O(2) by simp
  then have "node_height t \<le> depth" using O(4) Cons.prems(6) by simp
  from table_put_state [OF st kv buf p(1) es this] obtain q where
    q: "table_put depth fuel kb vb bt p k v es = Inr (SUCCESS, bt\<lparr>root := node_id t1\<rparr>, q, es)"
    "table_state ps (b + pages) fuel (nxt + of_nat a) (bt\<lparr>root := node_id t1\<rparr>) q t1 (m(k \<mapsto> v))" by blast
  from Cons.IH [OF q(2) tl p(2) Cons.prems(6)] obtain q' bt' where
    f: "table_fill depth fuel kb vb xs (bt\<lparr>root := node_id t1\<rparr>) q es = Inr (SUCCESS, bt', q', es)"
    "table_state ps pages fuel (nxt + of_nat a + of_nat b) bt' q' t' (m(k \<mapsto> v) ++ map_of xs)" by blast
  have x: "k \<notin> fst ` set xs" using Cons.prems(3) by (simp add: e)
  from f(2) have "table_state ps pages fuel (nxt + of_nat n) bt' q' t' (m ++ map_of (e # xs))"
    unfolding map_add_fresh [OF x] e by (simp only: p(3) of_nat_add add.assoc)
  moreover have "table_fill depth fuel kb vb (e # xs) bt p es = Inr (SUCCESS, bt', q', es)" using f(1) q(1) by (simp add: e)
  ultimately show ?case by blast
qed

text \<open>The number of pages is at most quadratic; a tree grows by one level at most with each entry.\<close>

lemma table_fill_abort:
  assumes "table_state ps (length xs * (node_height t + length xs + 1)) fuel nxt bt p t m" and "\<forall>e \<in> set xs. id_ok (fst e) \<and> val_ok (snd e)"
    and "distinct (map fst xs)" and "\<forall>e \<in> set xs. m (fst e) = None" and buf: "buffers_ok kb vb"
    and "put_all ps nxt xs t = Abort" and es: "error_wf es" "error_code es = 0" and "node_height t + length xs \<le> Suc depth"
  shows "\<exists>f. table_fill depth fuel kb vb xs bt p es = Inl f"
  using assms(1-4,6,9)
proof (induction xs arbitrary: nxt bt p t m)
  case (Cons e xs)
  obtain k v where e: "e = (k, v)" by (cases e)
  let ?h = "node_height t" and ?m = "length xs"
  have kv: "id_ok k" "val_ok v" "m k = None" using Cons.prems(2,4) by (simp_all add: e)
  have tl: "\<forall>e \<in> set xs. id_ok (fst e) \<and> val_ok (snd e)" "distinct (map fst xs)" "\<forall>e \<in> set xs. (m(k \<mapsto> v)) (fst e) = None"
    using Cons.prems(2-4) by (auto simp: e)
  have dp: "?h \<le> depth" using Cons.prems(6) by simp
  show ?case
  proof (cases "put_root ps nxt k v t = Abort")
    case True
    have "table_state ps (?h + 2) fuel nxt bt p t m" by (rule table_state_mono [OF Cons.prems(1)]) simp
    from table_put_state_abort [OF this kv buf True es(1) dp] obtain f where "table_put depth fuel kb vb bt p k v es = Inl f" by blast
    then show ?thesis by (simp add: e)
  next
    case False
    then obtain a t1 where p: "put_root ps nxt k v t = Done (a, t1)" "put_all ps (nxt + of_nat a) xs t1 = Abort"
      using Cons.prems(5) by (auto simp: e fate_bind_Abort)
    note O = put_root_state(3-5) [OF Cons.prems(1) kv(1,3) p(1)]
    have "a + ?m * (node_height t1 + ?m + 1) \<le> (?h + 2) + ?m * (Suc ?h + ?m + 1)" using O(1,3) by (intro add_mono mult_le_mono2) simp_all
    also have "\<dots> \<le> length (e # xs) * (?h + length (e # xs) + 1)" by (simp add: algebra_simps)
    finally have "table_state ps (a + ?m * (node_height t1 + ?m + 1)) fuel nxt bt p t m" by (rule table_state_mono [OF Cons.prems(1)])
    from table_put_state [OF this kv buf p(1) es dp] obtain q where
      q: "table_put depth fuel kb vb bt p k v es = Inr (SUCCESS, bt\<lparr>root := node_id t1\<rparr>, q, es)"
      "table_state ps (?m * (node_height t1 + ?m + 1)) fuel (nxt + of_nat a) (bt\<lparr>root := node_id t1\<rparr>) q t1 (m(k \<mapsto> v))" by blast
    have "node_height t1 + ?m \<le> Suc depth" using O(3) Cons.prems(6) by simp
    from Cons.IH [OF q(2) tl p(2) this] q(1) show ?thesis by (simp add: e)
  qed
qed simp

section \<open>A new table\<close>

definition empty_table :: "nat \<Rightarrow> node" where
  "empty_table ps = Leaf_node 1 (of_nat (ps - 12)) []"

lemma opened_state:
  assumes n: "power_of_two_or_zero n" "2 \<le> unat n" "pages + 1 < 7 * unat n div 10" and ps: "12 \<le> unat ps"
    and ms: "\<forall>j. ms j \<noteq> None" and fuel: "length sp + 2 * unat n \<le> fuel" and ty: "\<not> page_is_index_uuid ty"
  shows "\<exists>p bt q. pager_open ps n ms sp error_init = Inr (SUCCESS, Some (Live p), error_init) \<and>
    btree_create fuel p ty error_init = Inr (SUCCESS, Some (Live bt), q, error_init) \<and>
    table_state (unat ps) pages fuel 2 bt q (empty_table (unat ps)) Map.empty"
proof -
  have sz: "unat (seven_tenths n) = 7 * unat n div 10" by (rule unat_seven_tenths [OF power_of_two_bound [OF n(1)]])
  have pre: "Suc pages < unat (seven_tenths n)" "length sp + 2 * unat (seven_tenths n) \<le> fuel" using n(3) fuel unfolding sz by simp_all
  have es: "error_code error_init = 0" by (simp add: error_init_def)
  obtain p bt q c M d where
    o: "pager_open ps n ms sp error_init = Inr (SUCCESS, Some (Live p), error_init)"
      "btree_create fuel p ty error_init = Inr (SUCCESS, Some (Live bt), q, error_init)"
    and c: "caches (unat ps) c q M []" "roomy pages fuel c M" "M (root bt) = Some d" "root bt \<noteq> 0"
      "leaf_page (unat ps) (page_flags_package True ty) 0 d []" "btree_page_size bt = of_nat (unat ps)" "root bt = 1" "next_id c = 2"
    by (rule opened_table_ids [OF n(1,2) pre(1) ps ms pre(2) ty error_wf_init es])
  have "unat (free_space (header_of d)) = unat ps - 12" using free_space_leaf(1) [OF c(5)] by (simp add: leaf_used_def)
  then have f: "free_space (header_of d) = of_nat (unat ps - 12)" by (metis of_nat_unat ucast_id)
  have "held (unat ps) M (empty_table (unat ps))"
    using c(3,7) f leaf_page_readable [OF c(5)] by (auto simp: held_def empty_table_def)
  moreover have "sound (node_height (empty_table (unat ps))) max_id (empty_table (unat ps))" by (simp add: empty_table_def)
  ultimately have "table_state (unat ps) pages fuel 2 bt q (empty_table (unat ps)) Map.empty"
    using c(1,2,6-8) unfolding table_state_def by (intro conjI exI [of _ c] exI [of _ M]) (simp_all add: empty_table_def)
  with o show ?thesis by blast
qed

lemma table_state_lookup:
  assumes s: "table_state ps pages fuel nxt bt p t m" and h: "node_height t < depth" and k: "id_ok k" "length kb = 9" and es: "error_wf es"
  shows "\<exists>r out q es'. btree_table_lookup depth fuel bt p k kb es = Inr (r, out, q, es') \<and> lookup_answer (m k) es r out es'"
proof -
  from s obtain c M where c: "caches ps c p M []" "held ps M t" by (auto simp: table_state_def)
  have S: "sound (node_height t) max_id t" "root bt = node_id t" "m = map_of (node_entries t)" using s by (simp_all add: table_state_def)
  from table_lookup_correct [OF c(1) sound_tree [OF c(2) S(1), folded S(2)] h k es] show ?thesis unfolding S(3) by blast
qed

section \<open>Evaluation\<close>

text \<open>What the evaluation of \<open>put_all\<close> on entries with ids below 128 needs.\<close>

lemma fate_bind_weak: "x = y \<Longrightarrow> fate_bind x f = fate_bind y f"
  by simp

lemma length_leaf_entry:
  "length (leaf_entry (k, v)) = length (vint_bytes k) + (length (vint_bytes (of_nat (length v))) + length v)"
  by (simp add: leaf_entry_def)

lemma length_vint_small: "k < 128 \<Longrightarrow> length (vint_bytes k) = 1"
  by (simp add: vint_bytes.simps drop_bit_eq_div div_word_less)

fun fate_size :: "(nat \<times> node) fate \<Rightarrow> (nat \<times> nat) option" where
  "fate_size (Done (n, t)) = Some (n, node_height t)"
| "fate_size Abort = None"
| "fate_size Spoiled = None"

lemmas tree_eval = put_root_def length_leaf_entry length_vint_small claims_def real_room_def leaf_insert_def leaf_pos_def insert_at_def
  new_root_node_def low_claim_def key_rank_def Let_def

section \<open>Properties\<close>

text \<open>
  C1: A table that is filled in any order. \<open>put_all\<close> computes, on trees as values, where each
  entry goes, which pages are split on the way, and what free space each page claims afterwards.
  If its result is a tree, and the cache holds as many pages as it counts, then the program does
  the same: all insertions succeed, and afterwards \<^verbatim>\<open>btree_table_lookup\<close> returns the value of
  every id that was inserted and reports ENOENT for every other id.
\<close>

theorem table_any_order:
  assumes "power_of_two_or_zero n" and "2 \<le> unat n" and "12 \<le> unat ps" and "\<forall>j. ms j \<noteq> None"
    and "length sp + 2 * unat n \<le> fuel" and "\<not> page_is_index_uuid ty" and "buffers_ok kb vb"
    and "\<forall>e \<in> set xs. id_ok (fst e) \<and> val_ok (snd e)" and "distinct (map fst xs)"
    and "put_all (unat ps) 2 xs (empty_table (unat ps)) = Done (pages, t)"
    and "pages + 1 < 7 * unat n div 10" and "node_height t < depth"
  shows "\<exists>p bt q bt' s. pager_open ps n ms sp error_init = Inr (SUCCESS, Some (Live p), error_init) \<and>
    btree_create fuel p ty error_init = Inr (SUCCESS, Some (Live bt), q, error_init) \<and>
    table_fill depth fuel kb vb xs bt q error_init = Inr (SUCCESS, bt', s, error_init) \<and>
    (\<forall>k. id_ok k \<longrightarrow> (\<exists>r out s' es. btree_table_lookup depth fuel bt' s k kb error_init = Inr (r, out, s', es) \<and>
      lookup_answer (map_of xs k) error_init r out es))"
proof -
  have es: "error_code error_init = 0" by (simp add: error_init_def)
  from opened_state [OF assms(1,2,11,3-6)] obtain p bt q where
    o: "pager_open ps n ms sp error_init = Inr (SUCCESS, Some (Live p), error_init)"
      "btree_create fuel p ty error_init = Inr (SUCCESS, Some (Live bt), q, error_init)"
      "table_state (unat ps) (pages + 0) fuel 2 bt q (empty_table (unat ps)) Map.empty" by auto
  have dp: "node_height t \<le> depth" using assms(12) by simp
  from table_fill_done [OF o(3) assms(8,9) _ assms(7,10) error_wf_init es dp] obtain s bt' where
    f: "table_fill depth fuel kb vb xs bt q error_init = Inr (SUCCESS, bt', s, error_init)"
      "table_state (unat ps) 0 fuel (2 + of_nat pages) bt' s t (map_of xs)" by auto
  have "length kb = 9" using assms(7) by (simp add: buffers_ok_def)
  with table_state_lookup [OF f(2) assms(12) _ _ error_wf_init] o(1,2) f(1) show ?thesis by blast
qed

text \<open>Thirteen entries in mixed order on pages of 48 bytes: a tree with two levels of inner pages.\<close>

definition mixed :: "(u64 \<times> byte list) list" where
  "mixed = map (\<lambda>k. (k, replicate 8 (ucast k))) [0, 5, 10, 2, 7, 12, 4, 9, 1, 6, 11, 3, 8]"

theorem table_any_order_witness:
  "\<exists>p bt q bt' s. pager_open 48 32 (\<lambda>_. Some (\<lambda>_. 0xcd)) [True] error_init = Inr (SUCCESS, Some (Live p), error_init) \<and>
    btree_create 70 p 0 error_init = Inr (SUCCESS, Some (Live bt), q, error_init) \<and>
    table_fill 3 70 (replicate 9 0xaa) (\<lambda>n. replicate n 0xbb) mixed bt q error_init = Inr (SUCCESS, bt', s, error_init) \<and>
    (\<forall>k. id_ok k \<longrightarrow> (\<exists>r out s' es. btree_table_lookup 3 70 bt' s k (replicate 9 0xaa) error_init = Inr (r, out, s', es) \<and>
      lookup_answer (map_of mixed k) error_init r out es))"
proof -
  have "fate_size (put_all 48 2 mixed (empty_table 48)) = Some (8, 2)"
    by (simp add: mixed_def empty_table_def tree_eval cong: fate_bind_weak)
  then obtain t where t: "put_all (unat (48 :: u16)) 2 mixed (empty_table (unat (48 :: u16))) = Done (8, t)" "node_height t = 2"
    by (auto elim: fate_size.elims)
  show ?thesis
    by (rule table_any_order [where t = t and pages = 8])
      (use t in \<open>simp_all add: mixed_def id_ok_def val_ok_def power_of_two_or_zero_def page_is_index_uuid_def buffers_ok_def\<close>)
qed


definition falling :: "(u64 \<times> byte list) list" where
  "falling = map (\<lambda>k. (k, replicate 100 0)) [15, 14, 13, 12, 11, 10, 9, 8, 7, 6, 5, 4, 3, 2, 1, 0]"




end
