(* ===== verification/Winter.thy ===== *)
theory Winter
  imports Prelude
begin

text \<open>
  The data of the test framework include/winter.h: growing arrays, suites and their tests,
  the patterns that select tests, and the command line.

  Besides returning, a function of the framework can end the process: with a code, or with
  an error message (\<^verbatim>\<open>_winter_fatal_error\<close>). That is a \<open>quit\<close>; a fault stays a fault. A C
  string is the list of its characters without the terminating null.
\<close>

section \<open>Leaving the process\<close>

datatype quit =
    Exit int        \<comment> \<open>\<^verbatim>\<open>exit\<close> or \<^verbatim>\<open>_exit\<close> with this code\<close>
  | Fatal string    \<comment> \<open>\<^verbatim>\<open>_winter_fatal_error\<close> with this message\<close>

definition EXIT_SUCCESS :: int where "EXIT_SUCCESS = 0"
definition EXIT_FAILURE :: int where "EXIT_FAILURE = 1"
definition WINTER_EXIT_FAILURE :: int where "WINTER_EXIT_FAILURE = 255"

fun exit_code :: "quit \<Rightarrow> int" where
  "exit_code (Exit c) = c"
| "exit_code (Fatal m) = EXIT_FAILURE"

type_synonym 'a prog = "(quit + 'a) outcome"

definition pbind :: "'a prog \<Rightarrow> ('a \<Rightarrow> 'b prog) \<Rightarrow> 'b prog" where
  "pbind m f = obind m (\<lambda>r. case r of Inl q \<Rightarrow> Inr (Inl q) | Inr x \<Rightarrow> f x)"

definition ret :: "'a \<Rightarrow> 'a prog" where
  "ret x = Inr (Inr x)"

definition quit :: "quit \<Rightarrow> 'a prog" where
  "quit q = Inr (Inl q)"

definition lift :: "'a outcome \<Rightarrow> 'a prog" where
  "lift m = obind m ret"

lemma pbind_simps [simp, outcome_simps]:
  "pbind (ret x) f = f x"
  "pbind (quit q) f = quit q"
  "pbind (Inl e) f = Inl e"
  by (simp_all add: pbind_def ret_def quit_def)

lemma lift_simps [simp, outcome_simps]: "lift (Inr x) = ret x" "lift (Inl e) = Inl e"
  by (simp_all add: lift_def)

lemma prog_distinct [simp]: "ret x \<noteq> quit q" "quit q \<noteq> ret x" "ret x \<noteq> Inl e" "Inl e \<noteq> ret x" "quit q \<noteq> Inl e" "Inl e \<noteq> quit q"
  by (simp_all add: ret_def quit_def)

lemma prog_inject [simp]: "ret x = ret y \<longleftrightarrow> x = y" "quit q = quit q' \<longleftrightarrow> q = q'"
  by (simp_all add: ret_def quit_def)

lemma prog_cases: obtains e where "m = Inl e" | q where "m = quit q" | x where "m = ret x"
  by (cases m; cases "projr m") (auto simp: ret_def quit_def)

lemma pbind_assoc: "pbind (pbind m f) g = pbind m (\<lambda>x. pbind (f x) g)"
  by (cases m rule: prog_cases) simp_all

lemma pbind_eq_ret_iff: "pbind m f = ret y \<longleftrightarrow> (\<exists>x. m = ret x \<and> f x = ret y)"
  by (cases m rule: prog_cases) auto

lemma pbind_cong [fundef_cong]:
  "m = m' \<Longrightarrow> (\<And>x. m' = ret x \<Longrightarrow> f x = f' x) \<Longrightarrow> pbind m f = pbind m' f'"
  by (cases m' rule: prog_cases) auto

section \<open>Growing arrays\<close>

text \<open>
  \<^verbatim>\<open>winter_array_t\<close>. The memory behind \<open>elements\<close> is a list of slots; \<open>None\<close> is a slot that was not
  written since it was allocated. The answers of the next allocations are a list of booleans,
  \<open>[]\<close> when all of them succeed.
\<close>

record 'a winter_array =
  element_size :: u64
  elements :: "'a option list"
  alength :: u64
  allocated :: u64

type_synonym memory = "bool list"

fun allocation :: "memory \<Rightarrow> bool \<times> memory" where
  "allocation [] = (True, [])"
| "allocation (b # mem) = (b, mem)"

text \<open>The slots in a block of \<open>n * esz\<close> bytes, a product that wraps around.\<close>

definition slots_in :: "u64 \<Rightarrow> u64 \<Rightarrow> nat" where
  "slots_in n esz = unat (n * esz) div unat esz"

definition winter_array_init :: "u64 \<Rightarrow> memory \<Rightarrow> ('a winter_array \<times> memory) prog" where
  "winter_array_init esz mem = (case allocation mem of (ok, mem) \<Rightarrow>
     if \<not> ok then quit (Fatal ''Initial array allocation failed'')
     else ret (\<lparr>element_size = esz, elements = replicate (slots_in 8 esz) None, alength = 0, allocated = 8\<rparr>, mem))"

text \<open>The element that \<^verbatim>\<open>_winter_array_get\<close> points to.\<close>

definition winter_array_get :: "'a winter_array \<Rightarrow> u64 \<Rightarrow> 'a outcome" where
  "winter_array_get arr index =
     (if unat index < length (elements arr)
      then (case elements arr ! unat index of None \<Rightarrow> Inl Indeterminate | Some x \<Rightarrow> Inr x)
      else Inl Out_of_bounds)"

text \<open>\<^verbatim>\<open>realloc\<close> keeps the contents as far as they fit.\<close>

definition realloc :: "'a option list \<Rightarrow> nat \<Rightarrow> 'a option list" where
  "realloc xs n = take n xs @ replicate (n - length xs) None"

definition winter_array_grow :: "'a winter_array \<Rightarrow> memory \<Rightarrow> ('a winter_array \<times> memory) prog" where
  "winter_array_grow arr mem =
     (let n = allocated arr * 2 in
      case allocation mem of (ok, mem) \<Rightarrow>
      if \<not> ok then quit (Fatal ''Array reallocation failed'')
      else ret (arr\<lparr>allocated := n, elements := realloc (elements arr) (slots_in n (element_size arr))\<rparr>, mem))"

definition winter_array_push :: "'a winter_array \<Rightarrow> 'a \<Rightarrow> memory \<Rightarrow> ('a winter_array \<times> memory) prog" where
  "winter_array_push arr x mem =
     pbind (if allocated arr \<le> alength arr then winter_array_grow arr mem else ret (arr, mem)) (\<lambda>(arr, mem).
     if unat (alength arr) < length (elements arr)
     then ret (arr\<lparr>elements := (elements arr)[unat (alength arr) := Some x], alength := alength arr + 1\<rparr>, mem)
     else Inl Out_of_bounds)"

section \<open>An array is a list\<close>

text \<open>The contract of a container that only grows: \<open>limit\<close> is the number of elements it can hold.\<close>

locale growing_list =
  fixes rep :: "'a list \<Rightarrow> 'arr \<Rightarrow> bool"
    and get :: "'arr \<Rightarrow> u64 \<Rightarrow> 'a outcome"
    and push :: "'arr \<Rightarrow> 'a \<Rightarrow> memory \<Rightarrow> ('arr \<times> memory) prog"
    and limit :: nat
  assumes get_rep: "rep xs arr \<Longrightarrow> unat i < length xs \<Longrightarrow> get arr i = Inr (xs ! unat i)"
    and push_rep: "rep xs arr \<Longrightarrow> length xs < limit \<Longrightarrow> push arr x mem = ret (arr', mem') \<Longrightarrow> rep (xs @ [x]) arr'"
    and push_works: "rep xs arr \<Longrightarrow> length xs < limit \<Longrightarrow> \<exists>arr'. push arr x [] = ret (arr', [])"
    and push_quits: "rep xs arr \<Longrightarrow> length xs < limit \<Longrightarrow> \<exists>r. push arr x mem = Inr r"

primrec push_all :: "('arr \<Rightarrow> 'a \<Rightarrow> memory \<Rightarrow> ('arr \<times> memory) prog) \<Rightarrow> 'a list \<Rightarrow> 'arr \<Rightarrow> memory \<Rightarrow> ('arr \<times> memory) prog" where
  "push_all push [] arr mem = ret (arr, mem)"
| "push_all push (x # xs) arr mem = pbind (push arr x mem) (\<lambda>(arr, mem). push_all push xs arr mem)"

primrec read_all :: "('arr \<Rightarrow> u64 \<Rightarrow> 'a outcome) \<Rightarrow> 'arr \<Rightarrow> nat list \<Rightarrow> 'a list outcome" where
  "read_all get arr [] = Inr []"
| "read_all get arr (i # is) = obind (get arr (of_nat i)) (\<lambda>x. obind (read_all get arr is) (\<lambda>xs. Inr (x # xs)))"

context growing_list
begin

lemma push_all_rep:
  assumes "rep xs arr" and "length xs + length ys \<le> limit" and "push_all push ys arr mem = ret (arr', mem')"
  shows "rep (xs @ ys) arr'"
  using assms
proof (induction ys arbitrary: xs arr mem)
  case (Cons y ys)
  then obtain arr1 mem1 where p: "push arr y mem = ret (arr1, mem1)" "push_all push ys arr1 mem1 = ret (arr', mem')"
    by (auto simp: pbind_eq_ret_iff)
  then have "rep (xs @ [y]) arr1" using Cons.prems push_rep by fastforce
  from Cons.IH [OF this _ p(2)] Cons.prems(2) show ?case by simp
qed simp

lemma push_all_works:
  assumes "rep xs arr" and "length xs + length ys \<le> limit"
  shows "\<exists>arr'. push_all push ys arr [] = ret (arr', []) \<and> rep (xs @ ys) arr'"
  using assms
proof (induction ys arbitrary: xs arr)
  case (Cons y ys)
  then obtain arr1 where p: "push arr y [] = ret (arr1, [])" using push_works [of xs arr y] by auto
  then have "rep (xs @ [y]) arr1" using Cons.prems push_rep [of xs arr y "[]"] by simp
  with Cons.IH [OF this] Cons.prems(2) p show ?case by simp
qed simp

lemma push_all_total:
  assumes "rep xs arr" and "length xs + length ys \<le> limit"
  shows "\<exists>r. push_all push ys arr mem = Inr r"
  using assms
proof (induction ys arbitrary: xs arr mem)
  case (Cons y ys)
  then obtain r where p: "push arr y mem = Inr r" using push_quits [of xs arr y mem] by auto
  show ?case
  proof (cases "push arr y mem" rule: prog_cases)
    case (3 x)
    obtain arr' mem' where x: "x = (arr', mem')" by (cases x)
    have "rep (xs @ [y]) arr'" using push_rep [OF Cons.prems(1) _ 3 [unfolded x]] Cons.prems(2) by simp
    from Cons.IH [OF this] Cons.prems(2) show ?thesis by (simp add: 3 x)
  qed (use p in \<open>simp_all add: quit_def pbind_def\<close>)
qed (simp add: ret_def)

lemma read_all_rep:
  assumes "rep xs arr" and "\<forall>i \<in> set is. i < length xs" and "length xs < 2 ^ 64"
  shows "read_all get arr is = Inr (map ((!) xs) is)"
  using assms(2)
proof (induction "is")
  case (Cons i "is")
  then have "unat (of_nat i :: u64) = i" using assms(3) by (simp add: unat_of_nat take_bit_eq_mod)
  then show ?case using Cons get_rep [OF assms(1), of "of_nat i"] by simp
qed simp

end

definition array_rep :: "u64 \<Rightarrow> 'a list \<Rightarrow> 'a winter_array \<Rightarrow> bool" where
  "array_rep esz xs arr \<longleftrightarrow> element_size arr = esz \<and> unat (alength arr) = length xs \<and>
     length (elements arr) = unat (allocated arr) \<and> length xs \<le> unat (allocated arr) \<and>
     8 \<le> unat (allocated arr) \<and> unat (allocated arr) \<le> max 8 (2 * length xs) \<and>
     take (length xs) (elements arr) = map Some xs"

definition array_limit :: "u64 \<Rightarrow> nat" where
  "array_limit esz = (2 ^ 64 - 1) div (2 * unat esz)"

lemma unat_mult_u64: "unat a * unat b < 2 ^ 64 \<Longrightarrow> unat (a * b :: u64) = unat a * unat b"
  by (simp add: unat_word_ariths)

lemma slots_in_exact: "unat n * unat esz < 2 ^ 64 \<Longrightarrow> esz \<noteq> 0 \<Longrightarrow> slots_in n esz = unat n"
  by (simp add: slots_in_def unat_mult_u64 unat_gt_0)

lemma array_rep_init:
  assumes "esz \<noteq> 0" and "8 * unat esz < 2 ^ 64"
  shows "winter_array_init esz mem =
    (if fst (allocation mem) then ret (\<lparr>element_size = esz, elements = replicate 8 None, alength = 0, allocated = 8\<rparr>, snd (allocation mem))
     else quit (Fatal ''Initial array allocation failed''))"
    and "array_rep esz [] \<lparr>element_size = esz, elements = replicate 8 None, alength = 0, allocated = 8\<rparr>"
  using assms slots_in_exact [of 8 esz] by (simp_all add: winter_array_init_def array_rep_def split: prod.splits)

lemma array_rep_get: "array_rep esz xs arr \<Longrightarrow> unat i < length xs \<Longrightarrow> winter_array_get arr i = Inr (xs ! unat i)"
proof -
  assume r: "array_rep esz xs arr" and i: "unat i < length xs"
  then have "elements arr ! unat i = take (length xs) (elements arr) ! unat i" by simp
  also have "\<dots> = Some (xs ! unat i)" using r i by (simp add: array_rep_def)
  finally show ?thesis using r i by (simp add: winter_array_get_def array_rep_def)
qed

lemma array_rep_grow:
  assumes r: "array_rep esz xs arr" and lim: "length xs < array_limit esz" and full: "allocated arr \<le> alength arr"
  shows "winter_array_grow arr mem = (if fst (allocation mem)
      then ret (arr\<lparr>allocated := allocated arr * 2, elements := elements arr @ replicate (length xs) None\<rparr>, snd (allocation mem))
      else quit (Fatal ''Array reallocation failed''))"
    and "unat (allocated arr * 2) = 2 * length xs"
proof -
  have n: "unat (allocated arr) = length xs" using r full by (simp add: array_rep_def word_le_nat_alt)
  have "2 * unat esz * length xs \<le> 2 * unat esz * array_limit esz" using lim by simp
  also have "\<dots> \<le> 2 ^ 64 - 1" by (simp add: array_limit_def times_div_less_eq_dividend)
  also have "\<dots> < 2 ^ 64" by simp
  finally have b: "2 * unat esz * length xs < 2 ^ 64" .
  have z: "esz \<noteq> 0" using lim by (auto simp: array_limit_def)
  then obtain m where m: "unat esz = Suc m" by (cases "unat esz") (auto simp: unat_eq_zero)
  have "2 * length xs < 2 ^ 64" by (rule le_less_trans [OF _ b]) (simp add: m)
  then have "unat (allocated arr) * unat (2 :: u64) < 2 ^ 64" using n by simp
  from unat_mult_u64 [OF this] show u: "unat (allocated arr * 2) = 2 * length xs" using n by simp
  have "2 * length xs * unat esz < 2 ^ 64" using b by (simp only: mult.commute mult.left_commute)
  then have "slots_in (allocated arr * 2) esz = 2 * length xs"
    using slots_in_exact [OF _ z, of "allocated arr * 2"] unfolding u by blast
  then show "winter_array_grow arr mem = (if fst (allocation mem)
      then ret (arr\<lparr>allocated := allocated arr * 2, elements := elements arr @ replicate (length xs) None\<rparr>, snd (allocation mem))
      else quit (Fatal ''Array reallocation failed''))"
    using r n by (simp add: winter_array_grow_def Let_def realloc_def array_rep_def split: prod.splits)
qed

lemma array_rep_put:
  assumes "element_size arr = esz" and "unat (alength arr) = length xs" and "length (elements arr) = unat (allocated arr)"
    and "length xs < unat (allocated arr)" and "8 \<le> unat (allocated arr)" and "unat (allocated arr) \<le> max 8 (2 * Suc (length xs))"
    and "take (length xs) (elements arr) = map Some xs"
  shows "array_rep esz (xs @ [x]) (arr\<lparr>elements := (elements arr)[unat (alength arr) := Some x], alength := alength arr + 1\<rparr>)"
proof -
  have "unat (allocated arr) < 2 ^ 64" using unsigned_less [of "allocated arr", where ?'a = nat] by simp
  then have "unat (alength arr + 1) = Suc (length xs)" using assms(2,4) by (simp add: unat_word_ariths)
  moreover have "take (Suc (length xs)) ((elements arr)[length xs := Some x]) = map Some xs @ [Some x]"
    using assms(3,4,7) by (simp add: take_Suc_conv_app_nth)
  ultimately show ?thesis using assms by (simp add: array_rep_def)
qed

lemma array_push_cases:
  assumes r: "array_rep esz xs arr" and lim: "length xs < array_limit esz"
  shows "(\<exists>arr' mem'. winter_array_push arr x mem = ret (arr', mem') \<and> array_rep esz (xs @ [x]) arr' \<and> (mem = [] \<longrightarrow> mem' = [])) \<or>
    mem \<noteq> [] \<and> winter_array_push arr x mem = quit (Fatal ''Array reallocation failed'')"
proof (cases "allocated arr \<le> alength arr")
  case False
  then have "length xs < unat (allocated arr)" using r by (simp add: array_rep_def word_le_nat_alt)
  then show ?thesis
    using False r array_rep_put [of arr esz xs x] by (auto simp: winter_array_push_def array_rep_def)
next
  case True
  note G = array_rep_grow [OF r lim True]
  show ?thesis
  proof (cases "fst (allocation mem)")
    case False
    then have "mem \<noteq> []" by auto
    then show ?thesis using True False by (simp add: winter_array_push_def G(1))
  next
    case ok: True
    let ?arr = "arr\<lparr>allocated := allocated arr * 2, elements := elements arr @ replicate (length xs) None\<rparr>"
    have n: "unat (allocated arr) = length xs" using r True by (simp add: array_rep_def word_le_nat_alt)
    then have "8 \<le> length xs" using r by (simp add: array_rep_def)
    then have ne: "xs \<noteq> []" by auto
    then have rep: "array_rep esz (xs @ [x]) (?arr\<lparr>elements := (elements ?arr)[unat (alength ?arr) := Some x], alength := alength ?arr + 1\<rparr>)"
      using r n ne \<open>8 \<le> length xs\<close> G(2) by (intro array_rep_put) (simp_all add: array_rep_def)
    have "unat (alength ?arr) < length (elements ?arr)" using r n ne by (simp add: array_rep_def)
    then have "winter_array_push arr x mem =
        ret (?arr\<lparr>elements := (elements ?arr)[unat (alength ?arr) := Some x], alength := alength ?arr + 1\<rparr>, snd (allocation mem))"
      using True ok by (simp add: winter_array_push_def G(1))
    with rep show ?thesis by (intro disjI1 exI conjI) auto
  qed
qed

interpretation winter_arrays: growing_list "array_rep esz" winter_array_get winter_array_push "array_limit esz" for esz
proof
  show "array_rep esz xs arr \<Longrightarrow> unat i < length xs \<Longrightarrow> winter_array_get arr i = Inr (xs ! unat i)"
    for xs :: "'a list" and arr i by (rule array_rep_get)
  fix xs :: "'a list" and arr x mem
  assume r: "array_rep esz xs arr" "length xs < array_limit esz"
  note C = array_push_cases [OF r, of x]
  show "winter_array_push arr x mem = ret (arr', mem') \<Longrightarrow> array_rep esz (xs @ [x]) arr'" for arr' mem'
    using C [of mem] by auto
  show "\<exists>arr'. winter_array_push arr x [] = ret (arr', [])" using C [of "[]"] by auto
  show "\<exists>r. winter_array_push arr x mem = Inr r" using C [of mem] by (auto simp: ret_def quit_def)
qed

section \<open>Property\<close>

text \<open>
  C24: An array of the test framework is a list. From initialisation, any sequence of pushes
  below the limit that the 64-bit sizes set keeps all elements in order, through all
  reallocations, at every index below the length; at most half of the slots are unused beyond the first
  eight. Whatever the allocator answers there is no access out of bounds and no read of a slot that was not
  written: the program ends with a message when an allocation fails.
\<close>

theorem winter_array_is_list:
  assumes "esz \<noteq> 0" and "8 * unat esz < 2 ^ 64" and "length xs \<le> array_limit esz"
  shows "(\<exists>arr0 arr. winter_array_init esz [] = ret (arr0, []) \<and> push_all winter_array_push xs arr0 [] = ret (arr, []) \<and>
      unat (alength arr) = length xs \<and> unat (allocated arr) \<le> max 8 (2 * length xs) \<and>
      (\<forall>i < length xs. winter_array_get arr (of_nat i) = Inr (xs ! i))) \<and>
    (\<exists>r. pbind (winter_array_init esz mem) (\<lambda>(arr, mem). push_all winter_array_push xs arr mem) = Inr r)"
proof
  let ?arr = "\<lparr>element_size = esz, elements = replicate 8 None, alength = 0, allocated = 8\<rparr> :: 'a winter_array"
  note I = array_rep_init [OF assms(1,2)]
  have "length ([] :: 'a list) + length xs \<le> array_limit esz" using assms(3) by simp
  from winter_arrays.push_all_works [OF I(2) this] obtain arr where
    a: "push_all winter_array_push xs ?arr [] = ret (arr, [])" "array_rep esz xs arr" by auto
  have n: "unat (alength arr) = length xs" "unat (allocated arr) \<le> max 8 (2 * length xs)" using a(2) by (simp_all add: array_rep_def)
  have "length xs < 2 ^ 64" using n(1) unsigned_less [of "alength arr", where ?'a = nat] by simp
  then have "\<forall>i < length xs. winter_array_get arr (of_nat i) = Inr (xs ! i)"
    using winter_arrays.get_rep [OF a(2)] by (simp add: unat_of_nat take_bit_eq_mod)
  with a(1) n I(1) [of "[]"] show "\<exists>arr0 arr. winter_array_init esz [] = ret (arr0, []) \<and> push_all winter_array_push xs arr0 [] = ret (arr, []) \<and>
      unat (alength arr) = length xs \<and> unat (allocated arr) \<le> max 8 (2 * length xs) \<and>
      (\<forall>i < length xs. winter_array_get arr (of_nat i) = Inr (xs ! i))" by auto
  have "\<exists>r. push_all winter_array_push xs ?arr mem' = Inr r" for mem'
    using winter_arrays.push_all_total [OF I(2)] assms(3) by simp
  then show "\<exists>r. pbind (winter_array_init esz mem) (\<lambda>(arr, mem). push_all winter_array_push xs arr mem) = Inr r"
    by (simp add: I(1) ret_def [symmetric]) (simp add: quit_def)
qed

theorem winter_array_is_list_witness:
  "\<exists>arr0 arr. winter_array_init 16 [] = ret (arr0, []) \<and> push_all winter_array_push (map of_nat [0..<20] :: u64 list) arr0 [] = ret (arr, []) \<and>
    winter_array_get arr 19 = Inr 19"
proof -
  let ?xs = "map of_nat [0..<20] :: u64 list"
  have "(16 :: u64) \<noteq> 0" "8 * unat (16 :: u64) < 2 ^ 64" "length ?xs \<le> array_limit 16" by (simp_all add: array_limit_def)
  from conjunct1 [OF winter_array_is_list [OF this, of "[]"]] obtain arr0 arr where
    a: "winter_array_init 16 [] = ret (arr0, [])" "push_all winter_array_push ?xs arr0 [] = ret (arr, [])"
    "\<forall>i < length ?xs. winter_array_get arr (of_nat i) = Inr (?xs ! i)" by blast
  from spec [OF a(3), of 19] have "winter_array_get arr 19 = Inr 19" by (simp del: upt_Suc)
  with a(1,2) show ?thesis by auto
qed

end
