(* ===== verification/WinterOptions.thy ===== *)
theory WinterOptions
  imports Winter
begin

text \<open>
  Patterns that select tests, and the command line of the test framework: the loop of
  \<^verbatim>\<open>_winter_parse_args\<close> over the arguments, and a round trip for the command lines a user writes.
\<close>

section \<open>C strings\<close>

definition NUL :: char where "NUL = CHR 0x00"

text \<open>\<^verbatim>\<open>s[i]\<close>: the terminator can be read, what follows it cannot.\<close>

definition cstr_char :: "string \<Rightarrow> nat \<Rightarrow> char outcome" where
  "cstr_char s i = (if i < length s then Inr (s ! i) else if i = length s then Inr NUL else Inl Out_of_bounds)"

text \<open>\<^verbatim>\<open>strncmp(a, b, n) == 0\<close>\<close>

definition strncmp_eq :: "nat \<Rightarrow> string \<Rightarrow> string \<Rightarrow> bool" where
  "strncmp_eq n a b \<longleftrightarrow> take n a = take n b"

text \<open>\<^verbatim>\<open>strchr(s, c)\<close>: the string from the first \<open>c\<close> on.\<close>

fun strchr :: "string \<Rightarrow> char \<Rightarrow> string option" where
  "strchr [] c = None"
| "strchr (x # xs) c = (if x = c then Some (x # xs) else strchr xs c)"

section \<open>Patterns\<close>

definition winter_pattern_match_suite :: "string \<Rightarrow> string \<Rightarrow> bool" where
  "winter_pattern_match_suite pattern name =
     (let len = (case strchr pattern CHR '':'' of Some separator \<Rightarrow> length pattern - length separator | None \<Rightarrow> length pattern) in
      len = length name \<and> strncmp_eq len name pattern)"

text \<open>The answers of \<^verbatim>\<open>fnmatch(3)\<close>, which is a parameter.\<close>

datatype fnmatch_result = Fnm_match | Fnm_nomatch | Fnm_error

definition winter_pattern_match_test :: "(string \<Rightarrow> string \<Rightarrow> fnmatch_result) \<Rightarrow> string \<Rightarrow> string \<Rightarrow> bool prog" where
  "winter_pattern_match_test fnmatch pattern name =
     (case strchr pattern CHR '':'' of None \<Rightarrow> ret True
      | Some separator \<Rightarrow>
          (case fnmatch (tl separator) name of
             Fnm_match \<Rightarrow> ret True
           | Fnm_nomatch \<Rightarrow> ret False
           | Fnm_error \<Rightarrow> quit (Fatal (''Failed to match pattern: '' @ pattern))))"

section \<open>Options\<close>

datatype winter_opt_id = OPT_VERSION | OPT_HELP | OPT_LIST | OPT_COLOR | OPT_DEBUG | OPT_RERUN | OPT_TIMEOUT

fun opt_index :: "winter_opt_id \<Rightarrow> nat" where
  "opt_index OPT_VERSION = 0"
| "opt_index OPT_HELP = 1"
| "opt_index OPT_LIST = 2"
| "opt_index OPT_COLOR = 3"
| "opt_index OPT_DEBUG = 4"
| "opt_index OPT_RERUN = 5"
| "opt_index OPT_TIMEOUT = 6"

text \<open>The union of the two kinds of value; which one is read depends on \<open>is_flag\<close> alone.\<close>

datatype opt_value = Bool_val bool | Str_val "string option"

record winter_opt =
  oname :: string
  short_name :: char
  is_flag :: bool
  overwritten :: bool
  oval :: opt_value

definition winter_opt_flag :: "string \<Rightarrow> char \<Rightarrow> winter_opt" where
  "winter_opt_flag n sn = \<lparr>oname = n, short_name = sn, is_flag = True, overwritten = False, oval = Bool_val False\<rparr>"

definition winter_opt_str :: "string \<Rightarrow> winter_opt" where
  "winter_opt_str n = \<lparr>oname = n, short_name = NUL, is_flag = False, overwritten = False, oval = Str_val None\<rparr>"

definition initial_opts :: "winter_opt list" where
  "initial_opts =
     [winter_opt_flag ''version'' CHR ''v'', winter_opt_flag ''help'' CHR ''h'', winter_opt_flag ''list'' CHR ''l'',
      winter_opt_flag ''color'' CHR ''c'', winter_opt_str ''debug'', winter_opt_flag ''rerun'' CHR ''r'',
      winter_opt_flag ''timeout'' CHR ''t'']"

fun bool_val :: "winter_opt \<Rightarrow> bool" where
  "bool_val opt = (case oval opt of Bool_val b \<Rightarrow> b | Str_val s \<Rightarrow> s \<noteq> None)"

fun str_val :: "winter_opt \<Rightarrow> string option" where
  "str_val opt = (case oval opt of Str_val s \<Rightarrow> s | Bool_val b \<Rightarrow> None)"

definition winter_opt_default :: "winter_opt \<Rightarrow> bool \<Rightarrow> winter_opt" where
  "winter_opt_default opt val = (if \<not> overwritten opt then opt\<lparr>oval := Bool_val val\<rparr> else opt)"

text \<open>The inner loop: the first option that the argument names.\<close>

fun find_option :: "bool \<Rightarrow> string \<Rightarrow> winter_opt list \<Rightarrow> nat \<Rightarrow> nat option outcome" where
  "find_option is_long name [] j = Inr None"
| "find_option is_long name (opt # opts) j =
     obind (if is_long then Inr (oname opt = name) else obind (cstr_char name 0) (\<lambda>c. Inr (short_name opt = c))) (\<lambda>valid.
     if valid then Inr (Some j) else find_option is_long name opts (Suc j))"

text \<open>The outer loop, over the arguments that are left.\<close>

fun parse_loop ::
  "string list \<Rightarrow> winter_opt list \<Rightarrow> string winter_array \<Rightarrow> memory \<Rightarrow> (winter_opt list \<times> string winter_array \<times> memory) prog" where
  "parse_loop [] opts patterns mem = ret (opts, patterns, mem)"
| "parse_loop (arg # args) opts patterns mem =
     pbind (lift (cstr_char arg 0)) (\<lambda>c0.
     if c0 \<noteq> CHR ''-'' then
       pbind (winter_array_push patterns arg mem) (\<lambda>(patterns, mem). parse_loop args opts patterns mem)
     else
       pbind (lift (cstr_char arg 1)) (\<lambda>c1.
       let is_long = (c1 = CHR ''-'');
           name = (if is_long then drop 2 arg else drop 1 arg);
           inverted = (is_long \<and> strncmp_eq 3 name ''no-'');
           name = (if inverted then drop 3 name else name) in
       pbind (lift (find_option is_long name opts 0)) (\<lambda>found.
       case found of
         None \<Rightarrow> quit (Fatal (''Unknown option: '' @ arg))
       | Some j \<Rightarrow>
           if is_flag (opts ! j) then
             parse_loop args (opts[j := (opts ! j)\<lparr>overwritten := True, oval := Bool_val (\<not> inverted)\<rparr>]) patterns mem
           else
             (case args of
                [] \<Rightarrow> quit (Fatal (''Option '' @ arg @ '' requires an argument''))
              | val # args' \<Rightarrow>
                  parse_loop args' (opts[j := (opts ! j)\<lparr>overwritten := True, oval := Str_val (Some val)\<rparr>]) patterns mem))))"

section \<open>Command lines as users write them\<close>

text \<open>One item of a command line, the arguments it consists of, and what it means.\<close>

datatype item = Long_flag winter_opt_id bool | Short_flag winter_opt_id | Debug_arg string | Pattern_arg string

fun opt_name :: "winter_opt_id \<Rightarrow> string" where
  "opt_name OPT_VERSION = ''version''"
| "opt_name OPT_HELP = ''help''"
| "opt_name OPT_LIST = ''list''"
| "opt_name OPT_COLOR = ''color''"
| "opt_name OPT_DEBUG = ''debug''"
| "opt_name OPT_RERUN = ''rerun''"
| "opt_name OPT_TIMEOUT = ''timeout''"

fun item_args :: "item \<Rightarrow> string list" where
  "item_args (Long_flag opt b) = [''--'' @ (if b then [] else ''no-'') @ opt_name opt]"
| "item_args (Short_flag opt) = [''-'' @ take 1 (opt_name opt)]"
| "item_args (Debug_arg pattern) = [''--debug'', pattern]"
| "item_args (Pattern_arg pattern) = [pattern]"

fun item_ok :: "item \<Rightarrow> bool" where
  "item_ok (Long_flag opt b) = (opt \<noteq> OPT_DEBUG)"
| "item_ok (Short_flag opt) = (opt \<noteq> OPT_DEBUG)"
| "item_ok (Debug_arg pattern) = True"
| "item_ok (Pattern_arg pattern) = (\<not> (\<exists>rest. pattern = CHR ''-'' # rest))"

definition set_opt :: "winter_opt_id \<Rightarrow> opt_value \<Rightarrow> winter_opt list \<Rightarrow> winter_opt list" where
  "set_opt opt val opts = opts[opt_index opt := (opts ! opt_index opt)\<lparr>overwritten := True, oval := val\<rparr>]"

fun item_opts :: "item \<Rightarrow> winter_opt list \<Rightarrow> winter_opt list" where
  "item_opts (Long_flag opt b) opts = set_opt opt (Bool_val b) opts"
| "item_opts (Short_flag opt) opts = set_opt opt (Bool_val True) opts"
| "item_opts (Debug_arg pattern) opts = set_opt OPT_DEBUG (Str_val (Some pattern)) opts"
| "item_opts (Pattern_arg pattern) opts = opts"

fun item_patterns :: "item \<Rightarrow> string list" where
  "item_patterns (Pattern_arg pattern) = [pattern]"
| "item_patterns _ = []"

definition names_ok :: "winter_opt list \<Rightarrow> bool" where
  "names_ok opts \<longleftrightarrow> map (\<lambda>opt. (oname opt, short_name opt, is_flag opt)) opts =
     map (\<lambda>opt. (oname opt, short_name opt, is_flag opt)) initial_opts"

lemma names_ok_initial [simp]: "names_ok initial_opts"
  by (simp add: names_ok_def)

lemma map_update_same: "f x = f (xs ! i) \<Longrightarrow> map f (xs[i := x]) = map f xs"
  by (cases "i < length xs") (simp_all add: map_update list_update_same_conv list_update_beyond)

lemma names_ok_set [simp]: "names_ok opts \<Longrightarrow> names_ok (set_opt opt val opts)"
  unfolding names_ok_def set_opt_def by (subst map_update_same) simp_all

text \<open>The options are found under their names, and \<^verbatim>\<open>debug\<close> also under the empty short name.\<close>

lemma find_option_names:
  assumes "names_ok opts"
  shows "find_option True (opt_name opt) opts 0 = Inr (Some (opt_index opt))"
    and "opt \<noteq> OPT_DEBUG \<Longrightarrow> find_option False (take 1 (opt_name opt)) opts 0 = Inr (Some (opt_index opt))"
    and "find_option False [] opts 0 = Inr (Some (opt_index OPT_DEBUG))"
    and "is_flag (opts ! opt_index opt) \<longleftrightarrow> opt \<noteq> OPT_DEBUG"
proof -
  have "length opts = length initial_opts" using assms unfolding names_ok_def by (rule map_eq_imp_length_eq)
  then have "length opts = Suc (Suc (Suc (Suc (Suc (Suc (Suc 0))))))" by (simp add: initial_opts_def)
  then obtain a b c d e f g where o: "opts = [a, b, c, d, e, f, g]" by (auto simp: length_Suc_conv)
  note N = assms [unfolded o names_ok_def initial_opts_def winter_opt_flag_def winter_opt_str_def NUL_def]
  show "find_option True (opt_name opt) opts 0 = Inr (Some (opt_index opt))"
    using N unfolding o by (cases opt) simp_all
  show "opt \<noteq> OPT_DEBUG \<Longrightarrow> find_option False (take 1 (opt_name opt)) opts 0 = Inr (Some (opt_index opt))"
    using N unfolding o by (cases opt) (simp_all add: cstr_char_def)
  show "find_option False [] opts 0 = Inr (Some (opt_index OPT_DEBUG))"
    using N unfolding o by (simp add: cstr_char_def NUL_def)
  show "is_flag (opts ! opt_index opt) \<longleftrightarrow> opt \<noteq> OPT_DEBUG"
    using N unfolding o by (cases opt) simp_all
qed

lemma parse_item:
  assumes ok: "item_ok x" and n: "names_ok opts"
  shows "parse_loop (item_args x @ args) opts patterns mem =
    pbind (push_all winter_array_push (item_patterns x) patterns mem) (\<lambda>(patterns, mem). parse_loop args (item_opts x opts) patterns mem)"
proof (cases x)
  case (Long_flag opt b)
  have "strncmp_eq 3 (opt_name opt) ''no-'' = False" for opt by (cases opt) (simp_all add: strncmp_eq_def)
  moreover have "opt_name opt \<noteq> []" by (cases opt) simp_all
  ultimately show ?thesis
    using ok find_option_names(1,4) [OF n, of opt]
    by (cases b) (simp_all add: Long_flag cstr_char_def set_opt_def strncmp_eq_def)
next
  case (Short_flag opt)
  obtain c rest where o: "opt_name opt = c # rest" "c \<noteq> CHR ''-''" by (cases opt) simp_all
  show ?thesis
    using ok find_option_names(2,4) [OF n, of opt] o(2) by (simp add: Short_flag o(1) cstr_char_def set_opt_def)
next
  case (Debug_arg p)
  show ?thesis
    using find_option_names(1,4) [OF n, of OPT_DEBUG] by (simp add: Debug_arg cstr_char_def set_opt_def strncmp_eq_def)
next
  case (Pattern_arg p)
  have "\<exists>c. cstr_char p 0 = Inr c \<and> c \<noteq> CHR ''-''"
    using ok by (cases p) (auto simp: Pattern_arg cstr_char_def NUL_def)
  then show ?thesis by (auto simp: Pattern_arg pbind_assoc split: prod.splits)
qed

lemma names_ok_item: "names_ok opts \<Longrightarrow> names_ok (item_opts x opts)"
  by (cases x) simp_all

lemma push_all_append:
  "push_all push (xs @ ys) arr mem = pbind (push_all push xs arr mem) (\<lambda>(arr, mem). push_all push ys arr mem)"
  by (induction xs arbitrary: arr mem) (simp_all add: pbind_assoc case_prod_beta')

lemma parse_items:
  assumes "\<forall>x \<in> set items. item_ok x" and "names_ok opts"
  shows "parse_loop (concat (map item_args items)) opts patterns mem =
    pbind (push_all winter_array_push (concat (map item_patterns items)) patterns mem)
      (\<lambda>(patterns, mem). ret (fold item_opts items opts, patterns, mem))"
  using assms
proof (induction items arbitrary: opts patterns mem)
  case (Cons x items)
  then show ?case
    using parse_item [of x opts "concat (map item_args items)" patterns mem] names_ok_item [of opts x]
    by (simp add: push_all_append pbind_assoc case_prod_beta')
qed simp

text \<open>What the patterns match: a suite name, with an optional pattern for the test name.\<close>

lemma strchr_takeWhile:
  "strchr s c = (case dropWhile (\<lambda>x. x \<noteq> c) s of [] \<Rightarrow> None | rest \<Rightarrow> Some rest)"
  by (induction s) auto

lemma match_suite_iff: "winter_pattern_match_suite pattern name \<longleftrightarrow> name = takeWhile (\<lambda>c. c \<noteq> CHR '':'') pattern"
proof -
  define pre where "pre = takeWhile (\<lambda>c. c \<noteq> CHR '':'') pattern"
  define post where "post = dropWhile (\<lambda>c. c \<noteq> CHR '':'') pattern"
  have p: "pattern = pre @ post" by (simp add: pre_def post_def)
  have "strchr pattern CHR '':'' = (case post of [] \<Rightarrow> None | rest \<Rightarrow> Some rest)" by (simp only: strchr_takeWhile post_def)
  then have "(case strchr pattern CHR '':'' of Some separator \<Rightarrow> length pattern - length separator | None \<Rightarrow> length pattern) = length pre"
    unfolding p by (cases post) simp_all
  then have "winter_pattern_match_suite pattern name \<longleftrightarrow> length pre = length name \<and> take (length pre) name = take (length pre) (pre @ post)"
    unfolding winter_pattern_match_suite_def Let_def strncmp_eq_def by (simp add: p)
  then show ?thesis unfolding pre_def [symmetric] by auto
qed

section \<open>Properties\<close>

text \<open>
  C23: The command line is understood as it is written. Any sequence of long flags (also
  negated), short flags, patterns, and \<^verbatim>\<open>--debug\<close> with its argument is accepted; the options have the values of
  their last mention, and the patterns are the array of all others in order.
\<close>

theorem parse_items_roundtrip:
  assumes "\<forall>x \<in> set items. item_ok x" and "length items \<le> array_limit esz" and "array_rep esz [] ps"
  shows "\<exists>ps'. parse_loop (concat (map item_args items)) initial_opts ps [] = ret (fold item_opts items initial_opts, ps', []) \<and>
    array_rep esz (concat (map item_patterns items)) ps'"
proof -
  have "length (concat (map item_patterns items)) \<le> length items"
  proof (induction items)
    case (Cons x items)
    then show ?case by (cases x) simp_all
  qed simp
  then have "length ([] :: string list) + length (concat (map item_patterns items)) \<le> array_limit esz" using assms(2) by simp
  from winter_arrays.push_all_works [OF assms(3) this] parse_items [OF assms(1) names_ok_initial, of ps "[]"] show ?thesis by auto
qed

lemma array_limit_8: "array_limit 8 = 2 ^ 60 - 1"
  by (simp add: array_limit_def)

theorem parse_items_roundtrip_witness:
  "\<exists>arr ps'. parse_loop [''--no-timeout'', ''pager:fix*'', ''-t'', ''--debug'', ''x''] initial_opts arr [] =
    ret (fold item_opts [Long_flag OPT_TIMEOUT False, Pattern_arg ''pager:fix*'', Short_flag OPT_TIMEOUT, Debug_arg ''x''] initial_opts, ps', [])"
proof -
  let ?items = "[Long_flag OPT_TIMEOUT False, Pattern_arg ''pager:fix*'', Short_flag OPT_TIMEOUT, Debug_arg ''x'']"
  have r: "array_rep 8 [] (\<lparr>element_size = 8, elements = replicate 8 None, alength = 0, allocated = 8\<rparr> :: string winter_array)"
    by (rule array_rep_init(2)) simp_all
  have "\<forall>x \<in> set ?items. item_ok x" "length ?items \<le> array_limit 8" by (simp_all add: array_limit_8)
  from parse_items_roundtrip [OF this r] show ?thesis by auto
qed

text \<open>
  What the options should not do. A lone \<^verbatim>\<open>-\<close> is taken for \<^verbatim>\<open>--debug\<close>, whose short name
  is the null character, and swallows the argument after it; and the options \<^verbatim>\<open>--pid\<close> and
  \<^verbatim>\<open>-p\<close> of the help text are refused as unknown.
\<close>

theorem parse_lone_dash_and_pid:
  "parse_loop ([CHR ''-''] # arg # args) initial_opts ps mem = parse_loop args (set_opt OPT_DEBUG (Str_val (Some arg)) initial_opts) ps mem \<and>
   (opt \<in> {''--pid'', ''--no-pid'', ''-p''} \<longrightarrow> parse_loop (opt # args) initial_opts ps mem = quit (Fatal (''Unknown option: '' @ opt)))"
proof
  show "parse_loop ([CHR ''-''] # arg # args) initial_opts ps mem = parse_loop args (set_opt OPT_DEBUG (Str_val (Some arg)) initial_opts) ps mem"
    using find_option_names(3) [OF names_ok_initial] find_option_names(4) [OF names_ok_initial, of OPT_DEBUG] by (simp add: cstr_char_def set_opt_def NUL_def)
  have "find_option True ''pid'' initial_opts 0 = Inr None" "find_option False ''p'' initial_opts 0 = Inr None"
    by (simp_all add: initial_opts_def winter_opt_flag_def winter_opt_str_def cstr_char_def NUL_def)
  then show "opt \<in> {''--pid'', ''--no-pid'', ''-p''} \<longrightarrow> parse_loop (opt # args) initial_opts ps mem = quit (Fatal (''Unknown option: '' @ opt))"
    by (auto simp: cstr_char_def strncmp_eq_def)
qed

theorem parse_lone_dash_and_pid_witness:
  "\<forall>ps. parse_loop [''-p'', ''varint''] initial_opts ps [] = quit (Fatal ''Unknown option: -p'')"
proof
  fix ps
  show "parse_loop [''-p'', ''varint''] initial_opts ps [] = quit (Fatal ''Unknown option: -p'')"
    using parse_lone_dash_and_pid [of "[]" "[''varint'']" ps "[]" "''-p''"] by simp
qed

end
