(* ===== verification/WinterRun.thy ===== *)
theory WinterRun
  imports WinterOptions
begin

text \<open>
  Running tests: suites and their registration, the process that runs one test, and the
  parent process that forks it, watches it and counts.

  The operating system is a parameter. What it answers to the next calls is the record
  \<open>world\<close>: the clock, the results of \<^verbatim>\<open>fork\<close>, \<^verbatim>\<open>waitpid\<close> and \<^verbatim>\<open>kill\<close>, and whether the user pressed
  ctrl-c. Times are microseconds, the resolution of \<^verbatim>\<open>gettimeofday\<close>; the rounding of the
  doubles that the code uses for them is not modelled. What is printed is kept as a list.
\<close>

section \<open>Tests and suites\<close>

definition WINTER_FUNC_INFO :: u64 where "WINTER_FUNC_INFO = 0"
definition WINTER_FUNC_BEFORE_EACH :: u64 where "WINTER_FUNC_BEFORE_EACH = 1"
definition WINTER_FUNC_AFTER_EACH :: u64 where "WINTER_FUNC_AFTER_EACH = 2"
definition WINTER_DEFAULT_TIMEOUT_MS :: int where "WINTER_DEFAULT_TIMEOUT_MS = 2000"

record winter_test =
  test_name :: string
  test_id :: u64
  test_threads :: u16
  test_timeout :: int

text \<open>
  The function that \<^verbatim>\<open>describe\<close> defines is a sequence of guarded blocks. A body works on the
  state \<open>'s\<close> of the process; its first argument is \<^verbatim>\<open>thread_index()\<close>. The number in a test is the
  value of \<^verbatim>\<open>__COUNTER__\<close>.
\<close>

type_synonym 's body = "u16 \<Rightarrow> 's \<Rightarrow> 's prog"

datatype 's block =
    Before_each "'s body"
  | After_each "'s body"
  | Test string u64 u16 int "'s body"

fun dec :: "nat \<Rightarrow> string" where
  "dec n = (if n < 10 then [char_of (48 + n)] else dec (n div 10) @ [char_of (48 + n mod 10)])"

definition it :: "string \<Rightarrow> u64 \<Rightarrow> 's body \<Rightarrow> 's block" where
  "it name i body = Test name i 1 (WINTER_DEFAULT_TIMEOUT_MS * 1000) body"

definition parallel :: "string \<Rightarrow> u16 \<Rightarrow> u64 \<Rightarrow> 's body \<Rightarrow> 's block" where
  "parallel name threads i body =
     Test (name @ '' (parallel '' @ dec (unat threads) @ '')'') i threads (WINTER_DEFAULT_TIMEOUT_MS * 1000) body"

definition test_block :: "string \<Rightarrow> int \<Rightarrow> u16 \<Rightarrow> u64 \<Rightarrow> 's body \<Rightarrow> 's block" where
  "test_block name timeout threads i body = Test name i threads (timeout * 1000 * 1000) body"

text \<open>A call of that function; \<open>out\<close> is the array the tests are pushed to, or null.\<close>

fun suite_func ::
  "'s block list \<Rightarrow> u64 \<Rightarrow> u16 \<Rightarrow> (winter_test winter_array \<times> memory) option \<Rightarrow> 's \<Rightarrow>
   ((winter_test winter_array \<times> memory) option \<times> 's) prog" where
  "suite_func [] index ti out s = ret (out, s)"
| "suite_func (Before_each body # bs) index ti out s =
     pbind (if index = WINTER_FUNC_BEFORE_EACH then body ti s else ret s) (\<lambda>s. suite_func bs index ti out s)"
| "suite_func (After_each body # bs) index ti out s =
     pbind (if index = WINTER_FUNC_AFTER_EACH then body ti s else ret s) (\<lambda>s. suite_func bs index ti out s)"
| "suite_func (Test name i threads timeout body # bs) index ti out s =
     pbind (if index = WINTER_FUNC_INFO then
         (case out of None \<Rightarrow> Inl Null_dereference
          | Some (arr, mem) \<Rightarrow>
              pbind (winter_array_push arr
                \<lparr>test_name = name, test_id = i + 6, test_threads = threads, test_timeout = timeout\<rparr> mem) (\<lambda>r. ret (Some r)))
       else ret out) (\<lambda>out.
     pbind (if index = i + 6 then body ti s else ret s) (\<lambda>s. suite_func bs index ti out s))"

record 's winter_suite =
  suite_name :: string
  suite_tests :: "winter_test winter_array"
  suite_blocks :: "'s block list"

record 's winter =
  initialized :: bool
  suites :: "'s winter_suite winter_array"
  patterns :: "string winter_array"
  opt_list :: bool
  opt_color :: bool
  opt_rerun :: bool
  opt_timeout :: bool

text \<open>The sizes of the elements of the three arrays, with pointers of eight bytes.\<close>

definition sizeof_suite :: u64 where "sizeof_suite = 48"
definition sizeof_test :: u64 where "sizeof_test = 32"
definition sizeof_pattern :: u64 where "sizeof_pattern = 8"

definition zero_array :: "'a winter_array" where
  "zero_array = \<lparr>element_size = 0, elements = [], alength = 0, allocated = 0\<rparr>"

definition zero_winter :: "'s winter" where
  "zero_winter = \<lparr>initialized = False, suites = zero_array, patterns = zero_array,
     opt_list = False, opt_color = False, opt_rerun = False, opt_timeout = False\<rparr>"

definition winter_initialize :: "'s winter \<Rightarrow> memory \<Rightarrow> ('s winter \<times> memory) prog" where
  "winter_initialize wt mem =
     (if initialized wt then ret (wt, mem)
      else
        pbind (winter_array_init sizeof_suite mem) (\<lambda>(ss, mem).
        pbind (winter_array_init sizeof_pattern mem) (\<lambda>(ps, mem).
        ret (wt\<lparr>initialized := True, suites := ss, patterns := ps\<rparr>, mem))))"

text \<open>The constructor that \<^verbatim>\<open>describe\<close> defines; \<open>s\<close> is the state of the process when it runs.\<close>

definition describe :: "string \<Rightarrow> 's block list \<Rightarrow> 's \<Rightarrow> 's winter \<Rightarrow> memory \<Rightarrow> ('s winter \<times> memory) prog" where
  "describe name blocks s wt mem =
     pbind (winter_initialize wt mem) (\<lambda>(wt, mem).
     pbind (winter_array_init sizeof_test mem) (\<lambda>(tests, mem).
     pbind (suite_func blocks WINTER_FUNC_INFO 0 (Some (tests, mem)) s) (\<lambda>(out, s).
     case out of None \<Rightarrow> Inl Null_dereference
     | Some (tests, mem) \<Rightarrow>
         pbind (winter_array_push (suites wt) \<lparr>suite_name = name, suite_tests = tests, suite_blocks = blocks\<rparr> mem) (\<lambda>(ss, mem).
         ret (wt\<lparr>suites := ss\<rparr>, mem)))))"

section \<open>The process of one test\<close>

text \<open>
  The threads of one test: \<open>run_threads\<close> is the combined effect of the bodies of all threads,
  and the other two fields tell which calls of \<^verbatim>\<open>pthread_create\<close> and \<^verbatim>\<open>pthread_join\<close> succeed.
\<close>

record 's threading =
  run_threads :: "(u16 \<Rightarrow> 's \<Rightarrow> 's prog) \<Rightarrow> u16 list \<Rightarrow> 's \<Rightarrow> 's prog"
  creates :: "u16 \<Rightarrow> bool"
  joins :: "u16 \<Rightarrow> bool"

text \<open>A call of the suite function that only runs blocks.\<close>

definition call_func :: "'s block list \<Rightarrow> u64 \<Rightarrow> u16 \<Rightarrow> 's \<Rightarrow> 's prog" where
  "call_func blocks index ti s = pbind (suite_func blocks index ti None s) (\<lambda>(out, s). ret s)"

definition winter_thread_entry :: "'s block list \<Rightarrow> winter_test \<Rightarrow> u16 \<Rightarrow> 's \<Rightarrow> 's prog" where
  "winter_thread_entry blocks test ti s = call_func blocks (test_id test) ti s"

definition winter_process_entry :: "'s threading \<Rightarrow> 's block list \<Rightarrow> winter_test \<Rightarrow> 's \<Rightarrow> 's prog" where
  "winter_process_entry os blocks test s =
     pbind (call_func blocks WINTER_FUNC_BEFORE_EACH 0 s) (\<lambda>s.
     pbind (if test_threads test = 1 then call_func blocks (test_id test) 0 s
       else
         let is = map of_nat [0..<unat (test_threads test)] in
         if \<not> list_all (creates os) is then quit (Exit WINTER_EXIT_FAILURE)
         else
           pbind (run_threads os (winter_thread_entry blocks test) is s) (\<lambda>s.
           if \<not> list_all (joins os) is then quit (Exit WINTER_EXIT_FAILURE) else ret s)) (\<lambda>s.
     call_func blocks WINTER_FUNC_AFTER_EACH 0 s))"

text \<open>
  How a process ends that then calls \<^verbatim>\<open>_exit(0)\<close>, as the macros \<^verbatim>\<open>WIFEXITED\<close> and so on show it. A failed
  assertion raises SIGABRT, any other fault is taken to end the process by SIGSEGV.
\<close>

datatype wstatus = Exited int | Signaled int | Abnormal

definition SIGABRT :: int where "SIGABRT = 6"
definition SIGSEGV :: int where "SIGSEGV = 11"

fun child_status :: "'s prog \<Rightarrow> wstatus" where
  "child_status (Inl e) = Signaled (if e = Assertion_failed then SIGABRT else SIGSEGV)"
| "child_status (Inr (Inl q)) = Exited (exit_code q mod 256)"
| "child_status (Inr (Inr s)) = Exited 0"

section \<open>The world\<close>

datatype wait_answer = Running | Ended | Failed int

text \<open>What is printed: text, or an elapsed time, whose format depends on its size.\<close>

datatype printout = Text string | Elapsed_us int | Elapsed_ms int | Elapsed_s int

datatype signal = SIGCONT | SIGKILL

record world =
  clock :: "nat \<Rightarrow> int"
  forks :: "nat \<Rightarrow> int"
  waits :: "nat \<Rightarrow> wait_answer"
  kills :: "nat \<Rightarrow> bool"
  aborts :: "nat \<Rightarrow> bool"
  printed :: "printout list"
  signals :: "(int \<times> signal) list"

definition EINTR :: int where "EINTR = 4"
definition ECHILD :: int where "ECHILD = 10"

definition say :: "string \<Rightarrow> world \<Rightarrow> world" where
  "say s w = w\<lparr>printed := printed w @ [Text s]\<rparr>"

definition winter_now :: "world \<Rightarrow> int \<times> world" where
  "winter_now w = (clock w 0, w\<lparr>clock := \<lambda>n. clock w (Suc n)\<rparr>)"

definition fork :: "world \<Rightarrow> int \<times> world" where
  "fork w = (forks w 0, w\<lparr>forks := \<lambda>n. forks w (Suc n)\<rparr>)"

definition next_wait :: "world \<Rightarrow> wait_answer \<times> world" where
  "next_wait w = (waits w 0, w\<lparr>waits := \<lambda>n. waits w (Suc n)\<rparr>)"

definition kill :: "int \<Rightarrow> signal \<Rightarrow> world \<Rightarrow> bool \<times> world" where
  "kill pid sig w = (kills w 0, w\<lparr>kills := \<lambda>n. kills w (Suc n), signals := signals w @ [(pid, sig)]\<rparr>)"

definition debug_abort :: "world \<Rightarrow> bool \<times> world" where
  "debug_abort w = (aborts w 0, w\<lparr>aborts := \<lambda>n. aborts w (Suc n)\<rparr>)"

section \<open>Printing\<close>

definition ESC :: string where "ESC = [CHR 0x1B]"
definition LF :: string where "LF = [CHR 0x0A]"
definition WINTER_COLOR_BOLD :: string where "WINTER_COLOR_BOLD = ESC @ ''[1m''"
definition WINTER_COLOR_RESET :: string where "WINTER_COLOR_RESET = ESC @ ''[0m''"
definition WINTER_COLOR_SUCCESS :: string where "WINTER_COLOR_SUCCESS = ESC @ ''[32m''"
definition WINTER_COLOR_FAIL :: string where "WINTER_COLOR_FAIL = ESC @ ''[31m''"
definition WINTER_COLOR_MAYBE :: string where "WINTER_COLOR_MAYBE = ESC @ ''[35m''"
definition WINTER_COLOR_DESC :: string where "WINTER_COLOR_DESC = ESC @ ''[33m''"
definition WINTER_INDENT :: string where "WINTER_INDENT = ''    ''"

definition winter_print_timer :: "int \<Rightarrow> world \<Rightarrow> world" where
  "winter_print_timer start w =
     (case winter_now w of (t, w) \<Rightarrow>
      let usec = (if t - start < 0 then 0 else t - start) in
      w\<lparr>printed := printed w @
        [if usec < 1000 then Elapsed_us usec else if usec < 1000000 then Elapsed_ms usec else Elapsed_s usec]\<rparr>)"

definition winter_print_unit_begin :: "winter_test \<Rightarrow> world \<Rightarrow> world" where
  "winter_print_unit_begin test =
     say (WINTER_COLOR_BOLD @ WINTER_COLOR_MAYBE @ ''? '' @ WINTER_COLOR_RESET @ WINTER_COLOR_MAYBE @ ''Testing: '' @
       WINTER_COLOR_RESET @ WINTER_COLOR_DESC @ test_name test @ WINTER_COLOR_RESET @ LF)"

definition winter_print_unit_debug :: "winter_test \<Rightarrow> world \<Rightarrow> world" where
  "winter_print_unit_debug test =
     say (WINTER_COLOR_BOLD @ WINTER_COLOR_FAIL @ ''> '' @ WINTER_COLOR_RESET @ WINTER_COLOR_FAIL @ ''Running: '' @
       WINTER_COLOR_RESET @ WINTER_COLOR_DESC @ test_name test @ WINTER_COLOR_RESET @ LF)"

text \<open>The check mark and the cross are encoded in UTF-8.\<close>

definition winter_print_unit_end :: "int \<Rightarrow> winter_test \<Rightarrow> bool \<Rightarrow> world \<Rightarrow> world" where
  "winter_print_unit_end start test success w =
     say LF (winter_print_timer start (say
       (if success
        then WINTER_COLOR_BOLD @ WINTER_COLOR_SUCCESS @ [CHR 0xE2, CHR 0x9C, CHR 0x93, CHR '' ''] @ WINTER_COLOR_RESET @
          WINTER_COLOR_SUCCESS @ ''Success: '' @ WINTER_COLOR_RESET @ WINTER_COLOR_DESC @ test_name test @ WINTER_COLOR_RESET @ '' ''
        else WINTER_COLOR_BOLD @ WINTER_COLOR_FAIL @ [CHR 0xE2, CHR 0x9C, CHR 0x95, CHR '' ''] @ WINTER_COLOR_RESET @
          WINTER_COLOR_FAIL @ ''Failure: '' @ WINTER_COLOR_RESET @ WINTER_COLOR_DESC @ test_name test @ WINTER_COLOR_RESET @ '' '') w))"

definition winter_print_suite_begin :: "string \<Rightarrow> world \<Rightarrow> world" where
  "winter_print_suite_begin name = say (LF @ WINTER_COLOR_BOLD @ ''Testing suite '' @ name @ WINTER_COLOR_RESET @ '':'' @ LF)"

definition winter_print_suite_end :: "string \<Rightarrow> u32 \<Rightarrow> u32 \<Rightarrow> world \<Rightarrow> world" where
  "winter_print_suite_end name test_count success_count =
     say (WINTER_COLOR_BOLD @ ''Suite '' @ name @ '': Passed '' @ dec (unat success_count) @ ''/'' @ dec (unat test_count) @
       '' tests.'' @ LF @ WINTER_COLOR_RESET)"

definition winter_print_summary :: "int \<Rightarrow> u32 \<Rightarrow> u32 \<Rightarrow> world \<Rightarrow> world" where
  "winter_print_summary start success_count test_count w =
     say LF (winter_print_timer start (say (WINTER_COLOR_BOLD @ LF @ ''Total: Passed '' @ dec (unat success_count) @ ''/'' @
       dec (unat test_count) @ '' tests. '' @ WINTER_COLOR_RESET) w))"

section \<open>Watching the process\<close>

text \<open>The names of errors and signals (\<^verbatim>\<open>strerror\<close>, \<^verbatim>\<open>strsignal\<close>) and the seconds of a timeout are left out of the messages.\<close>

definition winter_kill_process :: "int \<Rightarrow> world \<Rightarrow> world" where
  "winter_kill_process pid w =
     (case kill pid SIGCONT w of (ok, w) \<Rightarrow>
      if \<not> ok then say (WINTER_INDENT @ ''Failed to continue process'') w
      else case kill pid SIGKILL w of (ok, w) \<Rightarrow>
      if \<not> ok then say (WINTER_INDENT @ ''Failed to kill process'') w
      else case next_wait w of (a, w) \<Rightarrow>
      (case a of Failed e \<Rightarrow> say (WINTER_INDENT @ ''Waiting for terminated process failed'') w | _ \<Rightarrow> w))"

text \<open>The value of \<^verbatim>\<open>waitpid(pid, &status, WNOHANG)\<close>.\<close>

fun wait_value :: "wait_answer \<Rightarrow> int \<Rightarrow> int" where
  "wait_value Running pid = 0"
| "wait_value Ended pid = pid"
| "wait_value (Failed e) pid = -1"

fun wait_errno :: "wait_answer \<Rightarrow> int" where
  "wait_errno (Failed e) = e"
| "wait_errno _ = 0"

text \<open>
  The loop of \<^verbatim>\<open>_winter_unit_execute\<close>: \<open>Some status\<close> is what is known when it is left by \<^verbatim>\<open>break\<close>, \<open>None\<close> stands for
  \<^verbatim>\<open>return false\<close>. The initial value 0 of \<open>status\<close> reads as a normal end with code 0.
\<close>

fun execute_loop :: "nat \<Rightarrow> bool \<Rightarrow> int \<Rightarrow> int \<Rightarrow> int \<Rightarrow> wstatus \<Rightarrow> wstatus \<Rightarrow> world \<Rightarrow> (wstatus option \<times> world) outcome" where
  "execute_loop 0 timeout_on pid start limit child status w = Inl Spins_forever"
| "execute_loop (Suc fuel) timeout_on pid start limit child status w =
     (case next_wait w of (a, w) \<Rightarrow>
      let status = (if a = Ended then child else status) in
      if wait_value a pid = pid then Inr (Some status, w)
      else if wait_value a pid = 0 then
        (case if timeout_on then winter_now w else (start, w) of (t, w) \<Rightarrow>
         if timeout_on \<and> t - start > limit then
           Inr (None, say (WINTER_INDENT @ ''Process timed out'') (winter_kill_process pid w))
         else execute_loop fuel timeout_on pid start limit child status w)
      else if wait_value a pid = -1 \<and> wait_errno a \<noteq> EINTR then
        Inr (None, say (WINTER_INDENT @ ''Waiting for process failed'') w)
      else execute_loop fuel timeout_on pid start limit child status w)"

fun status_verdict :: "wstatus \<Rightarrow> world \<Rightarrow> bool \<times> world" where
  "status_verdict (Exited code) w =
     (if code \<noteq> 0
      then (False, if code \<noteq> WINTER_EXIT_FAILURE then say (WINTER_INDENT @ ''Process exited with code '' @ dec (nat code)) w else w)
      else (True, w))"
| "status_verdict (Signaled sig) w = (False, say (WINTER_INDENT @ ''Process terminated by signal '' @ dec (nat sig)) w)"
| "status_verdict Abnormal w = (False, say (WINTER_INDENT @ ''Process ended abnormally'') w)"

text \<open>\<open>child\<close> is how the forked process ends.\<close>

definition winter_unit_execute :: "nat \<Rightarrow> bool \<Rightarrow> wstatus \<Rightarrow> int \<Rightarrow> winter_test \<Rightarrow> world \<Rightarrow> (bool \<times> world) outcome" where
  "winter_unit_execute fuel timeout_on child start test w =
     (case fork w of (pid, w) \<Rightarrow>
      obind (execute_loop fuel timeout_on pid start (test_timeout test) child (Exited 0) w) (\<lambda>(st, w).
      case st of None \<Rightarrow> Inr (False, w) | Some st \<Rightarrow> Inr (status_verdict st w)))"

fun debug_loop :: "nat \<Rightarrow> int \<Rightarrow> world \<Rightarrow> world outcome" where
  "debug_loop 0 pid w = Inl Spins_forever"
| "debug_loop (Suc fuel) pid w =
     (case next_wait w of (a, w) \<Rightarrow>
      if wait_value a pid = pid then Inr (say (WINTER_INDENT @ ''Test process exited. Restarting test.'' @ LF) w)
      else case debug_abort w of (ab, w) \<Rightarrow>
      if ab then Inr (say (CHR 0x0D # WINTER_INDENT @ ''Waiting aborted by user.'' @ LF) (winter_kill_process pid w))
      else if wait_value a pid = -1 \<and> wait_errno a \<noteq> EINTR \<and> wait_errno a \<noteq> ECHILD then
        Inr (say (WINTER_INDENT @ ''Waiting for debug process failed'') w)
      else debug_loop fuel pid w)"

definition winter_unit_debug :: "nat \<Rightarrow> world \<Rightarrow> (bool \<times> world) outcome" where
  "winter_unit_debug fuel w =
     (case fork w of (pid, w) \<Rightarrow>
      obind (debug_loop fuel pid (say (WINTER_INDENT @ ''Waiting for debugger to attach, press ctrl-c to abort...'') w)) (\<lambda>w.
      Inr (debug_abort w)))"

section \<open>What a suite function does\<close>

lemma pbind_ret [simp]: "pbind m ret = m"
  by (cases m rule: prog_cases) simp_all

lemma pbind_case_out: "pbind (pbind m (\<lambda>s. ret (out, s))) (\<lambda>(out, s). f out s) = pbind m (\<lambda>s. f out s)"
  by (simp add: pbind_assoc)

fun block_tests :: "'s block list \<Rightarrow> winter_test list" where
  "block_tests [] = []"
| "block_tests (Test name i threads timeout body # bs) =
     \<lparr>test_name = name, test_id = i + 6, test_threads = threads, test_timeout = timeout\<rparr> # block_tests bs"
| "block_tests (_ # bs) = block_tests bs"

fun before_bodies :: "'s block list \<Rightarrow> 's body list" where
  "before_bodies [] = []"
| "before_bodies (Before_each body # bs) = body # before_bodies bs"
| "before_bodies (_ # bs) = before_bodies bs"

fun after_bodies :: "'s block list \<Rightarrow> 's body list" where
  "after_bodies [] = []"
| "after_bodies (After_each body # bs) = body # after_bodies bs"
| "after_bodies (_ # bs) = after_bodies bs"

fun run_bodies :: "'s body list \<Rightarrow> u16 \<Rightarrow> 's \<Rightarrow> 's prog" where
  "run_bodies [] ti s = ret s"
| "run_bodies (body # bs) ti s = pbind (body ti s) (\<lambda>s. run_bodies bs ti s)"

text \<open>The values of \<^verbatim>\<open>__COUNTER__\<close> in one file are distinct and small.\<close>

definition counters_ok :: "'s block list \<Rightarrow> bool" where
  "counters_ok bs \<longleftrightarrow> distinct (map test_id (block_tests bs)) \<and> (\<forall>t \<in> set (block_tests bs). 6 \<le> test_id t)"

lemma counters_ok_ids:
  "counters_ok bs \<Longrightarrow> t \<in> set (block_tests bs) \<Longrightarrow>
    test_id t \<noteq> WINTER_FUNC_INFO \<and> test_id t \<noteq> WINTER_FUNC_BEFORE_EACH \<and> test_id t \<noteq> WINTER_FUNC_AFTER_EACH"
proof -
  assume "counters_ok bs" and "t \<in> set (block_tests bs)"
  then have "6 \<le> test_id t" by (simp add: counters_ok_def)
  then show ?thesis
    by (auto simp: WINTER_FUNC_INFO_def WINTER_FUNC_BEFORE_EACH_def WINTER_FUNC_AFTER_EACH_def word_le_nat_alt)
qed

lemma suite_func_info:
  assumes "\<forall>t \<in> set (block_tests bs). 6 \<le> test_id t"
  shows "suite_func bs WINTER_FUNC_INFO ti (Some (arr, mem)) s =
    pbind (push_all winter_array_push (block_tests bs) arr mem) (\<lambda>r. ret (Some r, s))"
  using assms
proof (induction bs arbitrary: arr mem)
  case (Cons b bs)
  show ?case
  proof (cases b)
    case (Test name i threads timeout body)
    with Cons show ?thesis by (auto simp: pbind_assoc WINTER_FUNC_INFO_def case_prod_beta' intro!: pbind_cong)
  qed (use Cons in \<open>simp_all add: WINTER_FUNC_INFO_def WINTER_FUNC_BEFORE_EACH_def WINTER_FUNC_AFTER_EACH_def\<close>)
qed simp

lemma suite_func_other:
  assumes "index \<noteq> WINTER_FUNC_INFO" and "index \<notin> test_id ` set (block_tests bs)"
  shows "suite_func bs index ti out s = pbind
    (run_bodies (if index = WINTER_FUNC_BEFORE_EACH then before_bodies bs
       else if index = WINTER_FUNC_AFTER_EACH then after_bodies bs else []) ti s) (\<lambda>s. ret (out, s))"
  using assms
proof (induction bs arbitrary: s)
  case (Cons b bs)
  then show ?case
    by (cases b) (auto simp: pbind_assoc WINTER_FUNC_BEFORE_EACH_def WINTER_FUNC_AFTER_EACH_def intro!: pbind_cong)
qed simp

lemma suite_func_test:
  assumes "counters_ok bs" and "Test name i threads timeout body \<in> set bs"
  shows "suite_func bs (i + 6) ti out s = pbind (body ti s) (\<lambda>s. ret (out, s))"
  using assms
proof (induction bs arbitrary: s)
  case (Cons b bs)
  have ok: "counters_ok bs" using Cons.prems(1) by (cases b) (simp_all add: counters_ok_def)
  have mem: "i + 6 \<in> test_id ` set (block_tests bs)" if "Test name i threads timeout body \<in> set bs" for bs :: "'a block list"
    using that by (induction bs rule: block_tests.induct) auto
  from mem [OF Cons.prems(2)] obtain t where t: "t \<in> set (block_tests (b # bs))" "test_id t = i + 6" by auto
  note ids = counters_ok_ids [OF Cons.prems(1) t(1), unfolded t(2)]
  show ?case
  proof (cases "b = Test name i threads timeout body")
    case True
    then have "i + 6 \<notin> test_id ` set (block_tests bs)" using Cons.prems(1) by (simp add: counters_ok_def)
    then have "suite_func bs (i + 6) ti out = (\<lambda>s. ret (out, s))" using ids by (simp add: suite_func_other fun_eq_iff)
    with True ids show ?thesis by simp
  next
    case False
    then have m: "Test name i threads timeout body \<in> set bs" using Cons.prems(2) by simp
    note IH = Cons.IH [OF ok m]
    show ?thesis
    proof (cases b)
      case (Test name' i' threads' timeout' body')
      then have "i + 6 \<noteq> i' + 6" using mem [OF m] Cons.prems(1) by (auto simp: counters_ok_def)
      with Test IH ids show ?thesis by simp
    qed (use IH ids in simp_all)
  qed
qed simp

lemma call_func_cases:
  assumes "counters_ok bs"
  shows "call_func bs WINTER_FUNC_BEFORE_EACH ti s = run_bodies (before_bodies bs) ti s"
    and "call_func bs WINTER_FUNC_AFTER_EACH ti s = run_bodies (after_bodies bs) ti s"
    and "Test name i threads timeout body \<in> set bs \<Longrightarrow> call_func bs (i + 6) ti s = body ti s"
proof -
  have "WINTER_FUNC_BEFORE_EACH \<notin> test_id ` set (block_tests bs)" "WINTER_FUNC_AFTER_EACH \<notin> test_id ` set (block_tests bs)"
    using counters_ok_ids [OF assms] by fastforce+
  then show "call_func bs WINTER_FUNC_BEFORE_EACH ti s = run_bodies (before_bodies bs) ti s"
    "call_func bs WINTER_FUNC_AFTER_EACH ti s = run_bodies (after_bodies bs) ti s"
    by (simp_all add: call_func_def suite_func_other pbind_assoc WINTER_FUNC_INFO_def WINTER_FUNC_BEFORE_EACH_def WINTER_FUNC_AFTER_EACH_def)
  show "Test name i threads timeout body \<in> set bs \<Longrightarrow> call_func bs (i + 6) ti s = body ti s"
    by (simp add: call_func_def suite_func_test [OF assms] pbind_assoc)
qed

end
