(* ===== verification/WinterMain.thy ===== *)
theory WinterMain
  imports WinterRun
begin

text \<open>
  The entry point of the test program: selection of tests by patterns, the effect of the
  command line, and the loop over suites and tests.
\<close>

section \<open>Selection\<close>

definition winter_is_suite_enabled :: "string winter_array \<Rightarrow> string \<Rightarrow> bool prog" where
  "winter_is_suite_enabled ps name =
     (if alength ps = 0 then ret True
      else pbind (lift (read_all winter_array_get ps [0..<unat (alength ps)])) (\<lambda>pats.
        ret (list_ex (\<lambda>p. winter_pattern_match_suite p name) pats)))"

fun match_patterns :: "(string \<Rightarrow> string \<Rightarrow> fnmatch_result) \<Rightarrow> string list \<Rightarrow> string \<Rightarrow> string \<Rightarrow> bool prog" where
  "match_patterns fnmatch [] suite test = ret False"
| "match_patterns fnmatch (p # ps) suite test =
     (if \<not> winter_pattern_match_suite p suite then match_patterns fnmatch ps suite test
      else pbind (winter_pattern_match_test fnmatch p test) (\<lambda>b.
        if b then ret True else match_patterns fnmatch ps suite test))"

definition winter_is_unit_enabled ::
  "(string \<Rightarrow> string \<Rightarrow> fnmatch_result) \<Rightarrow> string winter_array \<Rightarrow> string \<Rightarrow> string \<Rightarrow> bool prog" where
  "winter_is_unit_enabled fnmatch ps suite test =
     (if alength ps = 0 then ret True
      else pbind (lift (read_all winter_array_get ps [0..<unat (alength ps)])) (\<lambda>pats. match_patterns fnmatch pats suite test))"

fun find_in_suite :: "(string \<Rightarrow> string \<Rightarrow> fnmatch_result) \<Rightarrow> string \<Rightarrow> winter_test list \<Rightarrow> winter_test option prog" where
  "find_in_suite fnmatch pattern [] = ret None"
| "find_in_suite fnmatch pattern (t # ts) =
     pbind (winter_pattern_match_test fnmatch pattern (test_name t)) (\<lambda>b.
     if b then ret (Some t) else find_in_suite fnmatch pattern ts)"

text \<open>All the elements of an array, as its loops visit them.\<close>

definition array_elements :: "'a winter_array \<Rightarrow> 'a list outcome" where
  "array_elements arr = read_all winter_array_get arr [0..<unat (alength arr)]"

fun find_in_suites :: "(string \<Rightarrow> string \<Rightarrow> fnmatch_result) \<Rightarrow> string \<Rightarrow> 's winter_suite list \<Rightarrow> winter_test prog" where
  "find_in_suites fnmatch pattern [] = quit (Fatal (''No test found for pattern: '' @ pattern))"
| "find_in_suites fnmatch pattern (s # ss) =
     (if \<not> winter_pattern_match_suite pattern (suite_name s) then find_in_suites fnmatch pattern ss
      else pbind (lift (array_elements (suite_tests s))) (\<lambda>ts.
        pbind (find_in_suite fnmatch pattern ts) (\<lambda>found.
        case found of Some t \<Rightarrow> ret t | None \<Rightarrow> find_in_suites fnmatch pattern ss)))"

definition winter_find_test :: "(string \<Rightarrow> string \<Rightarrow> fnmatch_result) \<Rightarrow> 's winter \<Rightarrow> string \<Rightarrow> winter_test prog" where
  "winter_find_test fnmatch wt pattern =
     pbind (lift (array_elements (suites wt))) (\<lambda>ss. find_in_suites fnmatch pattern ss)"

section \<open>Listing, debugging, help\<close>

fun list_suites :: "'s winter_suite list \<Rightarrow> u64 \<Rightarrow> world \<Rightarrow> u64 \<times> world" where
  "list_suites [] ntests w = (ntests, w)"
| "list_suites (s # ss) ntests w =
     list_suites ss (ntests + alength (suite_tests s))
       (say (WINTER_COLOR_DESC @ suite_name s @ '':'' @ WINTER_COLOR_RESET @ '' '' @ dec (unat (alength (suite_tests s))) @ '' tests'' @ LF) w)"

definition winter_list :: "'s winter \<Rightarrow> world \<Rightarrow> world outcome" where
  "winter_list wt w =
     obind (array_elements (suites wt)) (\<lambda>ss.
     case list_suites ss 0 (say (WINTER_COLOR_BOLD @ LF @ ''Test suites:'' @ LF @ WINTER_COLOR_RESET) w) of (ntests, w) \<Rightarrow>
     Inr (say (WINTER_COLOR_BOLD @ LF @ ''Total: '' @ dec (unat ntests) @ '' tests.'' @ LF @ WINTER_COLOR_RESET) w))"

text \<open>The restarts of a test under a debugger, \<open>rounds\<close> of them at most.\<close>

fun debug_rounds :: "nat \<Rightarrow> nat \<Rightarrow> winter_test \<Rightarrow> world \<Rightarrow> world outcome" where
  "debug_rounds 0 fuel test w = Inl Spins_forever"
| "debug_rounds (Suc rounds) fuel test w =
     obind (winter_unit_debug fuel (winter_print_unit_debug test w)) (\<lambda>(stop, w).
     if stop then Inr w else debug_rounds rounds fuel test w)"

definition winter_debug ::
  "nat \<Rightarrow> (string \<Rightarrow> string \<Rightarrow> fnmatch_result) \<Rightarrow> 's winter \<Rightarrow> string \<Rightarrow> world \<Rightarrow> world prog" where
  "winter_debug fuel fnmatch wt pattern w =
     pbind (winter_find_test fnmatch wt pattern) (\<lambda>t. lift (debug_rounds fuel fuel t w))"

text \<open>\<^verbatim>\<open>%-21s\<close> and \<^verbatim>\<open>%-20s\<close>\<close>

definition pad :: "nat \<Rightarrow> string \<Rightarrow> string" where
  "pad n s = s @ replicate (n - length s) CHR '' ''"

definition usage_line :: "string \<Rightarrow> string \<Rightarrow> string \<Rightarrow> string" where
  "usage_line path u d = ''  '' @ path @ '' '' @ pad 21 u @ '' '' @ d @ ''.'' @ LF"

definition flag_lines :: "string \<Rightarrow> string \<Rightarrow> string \<Rightarrow> string \<Rightarrow> string" where
  "flag_lines n sn expl d = ''  '' @ pad 20 (''--[no-]'' @ n @ '' | -'' @ sn) @ expl @ ''.'' @ LF @
     ''  '' @ pad 20 [] @ ''Default: '' @ d @ ''.'' @ LF"

definition help_text :: "string \<Rightarrow> string" where
  "help_text path =
     ''Usages:'' @ LF @
     usage_line path ''[options] [patterns]'' ''Run all tests that match the patterns'' @
     usage_line path ''--help | -h'' ''Print this help text and exit'' @
     usage_line path ''--version | -v'' ''Print version and exit'' @
     usage_line path ''--list | -l'' ''Print a list of all available tests'' @
     usage_line path ''--debug pattern'' ''Run one test and wait for a debugger to attach to the test'' @
     LF @ ''Options:'' @ LF @
     flag_lines ''color'' ''c'' ''Whether to print output in color'' ''on when output is TTY'' @
     flag_lines ''rerun'' ''r'' ''Rerun failed test and wait for a debugger to attach to the test'' ''off'' @
     flag_lines ''pid'' ''p'' ''Print the pid of the test process'' ''off'' @
     flag_lines ''timeout'' ''t'' ''Whether to fail a test after its timeout.'' ''on''"

section \<open>The command line\<close>

text \<open>
  What the process looks up besides its arguments: whether the output is a terminal, and
  whether \<^verbatim>\<open>NO_COLOR\<close> is set. \<open>argv\<close> includes the name of the program.
\<close>

record environment =
  is_tty :: bool
  no_color :: bool
  fnmatch :: "string \<Rightarrow> string \<Rightarrow> fnmatch_result"

definition winter_parse_args ::
  "nat \<Rightarrow> environment \<Rightarrow> string list \<Rightarrow> 's winter \<Rightarrow> memory \<Rightarrow> world \<Rightarrow> ('s winter \<times> memory \<times> world) prog" where
  "winter_parse_args fuel env argv wt mem w =
     pbind (parse_loop (tl argv) initial_opts (patterns wt) mem) (\<lambda>(opts, ps, mem).
     let wt = wt\<lparr>patterns := ps\<rparr>; opt = (\<lambda>i. opts ! opt_index i) in
     if bool_val (opt OPT_HELP) then quit (Exit EXIT_SUCCESS)
     else if bool_val (opt OPT_VERSION) then quit (Exit EXIT_SUCCESS)
     else if bool_val (opt OPT_LIST) then pbind (lift (winter_list wt w)) (\<lambda>w. quit (Exit EXIT_SUCCESS))
     else
       case str_val (opt OPT_DEBUG) of
         Some pattern \<Rightarrow> pbind (winter_debug fuel (fnmatch env) wt pattern w) (\<lambda>w. quit (Exit EXIT_SUCCESS))
       | None \<Rightarrow>
           ret (wt\<lparr>opt_list := bool_val (opt OPT_LIST),
             opt_color := bool_val (winter_opt_default (opt OPT_COLOR) (is_tty env \<and> \<not> no_color env)),
             opt_rerun := bool_val (opt OPT_RERUN),
             opt_timeout := bool_val (winter_opt_default (opt OPT_TIMEOUT) True)\<rparr>, mem, w))"

section \<open>The main function\<close>

text \<open>
  One unit after it was selected. The child starts from a copy of the state \<open>s\<close> of this
  process, which no test can change.
\<close>

definition run_unit ::
  "nat \<Rightarrow> 's threading \<Rightarrow> 's winter \<Rightarrow> 's winter_suite \<Rightarrow> 's \<Rightarrow> int \<Rightarrow> winter_test \<Rightarrow> world \<Rightarrow> (bool \<times> world) outcome" where
  "run_unit fuel os wt suite s start test w =
     obind (winter_unit_execute fuel (opt_timeout wt) (child_status (winter_process_entry os (suite_blocks suite) test s)) start test
       (winter_print_unit_begin test w)) (\<lambda>(success, w).
     obind (if \<not> success \<and> opt_rerun wt then debug_rounds fuel fuel test w else Inr w) (\<lambda>w.
     Inr (success, winter_print_unit_end start test success w)))"

fun run_tests ::
  "nat \<Rightarrow> environment \<Rightarrow> 's threading \<Rightarrow> 's winter \<Rightarrow> 's winter_suite \<Rightarrow> 's \<Rightarrow> winter_test list \<Rightarrow> u32 \<times> u32 \<Rightarrow> world \<Rightarrow>
   ((u32 \<times> u32) \<times> world) prog" where
  "run_tests fuel env os wt suite s [] counts w = ret (counts, w)"
| "run_tests fuel env os wt suite s (test # ts) (test_count, success_count) w =
     (case winter_now w of (start, w) \<Rightarrow>
      pbind (winter_is_unit_enabled (fnmatch env) (patterns wt) (suite_name suite) (test_name test)) (\<lambda>enabled.
      if \<not> enabled then run_tests fuel env os wt suite s ts (test_count, success_count) w
      else pbind (lift (run_unit fuel os wt suite s start test w)) (\<lambda>(success, w).
        run_tests fuel env os wt suite s ts (test_count + 1, success_count + (if success then 1 else 0)) w)))"

fun run_suites ::
  "nat \<Rightarrow> environment \<Rightarrow> 's threading \<Rightarrow> 's winter \<Rightarrow> 's \<Rightarrow> 's winter_suite list \<Rightarrow> u32 \<times> u32 \<Rightarrow> world \<Rightarrow> ((u32 \<times> u32) \<times> world) prog" where
  "run_suites fuel env os wt s [] counts w = ret (counts, w)"
| "run_suites fuel env os wt s (suite # ss) (test_count, success_count) w =
     pbind (winter_is_suite_enabled (patterns wt) (suite_name suite)) (\<lambda>enabled.
     if \<not> enabled then run_suites fuel env os wt s ss (test_count, success_count) w
     else
       pbind (lift (array_elements (suite_tests suite))) (\<lambda>ts.
       pbind (run_tests fuel env os wt suite s ts (0, 0) (winter_print_suite_begin (suite_name suite) w)) (\<lambda>((tc, sc), w).
       run_suites fuel env os wt s ss (test_count + tc, success_count + sc) (winter_print_suite_end (suite_name suite) tc sc w))))"

text \<open>The exit code of the program, and what it printed.\<close>

definition winter_main ::
  "nat \<Rightarrow> environment \<Rightarrow> 's threading \<Rightarrow> string list \<Rightarrow> 's winter \<Rightarrow> memory \<Rightarrow> 's \<Rightarrow> world \<Rightarrow> (int \<times> world) prog" where
  "winter_main fuel env os argv wt mem s w =
     pbind (winter_initialize wt mem) (\<lambda>(wt, mem).
     pbind (winter_parse_args fuel env argv wt mem w) (\<lambda>(wt, mem, w).
     case winter_now w of (start, w) \<Rightarrow>
     pbind (lift (array_elements (suites wt))) (\<lambda>ss.
     pbind (run_suites fuel env os wt s ss (0, 0) w) (\<lambda>((test_count, success_count), w).
     ret (if test_count = success_count then EXIT_SUCCESS else EXIT_FAILURE,
       winter_print_summary start success_count test_count w)))))"

end
