(* ===== verification/WinterVerdict.thy ===== *)
theory WinterVerdict
  imports WinterMain
begin

text \<open>
  What the test framework reports: about one test, and about all of them.
\<close>

section \<open>One test\<close>

text \<open>Projections of the world after a call.\<close>

lemma world_calls [simp]:
  "next_wait w = (waits w 0, w\<lparr>waits := \<lambda>n. waits w (Suc n)\<rparr>)"
  "winter_now w = (clock w 0, w\<lparr>clock := \<lambda>n. clock w (Suc n)\<rparr>)"
  "fork w = (forks w 0, w\<lparr>forks := \<lambda>n. forks w (Suc n)\<rparr>)"
  by (simp_all add: next_wait_def winter_now_def fork_def)

text \<open>\<open>k\<close> times \<^verbatim>\<open>waitpid\<close> reports nothing, then the end of the process.\<close>

definition ends_after :: "nat \<Rightarrow> (nat \<Rightarrow> wait_answer) \<Rightarrow> bool" where
  "ends_after k ws \<longleftrightarrow> (\<forall>n < k. ws n = Running) \<and> ws k = Ended"

definition in_time :: "bool \<Rightarrow> int \<Rightarrow> int \<Rightarrow> (nat \<Rightarrow> int) \<Rightarrow> bool" where
  "in_time timeout_on start limit c \<longleftrightarrow> (timeout_on \<longrightarrow> (\<forall>n. c n - start \<le> limit))"

definition poll_frame :: "world \<Rightarrow> world \<Rightarrow> bool" where
  "poll_frame w w' \<longleftrightarrow> forks w' = forks w \<and> (\<exists>k. clock w' = (\<lambda>n. clock w (n + k))) \<and> (\<exists>k. waits w' = (\<lambda>n. waits w (n + k)))"

lemma shift_Suc: "\<exists>k. f' = (\<lambda>n. f (Suc (n + k))) \<Longrightarrow> \<exists>k. f' = (\<lambda>n :: nat. f (n + k))"
  by (metis add_Suc_right)

lemma poll_frame_refl [simp]: "poll_frame w w"
  unfolding poll_frame_def by (metis add.right_neutral)

lemma poll_frame_waits: "poll_frame (w\<lparr>waits := \<lambda>n. waits w (Suc n)\<rparr>) w' \<Longrightarrow> poll_frame w w'"
  by (auto simp: poll_frame_def intro: shift_Suc)

lemma poll_frame_clock: "poll_frame (w\<lparr>clock := \<lambda>n. clock w (Suc n)\<rparr>) w' \<Longrightarrow> poll_frame w w'"
  by (auto simp: poll_frame_def intro: shift_Suc)

lemma execute_loop_ends:
  assumes "ends_after k (waits w)" and "in_time timeout_on start limit (clock w)" and "k < fuel" and "0 < pid"
  shows "\<exists>w'. execute_loop fuel timeout_on pid start limit child status w = Inr (Some child, w') \<and> poll_frame w w'"
  using assms
proof (induction k arbitrary: fuel w status)
  case 0
  then obtain f where f: "fuel = Suc f" by (cases fuel) auto
  have "waits w 0 = Ended" using 0 by (simp add: ends_after_def)
  then show ?case using poll_frame_waits [OF poll_frame_refl] by (simp add: f)
next
  case (Suc k)
  then obtain f where f: "fuel = Suc f" by (cases fuel) auto
  let ?w = "w\<lparr>waits := \<lambda>n. waits w (Suc n)\<rparr>"
  let ?v = "if timeout_on then ?w\<lparr>clock := \<lambda>n. clock w (Suc n)\<rparr> else ?w"
  have run: "waits w 0 = Running" using Suc.prems(1) by (simp add: ends_after_def)
  have "ends_after k (waits ?v)" "in_time timeout_on start limit (clock ?v)" "k < f"
    using Suc.prems f by (auto simp: ends_after_def in_time_def)
  from Suc.IH [OF this Suc.prems(4)] obtain w' where
    w': "execute_loop f timeout_on pid start limit child status ?v = Inr (Some child, w')" "poll_frame ?v w'" by blast
  have "poll_frame w w'"
    using w'(2) poll_frame_waits poll_frame_clock [of ?w] by (auto split: if_splits)
  moreover have "\<not> (timeout_on \<and> clock w 0 - start > limit)" using Suc.prems(2) by (simp add: in_time_def not_less)
  ultimately show ?case using w'(1) run Suc.prems(4) by (auto simp: f)
qed

lemma poll_frame_said [simp]: "poll_frame w (w'\<lparr>printed := x\<rparr>) = poll_frame w w'" "poll_frame (w\<lparr>printed := x\<rparr>) w' = poll_frame w w'"
  by (simp_all add: poll_frame_def)

lemma status_verdict_fst: "fst (status_verdict st w) \<longleftrightarrow> st = Exited 0"
  by (cases st) simp_all

lemma status_verdict_frame: "poll_frame w (snd (status_verdict st w')) = poll_frame w w'"
  by (cases st) (simp_all add: say_def)

lemma winter_unit_execute_ends:
  assumes "ends_after k (waits w)" and "in_time timeout_on start (test_timeout test) (clock w)" and "k < fuel" and "0 < forks w 0"
  shows "\<exists>w'. winter_unit_execute fuel timeout_on child start test w = Inr (child = Exited 0, w') \<and>
    poll_frame (w\<lparr>forks := \<lambda>n. forks w (Suc n)\<rparr>) w'"
proof -
  let ?w = "w\<lparr>forks := \<lambda>n. forks w (Suc n)\<rparr>"
  obtain w' where w': "execute_loop fuel timeout_on (forks w 0) start (test_timeout test) child (Exited 0) ?w = Inr (Some child, w')"
    "poll_frame ?w w'"
    using execute_loop_ends [of k ?w timeout_on start "test_timeout test" fuel "forks w 0" child "Exited 0"] assms by auto
  obtain b v where "status_verdict child w' = (b, v)" by fastforce
  then have "status_verdict child w' = (child = Exited 0, v)" "poll_frame ?w v"
    using status_verdict_fst [of child w'] status_verdict_frame [of ?w child w'] w'(2) by simp_all
  with w'(1) show ?thesis by (simp add: winter_unit_execute_def)
qed

text \<open>A process that never ends is killed when its time is over.\<close>

lemma execute_loop_times_out:
  assumes "\<forall>n < k. waits w n = Running" and "\<forall>n < k. clock w n - start \<le> limit" and "waits w k = Running"
    and "clock w k - start > limit" and "k < fuel" and "0 < pid" and "\<forall>n. kills w n"
  shows "\<exists>w'. execute_loop fuel True pid start limit child status w = Inr (None, w') \<and>
    signals w' = signals w @ [(pid, SIGCONT), (pid, SIGKILL)]"
  using assms
proof (induction k arbitrary: fuel w)
  case 0
  then obtain f where f: "fuel = Suc f" by (cases fuel) auto
  then show ?case using 0 by (auto simp: winter_kill_process_def kill_def say_def split: wait_answer.splits)
next
  case (Suc k)
  then obtain f where f: "fuel = Suc f" by (cases fuel) auto
  let ?w = "w\<lparr>waits := \<lambda>n. waits w (Suc n), clock := \<lambda>n. clock w (Suc n)\<rparr>"
  have "\<exists>w'. execute_loop f True pid start limit child status ?w = Inr (None, w') \<and>
      signals w' = signals ?w @ [(pid, SIGCONT), (pid, SIGKILL)]"
    using Suc.prems f by (intro Suc.IH) auto
  moreover have "waits w 0 = Running" "\<not> clock w 0 - start > limit" using Suc.prems by (auto simp: not_less)
  ultimately show ?case using Suc.prems(6) by (simp add: f)
qed

section \<open>A well-behaved environment\<close>

text \<open>
  \<^verbatim>\<open>fork\<close> succeeds, and every process ends within \<open>fuel\<close> polls; the clock leaves every test
  enough time.
\<close>

definition benign :: "nat \<Rightarrow> world \<Rightarrow> bool" where
  "benign fuel w \<longleftrightarrow> (\<forall>n. 0 < forks w n) \<and> (\<forall>n. \<exists>k < fuel. ends_after k (\<lambda>m. waits w (n + m)))"

definition on_time :: "winter_test list \<Rightarrow> world \<Rightarrow> bool" where
  "on_time ts w \<longleftrightarrow> (\<forall>t \<in> set ts. \<forall>m n. clock w n - clock w m \<le> test_timeout t)"

definition later :: "world \<Rightarrow> world \<Rightarrow> bool" where
  "later w w' \<longleftrightarrow> (\<exists>k. forks w' = (\<lambda>n. forks w (n + k))) \<and> (\<exists>k. clock w' = (\<lambda>n. clock w (n + k))) \<and>
     (\<exists>k. waits w' = (\<lambda>n. waits w (n + k)))"

lemma shift_trans: "f' = (\<lambda>n. f (n + j)) \<Longrightarrow> f'' = (\<lambda>n. f' (n + k)) \<Longrightarrow> \<exists>i. f'' = (\<lambda>n :: nat. f (n + i))"
  by (rule exI [of _ "k + j"]) (simp add: add.assoc)

lemma later_refl [simp]: "later w w"
  unfolding later_def by (metis add.right_neutral)

lemma later_trans: "later w w' \<Longrightarrow> later w' w'' \<Longrightarrow> later w w''"
  unfolding later_def by (meson shift_trans)

lemma later_calls [simp]:
  "later w (w\<lparr>clock := \<lambda>n. clock w (Suc n)\<rparr>)" "later w (w\<lparr>forks := \<lambda>n. forks w (Suc n)\<rparr>)" "later w (say s w')= later w w'"
  "later w (w'\<lparr>printed := x\<rparr>) = later w w'"
  unfolding later_def say_def by (simp_all, (metis Suc_eq_plus1 add.right_neutral)+)

lemma later_poll: "poll_frame (w\<lparr>forks := \<lambda>n. forks w (Suc n)\<rparr>) w' \<Longrightarrow> later w w'"
  unfolding poll_frame_def later_def by (simp, metis Suc_eq_plus1)

lemma later_prints [simp]:
  "later w (winter_print_unit_begin t w') = later w w'" "later w (winter_print_suite_begin n w') = later w w'"
  "later w (winter_print_suite_end n a b w') = later w w'"
  by (simp_all add: winter_print_unit_begin_def winter_print_suite_begin_def winter_print_suite_end_def)

lemma later_timer: "later w w' \<Longrightarrow> later w (winter_print_timer start w')"
  using later_trans [OF _ later_calls(1), of w w'] by (simp add: winter_print_timer_def Let_def)

lemma later_unit_end: "later w w' \<Longrightarrow> later w (winter_print_unit_end start t b w')"
  unfolding winter_print_unit_end_def by (simp add: later_timer)

lemma benign_later: "later w w' \<Longrightarrow> benign fuel w \<Longrightarrow> benign fuel w'"
proof -
  assume "later w w'" and b: "benign fuel w"
  then obtain j k where f: "forks w' = (\<lambda>n. forks w (n + j))" and ws: "waits w' = (\<lambda>n. waits w (n + k))" by (auto simp: later_def)
  have "\<exists>i < fuel. ends_after i (\<lambda>m. waits w' (n + m))" for n
  proof -
    have "(\<lambda>m. waits w' (n + m)) = (\<lambda>m. waits w (n + k + m))" by (simp add: ws add.assoc add.commute [of _ k])
    then show ?thesis using b by (simp add: benign_def)
  qed
  then show ?thesis using b f by (simp add: benign_def)
qed

lemma benign_now: "benign fuel w \<Longrightarrow> \<exists>k < fuel. ends_after k (waits w)"
proof -
  assume "benign fuel w"
  then have "\<exists>k < fuel. ends_after k (\<lambda>m. waits w (0 + m))" unfolding benign_def by blast
  then show ?thesis by simp
qed

lemma on_time_later: "later w w' \<Longrightarrow> on_time ts w \<Longrightarrow> on_time ts w'"
  unfolding later_def on_time_def by auto

section \<open>Selected tests\<close>

definition picks :: "(string \<Rightarrow> string \<Rightarrow> fnmatch_result) \<Rightarrow> string \<Rightarrow> string \<Rightarrow> string \<Rightarrow> bool" where
  "picks fnm p suite test \<longleftrightarrow> winter_pattern_match_suite p suite \<and>
     (case strchr p CHR '':'' of None \<Rightarrow> True | Some separator \<Rightarrow> fnm (tl separator) test = Fnm_match)"

definition selected :: "(string \<Rightarrow> string \<Rightarrow> fnmatch_result) \<Rightarrow> string list \<Rightarrow> string \<Rightarrow> string \<Rightarrow> bool" where
  "selected fnm pats suite test \<longleftrightarrow> pats = [] \<or> (\<exists>p \<in> set pats. picks fnm p suite test)"

lemma array_elements_rep:
  assumes "array_rep esz xs arr"
  shows "array_elements arr = Inr xs" and "alength arr = 0 \<longleftrightarrow> xs = []"
proof -
  have n: "unat (alength arr) = length xs" using assms by (simp add: array_rep_def)
  then have "length xs < 2 ^ 64" using unsigned_less [of "alength arr", where ?'a = nat] by simp
  then show "array_elements arr = Inr xs"
    using winter_arrays.read_all_rep [OF assms, of "[0..<length xs]"] by (simp add: array_elements_def n map_nth)
  show "alength arr = 0 \<longleftrightarrow> xs = []" using n by (auto simp: unat_eq_zero)
qed

lemma suite_enabled_rep:
  assumes "array_rep esz pats ps"
  shows "winter_is_suite_enabled ps name = ret (pats = [] \<or> (\<exists>p \<in> set pats. winter_pattern_match_suite p name))"
  using array_elements_rep [OF assms] by (simp add: winter_is_suite_enabled_def array_elements_def list_ex_iff)

lemma match_patterns_ok:
  assumes "\<forall>a b. fnm a b \<noteq> Fnm_error"
  shows "match_patterns fnm pats suite test = ret (\<exists>p \<in> set pats. picks fnm p suite test)"
proof (induction pats)
  case (Cons p pats)
  have "winter_pattern_match_test fnm p test =
      ret (case strchr p CHR '':'' of None \<Rightarrow> True | Some separator \<Rightarrow> fnm (tl separator) test = Fnm_match)"
    using assms by (auto simp: winter_pattern_match_test_def split: option.splits fnmatch_result.splits)
  then show ?case by (cases "picks fnm p suite test") (simp_all add: Cons picks_def)
qed simp

lemma unit_enabled_rep:
  assumes "array_rep esz pats ps" and "\<forall>a b. fnm a b \<noteq> Fnm_error"
  shows "winter_is_unit_enabled fnm ps suite test = ret (selected fnm pats suite test)"
  using array_elements_rep [OF assms(1)] match_patterns_ok [OF assms(2)]
  by (auto simp: winter_is_unit_enabled_def array_elements_def selected_def)

section \<open>All tests\<close>

definition passes :: "'s threading \<Rightarrow> 's \<Rightarrow> 's winter_suite \<Rightarrow> winter_test \<Rightarrow> bool" where
  "passes os s suite t \<longleftrightarrow> child_status (winter_process_entry os (suite_blocks suite) t s) = Exited 0"

lemma run_unit_verdict:
  assumes "benign fuel w" and "\<forall>m. clock w m - start \<le> test_timeout t" and "\<not> opt_rerun wt"
  shows "\<exists>w'. run_unit fuel os wt suite s start t w = Inr (passes os s suite t, w') \<and> later w w'"
proof -
  let ?v = "winter_print_unit_begin t w"
  have v: "waits ?v = waits w" "clock ?v = clock w" "forks ?v = forks w" by (simp_all add: winter_print_unit_begin_def say_def)
  from assms(1) obtain k where k: "k < fuel" "ends_after k (waits ?v)" using benign_now unfolding v by blast
  have "in_time (opt_timeout wt) start (test_timeout t) (clock ?v)"
    using assms(2) by (simp add: in_time_def v)
  moreover have "0 < forks ?v 0" using assms(1) by (simp add: benign_def v)
  ultimately obtain w' where w': "winter_unit_execute fuel (opt_timeout wt) (child_status (winter_process_entry os (suite_blocks suite) t s)) start t ?v =
      Inr (passes os s suite t, w')" "poll_frame (?v\<lparr>forks := \<lambda>n. forks ?v (Suc n)\<rparr>) w'"
    using winter_unit_execute_ends [OF k(2) _ k(1)] unfolding passes_def by blast
  have "later w w'" using later_poll [OF w'(2)] later_trans [of w ?v w'] by simp
  then have "later w (winter_print_unit_end start t (passes os s suite t) w')" by (rule later_unit_end)
  moreover have "run_unit fuel os wt suite s start t w = Inr (passes os s suite t, winter_print_unit_end start t (passes os s suite t) w')"
    using w'(1) assms(3) by (simp add: run_unit_def)
  ultimately show ?thesis by blast
qed

lemma run_tests_verdict:
  assumes "benign fuel w" and "on_time ts w" and "\<not> opt_rerun wt" and pats: "array_rep esz pats (patterns wt)"
    and fnm: "\<forall>a b. fnmatch env a b \<noteq> Fnm_error"
  shows "\<exists>w'. run_tests fuel env os wt suite s ts (tc, sc) w = ret
      ((tc + of_nat (length (filter (\<lambda>t. selected (fnmatch env) pats (suite_name suite) (test_name t)) ts)),
        sc + of_nat (length (filter (\<lambda>t. selected (fnmatch env) pats (suite_name suite) (test_name t) \<and> passes os s suite t) ts))), w') \<and>
    later w w'"
  using assms(1,2)
proof (induction ts arbitrary: tc sc w)
  case (Cons t ts)
  let ?w = "w\<lparr>clock := \<lambda>n. clock w (Suc n)\<rparr>"
  note en = unit_enabled_rep [OF pats fnm, of "suite_name suite" "test_name t"]
  have b: "benign fuel ?w" "on_time ts ?w" by (rule benign_later [OF later_calls(1) Cons.prems(1)])
    (use on_time_later [OF later_calls(1) Cons.prems(2)] in \<open>simp add: on_time_def\<close>)
  show ?case
  proof (cases "selected (fnmatch env) pats (suite_name suite) (test_name t)")
    case False
    from Cons.IH [OF b, of tc sc] False show ?thesis using later_trans [OF later_calls(1)] by (auto simp: en)
  next
    case True
    have "\<forall>m. clock ?w m - clock w 0 \<le> test_timeout t" using Cons.prems(2) by (simp add: on_time_def)
    from run_unit_verdict [OF b(1) this assms(3), of os suite s] obtain w1 where
      w1: "run_unit fuel os wt suite s (clock w 0) t ?w = Inr (passes os s suite t, w1)" "later ?w w1" by blast
    have b1: "benign fuel w1" "on_time ts w1" using benign_later [OF w1(2) b(1)] on_time_later [OF w1(2) b(2)] by simp_all
    obtain w2 where w2: "run_tests fuel env os wt suite s ts (tc + 1, sc + (if passes os s suite t then 1 else 0)) w1 = ret
      ((tc + 1 + of_nat (length (filter (\<lambda>t. selected (fnmatch env) pats (suite_name suite) (test_name t)) ts)),
        sc + (if passes os s suite t then 1 else 0) +
          of_nat (length (filter (\<lambda>t. selected (fnmatch env) pats (suite_name suite) (test_name t) \<and> passes os s suite t) ts))), w2)"
      "later w1 w2" using Cons.IH [OF b1] by blast
    have "later w w2" using later_trans [OF later_trans [OF later_calls(1) w1(2)] w2(2)] .
    with w1(1) w2(1) True show ?thesis by (auto simp: en add.assoc)
  qed
qed simp

text \<open>Suites together with the lists of their tests, and the selected tests of all of them.\<close>

definition suites_ok :: "('s winter_suite \<times> winter_test list) list \<Rightarrow> bool" where
  "suites_ok sts \<longleftrightarrow> (\<forall>(suite, ts) \<in> set sts. array_rep sizeof_test ts (suite_tests suite))"

definition units ::
  "(string \<Rightarrow> string \<Rightarrow> fnmatch_result) \<Rightarrow> string list \<Rightarrow> ('s winter_suite \<times> winter_test list) list \<Rightarrow> ('s winter_suite \<times> winter_test) list" where
  "units fnm pats sts = concat (map (\<lambda>(suite, ts).
     map (Pair suite) (filter (\<lambda>t. selected fnm pats (suite_name suite) (test_name t)) ts)) sts)"

definition passed :: "'s threading \<Rightarrow> 's \<Rightarrow> ('s winter_suite \<times> winter_test) list \<Rightarrow> ('s winter_suite \<times> winter_test) list" where
  "passed os s us = filter (\<lambda>(suite, t). passes os s suite t) us"

lemma units_Cons:
  "units fnm pats ((suite, ts) # sts) =
    map (Pair suite) (filter (\<lambda>t. selected fnm pats (suite_name suite) (test_name t)) ts) @ units fnm pats sts"
  by (simp add: units_def)

lemma length_passed_suite:
  "length (passed os s (map (Pair suite) (filter P ts))) = length (filter (\<lambda>t. P t \<and> passes os s suite t) ts)"
  by (induction ts) (simp_all add: passed_def)

lemma passed_append: "passed os s (xs @ ys) = passed os s xs @ passed os s ys"
  by (simp add: passed_def)

lemma run_suites_verdict:
  assumes "benign fuel w" and "on_time (concat (map snd sts)) w" and "suites_ok sts" and nr: "\<not> opt_rerun wt"
    and pats: "array_rep esz pats (patterns wt)" and fnm: "\<forall>a b. fnmatch env a b \<noteq> Fnm_error"
  shows "\<exists>w'. run_suites fuel env os wt s (map fst sts) (tc, sc) w = ret
      ((tc + of_nat (length (units (fnmatch env) pats sts)), sc + of_nat (length (passed os s (units (fnmatch env) pats sts)))), w') \<and>
    later w w'"
  using assms(1-3)
proof (induction sts arbitrary: tc sc w)
  case Nil
  then show ?case by (simp add: units_def passed_def)
next
  case (Cons st sts)
  obtain suite ts where st: "st = (suite, ts)" by (cases st)
  have ok: "suites_ok sts" "array_rep sizeof_test ts (suite_tests suite)" using Cons.prems(3) by (simp_all add: suites_ok_def st)
  have time: "on_time ts w" "on_time (concat (map snd sts)) w" using Cons.prems(2) by (simp_all add: on_time_def st)
  note en = suite_enabled_rep [OF pats, of "suite_name suite"]
  let ?sel = "\<lambda>t. selected (fnmatch env) pats (suite_name suite) (test_name t)"
  show ?case
  proof (cases "pats = [] \<or> (\<exists>p \<in> set pats. winter_pattern_match_suite p (suite_name suite))")
    case False
    then have none: "filter ?sel ts = []" by (auto simp: selected_def picks_def filter_empty_conv)
    with Cons.IH [OF Cons.prems(1) time(2) ok(1), of tc sc] False show ?thesis by (simp add: en st units_Cons none)
  next
    case True
    let ?w = "winter_print_suite_begin (suite_name suite) w"
    have l: "later w ?w" by simp
    from run_tests_verdict [OF benign_later [OF l Cons.prems(1)] on_time_later [OF l time(1)] nr pats fnm, of os suite s 0 0] obtain w1 where
      w1: "run_tests fuel env os wt suite s ts (0, 0) ?w = ret ((of_nat (length (filter ?sel ts)),
        of_nat (length (filter (\<lambda>t. ?sel t \<and> passes os s suite t) ts))), w1)" "later ?w w1" by auto
    let ?v = "winter_print_suite_end (suite_name suite) (of_nat (length (filter ?sel ts)))
      (of_nat (length (filter (\<lambda>t. ?sel t \<and> passes os s suite t) ts))) w1"
    have v: "later w ?v" using later_trans [OF l w1(2)] by simp
    from Cons.IH [OF benign_later [OF v Cons.prems(1)] on_time_later [OF v time(2)] ok(1)] obtain w2 where
      w2: "run_suites fuel env os wt s (map fst sts) (tc + of_nat (length (filter ?sel ts)),
        sc + of_nat (length (filter (\<lambda>t. ?sel t \<and> passes os s suite t) ts))) ?v = ret
      ((tc + of_nat (length (filter ?sel ts)) + of_nat (length (units (fnmatch env) pats sts)),
        sc + of_nat (length (filter (\<lambda>t. ?sel t \<and> passes os s suite t) ts)) + of_nat (length (passed os s (units (fnmatch env) pats sts)))), w2)"
      "later ?v w2" by blast
    have "run_suites fuel env os wt s (map fst (st # sts)) (tc, sc) w = ret
      ((tc + of_nat (length (units (fnmatch env) pats (st # sts))), sc + of_nat (length (passed os s (units (fnmatch env) pats (st # sts))))), w2)"
      using True w1(1) w2(1) array_elements_rep(1) [OF ok(2)]
      by (simp add: en st units_Cons passed_append length_passed_suite add.assoc)
    with later_trans [OF v w2(2)] show ?thesis by blast
  qed
qed

section \<open>Registration\<close>

definition registered :: "('s winter_suite \<times> winter_test list) list \<Rightarrow> 's winter \<Rightarrow> bool" where
  "registered sts wt \<longleftrightarrow> initialized wt \<and> array_rep sizeof_suite (map fst sts) (suites wt) \<and>
     array_rep sizeof_pattern [] (patterns wt) \<and> suites_ok sts"

lemma initialize_zero:
  "\<exists>wt. winter_initialize zero_winter [] = ret (wt, []) \<and> registered [] wt"
proof -
  have z: "sizeof_suite \<noteq> 0" "8 * unat sizeof_suite < 2 ^ 64" "sizeof_pattern \<noteq> 0" "8 * unat sizeof_pattern < 2 ^ 64"
    by (simp_all add: sizeof_suite_def sizeof_pattern_def)
  show ?thesis
    by (simp add: winter_initialize_def zero_winter_def registered_def suites_ok_def
        array_rep_init [OF z(1,2)] array_rep_init [OF z(3,4)])
qed

lemma initialize_registered: "registered sts wt \<Longrightarrow> winter_initialize wt mem = ret (wt, mem)"
  by (simp add: winter_initialize_def registered_def)

lemma describe_registers:
  assumes reg: "registered sts wt \<or> sts = [] \<and> wt = zero_winter" and cnt: "counters_ok blocks"
    and lim: "length (block_tests blocks) \<le> array_limit sizeof_test" "length sts < array_limit sizeof_suite"
  shows "\<exists>wt' suite. describe name blocks s wt [] = ret (wt', []) \<and> suite_name suite = name \<and> suite_blocks suite = blocks \<and>
    registered (sts @ [(suite, block_tests blocks)]) wt'"
proof -
  obtain wt1 where wt1: "winter_initialize wt [] = ret (wt1, [])" "registered sts wt1"
    using reg initialize_zero initialize_registered [of sts wt "[]"] by blast
  have z: "sizeof_test \<noteq> 0" "8 * unat sizeof_test < 2 ^ 64" by (simp_all add: sizeof_test_def)
  note I = array_rep_init [OF z]
  from winter_arrays.push_all_works [OF I(2), of "block_tests blocks"] lim(1) obtain ta where
    ta: "push_all winter_array_push (block_tests blocks) \<lparr>element_size = sizeof_test, elements = replicate 8 None, alength = 0, allocated = 8\<rparr> [] =
      ret (ta, [])" "array_rep sizeof_test (block_tests blocks) ta" by auto
  have "\<forall>t \<in> set (block_tests blocks). 6 \<le> test_id t" using cnt by (simp add: counters_ok_def)
  note F = suite_func_info [OF this]
  let ?suite = "\<lparr>suite_name = name, suite_tests = ta, suite_blocks = blocks\<rparr>"
  have rs: "array_rep sizeof_suite (map fst sts) (suites wt1)" using wt1(2) by (simp add: registered_def)
  from winter_arrays.push_works [OF rs, of ?suite] lim(2) obtain sa where
    sa: "winter_array_push (suites wt1) ?suite [] = ret (sa, [])" by auto
  have "array_rep sizeof_suite (map fst sts @ [?suite]) sa" using winter_arrays.push_rep [OF rs _ sa] lim(2) by simp
  then have "registered (sts @ [(?suite, block_tests blocks)]) (wt1\<lparr>suites := sa\<rparr>)"
    using wt1(2) ta(2) by (auto simp: registered_def suites_ok_def)
  moreover have "describe name blocks s wt [] = ret (wt1\<lparr>suites := sa\<rparr>, [])"
    using wt1(1) ta(1) sa by (simp add: describe_def F I(1))
  ultimately show ?thesis by (intro exI [of _ "wt1\<lparr>suites := sa\<rparr>"] exI [of _ ?suite] conjI) simp_all
qed

section \<open>The whole program\<close>

lemma initial_vals:
  "\<not> bool_val (initial_opts ! opt_index OPT_VERSION)" "\<not> bool_val (initial_opts ! opt_index OPT_HELP)"
  "\<not> bool_val (initial_opts ! opt_index OPT_LIST)" "\<not> bool_val (initial_opts ! opt_index OPT_RERUN)"
  "str_val (initial_opts ! opt_index OPT_DEBUG) = None"
  "bool_val (winter_opt_default (initial_opts ! opt_index OPT_COLOR) b) = b"
  "bool_val (winter_opt_default (initial_opts ! opt_index OPT_TIMEOUT) b) = b"
  by (simp_all add: initial_opts_def winter_opt_flag_def winter_opt_str_def winter_opt_default_def)

declare opt_index.simps [simp del] bool_val.simps [simp del] str_val.simps [simp del]

lemma parse_patterns:
  assumes "\<forall>p \<in> set pats. \<not> (\<exists>rest. p = CHR ''-'' # rest)" and "array_rep sizeof_pattern [] (patterns wt)"
    and "length pats \<le> array_limit sizeof_pattern"
  shows "\<exists>ps. winter_parse_args fuel env (prog # pats) wt [] w =
      ret (wt\<lparr>patterns := ps, opt_list := False, opt_color := is_tty env \<and> \<not> no_color env, opt_rerun := False, opt_timeout := True\<rparr>, [], w) \<and>
    array_rep sizeof_pattern pats ps"
proof -
  from winter_arrays.push_all_works [OF assms(2), of pats] assms(3) obtain ps where
    ps: "push_all winter_array_push pats (patterns wt) [] = ret (ps, [])" "array_rep sizeof_pattern pats ps" by auto
  have m: "concat (map item_args (map Pattern_arg pats)) = pats" "concat (map item_patterns (map Pattern_arg pats)) = pats"
    "fold item_opts (map Pattern_arg pats) initial_opts = initial_opts" by (induction pats) simp_all
  have "\<forall>x \<in> set (map Pattern_arg pats). item_ok x" using assms(1) by simp
  from parse_items [OF this names_ok_initial, of "patterns wt" "[]", unfolded m] ps(1)
  have "parse_loop pats initial_opts (patterns wt) [] = ret (initial_opts, ps, [])" by simp
  then show ?thesis
    by (intro exI [of _ ps] conjI ps(2)) (simp add: winter_parse_args_def initial_vals Let_def)
qed

lemma length_units: "length (units fnm pats sts) \<le> length (concat (map snd sts))"
  by (induction sts) (auto simp: units_def intro: add_mono le_trans [OF length_filter_le])

lemma of_nat_u32_eq: "a < 2 ^ 32 \<Longrightarrow> b < 2 ^ 32 \<Longrightarrow> (of_nat a :: u32) = of_nat b \<longleftrightarrow> a = b"
  by (simp add: word_of_nat_eq_iff take_bit_nat_eq_self)

lemma length_passed_all: "length (passed os s us) = length us \<longleftrightarrow> (\<forall>(suite, t) \<in> set us. passes os s suite t)"
  unfolding passed_def by (metis (no_types, lifting) filter_id_conv length_filter_less nat_neq_iff)

lemma main_verdict:
  assumes reg: "registered sts wt" and pats: "\<forall>p \<in> set pats. \<not> (\<exists>rest. p = CHR ''-'' # rest)" "length pats \<le> array_limit sizeof_pattern"
    and fnm: "\<forall>a b. fnmatch env a b \<noteq> Fnm_error" and w: "benign fuel w" "on_time (concat (map snd sts)) w"
    and few: "length (concat (map snd sts)) < 2 ^ 32"
  shows "\<exists>start w'. winter_main fuel env os (prog # pats) wt [] s w =
    ret (if \<forall>(suite, t) \<in> set (units (fnmatch env) pats sts). passes os s suite t then EXIT_SUCCESS else EXIT_FAILURE,
      winter_print_summary start (of_nat (length (passed os s (units (fnmatch env) pats sts))))
        (of_nat (length (units (fnmatch env) pats sts))) w')"
proof -
  let ?us = "units (fnmatch env) pats sts"
  have R: "array_rep sizeof_suite (map fst sts) (suites wt)" "array_rep sizeof_pattern [] (patterns wt)" "suites_ok sts"
    using reg by (simp_all add: registered_def)
  from parse_patterns [OF pats(1) R(2) pats(2)] obtain ps where
    ps: "winter_parse_args fuel env (prog # pats) wt [] w =
      ret (wt\<lparr>patterns := ps, opt_list := False, opt_color := is_tty env \<and> \<not> no_color env, opt_rerun := False, opt_timeout := True\<rparr>, [], w)"
    "array_rep sizeof_pattern pats ps" by blast
  let ?wt = "wt\<lparr>patterns := ps, opt_list := False, opt_color := is_tty env \<and> \<not> no_color env, opt_rerun := False, opt_timeout := True\<rparr>"
  have l: "later w (w\<lparr>clock := \<lambda>n. clock w (Suc n)\<rparr>)" by (rule later_calls(1))
  have p: "array_rep sizeof_pattern pats (patterns ?wt)" "\<not> opt_rerun ?wt" using ps(2) by simp_all
  from run_suites_verdict [OF benign_later [OF l w(1)] on_time_later [OF l w(2)] R(3) p(2,1) fnm, of os s 0 0] obtain w' where
    w': "run_suites fuel env os ?wt s (map fst sts) (0, 0) (w\<lparr>clock := \<lambda>n. clock w (Suc n)\<rparr>) =
      ret ((of_nat (length ?us), of_nat (length (passed os s ?us))), w')" by auto
  have "length ?us < 2 ^ 32" using length_units [of "fnmatch env" pats sts] few by simp
  moreover have "length (passed os s ?us) \<le> length ?us" by (simp add: passed_def)
  ultimately have "(of_nat (length ?us) :: u32) = of_nat (length (passed os s ?us)) \<longleftrightarrow> length (passed os s ?us) = length ?us"
    by (subst of_nat_u32_eq) auto
  then have v: "(of_nat (length ?us) :: u32) = of_nat (length (passed os s ?us)) \<longleftrightarrow> (\<forall>(suite, t) \<in> set ?us. passes os s suite t)"
    unfolding length_passed_all .
  have "winter_main fuel env os (prog # pats) wt [] s w =
    ret (if (of_nat (length ?us) :: u32) = of_nat (length (passed os s ?us)) then EXIT_SUCCESS else EXIT_FAILURE,
      winter_print_summary (clock w 0) (of_nat (length (passed os s ?us))) (of_nat (length ?us)) w')"
    using ps(1) w' array_elements_rep(1) [OF R(1)] by (simp add: winter_main_def initialize_registered [OF reg])
  then show ?thesis unfolding v by blast
qed

section \<open>Properties\<close>

text \<open>
  C19: Registration and dispatch. \<^verbatim>\<open>describe\<close> adds a suite whose tests are the test blocks of
  its body, in their order, and keeps those registered before; and the process of a
  registered test with one thread runs the bodies of all \<^verbatim>\<open>before_each\<close> blocks, then its
  own body, then all \<^verbatim>\<open>after_each\<close> blocks, and no other test.
\<close>

theorem describe_registers_tests:
  assumes "registered sts wt \<or> sts = [] \<and> wt = zero_winter" and "counters_ok blocks"
    and "length (block_tests blocks) \<le> array_limit sizeof_test" and "length sts < array_limit sizeof_suite"
  shows "\<exists>wt' suite. describe name blocks s wt [] = ret (wt', []) \<and> suite_name suite = name \<and>
    registered (sts @ [(suite, block_tests blocks)]) wt' \<and>
    (\<forall>n i timeout body os s. Test n i 1 timeout body \<in> set blocks \<longrightarrow>
      winter_process_entry os (suite_blocks suite) \<lparr>test_name = n, test_id = i + 6, test_threads = 1, test_timeout = timeout\<rparr> s =
      pbind (run_bodies (before_bodies blocks) 0 s) (\<lambda>s. pbind (body 0 s) (\<lambda>s. run_bodies (after_bodies blocks) 0 s)))"
proof -
  obtain wt' suite where d: "describe name blocks s wt [] = ret (wt', [])" "suite_name suite = name" "suite_blocks suite = blocks"
    "registered (sts @ [(suite, block_tests blocks)]) wt'" using describe_registers [OF assms] by blast
  note C = call_func_cases [OF assms(2)]
  have "winter_process_entry os blocks \<lparr>test_name = n, test_id = i + 6, test_threads = 1, test_timeout = timeout\<rparr> s =
      pbind (run_bodies (before_bodies blocks) 0 s) (\<lambda>s. pbind (body 0 s) (\<lambda>s. run_bodies (after_bodies blocks) 0 s))"
    if "Test n i 1 timeout body \<in> set blocks" for n i timeout body and os :: "'a threading" and s
    using C(3) [OF that] by (simp add: winter_process_entry_def C(1,2) cong: pbind_cong)
  with d show ?thesis unfolding d(3) [symmetric] by blast
qed

definition sample_blocks :: "nat block list" where
  "sample_blocks = [Before_each (\<lambda>_ n. ret (n + 1)), it ''double'' 0 (\<lambda>_ n. ret (2 * n)), After_each (\<lambda>_ n. ret (n + 5)),
     it ''square'' 1 (\<lambda>_ n. ret (n * n))]"

lemma sample_ok: "counters_ok sample_blocks" "length (block_tests sample_blocks) \<le> array_limit sizeof_test" "0 < array_limit sizeof_suite"
  by (simp_all add: sample_blocks_def it_def counters_ok_def array_limit_def sizeof_test_def sizeof_suite_def word_le_nat_alt)

theorem describe_registers_tests_witness:
  "\<exists>wt' suite. describe ''sample'' sample_blocks 0 zero_winter [] = ret (wt', []) \<and> registered [(suite, block_tests sample_blocks)] wt' \<and>
    (\<forall>os. winter_process_entry os (suite_blocks suite) \<lparr>test_name = ''square'', test_id = 7, test_threads = 1, test_timeout = 2000000\<rparr> 3 =
      ret 21)"
proof -
  have m: "Test ''square'' 1 1 2000000 (\<lambda>_ n. ret (n * n)) \<in> set sample_blocks"
    by (simp add: sample_blocks_def it_def WINTER_DEFAULT_TIMEOUT_MS_def)
  have "length ([] :: (nat winter_suite \<times> winter_test list) list) < array_limit sizeof_suite" using sample_ok(3) by simp
  from describe_registers_tests [OF _ sample_ok(1,2) this, of zero_winter "''sample''" 0] obtain wt' suite where
    d: "describe ''sample'' sample_blocks 0 zero_winter [] = ret (wt', [])" "registered [(suite, block_tests sample_blocks)] wt'"
    and r: "\<forall>n i timeout body os s. Test n i 1 timeout body \<in> set sample_blocks \<longrightarrow>
      winter_process_entry os (suite_blocks suite) \<lparr>test_name = n, test_id = i + 6, test_threads = 1, test_timeout = timeout\<rparr> s =
      pbind (run_bodies (before_bodies sample_blocks) 0 s) (\<lambda>s. pbind (body 0 s) (\<lambda>s. run_bodies (after_bodies sample_blocks) 0 s))"
    by auto
  have "winter_process_entry os (suite_blocks suite) \<lparr>test_name = ''square'', test_id = 7, test_threads = 1, test_timeout = 2000000\<rparr> 3 = ret 21"
    for os using r [rule_format, OF m, of os 3] by (simp add: sample_blocks_def it_def)
  with d show ?thesis by blast
qed


definition sample_test :: winter_test where
  "sample_test = \<lparr>test_name = ''t'', test_id = 6, test_threads = 1, test_timeout = 100\<rparr>"

definition sample_world :: "(nat \<Rightarrow> wait_answer) \<Rightarrow> int \<Rightarrow> world" where
  "sample_world ws pid = \<lparr>clock = \<lambda>n. 30 * int n, forks = \<lambda>_. pid, waits = ws, kills = \<lambda>_. True, aborts = \<lambda>_. False,
     printed = [], signals = []\<rparr>"


text \<open>
  A test that never ran passes. When \<^verbatim>\<open>fork\<close> fails its result -1 is not noticed:
  \<^verbatim>\<open>waitpid\<close> returns -1 as well, for want of a child, which the parent takes for the end of the process;
  the status still has its initial value 0, and the test is reported as a success.
\<close>

theorem failed_fork_passes:
  assumes "forks w 0 = -1" and "waits w 0 = Failed ECHILD"
  shows "\<exists>w'. winter_unit_execute (Suc fuel) timeout_on child start test w = Inr (True, w') \<and> printed w' = printed w"
  using assms by (simp add: winter_unit_execute_def)

theorem failed_fork_passes_witness:
  "\<exists>w'. winter_unit_execute 1 True (Exited 255) 0 sample_test (sample_world (\<lambda>n. Failed ECHILD) (-1)) = Inr (True, w')"
  using failed_fork_passes [of "sample_world (\<lambda>n. Failed ECHILD) (-1)" 0 True "Exited 255" 0 sample_test]
  by (auto simp: sample_world_def)


definition sample_env :: environment where
  "sample_env = \<lparr>is_tty = True, no_color = False, fnmatch = \<lambda>a b. if a = b then Fnm_match else Fnm_nomatch\<rparr>"

definition no_threads :: "'s threading" where
  "no_threads = \<lparr>run_threads = \<lambda>_ _ s. ret s, creates = \<lambda>_. True, joins = \<lambda>_. True\<rparr>"


end
