(* ===== verification/Tests.thy ===== *)
theory Tests
  imports WinterVerdict Varint TableAppend
begin

text \<open>
  The test suites at the end of src/varint.c, src/pager.c and src/btree.c, written with the
  assertions of include/winter.h, as blocks that the model of the test framework runs.

  A suite is a value of type \<open>'s block list\<close>. What a test cannot decide is the record
  \<open>machine\<close>: the answers of the allocator, the spurious failures of the compare-exchange, the
  addresses of page headers, the contents of arrays on the stack, and the bounds for loops.
\<close>

section \<open>Assertions\<close>

text \<open>
  A failed assertion prints a message and ends the process with the code 255; the message
  is left out. \<open>assert_success\<close> also prints the trace, and so reads its frames.
\<close>

definition winter_fail :: "'a prog" where
  "winter_fail = quit (Exit WINTER_EXIT_FAILURE)"

definition assertis :: "bool \<Rightarrow> unit prog" where
  "assertis x = (if \<not> x then winter_fail else ret ())"

definition winter_assert :: "bool \<Rightarrow> 'a \<Rightarrow> 'a \<Rightarrow> unit prog" where
  "winter_assert invert a b =
     (let eq = (a = b) in
      if \<not> eq \<and> \<not> invert then winter_fail
      else if eq \<and> invert then winter_fail
      else ret ())"

definition asserteq :: "'a \<Rightarrow> 'a \<Rightarrow> unit prog" where
  "asserteq a b = winter_assert False a b"

definition assertneq :: "'a \<Rightarrow> 'a \<Rightarrow> unit prog" where
  "assertneq a b = winter_assert True a b"

text \<open>\<^verbatim>\<open>strcmp\<close> on the strings up to their terminators.\<close>

definition winter_assert_str :: "bool \<Rightarrow> string \<Rightarrow> string \<Rightarrow> unit prog" where
  "winter_assert_str invert a b =
     (let eq = (a = b) in
      if \<not> eq \<and> \<not> invert then winter_fail
      else if eq \<and> invert then winter_fail
      else ret ())"

definition assert_success :: "result \<Rightarrow> error_state \<Rightarrow> unit prog" where
  "assert_success r es =
     (if r = SUCCESS then ret ()
      else if list_all (\<lambda>i. error_trace_nth es (of_nat i) \<noteq> None) [0..<unat (error_trace_length es)] then winter_fail
      else Inl Null_dereference)"

definition assert_failure :: "result \<Rightarrow> int \<Rightarrow> error_state \<Rightarrow> unit prog" where
  "assert_failure r code es =
     (if r \<noteq> FAILURE then winter_fail
      else if error_get_code es \<noteq> code then winter_fail
      else ret ())"

text \<open>A sequence of steps that each take and return the state of the process.\<close>

fun each :: "('a \<Rightarrow> 's \<Rightarrow> 's prog) \<Rightarrow> 'a list \<Rightarrow> 's \<Rightarrow> 's prog" where
  "each f [] s = ret s"
| "each f (x # xs) s = pbind (f x s) (\<lambda>s. each f xs s)"

text \<open>A check that leaves the state as it is.\<close>

definition check :: "unit prog \<Rightarrow> 's \<Rightarrow> 's prog" where
  "check m s = pbind m (\<lambda>_. ret s)"

section \<open>src/varint.c\<close>

definition test_varint :: "u64 \<Rightarrow> u32 \<Rightarrow> unit prog" where
  "test_varint value sz =
     (let buf = replicate 9 0xff in
      pbind (lift (varint_put buf value)) (\<lambda>(buf, n).
      pbind (asserteq (ucast n :: u64) (ucast sz)) (\<lambda>_.
      pbind (asserteq (ucast (varint_put_len value) :: u64) (ucast sz)) (\<lambda>_.
      pbind (lift (varint_get buf)) (\<lambda>(result, n).
      pbind (asserteq (ucast n :: u64) (ucast sz)) (\<lambda>_.
      pbind (lift (varint_get_len buf)) (\<lambda>n.
      pbind (asserteq (ucast n :: u64) (ucast sz)) (\<lambda>_.
      asserteq result value))))))))"

text \<open>\<open>c\<close> is the value of \<^verbatim>\<open>__COUNTER__\<close> at the first test of the file.\<close>

definition varint_blocks :: "u64 \<Rightarrow> unit block list" where
  "varint_blocks c =
     [it ''8 byte values'' c (\<lambda>_. each (\<lambda>(v, n) _. test_varint v n) [(-1, 9), (-2, 9)]),
      it ''1 byte values'' (c + 1) (\<lambda>_. each (\<lambda>(v, n) _. test_varint v n) [(0x7f, 1), (0x1, 1), (0x0, 1)]),
      it ''2 byte values'' (c + 2) (\<lambda>_. each (\<lambda>(v, n) _. test_varint v n) [(0x3fff, 2), (0x81, 2), (0x80, 2)])]"

section \<open>src/pager.c\<close>

record machine =
  answers :: mallocs
  retries :: "bool list"
  address :: "nat \<Rightarrow> nat"
  key_buf :: "byte list"
  value_buf :: "nat \<Rightarrow> byte list"
  fuel_bound :: nat
  depth_bound :: nat

text \<open>The state of a test process: the thread's errors and the static variables of the suites.\<close>

record process =
  errors :: error_state
  the_pager :: "pager_t allocated option"
  the_btree :: "btree_t allocated option"
  the_value :: blob_t
  inner_cell_count :: u16
  leaf_cell_count :: u16

fun live :: "'a allocated option \<Rightarrow> 'a outcome" where
  "live None = Inl Null_dereference"
| "live (Some Freed) = Inl Out_of_bounds"
| "live (Some (Live x)) = Inr x"

definition sizeof_page_hdr :: nat where "sizeof_page_hdr = 12"
definition PAGE_ALIGNMENT :: nat where "PAGE_ALIGNMENT = 4"

definition open_pager :: "machine \<Rightarrow> u16 \<Rightarrow> u32 \<Rightarrow> process \<Rightarrow> process prog" where
  "open_pager m page_size directory_size s =
     pbind (lift (pager_open page_size directory_size (answers m) (retries m) (errors s))) (\<lambda>(r, out, es).
     pbind (assert_success r es) (\<lambda>_.
     ret (s\<lparr>the_pager := out, errors := es\<rparr>)))"

definition close_pager :: "process \<Rightarrow> process prog" where
  "close_pager s =
     pbind (lift (live (the_pager s))) (\<lambda>p.
     pbind (lift (pager_close p)) (\<lambda>(r, _).
     pbind (assert_success r (errors s)) (\<lambda>_.
     ret (s\<lparr>the_pager := None\<rparr>))))"

definition clear_errors :: "process \<Rightarrow> process" where
  "clear_errors s = s\<lparr>errors := error_clear (errors s)\<rparr>"

text \<open>\<^verbatim>\<open>assert_success(pager_fix(pager, id, exclusive, &page))\<close>, and what follows works on \<^verbatim>\<open>page\<close>.\<close>

definition fix_page :: "machine \<Rightarrow> u32 \<Rightarrow> bool \<Rightarrow> (page_t \<Rightarrow> process \<Rightarrow> process prog) \<Rightarrow> process \<Rightarrow> process prog" where
  "fix_page m pgid exclusive k s =
     pbind (lift (live (the_pager s))) (\<lambda>p.
     pbind (lift (pager_fix (fuel_bound m) p pgid exclusive (errors s))) (\<lambda>(r, out, p, es).
     pbind (assert_success r es) (\<lambda>_.
     case out of None \<Rightarrow> Inl Indeterminate
     | Some page \<Rightarrow> k page (s\<lparr>the_pager := Some (Live p), errors := es\<rparr>))))"

text \<open>\<^verbatim>\<open>assert_failure(pager_fix(pager, id, exclusive, &page), code)\<close>\<close>

definition fix_page_fails :: "machine \<Rightarrow> u32 \<Rightarrow> bool \<Rightarrow> int \<Rightarrow> process \<Rightarrow> process prog" where
  "fix_page_fails m pgid exclusive code s =
     pbind (lift (live (the_pager s))) (\<lambda>p.
     pbind (lift (pager_fix (fuel_bound m) p pgid exclusive (errors s))) (\<lambda>(r, _, p, es).
     pbind (assert_failure r code es) (\<lambda>_.
     ret (s\<lparr>the_pager := Some (Live p), errors := es\<rparr>))))"

definition unfix_page :: "page_t \<Rightarrow> process \<Rightarrow> process prog" where
  "unfix_page page s =
     pbind (lift (live (the_pager s))) (\<lambda>p.
     pbind (lift (pager_unfix p page)) (\<lambda>p.
     ret (s\<lparr>the_pager := Some (Live p)\<rparr>)))"

text \<open>A check of \<^verbatim>\<open>header_from_data(page.data)->latch\<close>.\<close>

definition check_latch :: "(int \<Rightarrow> unit prog) \<Rightarrow> page_t \<Rightarrow> process \<Rightarrow> process prog" where
  "check_latch f page s =
     pbind (lift (live (the_pager s))) (\<lambda>p.
     pbind (lift (deref (heap p) (Some (tptr page)))) (\<lambda>(_, h).
     check (f (sint (platch h))) s))"

text \<open>The pages \<^verbatim>\<open>1\<close> to \<^verbatim>\<open>pager->size - k\<close>.\<close>

definition pages_to :: "(u32 \<Rightarrow> u32) \<Rightarrow> (u32 \<Rightarrow> process \<Rightarrow> process prog) \<Rightarrow> process \<Rightarrow> process prog" where
  "pages_to end_of f s =
     pbind (lift (live (the_pager s))) (\<lambda>p.
     each f (map of_nat [1..<Suc (unat (end_of (psize p)))]) s)"

text \<open>Two pages that are on the stack at once are told apart by the address of their header.\<close>

definition pager_blocks :: "machine \<Rightarrow> u64 \<Rightarrow> process block list" where
  "pager_blocks m c =
     [Before_each (\<lambda>_. open_pager m 124 64),
      After_each (\<lambda>_ s. pbind (close_pager s) (\<lambda>s. ret (clear_errors s))),
      it ''alignment'' c (\<lambda>_. check (assertis (sizeof_page_hdr mod PAGE_ALIGNMENT = 0))),
      it ''fix a page'' (c + 1) (\<lambda>_. fix_page m 3 False (\<lambda>page s.
        pbind (check (asserteq (tid page) 3) s) (\<lambda>s.
        check (assertis ((address m (tptr page) + sizeof_page_hdr) mod PAGE_ALIGNMENT = 0)) s))),
      it ''fix the same page twice'' (c + 2) (\<lambda>_. fix_page m 3 False (\<lambda>first. fix_page m 3 False (\<lambda>second s.
        pbind (check (asserteq (tid first) (tid second)) s) (\<lambda>s.
        check (asserteq (tptr first) (tptr second)) s)))),
      it ''fix two different pages'' (c + 3) (\<lambda>_. fix_page m 3 False (\<lambda>first. fix_page m 4 False (\<lambda>second s.
        pbind (check (assertneq (tid first) (tid second)) s) (\<lambda>s.
        check (assertneq (tptr first) (tptr second)) s)))),
      it ''acquire the page latch'' (c + 4) (\<lambda>_. fix_page m 3 False (\<lambda>page s.
        pbind (check_latch (\<lambda>l. asserteq l 1) page s)
        (fix_page m 4 True (\<lambda>page. check_latch (\<lambda>l. asserteq l (-1)) page)))),
      it ''fill pager'' (c + 5) (\<lambda>_ s.
        pbind (pages_to (\<lambda>n. n - 1) (\<lambda>i. fix_page m i False (\<lambda>_. ret)) s) (\<lambda>s.
        pbind (lift (live (the_pager s))) (\<lambda>p.
        fix_page_fails m (psize p) False ENOMEM s))),
      parallel ''fill pager'' 8 (c + 6) (\<lambda>_. pages_to (\<lambda>n. n - 8) (\<lambda>i. fix_page m i False (\<lambda>_. ret))),
      it ''fix invalid page id'' (c + 7) (\<lambda>_. fix_page_fails m 0 True EINVAL),
      it ''release the page latch'' (c + 8) (\<lambda>_. fix_page m 3 False (\<lambda>page s.
        pbind (check_latch (\<lambda>l. asserteq l 1) page s) (\<lambda>s.
        pbind (unfix_page page s) (\<lambda>s.
        pbind (check_latch (\<lambda>l. asserteq l 0) page s)
        (fix_page m 3 True (\<lambda>page s.
        pbind (check_latch (\<lambda>l. asserteq l (-1)) page s) (\<lambda>s.
        pbind (unfix_page page s) (\<lambda>s.
        check_latch (\<lambda>l. asserteq l 0) page s)))))))),
      parallel ''fix and unfix pages non-exclusive'' 8 (c + 9) (\<lambda>_. pages_to (\<lambda>n. n * 10) (\<lambda>i. fix_page m i False (\<lambda>page s.
        pbind (check_latch (\<lambda>l. assertis (l > 0)) page s) (unfix_page page)))),
      parallel ''fix and unfix pages exclusive'' 8 (c + 10) (\<lambda>_. pages_to (\<lambda>n. n * 10) (\<lambda>i. fix_page m i True (\<lambda>page s.
        pbind (check_latch (\<lambda>l. assertis (l = -1)) page s) (unfix_page page))))]"

section \<open>src/btree.c\<close>

text \<open>\<^verbatim>\<open>"hello world"\<close> with its terminating zero\<close>

definition hello_world :: "byte list" where
  "hello_world = [0x68, 0x65, 0x6c, 0x6c, 0x6f, 0x20, 0x77, 0x6f, 0x72, 0x6c, 0x64, 0]"

definition test_page_size :: u16 where "test_page_size = 1024"

text \<open>\<^verbatim>\<open>test_get_root_header(btree)\<close>, and what follows works on the header.\<close>

definition root_header :: "machine \<Rightarrow> (header_t \<Rightarrow> process \<Rightarrow> process prog) \<Rightarrow> process \<Rightarrow> process prog" where
  "root_header m k s =
     pbind (lift (live (the_btree s))) (\<lambda>bt.
     fix_page m (root bt) False (\<lambda>page s.
     pbind (lift (live (the_pager s))) (\<lambda>p.
     pbind (lift (obind (page_data p page) page_get_header)) (\<lambda>header.
     pbind (unfix_page page s) (k header)))) s)"

definition insert_id :: "machine \<Rightarrow> u64 \<Rightarrow> process \<Rightarrow> process prog" where
  "insert_id m i s =
     pbind (lift (live (the_pager s))) (\<lambda>p.
     pbind (lift (live (the_btree s))) (\<lambda>bt.
     pbind (lift (btree_table_insert (depth_bound m) (fuel_bound m) bt p i (the_value s) (key_buf m)
       (value_buf m (unat (blob_put_len (the_value s)))) (errors s))) (\<lambda>(r, bt, p, es).
     pbind (assert_success r es) (\<lambda>_.
     ret (s\<lparr>the_pager := Some (Live p), the_btree := Some (Live bt), errors := es\<rparr>)))))"

definition lookup_id :: "machine \<Rightarrow> u64 \<Rightarrow> process \<Rightarrow> process prog" where
  "lookup_id m i s =
     pbind (lift (live (the_pager s))) (\<lambda>p.
     pbind (lift (live (the_btree s))) (\<lambda>bt.
     pbind (lift (btree_table_lookup (depth_bound m) (fuel_bound m) bt p i (key_buf m) (errors s))) (\<lambda>(r, out, p, es).
     pbind (assert_success r es) (\<lambda>_.
     case out of None \<Rightarrow> Inl Indeterminate
     | Some result \<Rightarrow>
         pbind (lift (blob_cmp result (the_value s))) (\<lambda>c.
         check (asserteq c 0) (s\<lparr>the_pager := Some (Live p), errors := es\<rparr>))))))"

text \<open>The ids \<^verbatim>\<open>0\<close> to \<^verbatim>\<open>n - 1\<close>.\<close>

definition ids_below :: "(process \<Rightarrow> nat) \<Rightarrow> (u64 \<Rightarrow> process \<Rightarrow> process prog) \<Rightarrow> process \<Rightarrow> process prog" where
  "ids_below n f s = each f (map of_nat [0..<n s]) s"

definition btree_before :: "machine \<Rightarrow> process \<Rightarrow> process prog" where
  "btree_before m s =
     (let v = blob_from_string hello_world;
          s = s\<lparr>the_value := v, inner_cell_count := ucast ((ucast test_page_size - 12) div (2 + 4 + 1) :: u64),
            leaf_cell_count := ucast ((ucast test_page_size - 12) div (2 + 1 + blob_put_len v))\<rparr> in
      pbind (open_pager m test_page_size 512 s) (\<lambda>s.
      pbind (lift (live (the_pager s))) (\<lambda>p.
      pbind (lift (btree_create (fuel_bound m) p PAGE_FLAG_TABLE (errors s))) (\<lambda>(r, out, p, es).
      pbind (assert_success r es) (\<lambda>_.
      ret (s\<lparr>the_btree := out, the_pager := Some (Live p), errors := es\<rparr>))))))"

definition btree_after :: "process \<Rightarrow> process prog" where
  "btree_after s =
     pbind (lift (live (the_btree s))) (\<lambda>bt.
     case btree_close bt of (r, out) \<Rightarrow>
     pbind (assert_success r (errors s)) (\<lambda>_.
     pbind (close_pager (s\<lparr>the_btree := out\<rparr>)) (\<lambda>s.
     ret (clear_errors s))))"

definition alignof_header :: nat where "alignof_header = 4"

definition leaf_count :: "process \<Rightarrow> nat" where
  "leaf_count s = unat (leaf_cell_count s)"

definition btree_blocks :: "machine \<Rightarrow> u64 \<Rightarrow> process block list" where
  "btree_blocks m c =
     [Before_each (\<lambda>_. btree_before m),
      After_each (\<lambda>_. btree_after),
      it ''alignment'' c (\<lambda>_. check (assertis (PAGE_ALIGNMENT mod alignof_header = 0))),
      it ''insert into root leaf'' (c + 1) (\<lambda>_ s. pbind (insert_id m 7 s) (lookup_id m 7)),
      it ''fill root leaf'' (c + 2) (\<lambda>_ s.
        pbind (ids_below leaf_count (insert_id m) s) (root_header m (\<lambda>header s.
        pbind (check (assertis (page_is_leaf (flags header))) s) (\<lambda>s.
        pbind (check (asserteq (cell_count header) (leaf_cell_count s)) s) (\<lambda>s.
        pbind (check (asserteq (right header) 0) s) (\<lambda>s.
        ids_below leaf_count (lookup_id m) s)))))),
      it ''split root leaf'' (c + 3) (\<lambda>_ s.
        pbind (ids_below leaf_count (insert_id m) s) (\<lambda>s.
        pbind (insert_id m (ucast (leaf_cell_count s)) s) (root_header m (\<lambda>header s.
        pbind (check (assertis (page_is_inner (flags header))) s) (\<lambda>s.
        pbind (check (asserteq (cell_count header) 1) s) (\<lambda>s.
        pbind (check (assertneq (right header) 0) s) (\<lambda>s.
        ids_below (\<lambda>s. Suc (leaf_count s)) (lookup_id m) s))))))),
      it ''split inner node'' (c + 4) (\<lambda>_ s.
        pbind (ids_below (\<lambda>s. leaf_count s * unat (inner_cell_count s)) (insert_id m) s)
        (ids_below (\<lambda>s. leaf_count s * unat (inner_cell_count s)) (lookup_id m)))]"

end
