(* ===== verification/TestsPass.thy ===== *)
theory TestsPass
  imports Tests
begin

text \<open>
  What the test suites of the repository do when they are run on the model: which tests pass, and what
  their passing shows.
\<close>

section \<open>A test that passes\<close>

lemma test_passes:
  assumes "counters_ok blocks" and "Test n i 1 timeout body \<in> set blocks" and "run_bodies (before_bodies blocks) 0 s = ret s1"
    and "body 0 s1 = ret s2" and "run_bodies (after_bodies blocks) 0 s2 = ret s3"
  shows "child_status (winter_process_entry os blocks \<lparr>test_name = n, test_id = i + 6, test_threads = 1, test_timeout = timeout\<rparr> s) = Exited 0"
  using call_func_cases(3) [OF assms(1,2)] assms(3-5)
  by (simp add: winter_process_entry_def call_func_cases(1,2) [OF assms(1)]) (simp add: ret_def)

lemma assert_simps [simp]:
  "assertis b = (if b then ret () else winter_fail)" "asserteq a b' = (if a = b' then ret () else winter_fail)"
  "assertneq a b' = (if a = b' then winter_fail else ret ())" "check (ret ()) s = ret s" "assert_success SUCCESS es = ret ()"
  by (simp_all add: assertis_def asserteq_def assertneq_def winter_assert_def check_def assert_success_def)

text \<open>The counter of a file is far from wrapping around.\<close>

lemma counter_ids:
  assumes "unat (c :: u64) < 2 ^ 32" and "a < 2 ^ 32" and "b < 2 ^ 32"
  shows "c + of_nat a + 6 = c + of_nat b + 6 \<longleftrightarrow> a = b" and "6 \<le> c + of_nat a + 6"
proof -
  have u: "unat (of_nat n :: u64) = n" if "n < 2 ^ 32" for n
    using that by (simp add: unat_of_nat take_bit_eq_mod)
  show "c + of_nat a + 6 = c + of_nat b + 6 \<longleftrightarrow> a = b"
  proof
    assume "c + of_nat a + 6 = c + of_nat b + 6"
    then have "(of_nat a :: u64) = of_nat b" by simp
    then have "unat (of_nat a :: u64) = unat (of_nat b :: u64)" by (rule arg_cong)
    then show "a = b" unfolding u [OF assms(2)] u [OF assms(3)] .
  qed simp
  have "unat (c + of_nat a) = unat c + a" using assms(1,2) u [OF assms(2)] by (simp add: unat_word_ariths)
  then have "unat (c + of_nat a + 6) = unat c + a + 6" using assms(1,2) by (simp add: unat_word_ariths)
  then show "6 \<le> c + of_nat a + 6" by (simp add: word_le_nat_alt)
qed

section \<open>src/varint.c\<close>

text \<open>What a buffer that was filled with ones reads as after a value of nine bytes was written.\<close>

definition read_back :: "u64 \<Rightarrow> u64" where
  "read_back v = (v AND 0x7f) OR (mask 56 AND NOT 0x7f) OR push_bit 56 (drop_bit 7 v AND mask 8)"

lemma bit_read_back: "bit (read_back v) n \<longleftrightarrow> n < 64 \<and> (if n < 7 then bit v n else if n < 56 then True else bit v (n - 49))"
  by (auto simp: read_back_def bit_simps mask_bits)

lemma read_back_same: "read_back v = v \<longleftrightarrow> v OR 0x7f = -1"
proof
  assume eq: "read_back v = v"
  have low: "bit v n" if "7 \<le> n" "n < 56" for n
    using that bit_read_back [of v n] unfolding eq by simp
  show "v OR 0x7f = -1"
  proof (rule bit_word_eqI)
    fix n
    assume "n < LENGTH(64)"
    then have n: "n < 64" by simp
    have "bit v n" if "56 \<le> n" using bit_read_back [of v n] low [of "n - 49"] that n unfolding eq by simp
    then show "bit (v OR 0x7f) n = bit (- 1 :: u64) n" using low [of n] n
      by (cases "56 \<le> n") (auto simp: bit_simps mask_bits not_less)
  qed
next
  assume eq: "v OR 0x7f = -1"
  have ones: "bit v n" if "7 \<le> n" "n < 64" for n
  proof -
    have "bit (v OR 0x7f) n" using that by (simp add: eq bit_simps)
    then show ?thesis using that by (simp add: bit_simps mask_bits)
  qed
  show "read_back v = v" by (rule bit_word_eqI) (auto simp: bit_read_back intro: ones)
qed

lemma wide_encoding: "(replicate 9 0xff)[0 := ucast (v AND 0x7f) OR 0x80, 8 := ucast (drop_bit 7 v AND 0xff)] = vint_bytes9 (read_back v)"
proof (rule nth_equalityI)
  fix i
  assume "i < length ((replicate 9 0xff)[0 := ucast (v AND 0x7f) OR 0x80, 8 := ucast (drop_bit 7 v AND 0xff) :: byte])"
  then consider "i = 0" | "0 < i" "i < 8" | "i = 8" by (auto simp: less_Suc_eq eval_nat_numeral)
  then show "(replicate 9 0xff)[0 := ucast (v AND 0x7f) OR 0x80, 8 := ucast (drop_bit 7 v AND 0xff)] ! i = vint_bytes9 (read_back v) ! i"
  proof cases
    case 1
    have "ucast (v AND 0x7f) OR 0x80 = (ucast (read_back v AND 0x7f) OR 0x80 :: byte)"
      by (rule bit_word_eqI) (auto simp: bit_simps mask_bits bit_read_back)
    then show ?thesis using vint_bytes9_nth [of 0 "read_back v"] by (simp add: 1)
  next
    case 2
    have "0xff = (ucast (drop_bit (7 * i) (read_back v) AND 0x7f) OR 0x80 :: byte)"
      using 2 by (intro bit_word_eqI) (auto simp: bit_simps mask_bits bit_read_back)
    then show ?thesis using 2 vint_bytes9_nth [of i "read_back v"] by simp
  next
    case 3
    have "ucast (drop_bit 7 v AND 0xff) = (ucast (drop_bit 56 (read_back v)) :: byte)"
      by (rule bit_word_eqI) (auto simp: bit_simps mask_bits bit_read_back)
    then show ?thesis using vint_bytes9_last [of "read_back v"] by (simp add: 3)
  qed
qed simp

lemma varint_put_len_wide: "2 ^ 56 \<le> unat v \<Longrightarrow> varint_put_len v = 9"
proof -
  assume "2 ^ 56 \<le> unat v"
  then have nz: "drop_bit (7 * k) v \<noteq> 0" if "k \<le> 8" for k
    using that power_increasing [of "7 * k" 56 "2 :: nat"] by (auto simp: drop_bit_eq_0_iff_unat)
  have "varint_put_len_loop i (drop_bit (7 * i) v) = 9" if "i \<le> 8" for i
    using that
  proof (induction i rule: inc_induct)
    case base
    show ?case by (subst varint_put_len_loop.simps) simp
  next
    case (step i)
    then show ?case using nz [of "Suc i"] by (subst varint_put_len_loop.simps) (simp add: Let_def drop_bit_drop_bit add.commute)
  qed
  from this [of 0] show ?thesis by (simp add: varint_put_len_def)
qed

lemma test_varint_wide: "2 ^ 56 \<le> unat v \<Longrightarrow> test_varint v 9 = (if v OR 0x7f = -1 then ret () else winter_fail)"
proof -
  assume v: "2 ^ 56 \<le> unat v"
  have "varint_put (replicate 9 0xff) v = Inr (vint_bytes9 (read_back v), 9)"
    using varint_put_wide_correct [OF v, of "replicate 9 0xff"] wide_encoding by simp
  moreover have "varint_get (vint_bytes9 (read_back v)) = Inr (read_back v, 9)" using varint_get_wide [of "read_back v" "[]"] by simp
  moreover from varint_get_reads(4) [OF this] have "varint_get_len (vint_bytes9 (read_back v)) = Inr 9" .
  ultimately show ?thesis using read_back_same varint_put_len_wide [OF v] by (simp add: test_varint_def)
qed

lemma test_varint_small: "unat v < 2 ^ 56 \<Longrightarrow> test_varint v (ucast (varint_put_len v)) = ret ()"
proof -
  assume "unat v < 2 ^ 56"
  then obtain dst' n where "varint_put (replicate 9 0xff) v = Inr (dst', n)" "varint_get dst' = Inr (v, n)"
    "varint_get_len dst' = Inr n" "n = varint_put_len v" using varint_round [of v "replicate 9 0xff"] by auto
  moreover have "(ucast (ucast m :: u32) :: u64) = ucast m" for m :: u16
    by (rule bit_word_eqI) (auto simp: bit_simps dest: bit_imp_le_length)
  ultimately show ?thesis by (simp add: test_varint_def)
qed

lemma test_varint_values:
  "test_varint (-1) 9 = ret ()" "test_varint (-2) 9 = ret ()"
  "test_varint 0x7f 1 = ret ()" "test_varint 0x1 1 = ret ()" "test_varint 0x0 1 = ret ()"
  "test_varint 0x3fff 2 = ret ()" "test_varint 0x81 2 = ret ()" "test_varint 0x80 2 = ret ()"
proof -
  have "(- 2 :: u64) OR 0x7f = - 1" by simp
  then show "test_varint (-1) 9 = ret ()" "test_varint (-2) 9 = ret ()"
    using test_varint_wide [of "-1"] test_varint_wide [of "-2"] by (simp_all add: unsigned_minus_1_eq_mask mask_eq_exp_minus_1)
  have "varint_put_len 0x7f = 1" "varint_put_len 0x1 = 1" "varint_put_len 0x0 = 1"
    "varint_put_len 0x3fff = 2" "varint_put_len 0x81 = 2" "varint_put_len 0x80 = 2"
    by (simp_all add: varint_put_len_def varint_put_len_loop.simps)
  then show "test_varint 0x7f 1 = ret ()" "test_varint 0x1 1 = ret ()" "test_varint 0x0 1 = ret ()"
    "test_varint 0x3fff 2 = ret ()" "test_varint 0x81 2 = ret ()" "test_varint 0x80 2 = ret ()"
    using test_varint_small [of "0x7f"] test_varint_small [of "0x1"] test_varint_small [of "0x0"]
      test_varint_small [of "0x3fff"] test_varint_small [of "0x81"] test_varint_small [of "0x80"] by simp_all
qed

text \<open>The numbers of tests that follow each other in a file.\<close>

lemma counters_ok_upt:
  assumes "unat (c :: u64) < 2 ^ 32" and "map test_id (block_tests bs) = map (\<lambda>n. c + of_nat n + 6) [0..<k]" and "k < 2 ^ 32"
  shows "counters_ok bs"
proof -
  have "distinct (map test_id (block_tests bs))"
    unfolding assms(2) using counter_ids(1) [OF assms(1)] assms(3) by (auto simp: distinct_map inj_on_def)
  moreover have "6 \<le> test_id t" if "t \<in> set (block_tests bs)" for t
  proof -
    have "test_id t \<in> set (map test_id (block_tests bs))" using that by simp
    then show ?thesis unfolding assms(2) using counter_ids(2) [OF assms(1), of _ 0] assms(3) by auto
  qed
  ultimately show ?thesis by (simp add: counters_ok_def)
qed

lemma upt_numeral: "[0..<numeral n] = [0..<pred_numeral n] @ [pred_numeral n]"
  by (simp add: numeral_eq_Suc)

lemma varint_counters: "unat c < 2 ^ 32 \<Longrightarrow> counters_ok (varint_blocks c)"
  by (rule counters_ok_upt [where k = 3]) (simp_all add: varint_blocks_def it_def upt_numeral)

text \<open>
  C22: What the tests of varint.c show. They all pass, although \<^verbatim>\<open>varint_put\<close> does not
  write bytes 1 to 7 of a value of nine bytes: \<^verbatim>\<open>test_varint\<close> fills its buffer with
  ones, and among all values of nine bytes it accepts exactly the 128 largest, to which both
  samples of the test belong.
\<close>

theorem varint_tests_pass:
  assumes "unat c < 2 ^ 32"
  shows "(\<forall>t \<in> set (block_tests (varint_blocks c)). child_status (winter_process_entry os (varint_blocks c) t s) = Exited 0) \<and>
    (\<forall>v. 2 ^ 56 \<le> unat v \<longrightarrow> test_varint v 9 = (if v OR 0x7f = -1 then ret () else winter_fail))"
proof (intro conjI ballI)
  fix t
  assume "t \<in> set (block_tests (varint_blocks c))"
  then obtain n i body where t: "t = \<lparr>test_name = n, test_id = i + 6, test_threads = 1, test_timeout = WINTER_DEFAULT_TIMEOUT_MS * 1000\<rparr>"
    "Test n i 1 (WINTER_DEFAULT_TIMEOUT_MS * 1000) body \<in> set (varint_blocks c)" "body 0 s = ret ()"
    by (auto simp: varint_blocks_def it_def test_varint_values)
  have "run_bodies (before_bodies (varint_blocks c)) 0 s = ret s" "run_bodies (after_bodies (varint_blocks c)) 0 () = ret ()"
    by (simp_all add: varint_blocks_def it_def)
  from test_passes [OF varint_counters [OF assms] t(2) this(1) t(3) this(2)]
  show "child_status (winter_process_entry os (varint_blocks c) t s) = Exited 0" by (simp add: t(1))
qed (use test_varint_wide in blast)

theorem varint_tests_pass_witness:
  "child_status (winter_process_entry no_threads (varint_blocks 1) \<lparr>test_name = ''8 byte values'', test_id = 7, test_threads = 1, test_timeout = 2000000\<rparr> ()) = Exited 0 \<and>
   test_varint (2 ^ 56) 9 = winter_fail"
proof -
  have "unat (1 :: u64) < 2 ^ 32" by simp
  note P = varint_tests_pass [OF this, of no_threads "()"]
  have "\<lparr>test_name = ''8 byte values'', test_id = 7, test_threads = 1, test_timeout = 2000000\<rparr> \<in> set (block_tests (varint_blocks 1))"
    by (simp add: varint_blocks_def it_def WINTER_DEFAULT_TIMEOUT_MS_def)
  with P show ?thesis by (auto simp: dest: spec [where x = "2 ^ 56"])
qed

end
