(* ===== verification/PagerTests.thy ===== *)
theory PagerTests
  imports TestsPass PagerSafety
begin

text \<open>
  The test suite of src/pager.c on the model of the pager: every test with one thread passes.
\<close>

section \<open>The pager of a test\<close>

definition machine_ok :: "machine \<Rightarrow> bool" where
  "machine_ok m \<longleftrightarrow> (\<forall>n. answers m n \<noteq> None) \<and> length (retries m) + 1024 \<le> fuel_bound m \<and>
     (\<forall>a. address m a mod PAGE_ALIGNMENT = 0)"

text \<open>The pager of a test process, which pages it holds, and who fixed them.\<close>

definition testing :: "machine \<Rightarrow> pager_t \<Rightarrow> (u32 \<Rightarrow> nat option) \<Rightarrow> hold list \<Rightarrow> process \<Rightarrow> bool" where
  "testing m p R hs s \<longleftrightarrow> the_pager s = Some (Live p) \<and> client_inv p R hs \<and> psize p = 44 \<and> (\<forall>n. mallocs p n \<noteq> None) \<and>
     enough_fuel (fuel_bound m) p \<and> error_wf (errors s)"

lemma testing_pager: "testing m p R hs s \<Longrightarrow> the_pager s = Some (Live p)"
  by (simp add: testing_def)

lemma open_pager_testing:
  assumes "machine_ok m" and "error_wf (errors s)" and "error_code (errors s) = 0"
  shows "\<exists>s' p. open_pager m 124 64 s = ret s' \<and> testing m p Map.empty [] s'"
proof -
  let ?p = "fresh_pager 124 64 (\<lambda>j. answers m (j + 3)) (retries m)"
  have n: "power_of_two_or_zero 64" by (simp add: power_of_two_or_zero_def)
  have sz: "psize ?p = 44" by (simp add: fresh_pager_def seven_tenths_def)
  have a: "answers m 0 \<noteq> None \<and> answers m 1 \<noteq> None \<and> answers m 2 \<noteq> None" using assms(1) by (simp add: machine_ok_def)
  have o: "pager_open 124 64 (answers m) (retries m) (errors s) = Inr (SUCCESS, Some (Live ?p), errors s)"
    using a assms(3) by (simp add: pager_open_fresh [OF n] errdefer_runs_def error_get_code_def)
  have "pager_inv ?p Map.empty" by (rule fresh_pager_inv [OF n]) simp
  then have "client_inv ?p Map.empty []" by (simp add: client_inv_def)
  moreover have "\<forall>k. mallocs ?p k \<noteq> None" "enough_fuel (fuel_bound m) ?p"
    using assms(1) sz by (simp_all add: machine_ok_def enough_fuel_def) (simp_all add: fresh_pager_def)
  ultimately show ?thesis using o sz assms(2) by (simp add: open_pager_def testing_def)
qed

lemma close_pager_testing:
  assumes "testing m p R hs s"
  shows "\<exists>s'. pbind (close_pager s) (\<lambda>s. ret (clear_errors s)) = ret s'"
proof -
  have "pager_inv p R" using assms by (simp add: testing_def client_inv_def)
  from pager_close_frees [OF this] obtain fs where "pager_close p = Inr (SUCCESS, fs)" by blast
  then show ?thesis using testing_pager [OF assms] by (simp add: close_pager_def)
qed

section \<open>Fixing pages\<close>

text \<open>A page that is not resident, while there is room.\<close>

lemma fix_page_new:
  assumes t: "testing m p R hs s" and i: "i \<noteq> 0" "R i = None" and room: "card (dom R) < 43"
  shows "\<exists>a p' s'. fix_page m i ex k s = k \<lparr>tid = i, tptr = a\<rparr> s' \<and> testing m p' (R(i \<mapsto> a)) ((\<lparr>tid = i, tptr = a\<rparr>, ex) # hs) s'"
proof -
  have inv: "client_inv p R hs" "pager_inv p R" "psize p = 44" "\<forall>n. mallocs p n \<noteq> None" "enough_fuel (fuel_bound m) p"
    "error_wf (errors s)" using t by (simp_all add: testing_def client_inv_def)
  have fuel: "length (spurious p) + 2 * unat (psize p) \<le> fuel_bound m" using inv(5) by (simp add: enough_fuel_def)
  from pager_fix_absent [OF inv(2) i inv(6) fuel, of ex] obtain r out p' es' where
    f: "pager_fix (fuel_bound m) p i ex (errors s) = Inr (r, out, p', es')" "fetched p R i ex (r, out, p', es') (errors s)" by auto
  have lt: "card (dom R) + 1 < unat (psize p)" using room inv(3) by simp
  from f(2) obtain R' where R': "evicts p R R'" "kept p p' R'" "R' = R"
    and c: "if r = SUCCESS then es' = errors s \<and> (\<exists>a. out = Some \<lparr>tid = i, tptr = a\<rparr> \<and> pager_inv p' (R'(i \<mapsto> a)) \<and>
        platch (heap p' ! a) = (if ex then -1 else 1) \<and> pflags (heap p' ! a) = (if ex then PAGE_FLAG_EXCLUSIVE else 0))
      else (\<exists>n. mallocs p n = None) \<or> card (dom R) + 1 = unat (psize p)"
    using lt unfolding fetched_def by (auto split: if_splits)
  have frame: "psize p' = psize p" "length (spurious p') \<le> length (spurious p)" "\<exists>k. mallocs p' = (\<lambda>n. mallocs p (n + k))"
    using f(2) by (simp_all add: fetched_def)
  have "\<not> (\<exists>n. mallocs p n = None)" "card (dom R) + 1 \<noteq> unat (psize p)" using inv(4) less_imp_neq [OF lt] by blast+
  with c have r: "r = SUCCESS" by argo
  with c obtain a where a: "es' = errors s" "out = Some \<lparr>tid = i, tptr = a\<rparr>" "pager_inv p' (R(i \<mapsto> a))"
    "platch (heap p' ! a) = (if ex then -1 else 1)" "pflags (heap p' ! a) = (if ex then PAGE_FLAG_EXCLUSIVE else 0)"
    unfolding R'(3) by auto
  from client_inv_fetched [OF inv(1) R'(1,2) i(2) _ a(4,5)] a(3)
  have "client_inv p' (R(i \<mapsto> a)) ((\<lparr>tid = i, tptr = a\<rparr>, ex) # hs)" unfolding R'(3) by blast
  moreover have "enough_fuel (fuel_bound m) p'" "\<forall>n. mallocs p' n \<noteq> None"
    using inv(4,5) frame by (auto simp: enough_fuel_def)
  ultimately have "testing m p' (R(i \<mapsto> a)) ((\<lparr>tid = i, tptr = a\<rparr>, ex) # hs) (s\<lparr>the_pager := Some (Live p'), errors := es'\<rparr>)"
    using frame(1) inv(3,6) a(1) by (simp add: testing_def)
  moreover have "fix_page m i ex k s = k \<lparr>tid = i, tptr = a\<rparr> (s\<lparr>the_pager := Some (Live p'), errors := es'\<rparr>)"
    using f(1) r a(2) testing_pager [OF t] by (simp add: fix_page_def)
  ultimately show ?thesis by blast
qed

text \<open>A resident page that nobody holds, or that is held by readers and fixed for reading.\<close>

lemma fix_page_resident:
  assumes t: "testing m p R hs s" and R: "R i = Some a"
    and free: "holds_of hs a = [] \<or> \<not> ex \<and> set (holds_of hs a) \<subseteq> {False} \<and> length (holds_of hs a) < 2 ^ 31 - 1"
  shows "\<exists>p' s'. fix_page m i ex k s = k \<lparr>tid = i, tptr = a\<rparr> s' \<and> testing m p' R ((\<lparr>tid = i, tptr = a\<rparr>, ex) # hs) s'"
proof -
  have inv: "client_inv p R hs" "pager_inv p R" "psize p = 44" "\<forall>n. mallocs p n \<noteq> None" "enough_fuel (fuel_bound m) p"
    "error_wf (errors s)" using t by (simp_all add: testing_def client_inv_def)
  have ok: "pager_ok p R" using inv(2) by (simp add: pager_inv_def)
  have h: "held_by (holds_of hs a) (heap p ! a)" using inv(1) R by (auto simp: client_inv_def)
  let ?l = "platch (heap p ! a)"
  have "holds_of hs a \<noteq> [True]" using free by auto
  then have n: "sint ?l = int (length (holds_of hs a))" using h by (simp add: held_by_def)
  have "\<exists>l. latch_acquire (spurious p) ?l ex = Inr l"
  proof (cases ex)
    case True
    then have "holds_of hs a = []" using free by simp
    then have "?l = 0" using h by (simp add: held_by_free)
    then show ?thesis using True by (simp add: latch_acquire_def latch_acquire_write_eq)
  next
    case False
    then have "0 \<le> sint ?l" "sint ?l < 2 ^ 31 - 1" using free n by auto
    moreover have "?l \<noteq> 0x7fffffff"
    proof
      assume "?l = 0x7fffffff"
      then have "sint ?l = 2 ^ 31 - 1" by simp
      then show False using \<open>sint ?l < 2 ^ 31 - 1\<close> by simp
    qed
    ultimately show ?thesis using False by (simp add: latch_acquire_def latch_acquire_read_eq INT32_MAX_def)
  qed
  then obtain l where l: "latch_acquire (spurious p) ?l ex = Inr l" by blast
  note rh = resident_header [OF ok R]
  obtain p' where f: "pager_fix (fuel_bound m) p i ex (errors s) = Inr (SUCCESS, Some \<lparr>tid = i, tptr = a\<rparr>, p', errors s)"
    and p': "psize p' = psize p" "mallocs p' = mallocs p" "spurious p' = spurious p"
    using l unfolding pager_fix_resident [OF inv(2) R] header_acquire_cases [OF rh(1)] by (simp add: put_hdr_def)
  from client_inv_resident [OF inv(1) R f] have "client_inv p' R ((\<lparr>tid = i, tptr = a\<rparr>, ex) # hs)" by simp
  then have "testing m p' R ((\<lparr>tid = i, tptr = a\<rparr>, ex) # hs) (s\<lparr>the_pager := Some (Live p'), errors := errors s\<rparr>)"
    using p' inv(3-6) by (simp add: testing_def enough_fuel_def)
  moreover have "fix_page m i ex k s = k \<lparr>tid = i, tptr = a\<rparr> (s\<lparr>the_pager := Some (Live p'), errors := errors s\<rparr>)"
    using f testing_pager [OF t] by (simp add: fix_page_def)
  ultimately show ?thesis by blast
qed

text \<open>A full pager, all of whose pages are held.\<close>

lemma fix_page_full:
  assumes t: "testing m p R hs s" and i: "i \<noteq> 0" "R i = None" and full: "card (dom R) = 43" and held: "\<forall>j a. R j = Some a \<longrightarrow> holds_of hs a \<noteq> []"
  shows "\<exists>p' s'. fix_page_fails m i ex ENOMEM s = ret s' \<and> testing m p' R hs s'"
proof -
  have inv: "client_inv p R hs" "pager_inv p R" "psize p = 44" "\<forall>n. mallocs p n \<noteq> None" "enough_fuel (fuel_bound m) p"
    "error_wf (errors s)" using t by (simp_all add: testing_def client_inv_def)
  have fuel: "length (spurious p) + 2 * unat (psize p) \<le> fuel_bound m" using inv(5) by (simp add: enough_fuel_def)
  from pager_fix_absent [OF inv(2) i inv(6) fuel, of ex] obtain r out p' es' where
    f: "pager_fix (fuel_bound m) p i ex (errors s) = Inr (r, out, p', es')" "fetched p R i ex (r, out, p', es') (errors s)" by auto
  from f(2) [unfolded fetched_def prod.case] obtain R' where R': "evicts p R R'" "kept p p' R'"
    and c0: "if r = SUCCESS then es' = errors s \<and> (\<exists>a. out = Some \<lparr>tid = i, tptr = a\<rparr> \<and> pager_inv p' (R'(i \<mapsto> a)) \<and>
          platch (heap p' ! a) = (if ex then -1 else 1) \<and> pflags (heap p' ! a) = (if ex then PAGE_FLAG_EXCLUSIVE else 0))
        else out = None \<and> pager_inv p' R' \<and> error_wf es' \<and> error_code es' = ENOMEM \<and>
          ((\<exists>n. mallocs p n = None) \<or> R' = R \<and> card (dom R) + 1 = unat (psize p) \<and> (head_clear p \<longrightarrow> all_held p R))" by blast
  then have c: "if r = SUCCESS then \<exists>a. pager_inv p' (R'(i \<mapsto> a)) else pager_inv p' R' \<and> error_wf es' \<and> error_code es' = ENOMEM"
    by (auto split: if_splits)
  have "platch (heap p ! a) \<noteq> 0" if "R j = Some a" for j a
  proof -
    have "held_by (holds_of hs a) (heap p ! a)" "holds_of hs a \<noteq> []" using that held inv(1) by (auto simp: client_inv_def)
    then show ?thesis by (rule held_by_latched)
  qed
  then have same: "R' = R" using R'(1) by (auto simp: evicts_def)
  have frame: "psize p' = psize p" "length (spurious p') \<le> length (spurious p)" "\<exists>k. mallocs p' = (\<lambda>n. mallocs p (n + k))"
    using f(2) by (simp_all add: fetched_def)
  have "r \<noteq> SUCCESS"
  proof
    assume "r = SUCCESS"
    with c obtain a where "pager_inv p' (R(i \<mapsto> a))" unfolding same by auto
    then have "card (dom (R(i \<mapsto> a))) < unat (psize p')" by (simp add: pager_inv_def)
    moreover have "finite (dom R)" using full card.infinite [of "dom R"] by fastforce
    then have "card (dom (R(i \<mapsto> a))) = 44" using i(2) full by (simp add: card_insert_if domIff)
    ultimately show False using frame(1) inv(3) by simp
  qed
  with c have r: "r = FAILURE" "pager_inv p' R" "error_wf es'" "error_code es' = ENOMEM" unfolding same by (cases r; simp)+
  have "client_inv p' R hs" by (rule client_inv_kept [OF inv(1) R' [unfolded same] r(2)])
  moreover have "enough_fuel (fuel_bound m) p'" "\<forall>n. mallocs p' n \<noteq> None" using inv(4,5) frame by (auto simp: enough_fuel_def)
  ultimately have "testing m p' R hs (s\<lparr>the_pager := Some (Live p'), errors := es'\<rparr>)"
    using frame(1) inv(3) r(3) by (simp add: testing_def)
  moreover have "fix_page_fails m i ex ENOMEM s = ret (s\<lparr>the_pager := Some (Live p'), errors := es'\<rparr>)"
    using f(1) r(1,4) testing_pager [OF t] by (simp add: fix_page_fails_def assert_failure_def error_get_code_def)
  ultimately show ?thesis by blast
qed

lemma fix_page_zero:
  assumes t: "testing m p R hs s"
  shows "\<exists>s'. fix_page_fails m 0 ex EINVAL s = ret s' \<and> testing m p R hs s'"
proof -
  have wf: "error_wf (errors s)" using t by (simp add: testing_def)
  have "EINVAL \<noteq> 0" by (simp add: EINVAL_def)
  from failure_correct [OF wf this, of "''src/pager.c''" "''pager_fix''" 372 "''invalid page id''"] obtain es' where
    f: "pager_fix (fuel_bound m) p 0 ex (errors s) = Inr (FAILURE, None, p, es')" "error_wf es'" "error_code es' = EINVAL"
    by (auto simp: pager_fix_def)
  have "fix_page_fails m 0 ex EINVAL s = ret (s\<lparr>the_pager := Some (Live p), errors := es'\<rparr>)"
    using f testing_pager [OF t] by (simp add: fix_page_fails_def assert_failure_def error_get_code_def)
  moreover have "testing m p R hs (s\<lparr>the_pager := Some (Live p), errors := es'\<rparr>)" using t f(2) by (simp add: testing_def)
  ultimately show ?thesis by blast
qed

lemma unfix_page_testing:
  assumes t: "testing m p R hs s" and mem: "(pg, ex) \<in> set hs"
  shows "\<exists>p' s'. unfix_page pg s = ret s' \<and> testing m p' R (remove1 (pg, ex) hs) s'"
proof -
  have inv: "client_inv p R hs" using t by (simp add: testing_def)
  from client_inv_unfix [OF inv mem] obtain h where
    h: "pager_unfix p pg = Inr (put_hdr p (tptr pg) h)" "client_inv (put_hdr p (tptr pg) h) R (remove1 (pg, ex) hs)" by blast
  have "testing m (put_hdr p (tptr pg) h) R (remove1 (pg, ex) hs) (s\<lparr>the_pager := Some (Live (put_hdr p (tptr pg) h))\<rparr>)"
    using t h(2) by (auto simp: testing_def enough_fuel_def put_hdr_def)
  moreover have "unfix_page pg s = ret (s\<lparr>the_pager := Some (Live (put_hdr p (tptr pg) h))\<rparr>)"
    using h(1) testing_pager [OF t] by (simp add: unfix_page_def)
  ultimately show ?thesis by blast
qed

text \<open>The latch of a resident page counts its readers, or shows a writer.\<close>

lemma check_latch_testing:
  assumes t: "testing m p R hs s" and R: "R (tid pg) = Some (tptr pg)"
  shows "check_latch f pg s = check (f (if holds_of hs (tptr pg) = [True] then -1 else int (length (holds_of hs (tptr pg))))) s"
proof -
  have inv: "client_inv p R hs" "pager_ok p R" using t unfolding testing_def client_inv_def pager_inv_def by blast+
  have "held_by (holds_of hs (tptr pg)) (heap p ! tptr pg)" using inv(1) R by (auto simp: client_inv_def)
  then have "sint (platch (heap p ! tptr pg)) = (if holds_of hs (tptr pg) = [True] then -1 else int (length (holds_of hs (tptr pg))))"
    by (auto simp: held_by_def)
  then show ?thesis using testing_pager [OF t] resident_header(1) [OF inv(2) R] by (simp add: check_latch_def deref_def)
qed

section \<open>Filling the pager\<close>

lemma each_append: "each f (xs @ ys) s = pbind (each f xs s) (each f ys)"
proof (induction xs arbitrary: s)
  case (Cons x xs)
  have "each f (xs @ ys) = (\<lambda>s. pbind (each f xs s) (each f ys))" by (rule ext) (rule Cons)
  then show ?case by (simp add: pbind_assoc)
qed simp

text \<open>The first \<open>n\<close> pages are resident, and each of them is held.\<close>

definition filled :: "nat \<Rightarrow> (u32 \<Rightarrow> nat option) \<Rightarrow> hold list \<Rightarrow> bool" where
  "filled n R hs \<longleftrightarrow> dom R = of_nat ` {1..n} \<and> (\<forall>j a. R j = Some a \<longrightarrow> holds_of hs a \<noteq> [])"

lemma page_ids:
  "n < 2 ^ 32 \<Longrightarrow> k < 2 ^ 32 \<Longrightarrow> (of_nat n :: u32) = of_nat k \<longleftrightarrow> n = k"
  by (simp add: word_of_nat_eq_iff take_bit_nat_eq_self)

lemma filled_card:
  assumes "filled n R hs" and "n < 100"
  shows "card (dom R) = n" and "R (of_nat (Suc n)) = None" and "(of_nat (Suc n) :: u32) \<noteq> 0"
proof -
  have e: "(of_nat a :: u32) = of_nat b \<longleftrightarrow> a = b" if "a \<le> 100" "b \<le> 100" for a b
    by (rule page_ids) (use that in simp_all)
  have "inj_on (of_nat :: nat \<Rightarrow> u32) {1..n}" using assms(2) e by (auto simp: inj_on_def)
  then show "card (dom R) = n" using assms(1) by (simp add: filled_def card_image)
  have "of_nat (Suc n) \<notin> dom R"
  proof
    assume "of_nat (Suc n) \<in> dom R"
    then obtain k where "1 \<le> k" "k \<le> n" "(of_nat (Suc n) :: u32) = of_nat k" using assms(1) by (auto simp: filled_def)
    then show False using e [of "Suc n" k] assms(2) by simp
  qed
  then show "R (of_nat (Suc n)) = None" by (simp add: domIff)
  show "(of_nat (Suc n) :: u32) \<noteq> 0" using e [of "Suc n" 0] assms(2) by simp
qed

lemma fill_pages:
  assumes "testing m p Map.empty [] s" and "n \<le> 43"
  shows "\<exists>p' R hs s'. each (\<lambda>i. fix_page m i False (\<lambda>_. ret)) (map of_nat [1..<Suc n]) s = ret s' \<and> testing m p' R hs s' \<and> filled n R hs"
  using assms(2)
proof (induction n)
  case 0
  then show ?case using assms(1) by (auto simp: filled_def)
next
  case (Suc n)
  then obtain p1 R hs s1 where IH: "each (\<lambda>i. fix_page m i False (\<lambda>_. ret)) (map of_nat [1..<Suc n]) s = ret s1"
    "testing m p1 R hs s1" "filled n R hs" by auto
  have "n < 100" using Suc.prems by simp
  note F = filled_card [OF IH(3) this]
  have "card (dom R) < 43" using F(1) Suc.prems by simp
  from fix_page_new [OF IH(2) F(3,2) this, of False "\<lambda>_. ret"] obtain a p2 s2 where
    n: "fix_page m (of_nat (Suc n)) False (\<lambda>_. ret) s1 = ret s2"
    "testing m p2 (R(of_nat (Suc n) \<mapsto> a)) ((\<lparr>tid = of_nat (Suc n), tptr = a\<rparr>, False) # hs) s2" by blast
  have "map of_nat [1..<Suc (Suc n)] = map of_nat [1..<Suc n] @ [of_nat (Suc n) :: u32]" by simp
  then have "each (\<lambda>i. fix_page m i False (\<lambda>_. ret)) (map of_nat [1..<Suc (Suc n)]) s = ret s2"
    by (simp only: each_append IH(1) pbind_simps each.simps n(1))
  moreover have "filled (Suc n) (R(of_nat (Suc n) \<mapsto> a)) ((\<lparr>tid = of_nat (Suc n), tptr = a\<rparr>, False) # hs)"
    using IH(3) by (auto simp: filled_def holds_of_def atLeastAtMostSuc_conv)
  ultimately show ?case using n(2) by blast
qed

section \<open>The tests\<close>

lemma empty_holds [simp]: "holds_of [] a = []"
  by (simp add: holds_of_def)

lemma holds_of_Cons [simp]: "holds_of ((pg, ex) # hs) a = (if tptr pg = a then ex # holds_of hs a else holds_of hs a)"
  by (simp add: holds_of_def)

text \<open>A body that starts on a fresh pager.\<close>

definition leaves_pager :: "machine \<Rightarrow> (process \<Rightarrow> process prog) \<Rightarrow> bool" where
  "leaves_pager m body \<longleftrightarrow> (\<forall>p s. testing m p Map.empty [] s \<longrightarrow> (\<exists>p' R hs s'. body s = ret s' \<and> testing m p' R hs s'))"

lemma leaves_pager_check: "leaves_pager m (check (ret ()))"
  unfolding leaves_pager_def by auto

lemma leaves_pager_fix:
  assumes "\<And>p a s. testing m p [i \<mapsto> a] [(\<lparr>tid = i, tptr = a\<rparr>, ex)] s \<Longrightarrow> \<exists>p' R hs s'. k \<lparr>tid = i, tptr = a\<rparr> s = ret s' \<and> testing m p' R hs s'"
    and "i \<noteq> 0"
  shows "leaves_pager m (fix_page m i ex k)"
  unfolding leaves_pager_def
proof (intro allI impI)
  fix p s
  assume "testing m p Map.empty [] s"
  from fix_page_new [OF this assms(2), of ex k] assms(1)
  show "\<exists>p' R hs s'. fix_page m i ex k s = ret s' \<and> testing m p' R hs s'" by fastforce
qed

lemma second_page:
  assumes "testing m p [i \<mapsto> a] [(\<lparr>tid = i, tptr = a\<rparr>, ex)] s" and "j \<noteq> 0" and "j \<noteq> i"
  shows "\<exists>b p' s'. fix_page m j ex' k s = k \<lparr>tid = j, tptr = b\<rparr> s' \<and> b \<noteq> a \<and>
    testing m p' [i \<mapsto> a, j \<mapsto> b] [(\<lparr>tid = j, tptr = b\<rparr>, ex'), (\<lparr>tid = i, tptr = a\<rparr>, ex)] s'"
proof -
  from fix_page_new [OF assms(1,2), of ex' k] assms(3) obtain b p' s' where
    f: "fix_page m j ex' k s = k \<lparr>tid = j, tptr = b\<rparr> s'"
    "testing m p' [i \<mapsto> a, j \<mapsto> b] [(\<lparr>tid = j, tptr = b\<rparr>, ex'), (\<lparr>tid = i, tptr = a\<rparr>, ex)] s'" by auto
  have "pager_ok p' [i \<mapsto> a, j \<mapsto> b]" using f(2) unfolding testing_def client_inv_def pager_inv_def by blast
  from R_inj [OF this, of i a j] assms(3) have "b \<noteq> a" by auto
  with f show ?thesis by blast
qed

lemma one_page_tests:
  assumes m: "machine_ok m"
  shows "leaves_pager m (fix_page m 3 False (\<lambda>page s.
        pbind (check (asserteq (tid page) 3) s) (\<lambda>s.
        check (assertis ((address m (tptr page) + sizeof_page_hdr) mod PAGE_ALIGNMENT = 0)) s)))"
    and "leaves_pager m (fix_page m 3 False (\<lambda>first. fix_page m 3 False (\<lambda>second s.
        pbind (check (asserteq (tid first) (tid second)) s) (\<lambda>s.
        check (asserteq (tptr first) (tptr second)) s))))"
proof -
  have "(address m a + sizeof_page_hdr) mod PAGE_ALIGNMENT = 0" for a
  proof -
    have "address m a mod 4 = 0" using m by (simp add: machine_ok_def PAGE_ALIGNMENT_def)
    then show ?thesis unfolding sizeof_page_hdr_def PAGE_ALIGNMENT_def by presburger
  qed
  then show "leaves_pager m (fix_page m 3 False (\<lambda>page s.
        pbind (check (asserteq (tid page) 3) s) (\<lambda>s.
        check (assertis ((address m (tptr page) + sizeof_page_hdr) mod PAGE_ALIGNMENT = 0)) s)))"
    by (intro leaves_pager_fix) auto
  show "leaves_pager m (fix_page m 3 False (\<lambda>first. fix_page m 3 False (\<lambda>second s.
        pbind (check (asserteq (tid first) (tid second)) s) (\<lambda>s.
        check (asserteq (tptr first) (tptr second)) s))))"
  proof (rule leaves_pager_fix)
    fix p a s
    assume t: "testing m p [3 \<mapsto> a] [(\<lparr>tid = 3, tptr = a\<rparr>, False)] s"
    from fix_page_resident [OF t, of 3 a False "\<lambda>second s. pbind (check (asserteq (3 :: u32) (tid second)) s) (\<lambda>s.
        check (asserteq a (tptr second)) s)"]
    show "\<exists>p' R hs s'. fix_page m 3 False (\<lambda>second s. pbind (check (asserteq (tid \<lparr>tid = 3, tptr = a\<rparr>) (tid second)) s) (\<lambda>s.
        check (asserteq (tptr \<lparr>tid = 3, tptr = a\<rparr>) (tptr second)) s)) s = ret s' \<and> testing m p' R hs s'" by fastforce
  qed simp
qed

lemma two_page_tests:
  "leaves_pager m (fix_page m 3 False (\<lambda>first. fix_page m 4 False (\<lambda>second s.
      pbind (check (assertneq (tid first) (tid second)) s) (\<lambda>s.
      check (assertneq (tptr first) (tptr second)) s))))"
  "leaves_pager m (fix_page m 3 False (\<lambda>page s.
      pbind (check_latch (\<lambda>l. asserteq l 1) page s)
      (fix_page m 4 True (\<lambda>page. check_latch (\<lambda>l. asserteq l (-1)) page))))"
proof -
  show "leaves_pager m (fix_page m 3 False (\<lambda>first. fix_page m 4 False (\<lambda>second s.
      pbind (check (assertneq (tid first) (tid second)) s) (\<lambda>s.
      check (assertneq (tptr first) (tptr second)) s))))"
  proof (rule leaves_pager_fix)
    fix p a s
    assume t: "testing m p [3 \<mapsto> a] [(\<lparr>tid = 3, tptr = a\<rparr>, False)] s"
    from second_page [OF t, of 4 False "\<lambda>second s. pbind (check (assertneq (3 :: u32) (tid second)) s) (\<lambda>s.
        check (assertneq a (tptr second)) s)"]
    show "\<exists>p' R hs s'. fix_page m 4 False (\<lambda>second s. pbind (check (assertneq (tid \<lparr>tid = 3, tptr = a\<rparr>) (tid second)) s) (\<lambda>s.
        check (assertneq (tptr \<lparr>tid = 3, tptr = a\<rparr>) (tptr second)) s)) s = ret s' \<and> testing m p' R hs s'" by fastforce
  qed simp
  show "leaves_pager m (fix_page m 3 False (\<lambda>page s.
      pbind (check_latch (\<lambda>l. asserteq l 1) page s)
      (fix_page m 4 True (\<lambda>page. check_latch (\<lambda>l. asserteq l (-1)) page))))"
  proof (rule leaves_pager_fix)
    fix p a s
    assume t: "testing m p [3 \<mapsto> a] [(\<lparr>tid = 3, tptr = a\<rparr>, False)] s"
    have c: "check_latch (\<lambda>l. asserteq l 1) \<lparr>tid = 3, tptr = a\<rparr> s = ret s"
      using check_latch_testing [OF t, of "\<lparr>tid = 3, tptr = a\<rparr>"] by simp
    from second_page [OF t, of 4 True "\<lambda>page. check_latch (\<lambda>l. asserteq l (-1)) page"] obtain b p' s' where
      f: "fix_page m 4 True (\<lambda>page. check_latch (\<lambda>l. asserteq l (-1)) page) s = check_latch (\<lambda>l. asserteq l (-1)) \<lparr>tid = 4, tptr = b\<rparr> s'"
      "b \<noteq> a" "testing m p' [3 \<mapsto> a, 4 \<mapsto> b] [(\<lparr>tid = 4, tptr = b\<rparr>, True), (\<lparr>tid = 3, tptr = a\<rparr>, False)] s'" by auto
    have "check_latch (\<lambda>l. asserteq l (-1)) \<lparr>tid = 4, tptr = b\<rparr> s' = ret s'"
      using check_latch_testing [OF f(3), of "\<lparr>tid = 4, tptr = b\<rparr>"] f(2) by simp
    with c f(1,3) show "\<exists>p' R hs s'. pbind (check_latch (\<lambda>l. asserteq l 1) \<lparr>tid = 3, tptr = a\<rparr> s)
        (fix_page m 4 True (\<lambda>page. check_latch (\<lambda>l. asserteq l (-1)) page)) = ret s' \<and> testing m p' R hs s'" by auto
  qed simp
qed

lemma fill_test:
  "leaves_pager m (\<lambda>s.
      pbind (pages_to (\<lambda>n. n - 1) (\<lambda>i. fix_page m i False (\<lambda>_. ret)) s) (\<lambda>s.
      pbind (lift (live (the_pager s))) (\<lambda>p.
      fix_page_fails m (psize p) False ENOMEM s)))"
  unfolding leaves_pager_def
proof (intro allI impI)
  fix p s
  assume t: "testing m p Map.empty [] s"
  from fill_pages [OF t, of 43] obtain p1 R hs s1 where
    f: "each (\<lambda>i. fix_page m i False (\<lambda>_. ret)) (map of_nat [1..<Suc 43]) s = ret s1" "testing m p1 R hs s1" "filled 43 R hs" by auto
  have "unat (psize p - 1) = 43" using t by (simp add: testing_def)
  then have pg: "pages_to (\<lambda>n. n - 1) (\<lambda>i. fix_page m i False (\<lambda>_. ret)) s = ret s1"
    using f(1) testing_pager [OF t] by (simp add: pages_to_def del: upt_Suc)
  have p1: "psize p1 = of_nat (Suc 43)" using f(2) by (simp add: testing_def)
  have "(43 :: nat) < 100" by simp
  note F = filled_card [OF f(3) this]
  from fix_page_full [OF f(2) F(3,2,1), of False] f(3) obtain p2 s2 where
    "fix_page_fails m (psize p1) False ENOMEM s1 = ret s2" "testing m p2 R hs s2" unfolding p1 by (auto simp: filled_def)
  then show "\<exists>p' R hs s'. pbind (pages_to (\<lambda>n. n - 1) (\<lambda>i. fix_page m i False (\<lambda>_. ret)) s) (\<lambda>s.
      pbind (lift (live (the_pager s))) (\<lambda>p. fix_page_fails m (psize p) False ENOMEM s)) = ret s' \<and> testing m p' R hs s'"
    using pg testing_pager [OF f(2)] by auto
qed

lemma latch_test:
  "leaves_pager m (fix_page m 3 False (\<lambda>page s.
      pbind (check_latch (\<lambda>l. asserteq l 1) page s) (\<lambda>s.
      pbind (unfix_page page s) (\<lambda>s.
      pbind (check_latch (\<lambda>l. asserteq l 0) page s)
      (fix_page m 3 True (\<lambda>page s.
      pbind (check_latch (\<lambda>l. asserteq l (-1)) page s) (\<lambda>s.
      pbind (unfix_page page s) (\<lambda>s.
      check_latch (\<lambda>l. asserteq l 0) page s))))))))"
proof (rule leaves_pager_fix)
  fix p a s
  let ?pg = "\<lparr>tid = 3, tptr = a\<rparr>"
  assume t: "testing m p [3 \<mapsto> a] [(?pg, False)] s"
  let ?k = "\<lambda>page s. pbind (check_latch (\<lambda>l. asserteq l (-1)) page s) (\<lambda>s. pbind (unfix_page page s) (\<lambda>s. check_latch (\<lambda>l. asserteq l 0) page s))"
  have c1: "check_latch (\<lambda>l. asserteq l 1) ?pg s = ret s" using check_latch_testing [OF t, of ?pg] by simp
  from unfix_page_testing [OF t, of ?pg False] obtain p1 s1 where
    u1: "unfix_page ?pg s = ret s1" "testing m p1 [3 \<mapsto> a] [] s1" by auto
  have c2: "check_latch (\<lambda>l. asserteq l 0) ?pg s1 = ret s1" using check_latch_testing [OF u1(2), of ?pg] by simp
  from fix_page_resident [OF u1(2), of 3 a True ?k] obtain p2 s2 where
    f: "fix_page m 3 True ?k s1 = ?k ?pg s2" "testing m p2 [3 \<mapsto> a] [(?pg, True)] s2" by auto
  have c3: "check_latch (\<lambda>l. asserteq l (-1)) ?pg s2 = ret s2" using check_latch_testing [OF f(2), of ?pg] by simp
  from unfix_page_testing [OF f(2), of ?pg True] obtain p3 s3 where
    u2: "unfix_page ?pg s2 = ret s3" "testing m p3 [3 \<mapsto> a] [] s3" by auto
  have c4: "check_latch (\<lambda>l. asserteq l 0) ?pg s3 = ret s3" using check_latch_testing [OF u2(2), of ?pg] by simp
  show "\<exists>p' R hs s'. pbind (check_latch (\<lambda>l. asserteq l 1) ?pg s) (\<lambda>s. pbind (unfix_page ?pg s) (\<lambda>s.
      pbind (check_latch (\<lambda>l. asserteq l 0) ?pg s) (fix_page m 3 True ?k))) = ret s' \<and> testing m p' R hs s'"
    using u2(2) unfolding c1 u1(1) pbind_simps c2 f(1) c3 u2(1) c4 by blast
qed simp

lemma pager_bodies:
  assumes "machine_ok m" and "Test n i 1 tm body \<in> set (pager_blocks m c)"
  shows "leaves_pager m (body 0)"
proof -
  have z: "leaves_pager m (fix_page_fails m 0 True EINVAL)"
    unfolding leaves_pager_def using fix_page_zero by blast
  have "leaves_pager m (check (assertis (sizeof_page_hdr mod PAGE_ALIGNMENT = 0)))"
    by (simp add: sizeof_page_hdr_def PAGE_ALIGNMENT_def leaves_pager_check)
  moreover have "(1 :: u16) = 8 \<longleftrightarrow> False" by simp
  ultimately show ?thesis using assms(2) z
    unfolding pager_blocks_def it_def parallel_def
    using one_page_tests [OF assms(1)] two_page_tests [of m] fill_test [of m] latch_test [of m]
    by (simp only: list.set insert_iff empty_iff block.distinct block.inject) (elim disjE conjE FalseE, simp_all only: simp_thms)
qed

lemma block_of_test:
  assumes "t \<in> set (block_tests bs)" and "test_threads t = th"
  obtains n i tm body where "Test n i th tm body \<in> set bs" and "t = \<lparr>test_name = n, test_id = i + 6, test_threads = th, test_timeout = tm\<rparr>"
proof -
  have "\<exists>n i tm body. Test n i (test_threads t) tm body \<in> set bs \<and>
      t = \<lparr>test_name = n, test_id = i + 6, test_threads = test_threads t, test_timeout = tm\<rparr>"
    using assms(1) by (induction bs rule: block_tests.induct) auto
  then show thesis using that assms(2) by blast
qed

lemma pager_counters: "unat c < 2 ^ 32 \<Longrightarrow> counters_ok (pager_blocks m c)"
  by (rule counters_ok_upt [where k = 11]) (simp_all add: pager_blocks_def it_def parallel_def upt_numeral)

text \<open>
  C21: The tests of pager.c. On a machine whose allocator serves all requests with aligned
  memory, every test of the suite that runs in one thread passes: among others, the same page is
  fixed twice at the same address, the latch of a page shows its readers and its writer, a
  pager for 44 pages fixes 43 pages and then refuses with ENOMEM, and page 0 is refused with
  EINVAL.
\<close>

theorem pager_tests_pass:
  assumes "machine_ok m" and "unat c < 2 ^ 32" and "error_wf (errors s)" and "error_code (errors s) = 0"
  shows "\<forall>t \<in> set (block_tests (pager_blocks m c)). test_threads t = 1 \<longrightarrow>
    child_status (winter_process_entry os (pager_blocks m c) t s) = Exited 0"
proof (intro ballI impI)
  fix t
  assume "t \<in> set (block_tests (pager_blocks m c))" and "test_threads t = 1"
  then obtain n i tm body where m: "Test n i 1 tm body \<in> set (pager_blocks m c)"
    and t: "t = \<lparr>test_name = n, test_id = i + 6, test_threads = 1, test_timeout = tm\<rparr>" by (rule block_of_test)
  have t3: "leaves_pager m (body 0)" by (rule pager_bodies [OF assms(1) m])
  obtain s1 p1 where o: "open_pager m 124 64 s = ret s1" "testing m p1 Map.empty [] s1"
    using open_pager_testing [OF assms(1,3,4)] by blast
  from t3 o(2) obtain p2 R hs s2 where b: "body 0 s1 = ret s2" "testing m p2 R hs s2" unfolding leaves_pager_def by blast
  obtain s3 where a: "pbind (close_pager s2) (\<lambda>s. ret (clear_errors s)) = ret s3" using close_pager_testing [OF b(2)] by blast
  have "run_bodies (before_bodies (pager_blocks m c)) 0 s = ret s1" "run_bodies (after_bodies (pager_blocks m c)) 0 s2 = ret s3"
    using o(1) a by (simp_all add: pager_blocks_def it_def parallel_def)
  from test_passes [OF pager_counters [OF assms(2)] m this(1) b(1) this(2)]
  show "child_status (winter_process_entry os (pager_blocks m c) t s) = Exited 0" by (simp add: t)
qed

definition sample_machine :: machine where
  "sample_machine = \<lparr>answers = \<lambda>_. Some (\<lambda>_. 0xcd), retries = [True], address = \<lambda>a. 64 * a, key_buf = replicate 9 0xaa,
     value_buf = \<lambda>n. replicate n 0xbb, fuel_bound = 2048, depth_bound = 10000\<rparr>"

definition initial_process :: process where
  "initial_process = \<lparr>errors = error_init, the_pager = None, the_btree = None, the_value = \<lparr>bsize = 0, bdata = []\<rparr>,
     inner_cell_count = 0, leaf_cell_count = 0\<rparr>"

lemma sample_machine_ok: "machine_ok sample_machine"
  by (auto simp: machine_ok_def sample_machine_def PAGE_ALIGNMENT_def)

lemma initial_errors: "error_wf (errors initial_process)" "error_code (errors initial_process) = 0"
  by (simp_all add: initial_process_def error_wf_init) (simp add: error_init_def)

theorem pager_tests_pass_witness:
  "child_status (winter_process_entry no_threads (pager_blocks sample_machine 5)
    \<lparr>test_name = ''fill pager'', test_id = 16, test_threads = 1, test_timeout = 2000000\<rparr> initial_process) = Exited 0"
proof -
  have "unat (5 :: u64) < 2 ^ 32" by simp
  note P = pager_tests_pass [OF sample_machine_ok this initial_errors, of no_threads]
  have "\<lparr>test_name = ''fill pager'', test_id = 16, test_threads = 1, test_timeout = 2000000\<rparr> \<in> set (block_tests (pager_blocks sample_machine 5))"
    by (simp add: pager_blocks_def it_def parallel_def WINTER_DEFAULT_TIMEOUT_MS_def)
  from bspec [OF P this] show ?thesis by simp
qed

end
