(* ===== verification/AppendRuns.thy ===== *)
theory AppendRuns
  imports AppendShape
begin

text \<open>
  \<open>shape_fill\<close> on runs of equal entries: how the sizes on the right edge change over many
  insertions, without going through them one at a time.
\<close>

section \<open>Pages with room for a key\<close>

definition open_page :: "nat \<Rightarrow> nat \<times> nat \<Rightarrow> sizes \<Rightarrow> bool" where
  "open_page ps e s \<longleftrightarrow> fst e + 4 \<le> spare ps s"

text \<open>A walk through inner pages with room for a key passes them on as they are.\<close>

lemma shape_walk_open:
  assumes "list_all (open_page ps e) path" and "needed e sh \<le> spare ps t"
  shows "shape_walk ps e (path @ t # sh) = map_option (\<lambda>(n, sh). (n, path @ sh)) (shape_walk ps e (t # sh))"
  using assms(1)
proof (induction path rule: induct_list012)
  case 1
  then show ?case by (simp add: option.map_ident split_def)
next
  case (2 s)
  then show ?case using assms(2) by (simp add: shape_step_def open_page_def)
next
  case (3 s s2 path)
  have "needed e (path @ t # sh) = fst e + 4" by (cases path) simp_all
  then have "shape_step ps e s s2 (path @ t # sh) = Some (0, s, s2)" using 3(3) by (simp add: shape_step_def open_page_def)
  then show ?case using 3(2) 3(3) by (simp add: option.map_comp comp_def split_def)
qed

lemma shape_insert_open:
  assumes "list_all (open_page ps e) path" and "needed e sh \<le> spare ps t"
  shows "shape_insert ps e (path @ t # sh) = map_option (\<lambda>(n, sh). (n, path @ sh)) (shape_walk ps e (t # sh))"
proof (cases path)
  case Nil
  then show ?thesis using assms(2) by (simp add: shape_root_def option.map_ident split_def)
next
  case (Cons s tl)
  then have "needed e (tl @ t # sh) = fst e + 4" "fst e + 4 \<le> spare ps s" using assms(1) by (cases tl; simp add: open_page_def)+
  then have "shape_insert ps e (path @ t # sh) = shape_walk ps e (path @ t # sh)"
    by (simp add: Cons shape_root_def option.map_ident split_def)
  then show ?thesis by (simp add: shape_walk_open [OF assms])
qed

section \<open>Runs\<close>

text \<open>Entries that fit into the last leaf.\<close>

lemma shape_fill_run:
  assumes "list_all (open_page ps e) path" and "12 + taken s + q * (snd e + 2) \<le> ps"
  shows "shape_fill ps (replicate q e) (path @ [s]) = Some (0, path @ [s @ replicate q e])"
  using assms(2)
proof (induction q arbitrary: s)
  case (Suc q)
  have f: "snd e + 2 \<le> spare ps s" using Suc.prems by (simp add: spare_def)
  then have "shape_insert ps e (path @ [s]) = Some (0, path @ [s @ [e]])"
    using shape_insert_open [OF assms(1), of "[]" s] by simp
  then show ?case using Suc.IH [of "s @ [e]"] Suc.prems by simp
qed simp

text \<open>
  A full page that the next entry will split may be divided beforehand: when there is a next
  entry, the outcome is the same.
\<close>

definition more_pages :: "nat \<Rightarrow> (nat \<times> sizes list) option \<Rightarrow> (nat \<times> sizes list) option" where
  "more_pages k = map_option (\<lambda>(n, sh). (k + n, sh))"

lemma more_pages_Some [simp]: "more_pages k (Some (n, sh)) = Some (k + n, sh)"
  by (simp add: more_pages_def)

lemma shape_fill_more:
  "shape_insert ps e sh = more_pages k (shape_insert ps e sh') \<Longrightarrow> shape_fill ps (e # es) sh = more_pages k (shape_fill ps (e # es) sh')"
  by (auto simp: more_pages_def option.map_comp comp_def split_def add.assoc split: option.splits)

lemma shape_fill_root:
  assumes "spare ps s < needed e sh" and "2 \<le> length s" and "needed e sh \<le> spare ps (upper_half s)"
    and "open_page ps e [inner_size (split_size s)]"
  shows "shape_fill ps (e # es) (s # sh) = more_pages 2 (shape_fill ps (e # es) ([inner_size (split_size s)] # upper_half s # sh))"
proof (rule shape_fill_more)
  let ?i = "inner_size (split_size s)"
  have "shape_insert ps e ([?i] # upper_half s # sh) = map_option (\<lambda>(n, sh). (n, [?i] # sh)) (shape_walk ps e (upper_half s # sh))"
    using shape_insert_open [of ps e "[[?i]]" sh "upper_half s"] assms(3,4) by simp
  moreover have "shape_insert ps e (s # sh) = map_option (\<lambda>(n, sh). (2 + n, [?i] # sh)) (shape_walk ps e (upper_half s # sh))"
    using assms(1,2) by (simp add: shape_root_def)
  ultimately show "shape_insert ps e (s # sh) = more_pages 2 (shape_insert ps e ([?i] # upper_half s # sh))"
    by (simp only: more_pages_def option.map_comp comp_def split_def fst_conv snd_conv)
qed

lemma shape_fill_child:
  assumes path: "list_all (open_page ps e) path" and "open_page ps e s" and "spare ps t < needed e sh" and "2 \<le> length t"
    and "needed e sh \<le> spare ps (upper_half t)" and "split_size t + 6 \<le> spare ps s" and "open_page ps e (s @ [inner_size (split_size t)])"
  shows "shape_fill ps (e # es) (path @ s # t # sh) =
    more_pages 1 (shape_fill ps (e # es) (path @ (s @ [inner_size (split_size t)]) # upper_half t # sh))"
proof (rule shape_fill_more)
  have "shape_insert ps e (path @ s # t # sh) = map_option (\<lambda>(n, sh). (n, path @ sh)) (shape_walk ps e (s # t # sh))"
    using assms(2) by (intro shape_insert_open [OF path]) (simp add: open_page_def)
  moreover have "shape_insert ps e (path @ (s @ [inner_size (split_size t)]) # upper_half t # sh) =
      map_option (\<lambda>(n, sh). (n, path @ sh)) (shape_walk ps e ((s @ [inner_size (split_size t)]) # upper_half t # sh))"
    using assms(7) by (intro shape_insert_open [OF path]) (simp add: open_page_def)
  ultimately show "shape_insert ps e (path @ s # t # sh) =
      more_pages 1 (shape_insert ps e (path @ (s @ [inner_size (split_size t)]) # upper_half t # sh))"
    using assms(2-7) by (simp add: shape_step_def open_page_def more_pages_def option.map_comp comp_def split_def)
qed

text \<open>The same when the page above is full afterwards.\<close>

lemma shape_fill_last_child:
  assumes "list_all (open_page ps e) path" and "open_page ps e s" and "spare ps t < snd e" and "2 \<le> length t"
    and "snd e + 2 \<le> spare ps (upper_half t)" and "split_size t + 6 \<le> spare ps s"
  shows "shape_fill ps (e # es) (path @ [s, t]) =
    more_pages 1 (shape_fill ps es (path @ [s @ [inner_size (split_size t)], upper_half t @ [e]]))"
proof -
  have "shape_insert ps e (path @ s # [t]) = map_option (\<lambda>(n, sh). (n, path @ sh)) (shape_walk ps e (s # [t]))"
    using assms(2) by (intro shape_insert_open [OF assms(1)]) (simp add: open_page_def)
  also have "\<dots> = Some (1, path @ [s @ [inner_size (split_size t)], upper_half t @ [e]])"
    using assms(2-6) by (simp add: shape_step_def open_page_def)
  finally show ?thesis by (simp add: more_pages_def)
qed

lemma more_pages_more [simp]: "more_pages j (more_pages k x) = more_pages (j + k) x"
  by (simp add: more_pages_def option.map_comp comp_def split_def add.assoc)

lemma shape_fill_after: "shape_fill ps xs sh = Some (n, sh1) \<Longrightarrow> shape_fill ps (xs @ ys) sh = more_pages n (shape_fill ps ys sh1)"
  by (induction xs arbitrary: sh n)
    (auto simp: more_pages_def option.map_comp comp_def split_def option.map_ident add.assoc split: option.splits)

lemma shape_fill_run_then:
  assumes "list_all (open_page ps e) path" and "12 + taken s + q * (snd e + 2) \<le> ps"
  shows "shape_fill ps (replicate q e @ es) (path @ [s]) = shape_fill ps es (path @ [s @ replicate q e])"
  unfolding shape_fill_after [OF shape_fill_run [OF assms]] by (simp add: more_pages_def option.map_ident split_def)

section \<open>A table with entries of 14 and 15 bytes on pages of 1024 bytes\<close>

text \<open>
  A value of 12 bytes takes 14 bytes with an id of one byte and 15 with one of two bytes. A page
  holds 63 entries of the one kind or 59 of the other, and 126 keys of two bytes.
\<close>

abbreviation small :: "nat \<times> nat" where "small \<equiv> (1, 14)"
abbreviation large :: "nat \<times> nat" where "large \<equiv> (2, 15)"
abbreviation small_key :: "nat \<times> nat" where "small_key \<equiv> (1, 5)"
abbreviation large_key :: "nat \<times> nat" where "large_key \<equiv> (2, 6)"

lemma upper_half_replicate [simp]: "upper_half (replicate n x) = replicate (n - n div 2) x"
  by (simp add: upper_half_def)

lemma split_size_replicate [simp]: "2 \<le> n \<Longrightarrow> split_size (replicate n x) = fst x"
  by (simp add: split_size_def)

lemma inner_sizes_eq: "inner_size (Suc 0) = small_key" "inner_size 1 = small_key" "inner_size 2 = large_key"
  by (simp_all add: inner_size_def)

text \<open>The last leaf is full: it is divided and filled again.\<close>

lemma leaf_divided:
  assumes path: "list_all (open_page 1024 large) path" and s: "taken s + 26 \<le> 1024"
  shows "shape_fill 1024 (replicate (Suc k) large) (path @ [s, replicate 59 large]) =
    more_pages 1 (shape_fill 1024 (replicate (Suc k) large) (path @ [s @ [large_key], replicate 30 large]))"
proof -
  have "open_page 1024 large s" "open_page 1024 large (s @ [large_key])" using s by (simp_all add: open_page_def spare_def)
  then show ?thesis
    using shape_fill_child [OF path, of s "replicate 59 large" "[]" "replicate k large"] s by (simp add: spare_def inner_sizes_eq)
qed

lemma fill_period:
  assumes path: "list_all (open_page 1024 large) path" and s: "taken s + 26 \<le> 1024"
  shows "shape_fill 1024 (replicate (29 + k) large) (path @ [s, replicate 59 large]) =
    more_pages 1 (shape_fill 1024 (replicate k large) (path @ [s @ [large_key], replicate 59 large]))"
proof -
  have "open_page 1024 large (s @ [large_key])" using s by (simp add: open_page_def spare_def)
  then have "shape_fill 1024 (replicate (29 + k) large) (path @ [s @ [large_key], replicate 30 large]) =
      shape_fill 1024 (replicate k large) (path @ [s @ [large_key], replicate 59 large])"
    using shape_fill_run_then [of 1024 large "path @ [s @ [large_key]]" "replicate 30 large" 29 "replicate k large"] path
    by (simp flip: replicate_add)
  then show ?thesis using leaf_divided [OF assms, of "28 + k"] by simp
qed

lemma fill_periods:
  "list_all (open_page 1024 large) path \<Longrightarrow> taken s + 8 * n + 18 \<le> 1024 \<Longrightarrow>
   shape_fill 1024 (replicate (29 * n + k) large) (path @ [s, replicate 59 large]) =
     more_pages n (shape_fill 1024 (replicate k large) (path @ [s @ replicate n large_key, replicate 59 large]))"
proof (induction n arbitrary: s)
  case 0
  then show ?case by (simp add: more_pages_def option.map_ident split_def)
next
  case (Suc n)
  have e: "29 * Suc n + k = 29 + (29 * n + k)" by simp
  show ?case
    unfolding e using fill_period [OF Suc.prems(1), of s "29 * n + k"] Suc.IH [OF Suc.prems(1), of "s @ [large_key]"] Suc.prems(2)
    by (simp)
qed

text \<open>The page above takes its last key.\<close>

lemma fill_last_key:
  assumes "list_all (open_page 1024 large) path" and "taken s + 20 \<le> 1024"
  shows "shape_fill 1024 (replicate (Suc k) large) (path @ [s, replicate 59 large]) =
    more_pages 1 (shape_fill 1024 (replicate k large) (path @ [s @ [large_key], replicate 31 large]))"
proof -
  have "replicate 30 large @ [large] = replicate 31 large" by (simp add: replicate_append_same flip: replicate_Suc)
  then show ?thesis
    using shape_fill_last_child [OF assms(1), of s "replicate 59 large" "replicate k large"] assms(2)
    by (simp add: open_page_def spare_def inner_sizes_eq)
qed

section \<open>The first leaves\<close>

text \<open>While the ids have one byte.\<close>

lemma small_run:
  assumes "list_all (open_page 1024 small) path" and "m + q \<le> 63"
  shows "shape_fill 1024 (replicate (q + j) small @ es) (path @ [replicate m small]) =
    shape_fill 1024 (replicate j small @ es) (path @ [replicate (m + q) small])"
  unfolding replicate_add append_assoc by (rule shape_fill_run_then [OF assms(1)]) (use assms(2) in simp)

lemma small_split:
  assumes "i < 4"
  shows "shape_fill 1024 (replicate (Suc j) small @ es) [replicate i small_key, replicate 63 small] =
    more_pages 1 (shape_fill 1024 (replicate (Suc j) small @ es) [replicate (Suc i) small_key, replicate 32 small])"
proof -
  have "replicate i small_key @ [small_key] = replicate (Suc i) small_key" by (simp add: replicate_append_same)
  then show ?thesis
    using shape_fill_child [of 1024 small "[]" "replicate i small_key" "replicate 63 small" "[]" "replicate j small @ es"] assms
    by (simp add: open_page_def spare_def inner_sizes_eq)
qed

lemma small_root:
  "shape_fill 1024 (replicate (Suc j) small @ es) [replicate 63 small] =
    more_pages 2 (shape_fill 1024 (replicate (Suc j) small @ es) [replicate 1 small_key, replicate 32 small])"
  using shape_fill_root [of 1024 "replicate 63 small" small "[]" "replicate j small @ es"]
  by (simp add: open_page_def spare_def inner_sizes_eq)

lemma small_leaves:
  "shape_fill 1024 (replicate 128 small @ es) [[]] = more_pages 4 (shape_fill 1024 es [replicate 3 small_key, replicate 35 small])"
proof -
  have "shape_fill 1024 (replicate 128 small @ es) [[]] = shape_fill 1024 (replicate (Suc 64) small @ es) [replicate 63 small]"
    using small_run [of "[]" 0 63 65 es] by simp
  also have "\<dots> = more_pages 2 (shape_fill 1024 (replicate (Suc 64) small @ es) [replicate 1 small_key, replicate 32 small])"
    by (rule small_root)
  also have "shape_fill 1024 (replicate (Suc 64) small @ es) [replicate 1 small_key, replicate 32 small] =
      shape_fill 1024 (replicate (Suc 33) small @ es) [replicate 1 small_key, replicate 63 small]"
    using small_run [of "[replicate 1 small_key]" 32 31 34 es] by (simp add: open_page_def spare_def)
  also have "\<dots> = more_pages 1 (shape_fill 1024 (replicate (Suc 33) small @ es) [replicate 2 small_key, replicate 32 small])"
    using small_split [of 1 33 es] by (simp add: numeral_2_eq_2)
  also have "shape_fill 1024 (replicate (Suc 33) small @ es) [replicate 2 small_key, replicate 32 small] =
      shape_fill 1024 (replicate (Suc 2) small @ es) [replicate 2 small_key, replicate 63 small]"
    using small_run [of "[replicate 2 small_key]" 32 31 3 es] by (simp add: open_page_def spare_def)
  also have "\<dots> = more_pages 1 (shape_fill 1024 (replicate (Suc 2) small @ es) [replicate 3 small_key, replicate 32 small])"
    using small_split [of 2 2 es] by (simp add: numeral_3_eq_3)
  also have "shape_fill 1024 (replicate (Suc 2) small @ es) [replicate 3 small_key, replicate 32 small] =
      shape_fill 1024 es [replicate 3 small_key, replicate 35 small]"
    using small_run [of "[replicate 3 small_key]" 32 3 0 es] by (simp add: open_page_def spare_def)
  finally show ?thesis by simp
qed

text \<open>The leaves that hold ids of both kinds.\<close>

lemma mixed_leaves:
  "shape_fill 1024 (replicate (83 + k) large) [replicate 3 small_key, replicate 35 small] =
    more_pages 2 (shape_fill 1024 (replicate k large) [replicate 4 small_key @ [large_key], replicate 59 large])"
proof -
  let ?s3 = "replicate 3 small_key" and ?s4 = "replicate 4 small_key" and ?s5 = "replicate 4 small_key @ [large_key]"
  let ?t = "replicate 35 small @ replicate 26 large" and ?u = "replicate 5 small @ replicate 54 large"
  have r: "replicate (83 + k) large = replicate 26 large @ large # replicate (56 + k) large"
    "large # replicate (56 + k) large = replicate 28 large @ large # replicate (28 + k) large"
    "large # replicate (28 + k) large = replicate 29 large @ replicate k large"
    by (simp_all flip: replicate_add replicate_Suc)
  have u: "upper_half ?t = replicate 5 small @ replicate 26 large" "split_size ?t = 1"
    "upper_half ?u = replicate 30 large" "split_size ?u = 2"
    by (simp_all add: upper_half_def split_size_def nth_append)
  have g: "replicate 30 large @ replicate 29 large = replicate 59 large" by (simp flip: replicate_add)
  have s: "?s3 @ [small_key] = ?s4" by (simp add: replicate_append_same numeral_eq_Suc)
  have o: "open_page 1024 large ?s3" "open_page 1024 large ?s4" "open_page 1024 large ?s5" by (simp_all add: open_page_def spare_def)
  have "shape_fill 1024 (replicate (83 + k) large) [?s3, replicate 35 small] = shape_fill 1024 (large # replicate (56 + k) large) [?s3, ?t]"
    unfolding r(1) using shape_fill_run_then [of 1024 large "[?s3]" "replicate 35 small" 26] o by simp
  also have "\<dots> = more_pages 1 (shape_fill 1024 (large # replicate (56 + k) large) [?s4, replicate 5 small @ replicate 26 large])"
    by (rule shape_fill_child [of 1024 large "[]" ?s3 ?t "[]" "replicate (56 + k) large", unfolded u inner_sizes_eq s append_Nil,
          OF _ o(1) _ _ _ _ o(2)]) (simp_all add: spare_def)
  also have "shape_fill 1024 (large # replicate (56 + k) large) [?s4, replicate 5 small @ replicate 26 large] =
      shape_fill 1024 (large # replicate (28 + k) large) [?s4, ?u]"
    unfolding r(2) using shape_fill_run_then [of 1024 large "[?s4]" "replicate 5 small @ replicate 26 large" 28] o
    by (simp flip: replicate_add)
  also have "\<dots> = more_pages 1 (shape_fill 1024 (large # replicate (28 + k) large) [?s5, replicate 30 large])"
    by (rule shape_fill_child [of 1024 large "[]" ?s4 ?u "[]" "replicate (28 + k) large", unfolded u inner_sizes_eq append_Nil,
          OF _ o(2) _ _ _ _ o(3)]) (simp_all add: spare_def)
  also have "shape_fill 1024 (large # replicate (28 + k) large) [?s5, replicate 30 large] =
      shape_fill 1024 (replicate k large) [?s5, replicate 59 large]"
    unfolding r(3) using shape_fill_run_then [of 1024 large "[?s5]" "replicate 30 large" 29 "replicate k large"] o by (simp add: g)
  finally show ?thesis by (simp add: numeral_2_eq_2)
qed

section \<open>The inner pages\<close>

lemma large_run:
  assumes "list_all (open_page 1024 large) path" and "m + q \<le> 59"
  shows "shape_fill 1024 (replicate (q + k) large) (path @ [replicate m large]) =
    shape_fill 1024 (replicate k large) (path @ [replicate (m + q) large])"
  unfolding replicate_add by (rule shape_fill_run_then [OF assms(1)]) (use assms(2) in simp)

text \<open>From an inner page with \<open>m\<close> keys above a leaf that was just divided, to the last of its 126 keys.\<close>

lemma inner_page_filled:
  assumes "open_page 1024 large s" and "m + n = 125"
  shows "shape_fill 1024 (replicate (28 + (29 * n + Suc k)) large) [s, replicate m large_key, replicate 31 large] =
    more_pages (Suc n) (shape_fill 1024 (replicate k large) [s, replicate 126 large_key, replicate 31 large])"
proof -
  have o: "open_page 1024 large (replicate m large_key)" using assms(2) by (simp add: open_page_def spare_def)
  have e: "replicate m large_key @ replicate n large_key = replicate 125 large_key" using assms(2) by (simp flip: replicate_add)
  have "replicate 125 large_key @ [large_key] = replicate (Suc 125) large_key" by (simp only: replicate_append_same replicate_Suc)
  then have f: "replicate 125 large_key @ [large_key] = replicate 126 large_key" by simp
  have "shape_fill 1024 (replicate (28 + (29 * n + Suc k)) large) [s, replicate m large_key, replicate 31 large] =
      shape_fill 1024 (replicate (29 * n + Suc k) large) [s, replicate m large_key, replicate 59 large]"
    using large_run [of "[s, replicate m large_key]" 31 28 "29 * n + Suc k"] assms(1) o by simp
  also have "\<dots> = more_pages n (shape_fill 1024 (replicate (Suc k) large) [s, replicate 125 large_key, replicate 59 large])"
    using fill_periods [of "[s]" "replicate m large_key" n "Suc k"] assms by (simp add: e)
  also have "shape_fill 1024 (replicate (Suc k) large) [s, replicate 125 large_key, replicate 59 large] =
      more_pages 1 (shape_fill 1024 (replicate k large) [s, replicate 126 large_key, replicate 31 large])"
    using fill_last_key [of "[s]" "replicate 125 large_key" k] assms(1) by (simp add: f del: replicate_Suc)
  finally show ?thesis by simp
qed

text \<open>A full inner page is divided by the next entry.\<close>

lemma inner_page_divided:
  assumes "i < 100"
  shows "shape_fill 1024 (replicate (Suc k) large) [replicate i large_key, replicate 126 large_key, replicate 31 large] =
    more_pages 1 (shape_fill 1024 (replicate (Suc k) large) [replicate (Suc i) large_key, replicate 63 large_key, replicate 31 large])"
proof -
  have f: "replicate i large_key @ [large_key] = replicate (Suc i) large_key" by (simp only: replicate_append_same replicate_Suc)
  show ?thesis unfolding replicate_Suc [of k]
    by (rule shape_fill_child [of 1024 large "[]" "replicate i large_key" "replicate 126 large_key" "[replicate 31 large]",
          unfolded append_Nil, simplified upper_half_replicate, THEN trans])
      (use assms in \<open>simp_all add: open_page_def spare_def inner_sizes_eq f del: replicate_Suc\<close>)
qed

lemma root_page_divided:
  "shape_fill 1024 (replicate (Suc k) large) [replicate 4 small_key @ replicate 123 large_key, replicate 31 large] =
    more_pages 2 (shape_fill 1024 (replicate (Suc k) large) [replicate 1 large_key, replicate 64 large_key, replicate 31 large])"
proof -
  let ?s = "replicate 4 small_key @ replicate 123 large_key"
  have u: "upper_half ?s = replicate 64 large_key" "split_size ?s = 2" by (simp_all add: upper_half_def split_size_def nth_append)
  have o: "replicate 1 large_key = [large_key]" by simp
  show ?thesis unfolding replicate_Suc [of k] o
    by (rule shape_fill_root [of 1024 ?s large "[replicate 31 large]", unfolded u inner_sizes_eq])
      (simp_all add: spare_def open_page_def)
qed

text \<open>
  The ids from 0 to 9071: the tree gets its third level at the entry 3721, and all entries find
  room on 317 pages.
\<close>

lemma third_level:
  "shape_fill 1024 (replicate 8944 large) [replicate 3 small_key, replicate 35 small] =
    more_pages 126 (shape_fill 1024 (replicate 5351 large) [replicate 1 large_key, replicate 64 large_key, replicate 31 large])"
proof -
  have g: "(replicate 4 small_key @ [large_key]) @ replicate 121 large_key = replicate 4 small_key @ replicate 122 large_key"
    "(replicate 4 small_key @ replicate 122 large_key) @ [large_key] = replicate 4 small_key @ replicate 123 large_key"
    by (simp_all add: numeral_eq_Suc replicate_append_same)
  have "shape_fill 1024 (replicate 8944 large) [replicate 3 small_key, replicate 35 small] =
      more_pages 2 (shape_fill 1024 (replicate 8861 large) [replicate 4 small_key @ [large_key], replicate 59 large])"
    using mixed_leaves [of 8861] by simp
  also have "shape_fill 1024 (replicate 8861 large) [replicate 4 small_key @ [large_key], replicate 59 large] =
      more_pages 121 (shape_fill 1024 (replicate 5352 large) [replicate 4 small_key @ replicate 122 large_key, replicate 59 large])"
    using fill_periods [of "[]" "replicate 4 small_key @ [large_key]" 121 5352] by (simp only: g append_Nil) simp
  also have "shape_fill 1024 (replicate 5352 large) [replicate 4 small_key @ replicate 122 large_key, replicate 59 large] =
      more_pages 1 (shape_fill 1024 (replicate 5351 large) [replicate 4 small_key @ replicate 123 large_key, replicate 31 large])"
    using fill_last_key [of "[]" "replicate 4 small_key @ replicate 122 large_key" 5351] by (simp only: g append_Nil) simp
  also have "shape_fill 1024 (replicate 5351 large) [replicate 4 small_key @ replicate 123 large_key, replicate 31 large] =
      more_pages 2 (shape_fill 1024 (replicate 5351 large) [replicate 1 large_key, replicate 64 large_key, replicate 31 large])"
    using root_page_divided [of 5350] by (simp del: replicate_Suc)
  finally show ?thesis by simp
qed

lemma shape_fill_9072:
  "shape_fill 1024 (replicate 128 small @ replicate 8944 large) [[]] =
    Some (316, [replicate 3 large_key, replicate 122 large_key, replicate 46 large])"
proof -
  have o: "open_page 1024 large (replicate i large_key)" if "i \<le> 125" for i using that by (simp add: open_page_def spare_def)
  have g: "replicate 121 large_key @ [large_key] = replicate 122 large_key" "replicate 63 large_key @ replicate 58 large_key = replicate 121 large_key"
    by (simp_all add: numeral_eq_Suc replicate_append_same)
  have "shape_fill 1024 (replicate 128 small @ replicate 8944 large) [[]] =
      more_pages 130 (shape_fill 1024 (replicate 5351 large) [replicate 1 large_key, replicate 64 large_key, replicate 31 large])"
    unfolding small_leaves third_level by simp
  also have "shape_fill 1024 (replicate 5351 large) [replicate 1 large_key, replicate 64 large_key, replicate 31 large] =
      more_pages 62 (shape_fill 1024 (replicate 3553 large) [replicate 1 large_key, replicate 126 large_key, replicate 31 large])"
    using inner_page_filled [OF o, of 1 64 61 3553] by (simp del: replicate_Suc)
  also have "\<dots> = more_pages 63 (shape_fill 1024 (replicate 3553 large) [replicate 2 large_key, replicate 63 large_key, replicate 31 large])"
    using inner_page_divided [of 1 3552] by (simp add: numeral_2_eq_2 del: replicate_Suc)
  also have "shape_fill 1024 (replicate 3553 large) [replicate 2 large_key, replicate 63 large_key, replicate 31 large] =
      more_pages 63 (shape_fill 1024 (replicate 1726 large) [replicate 2 large_key, replicate 126 large_key, replicate 31 large])"
    using inner_page_filled [OF o, of 2 63 62 1726] by (simp del: replicate_Suc)
  also have "\<dots> = more_pages 64 (shape_fill 1024 (replicate 1726 large) [replicate 3 large_key, replicate 63 large_key, replicate 31 large])"
    using inner_page_divided [of 2 1725] by (simp add: numeral_3_eq_3 del: replicate_Suc)
  also have "shape_fill 1024 (replicate 1726 large) [replicate 3 large_key, replicate 63 large_key, replicate 31 large] =
      shape_fill 1024 (replicate 1698 large) [replicate 3 large_key, replicate 63 large_key, replicate 59 large]"
    using large_run [of "[replicate 3 large_key, replicate 63 large_key]" 31 28 1698] o by (simp del: replicate_Suc)
  also have "\<dots> = more_pages 58 (shape_fill 1024 (replicate 16 large) [replicate 3 large_key, replicate 121 large_key, replicate 59 large])"
    using fill_periods [of "[replicate 3 large_key]" "replicate 63 large_key" 58 16] o by (simp add: g del: replicate_Suc)
  also have "shape_fill 1024 (replicate 16 large) [replicate 3 large_key, replicate 121 large_key, replicate 59 large] =
      more_pages 1 (shape_fill 1024 (replicate 16 large) [replicate 3 large_key, replicate 122 large_key, replicate 30 large])"
    using leaf_divided [of "[replicate 3 large_key]" "replicate 121 large_key" 15] o by (simp add: g del: replicate_Suc)
  also have "shape_fill 1024 (replicate 16 large) [replicate 3 large_key, replicate 122 large_key, replicate 30 large] =
      Some (0, [replicate 3 large_key, replicate 122 large_key, replicate 46 large])"
    using large_run [of "[replicate 3 large_key, replicate 122 large_key]" 30 16 0] o by (simp del: replicate_Suc)
  finally show ?thesis by simp
qed

end
