(* ===== verification/BtreeTests.thy ===== *)
theory BtreeTests
  imports PagerTests TableAppend AppendRuns
begin

text \<open>
  The test suite of src/btree.c on the model of the B-tree: every test passes, the one with
  9072 insertions too.
\<close>

section \<open>The table of a test\<close>

definition table_machine :: "machine \<Rightarrow> bool" where
  "table_machine m \<longleftrightarrow> (\<forall>n. answers m n \<noteq> None) \<and> buffers_ok (key_buf m) (value_buf m) \<and>
     length (retries m) + 1024 \<le> fuel_bound m \<and> 4 \<le> depth_bound m"

text \<open>The tree of a test process, its pager, and the contents \<open>M\<close> of the pages.\<close>

definition tabled ::
  "process \<Rightarrow> btree_t \<Rightarrow> pager_t \<Rightarrow> u32 \<times> u32 \<times> mallocs \<times> bool list \<Rightarrow> (u32 \<Rightarrow> byte list option) \<Rightarrow> bool" where
  "tabled s bt p c M \<longleftrightarrow> the_pager s = Some (Live p) \<and> the_btree s = Some (Live bt) \<and> the_value s = value_arg hello_world \<and>
     leaf_cell_count s = 63 \<and> inner_cell_count s = 144 \<and> error_wf (errors s) \<and> error_code (errors s) = 0 \<and> caches 1024 c p M []"

lemma hello_value: "blob_from_string hello_world = value_arg hello_world" "val_ok hello_world" "blob_put_len (value_arg hello_world) = 13"
proof -
  show "blob_from_string hello_world = value_arg hello_world" by (simp add: blob_from_string_def value_arg_def hello_world_def)
  show v: "val_ok hello_world" by (simp add: val_ok_def hello_world_def)
  have b: "bsize (value_arg hello_world) = 12" by (simp add: value_arg_def hello_world_def)
  have "vint_bytes 12 = [12]" by (subst vint_bytes.simps) simp
  then show "blob_put_len (value_arg hello_world) = 13"
    using varint_put_len_correct [of 12] by (simp add: blob_put_len_def b)
qed

text \<open>A table in which nothing was inserted.\<close>

definition fresh_table :: "machine \<Rightarrow> process \<Rightarrow> bool" where
  "fresh_table m s \<longleftrightarrow> (\<exists>bt p c M d. tabled s bt p c M \<and> roomy 316 (fuel_bound m) c M \<and> M (root bt) = Some d \<and> root bt \<noteq> 0 \<and>
     leaf_page 1024 (page_flags_package True PAGE_FLAG_TABLE) 0 d [] \<and> btree_page_size bt = of_nat 1024)"

lemma btree_before_fresh:
  assumes m: "table_machine m" and es: "error_wf (errors s)" "error_code (errors s) = 0"
  shows "\<exists>s'. btree_before m s = ret s' \<and> fresh_table m s'"
proof -
  have n: "power_of_two_or_zero 512" "2 \<le> unat (512 :: u32)" "Suc 316 < unat (seven_tenths 512)" "12 \<le> unat (1024 :: u16)"
    by (simp_all add: power_of_two_or_zero_def seven_tenths_def)
  have fuel: "length (retries m) + 2 * unat (seven_tenths 512) \<le> fuel_bound m" and ms: "\<forall>j. answers m j \<noteq> None"
    using m by (simp_all add: table_machine_def seven_tenths_def)
  have ty: "\<not> page_is_index_uuid PAGE_FLAG_TABLE" by (simp add: page_is_index_uuid_def PAGE_FLAG_TABLE_def PAGE_FLAG_INDEX_UUID_def)
  have ps: "unat (1024 :: u16) = 1024" by simp
  obtain p bt q c M d where
    o: "pager_open 1024 512 (answers m) (retries m) (errors s) = Inr (SUCCESS, Some (Live p), errors s)"
      "btree_create (fuel_bound m) p PAGE_FLAG_TABLE (errors s) = Inr (SUCCESS, Some (Live bt), q, errors s)"
    and c: "caches 1024 c q M []" "roomy 316 (fuel_bound m) c M" "M (root bt) = Some d" "root bt \<noteq> 0"
      "leaf_page 1024 (page_flags_package True PAGE_FLAG_TABLE) 0 d []" "btree_page_size bt = of_nat 1024"
    by (rule opened_table_from [OF n ms fuel ty es, unfolded ps])
  let ?s = "s\<lparr>the_value := value_arg hello_world, inner_cell_count := 144, leaf_cell_count := 63, the_pager := Some (Live q),
    the_btree := Some (Live bt)\<rparr>"
  have "tabled ?s bt q c M" using es c(1) by (simp add: tabled_def)
  then have "fresh_table m ?s" using c(2-6) unfolding fresh_table_def by blast
  moreover have "btree_before m s = ret ?s"
    using o by (simp add: btree_before_def hello_value test_page_size_def open_pager_def Let_def)
  ultimately show ?thesis by blast
qed

lemma btree_after_tabled:
  assumes "tabled s bt p c M"
  shows "\<exists>s'. btree_after s = ret s'"
proof -
  have t: "the_pager s = Some (Live p)" "the_btree s = Some (Live bt)" "caches 1024 c p M []" using assms by (simp_all add: tabled_def)
  from t(3) obtain R where "pager_inv p R" by (auto simp: caches_def client_inv_def)
  from pager_close_frees [OF this] obtain fs where "pager_close p = Inr (SUCCESS, fs)" by blast
  then show ?thesis using t(1,2) by (simp add: btree_after_def btree_close_def close_pager_def)
qed

section \<open>The steps of a test\<close>

definition entries :: "u64 list \<Rightarrow> (u64 \<times> byte list) list" where
  "entries ids = map (\<lambda>i. (i, hello_world)) ids"

lemma each_singleton: "each f [x] s = f x s"
  by (simp add: pbind_def obind_def ret_def split: sum.splits)

lemma insert_each:
  assumes "the_pager s = Some (Live p)" and "the_btree s = Some (Live bt)" and "the_value s = value_arg hello_world"
    and "table_fill (depth_bound m) (fuel_bound m) (key_buf m) (value_buf m) (entries ids) bt p (errors s) = Inr (SUCCESS, bt', q, es)"
  shows "each (insert_id m) ids s = ret (s\<lparr>the_pager := Some (Live q), the_btree := Some (Live bt'), errors := es\<rparr>)"
  using assms
proof (induction ids arbitrary: s p bt)
  case Nil
  then show ?case by (cases s) (simp add: entries_def)
next
  case (Cons i ids)
  obtain bt1 p1 es1 where
    i: "table_put (depth_bound m) (fuel_bound m) (key_buf m) (value_buf m) bt p i hello_world (errors s) = Inr (SUCCESS, bt1, p1, es1)"
    and f: "table_fill (depth_bound m) (fuel_bound m) (key_buf m) (value_buf m) (entries ids) bt1 p1 es1 = Inr (SUCCESS, bt', q, es)"
    using Cons.prems(4) by (auto simp: entries_def obind_def split: sum.splits if_splits)
  let ?s = "s\<lparr>the_pager := Some (Live p1), the_btree := Some (Live bt1), errors := es1\<rparr>"
  have "insert_id m i s = ret ?s" using i Cons.prems(1-3) by (simp add: insert_id_def table_put_def)
  moreover have "each (insert_id m) ids ?s = ret (?s\<lparr>the_pager := Some (Live q), the_btree := Some (Live bt'), errors := es\<rparr>)"
    by (rule Cons.IH [of _ p1 bt1]) (use Cons.prems(3) f in simp_all)
  ultimately show ?case by simp
qed

lemma lookup_each:
  assumes m: "table_machine m" and tr: "tree_at h 1024 M max_id (root bt) al" and h: "h < depth_bound m"
    and "tabled s bt p c M" and "\<forall>i \<in> set ids. id_ok i \<and> map_of al i = Some hello_world"
  shows "\<exists>s' q. each (lookup_id m) ids s = ret s' \<and> tabled s' bt q c M"
  using assms(4,5)
proof (induction ids arbitrary: s p)
  case Nil
  then show ?case by auto
next
  case (Cons i ids)
  have t: "the_pager s = Some (Live p)" "the_btree s = Some (Live bt)" "the_value s = value_arg hello_world" "caches 1024 c p M []"
    "error_wf (errors s)" using Cons.prems(1) by (simp_all add: tabled_def)
  have k: "id_ok i" "map_of al i = Some hello_world" using Cons.prems(2) by simp_all
  have "length (key_buf m) = 9" using m by (simp add: table_machine_def buffers_ok_def)
  from table_lookup_correct [OF t(4) tr h k(1) this t(5)] k(2) obtain q b where
    l: "btree_table_lookup (depth_bound m) (fuel_bound m) bt p i (key_buf m) (errors s) = Inr (SUCCESS, Some b, q, errors s)"
    "caches 1024 c q M []" "blob_valid b" "blob_bytes b = hello_world" by (fastforce simp: lookup_answer_def)
  note V = value_arg [OF hello_value(2)]
  have "blob_cmp b (value_arg hello_world) = Inr 0"
    using blob_cmp_correct [OF l(3) V(3)] by (simp add: V(4) l(4) lex_cmp_def)
  then have "lookup_id m i s = ret (s\<lparr>the_pager := Some (Live q)\<rparr>)"
    using l(1) t by (simp add: lookup_id_def)
  moreover have "tabled (s\<lparr>the_pager := Some (Live q)\<rparr>) bt q c M" using Cons.prems(1) l(2) by (simp add: tabled_def)
  moreover have "\<forall>i \<in> set ids. id_ok i \<and> map_of al i = Some hello_world" using Cons.prems(2) by simp
  ultimately show ?case using Cons.IH by fastforce
qed

lemma root_header_tabled:
  assumes t: "tabled s bt p c M" and d: "M (root bt) = Some d" "12 \<le> length d"
  shows "\<exists>s' q. root_header m k s = k (header_of d) s' \<and> tabled s' bt q c M"
proof -
  have h: "the_pager s = Some (Live p)" "the_btree s = Some (Live bt)" "caches 1024 c p M []" using t by (simp_all add: tabled_def)
  from caches_peek [OF h(3) d(1), of "fuel_bound m" "errors s"] obtain pg p1 q where
    f: "pager_fix (fuel_bound m) p (root bt) False (errors s) = Inr (SUCCESS, Some pg, p1, errors s)" "page_data p1 pg = Inr d"
    "pager_unfix p1 pg = Inr q" "caches 1024 c q M []" by blast
  have "root_header m k s = k (header_of d) (s\<lparr>the_pager := Some (Live q)\<rparr>)"
    using f(1-3) h d(2) by (simp add: root_header_def fix_page_def unfix_page_def)
  moreover have "tabled (s\<lparr>the_pager := Some (Live q)\<rparr>) bt q c M" using t f(4) by (simp add: tabled_def)
  ultimately show ?thesis by blast
qed

section \<open>Insertions with growing ids\<close>

abbreviation first_ids :: "nat \<Rightarrow> u64 list" where "first_ids n \<equiv> map of_nat [0..<n]"

lemma first_ids_sorted:
  assumes "n < 2 ^ 31"
  shows "sorted_wrt (<) (first_ids n)" and "\<forall>i \<in> set (first_ids n). id_ok i"
proof -
  have u: "unat (of_nat i :: u64) = i" if "i < n" for i using that assms by (simp add: unat_of_nat)
  have "sorted_wrt (\<lambda>i j. (of_nat i :: u64) < of_nat j) [0..<n]"
    by (rule sorted_wrt_mono_rel [OF _ sorted_wrt_upt]) (simp add: word_less_nat_alt u)
  then show "sorted_wrt (<) (first_ids n)" by (simp add: sorted_wrt_map)
  show "\<forall>i \<in> set (first_ids n). id_ok i" using u assms by (simp add: id_ok_def)
qed

lemma entries_simps [simp]: "map fst (entries ids) = ids" "fst ` set (entries ids) = set ids" "length (entries ids) = length ids"
  by (simp_all add: entries_def image_image comp_def)

lemma map_of_entries: "map_of (entries ids) i = (if i \<in> set ids then Some hello_world else None)"
  by (simp add: entries_def map_of_map_restrict)

lemma entry_size_small: "unat i < 128 \<Longrightarrow> entry_size (i, hello_world) = small"
  and entry_size_large: "128 \<le> unat i \<Longrightarrow> unat i < 16384 \<Longrightarrow> entry_size (i, hello_world) = large"
proof -
  have v: "vint_bytes 12 = [12]" by (subst vint_bytes.simps) simp
  have e: "entry_size (i, hello_world) = (length (vint_bytes i), length (vint_bytes i) + 13)"
    by (simp add: entry_size_def leaf_entry_def hello_world_def v)
  show "unat i < 128 \<Longrightarrow> entry_size (i, hello_world) = small"
    using length_vint_bytes_le [of i 1] vint_bytes_nonempty [of i] unfolding e by (cases "vint_bytes i") simp_all
  assume i: "128 \<le> unat i" "unat i < 16384"
  have "length (vint_bytes i) \<le> 2" using length_vint_bytes_le [of i 2] i(2) by simp
  moreover have "length (vint_bytes i) = Suc (length (vint_bytes (drop_bit 7 i)))" "vint_bytes (drop_bit 7 i) \<noteq> []"
    using i(1) by (subst vint_bytes.simps) (simp_all add: drop_bit_eq_0_iff_unat)
  ultimately have "length (vint_bytes i) = 2" by (cases "vint_bytes (drop_bit 7 i)") simp_all
  then show "entry_size (i, hello_world) = large" unfolding e by simp
qed

lemma first_sizes:
  assumes "a \<le> 128" and "b \<le> 16000"
  shows "map entry_size (entries (first_ids a)) = replicate a small"
    and "map entry_size (entries (first_ids (128 + b))) = replicate 128 small @ replicate b large"
proof -
  have u: "unat (of_nat i :: u64) = i" if "i < 16384" for i by (rule unat_len_u64) (use that in simp)
  have s: "map (\<lambda>i. entry_size (of_nat i, hello_world)) [0..<n] = replicate n small" if "n \<le> 128" for n
    using that u by (intro replicate_eqI) (auto simp: entry_size_small)
  have "map (\<lambda>i. entry_size (of_nat i, hello_world)) [128..<128 + b] = replicate b large"
    using assms(2) u by (intro replicate_eqI) (auto simp: entry_size_large)
  moreover have "[0..<128 + b] = [0..<128] @ [128..<128 + b]" by (rule upt_add_eq_append) simp
  ultimately show "map entry_size (entries (first_ids (128 + b))) = replicate 128 small @ replicate b large"
    using s [of 128] by (simp add: entries_def comp_def)
  show "map entry_size (entries (first_ids a)) = replicate a small" using s assms(1) by (simp add: entries_def comp_def)
qed

lemma insert_ascending:
  assumes m: "table_machine m" and s: "fresh_table m s" and n: "n < 2 ^ 31"
    and w: "shape_fill 1024 (map entry_size (entries (first_ids n))) [[]] = Some (pages, sh)" and k: "pages \<le> 316" "length sh \<le> 4"
  shows "\<exists>s' bt q c Lo M ids b. each (insert_id m) (first_ids n) s = ret s' \<and> tabled s' bt q c M \<and>
    edge 1024 b Lo M (root bt # ids) sh (entries (first_ids n)) \<and> id_ok b"
proof -
  from s obtain bt p c M d where t: "tabled s bt p c M" "roomy 316 (fuel_bound m) c M" "M (root bt) = Some d" "root bt \<noteq> 0"
    "leaf_page 1024 (page_flags_package True PAGE_FLAG_TABLE) 0 d []" "btree_page_size bt = of_nat 1024"
    unfolding fresh_table_def by blast
  have h: "caches 1024 c p M []" "error_wf (errors s)" "error_code (errors s) = 0" "the_pager s = Some (Live p)" "the_btree s = Some (Live bt)"
    "the_value s = value_arg hello_world" using t(1) by (simp_all add: tabled_def)
  have buf: "buffers_ok (key_buf m) (value_buf m)" using m by (simp add: table_machine_def)
  have xs: "\<forall>e \<in> set (entries (first_ids n)). id_ok (fst e) \<and> val_ok (snd e)" "sorted_wrt (<) (map fst (entries (first_ids n)))"
    using first_ids_sorted [OF n] hello_value(2) by (simp_all add: entries_def comp_def)
  have rm: "roomy (pages + 0) (fuel_bound m) c M" by (rule roomy_mono [OF t(2)]) (use k(1) in simp)
  have dp: "length sh \<le> Suc (depth_bound m)" using k(2) m by (simp add: table_machine_def)
  from table_fill_ascending [OF h(1) t(3-6) buf h(2,3) xs w rm dp] obtain bt' q c' Lo' M' ids' b' where
    f: "table_fill (depth_bound m) (fuel_bound m) (key_buf m) (value_buf m) (entries (first_ids n)) bt p (errors s) =
      Inr (SUCCESS, bt', q, errors s)" "caches 1024 c' q M' []"
      "edge 1024 b' Lo' M' (root bt' # ids') sh (entries (first_ids n))" "id_ok b'" by blast
  let ?s = "s\<lparr>the_pager := Some (Live q), the_btree := Some (Live bt'), errors := errors s\<rparr>"
  have "each (insert_id m) (first_ids n) s = ret ?s" by (rule insert_each [OF h(4-6) f(1)])
  moreover have "tabled ?s bt' q c' M'" using t(1) f(2) by (simp add: tabled_def)
  ultimately show ?thesis using f(3,4) by blast
qed

lemma lookup_first:
  assumes m: "table_machine m" and t: "tabled s bt p c M" and tr: "tree_at h 1024 M max_id (root bt) al" and h: "h < depth_bound m"
    and al: "map_of al = map_of (entries (first_ids n))" and n: "n < 2 ^ 31"
  shows "\<exists>s' q. each (lookup_id m) (first_ids n) s = ret s' \<and> tabled s' bt q c M"
  by (rule lookup_each [OF m tr h t]) (use first_ids_sorted(2) [OF n] in \<open>simp add: al map_of_entries\<close>)

text \<open>As long as the ids fit into the root page, their order does not matter.\<close>

lemma insert_into_root:
  assumes m: "table_machine m" and s: "fresh_table m s" and ids: "\<forall>i \<in> set ids. id_ok i" "distinct ids"
    and u: "12 + leaf_used (entries ids) \<le> 1024"
  shows "\<exists>s' bt q c M d al. each (insert_id m) ids s = ret s' \<and> tabled s' bt q c M \<and> M (root bt) = Some d \<and> root bt \<noteq> 0 \<and>
    leaf_page 1024 (page_flags_package True PAGE_FLAG_TABLE) 0 d al \<and> map_of al = map_of (entries ids) \<and> length al = length ids"
proof -
  from s obtain bt p c M d where t: "tabled s bt p c M" "M (root bt) = Some d" "root bt \<noteq> 0"
    "leaf_page 1024 (page_flags_package True PAGE_FLAG_TABLE) 0 d []" "btree_page_size bt = of_nat 1024"
    unfolding fresh_table_def by blast
  have h: "caches 1024 c p M []" "error_code (errors s) = 0" "the_pager s = Some (Live p)" "the_btree s = Some (Live bt)"
    "the_value s = value_arg hello_world" using t(1) by (simp_all add: tabled_def)
  have buf: "buffers_ok (key_buf m) (value_buf m)" using m by (simp add: table_machine_def)
  have e: "\<forall>e \<in> set (entries ids). id_ok (fst e) \<and> val_ok (snd e)" using ids(1) hello_value(2) by (auto simp: entries_def)
  have v: "distinct (map fst (entries ids))" "fst ` set [] \<inter> fst ` set (entries ids) = {}"
    "12 + leaf_used [] + leaf_used (entries ids) \<le> 1024" using ids(2) u by simp_all
  from table_fill_leaf [OF h(1) t(2,4,5) buf h(2) e v, of "depth_bound m" "fuel_bound m"] obtain q d' al where
    f: "table_fill (depth_bound m) (fuel_bound m) (key_buf m) (value_buf m) (entries ids) bt p (errors s) = Inr (SUCCESS, bt, q, errors s)"
      "caches 1024 c q (M(root bt \<mapsto> d')) []" "leaf_page 1024 (page_flags_package True PAGE_FLAG_TABLE) 0 d' al"
      "map_of al = map_of (entries ids)" by auto
  let ?s = "s\<lparr>the_pager := Some (Live q), the_btree := Some (Live bt), errors := errors s\<rparr>"
  have i: "each (insert_id m) ids s = ret ?s" by (rule insert_each [OF h(3-5) f(1)])
  have t1: "tabled ?s bt q c (M(root bt \<mapsto> d'))" using t(1) f(2) by (simp add: tabled_def)
  have "fst ` set al = set ids" using arg_cong [OF f(4), of dom] by (simp add: dom_map_of_conv_image_fst)
  moreover have "distinct (map fst al)" using f(3) by (simp add: leaf_page_def)
  ultimately have "length al = length ids" using ids(2) distinct_card [of "map fst al"] distinct_card [of ids] by simp
  with i t1 t(3) f(3,4) show ?thesis
    by (intro exI [of _ ?s] exI [of _ bt] exI [of _ q] exI [of _ c] exI [of _ "M(root bt \<mapsto> d')"] exI [of _ d'] exI [of _ al]) simp
qed

section \<open>The tests\<close>

definition leaves_table :: "machine \<Rightarrow> (process \<Rightarrow> process prog) \<Rightarrow> bool" where
  "leaves_table m body \<longleftrightarrow> (\<forall>s. fresh_table m s \<longrightarrow> (\<exists>s' bt p c M. body s = ret s' \<and> tabled s' bt p c M))"

lemma leaves_tableI: "(\<And>s. fresh_table m s \<Longrightarrow> \<exists>s' bt p c M. body s = ret s' \<and> tabled s' bt p c M) \<Longrightarrow> leaves_table m body"
  by (simp add: leaves_table_def)

lemma insert_and_lookup:
  assumes m: "table_machine m"
  shows "leaves_table m (\<lambda>s. pbind (insert_id m 7 s) (lookup_id m 7))"
proof (rule leaves_tableI)
  fix s
  assume s: "fresh_table m s"
  have d: "0 < depth_bound m" and k: "id_ok 7" using m by (simp_all add: table_machine_def id_ok_def)
  have "12 + leaf_used (entries [7]) \<le> 1024" using entry_size_small [of 7] by (simp add: entries_def entry_size_def)
  with insert_into_root [OF m s, of "[7]"] k obtain s1 bt q c M dt al where
    i: "each (insert_id m) [7] s = ret s1" "tabled s1 bt q c M" "M (root bt) = Some dt" "root bt \<noteq> 0"
    "leaf_page 1024 (page_flags_package True PAGE_FLAG_TABLE) 0 dt al" "map_of al = map_of (entries [7])" by auto
  have "tree_at 0 1024 M max_id (root bt) al" by (rule tree_at_leaf [where M = M, OF i(4,3,5)])
  from lookup_each [OF m this d i(2), of "[7]"] k i(6) obtain s' q' where
    "each (lookup_id m) [7] s1 = ret s'" "tabled s' bt q' c M" by (auto simp: map_of_entries)
  moreover have "insert_id m 7 s = ret s1" "lookup_id m 7 s1 = ret s'" using i(1) calculation(1) unfolding each_singleton .
  ultimately show "\<exists>s' bt p c M. pbind (insert_id m 7 s) (lookup_id m 7) = ret s' \<and> tabled s' bt p c M" by (simp only: pbind_simps) blast
qed

lemma fill_root_leaf:
  assumes m: "table_machine m"
  shows "leaves_table m (\<lambda>s.
    pbind (ids_below leaf_count (insert_id m) s) (root_header m (\<lambda>header s.
    pbind (check (assertis (page_is_leaf (flags header))) s) (\<lambda>s.
    pbind (check (asserteq (cell_count header) (leaf_cell_count s)) s) (\<lambda>s.
    pbind (check (asserteq (right header) 0) s) (\<lambda>s.
    ids_below leaf_count (lookup_id m) s))))))"
proof (rule leaves_tableI)
  fix s
  let ?k = "\<lambda>header s.
    pbind (check (assertis (page_is_leaf (flags header))) s) (\<lambda>s.
    pbind (check (asserteq (cell_count header) (leaf_cell_count s)) s) (\<lambda>s.
    pbind (check (asserteq (right header) 0) s) (\<lambda>s.
    ids_below leaf_count (lookup_id m) s)))"
  assume s: "fresh_table m s"
  let ?ids = "first_ids 63"
  have n: "(63 :: nat) < 2 ^ 31" and d: "0 < depth_bound m" using m by (simp_all add: table_machine_def)
  note S = first_ids_sorted [OF n]
  have "sum_list (map (\<lambda>e. snd e + 2) (map entry_size (entries ?ids))) = 63 * 16"
    unfolding first_sizes(1) [of 63 0, simplified] by (simp add: sum_list_replicate map_replicate_const)
  then have u: "12 + leaf_used (entries ?ids) \<le> 1024" by (simp add: leaf_used_def entry_size_def comp_def)
  have "distinct ?ids" using S(1) strict_sorted_iff by blast
  from insert_into_root [OF m s S(2) this u] obtain s1 bt q c M dt al where
    i: "each (insert_id m) ?ids s = ret s1" "tabled s1 bt q c M" "M (root bt) = Some dt" "root bt \<noteq> 0"
    "leaf_page 1024 (page_flags_package True PAGE_FLAG_TABLE) 0 dt al" "map_of al = map_of (entries ?ids)" "length al = length ?ids" by blast
  have hd: "length dt = 1024" "page_is_leaf (flags (header_of dt))" "right (header_of dt) = 0" "unat (cell_count (header_of dt)) = 63"
    using i(5,7) by (simp_all add: leaf_page_def page_rep_def)
  have cc: "cell_count (header_of dt) = 63" by (simp add: word_unat_eq_iff hd(4))
  from root_header_tabled [OF i(2,3), of m ?k] hd(1) obtain s2 q2 where
    r: "root_header m ?k s1 = ?k (header_of dt) s2" "tabled s2 bt q2 c M" by auto
  have tr: "tree_at 0 1024 M max_id (root bt) al" by (rule tree_at_leaf [where M = M, OF i(4,3,5)])
  from lookup_first [OF m r(2) tr d i(6) n] obtain s3 q3 where g: "each (lookup_id m) ?ids s2 = ret s3" "tabled s3 bt q3 c M" by blast
  have lc: "leaf_count s = 63" "leaf_count s2 = 63" "leaf_cell_count s2 = 63"
    using s r(2) by (auto simp: leaf_count_def tabled_def fresh_table_def)
  have "ids_below leaf_count (insert_id m) s = ret s1" "ids_below leaf_count (lookup_id m) s2 = ret s3"
    unfolding ids_below_def lc(1,2) by (rule i(1), rule g(1))
  then have "pbind (ids_below leaf_count (insert_id m) s) (root_header m ?k) = ret s3" using r(1) hd cc lc(3) by simp
  then show "\<exists>s' bt p c M. pbind (ids_below leaf_count (insert_id m) s) (root_header m ?k) = ret s' \<and> tabled s' bt p c M"
    using g(2) by blast
qed

lemma shape_fill_64: "shape_fill 1024 (replicate 64 small) [[]] = Some (2, [replicate 1 small_key, replicate 33 small])"
proof -
  have "shape_fill 1024 (replicate 64 small) [[]] = shape_fill 1024 (replicate (Suc 0) small) [replicate 63 small]"
    using small_run [of "[]" 0 63 1 "[]"] by simp
  also have "\<dots> = more_pages 2 (shape_fill 1024 (replicate (Suc 0) small) [replicate 1 small_key, replicate 32 small])"
    using small_root [of 0 "[]"] by (simp only: append_Nil2)
  also have "shape_fill 1024 (replicate (Suc 0) small) [replicate 1 small_key, replicate 32 small] =
      Some (0, [replicate 1 small_key, replicate 33 small])"
    using small_run [of "[replicate 1 small_key]" 32 1 0 "[]"] by (simp add: open_page_def spare_def)
  finally show ?thesis by simp
qed

lemma shape_fill_63: "shape_fill 1024 (replicate 63 small) [[]] = Some (0, [replicate 63 small])"
  using small_run [of "[]" 0 63 0 "[]"] by simp

text \<open>The root of a tree with two levels of pages.\<close>

lemma split_root_header:
  assumes "edge 1024 b Lo M (i # ids) [[x], y] al"
  shows "\<exists>d. M i = Some d \<and> length d = 1024 \<and> page_is_inner (flags (header_of d)) \<and> cell_count (header_of d) = 1 \<and>
    right (header_of d) \<noteq> 0"
proof -
  have "length ids = 1" using spine_length [OF edge_spine [OF assms]] by simp
  then obtain j where j: "ids = [j]" by (cases ids) simp_all
  from edge_spine [OF assms] have sp: "spine 1024 b Lo M (i # j # []) [[x], y] al" unfolding j .
  from sp [unfolded spine.simps(3)] obtain d fl ks cs sh sub where
    d: "M i = Some d" "inner_page 1024 fl d ks (cs @ [j])" "[[x], y] = key_sizes ks # sh" "spine 1024 b Lo M [j] sh sub" by blast
  have "length ks = 1" "j \<noteq> 0" using arg_cong [OF d(3), of "\<lambda>s. length (hd s)"] d(4) by (simp_all add: key_sizes_def)
  note d = d(1,2) this
  then have "length (inner_payloads ks (cs @ [j])) = 1" by (simp add: inner_page_def inner_payloads_def)
  with d have h: "length d = 1024" "page_is_inner (flags (header_of d))" "unat (cell_count (header_of d)) = 1" "right (header_of d) = j"
    by (simp_all add: inner_page_def page_rep_def)
  have "cell_count (header_of d) = 1" by (simp add: word_unat_eq_iff h(3))
  with h d show ?thesis by blast
qed

lemma split_root_leaf:
  assumes m: "table_machine m"
  shows "leaves_table m (\<lambda>s.
    pbind (ids_below leaf_count (insert_id m) s) (\<lambda>s.
    pbind (insert_id m (ucast (leaf_cell_count s)) s) (root_header m (\<lambda>header s.
    pbind (check (assertis (page_is_inner (flags header))) s) (\<lambda>s.
    pbind (check (asserteq (cell_count header) 1) s) (\<lambda>s.
    pbind (check (assertneq (right header) 0) s) (\<lambda>s.
    ids_below (\<lambda>s. Suc (leaf_count s)) (lookup_id m) s)))))))"
proof (rule leaves_tableI)
  fix s
  let ?k = "\<lambda>header s.
    pbind (check (assertis (page_is_inner (flags header))) s) (\<lambda>s.
    pbind (check (asserteq (cell_count header) 1) s) (\<lambda>s.
    pbind (check (assertneq (right header) 0) s) (\<lambda>s.
    ids_below (\<lambda>s. Suc (leaf_count s)) (lookup_id m) s)))"
  assume s: "fresh_table m s"
  have n: "(64 :: nat) < 2 ^ 31" "(63 :: nat) < 2 ^ 31" by simp_all
  have e: "map entry_size (entries (first_ids 63)) = replicate 63 small" "map entry_size (entries (first_ids 64)) = replicate 64 small"
    using first_sizes(1) [of 63 0] first_sizes(1) [of 64 0] by simp_all
  from insert_ascending [OF m s n(2), unfolded e, OF shape_fill_63] obtain s0 bt0 q0 c0 M0 where
    i0: "each (insert_id m) (first_ids 63) s = ret s0" "tabled s0 bt0 q0 c0 M0" by auto
  from insert_ascending [OF m s n(1), unfolded e, OF shape_fill_64] obtain s1 bt q c Lo M ids b where
    i: "each (insert_id m) (first_ids 64) s = ret s1" "tabled s1 bt q c M"
    "edge 1024 b Lo M (root bt # ids) [replicate 1 small_key, replicate 33 small] (entries (first_ids 64))" "id_ok b" by auto
  have "first_ids 64 = first_ids 63 @ [63]" by (simp add: upt_numeral)
  then have l: "insert_id m 63 s0 = ret s1" using i(1) i0(1) by (simp add: each_append each_singleton del: each.simps)
  have one: "replicate 1 small_key = [small_key]" by simp
  have "length ids = 1" using spine_length [of 1024 b Lo M "root bt # ids"] i(3) by (fastforce simp: edge_def)
  then have dp: "length ids < depth_bound m" using m by (simp add: table_machine_def)
  from split_root_header [OF i(3) [unfolded one]] obtain d where
    d: "M (root bt) = Some d" "length d = 1024" "page_is_inner (flags (header_of d))" "cell_count (header_of d) = 1" "right (header_of d) \<noteq> 0"
    by blast
  from root_header_tabled [OF i(2) d(1), of m ?k] d(2) obtain s2 q2 where
    r: "root_header m ?k s1 = ?k (header_of d) s2" "tabled s2 bt q2 c M" by auto
  from lookup_first [OF m r(2) edge_tree [OF i(3,4)] dp refl n(1)] obtain s3 q3 where
    g: "each (lookup_id m) (first_ids 64) s2 = ret s3" "tabled s3 bt q3 c M" by blast
  have lc: "leaf_count s = 63" "leaf_cell_count s0 = 63" "Suc (leaf_count s2) = 64"
    using s i0(2) r(2) by (auto simp: leaf_count_def tabled_def fresh_table_def)
  have "ids_below leaf_count (insert_id m) s = ret s0" "ids_below (\<lambda>s. Suc (leaf_count s)) (lookup_id m) s2 = ret s3"
    unfolding ids_below_def lc(1,3) by (rule i0(1), rule g(1))
  then have "pbind (ids_below leaf_count (insert_id m) s) (\<lambda>s. pbind (insert_id m (ucast (leaf_cell_count s)) s) (root_header m ?k)) = ret s3"
    using r(1) d(3-5) lc(2) l by simp
  then show "\<exists>s' bt p c M. pbind (ids_below leaf_count (insert_id m) s) (\<lambda>s. pbind (insert_id m (ucast (leaf_cell_count s)) s) (root_header m ?k)) = ret s' \<and>
    tabled s' bt p c M" using g(2) by blast
qed

lemma split_inner_node:
  assumes m: "table_machine m"
  shows "leaves_table m (\<lambda>s.
    pbind (ids_below (\<lambda>s. leaf_count s * unat (inner_cell_count s)) (insert_id m) s)
    (ids_below (\<lambda>s. leaf_count s * unat (inner_cell_count s)) (lookup_id m)))"
proof (rule leaves_tableI)
  fix s
  assume s: "fresh_table m s"
  have n: "(128 + 8944 :: nat) < 2 ^ 31" by simp
  have k: "(128 :: nat) \<le> 128" "(8944 :: nat) \<le> 16000" by simp_all
  have sh: "length [replicate 3 large_key, replicate 122 large_key, replicate 46 large] = 3" by simp
  from insert_ascending [OF m s n, unfolded first_sizes(2) [OF k], OF shape_fill_9072] obtain s1 bt q c Lo M ids b where
    i: "each (insert_id m) (first_ids (128 + 8944)) s = ret s1" "tabled s1 bt q c M"
    "edge 1024 b Lo M (root bt # ids) [replicate 3 large_key, replicate 122 large_key, replicate 46 large] (entries (first_ids (128 + 8944)))"
    "id_ok b" by auto
  have "Suc (length ids) = 3" using spine_length [of 1024 b Lo M "root bt # ids"] i(3) sh by (fastforce simp: edge_def)
  then have dp: "length ids < depth_bound m" using m by (simp add: table_machine_def)
  from lookup_first [OF m i(2) edge_tree [OF i(3,4)] dp refl n] obtain s3 q3 where
    g: "each (lookup_id m) (first_ids (128 + 8944)) s1 = ret s3" "tabled s3 bt q3 c M" by blast
  have lc: "leaf_count s * unat (inner_cell_count s) = 128 + 8944" "leaf_count s1 * unat (inner_cell_count s1) = 128 + 8944"
    using s i(2) by (auto simp: leaf_count_def tabled_def fresh_table_def)
  have "ids_below (\<lambda>s. leaf_count s * unat (inner_cell_count s)) (insert_id m) s = ret s1"
    "ids_below (\<lambda>s. leaf_count s * unat (inner_cell_count s)) (lookup_id m) s1 = ret s3"
    unfolding ids_below_def lc by (rule i(1), rule g(1))
  then show "\<exists>s' bt p c M. pbind (ids_below (\<lambda>s. leaf_count s * unat (inner_cell_count s)) (insert_id m) s)
    (ids_below (\<lambda>s. leaf_count s * unat (inner_cell_count s)) (lookup_id m)) = ret s' \<and> tabled s' bt p c M"
    using g(2) by (simp only: pbind_simps) blast
qed

lemma btree_bodies:
  assumes "table_machine m" and "Test n i th tm body \<in> set (btree_blocks m c)"
  shows "th = 1 \<and> leaves_table m (body 0)"
proof -
  have "leaves_table m (check (assertis (PAGE_ALIGNMENT mod alignof_header = 0)))"
  proof (rule leaves_tableI)
    fix s
    assume "fresh_table m s"
    then obtain bt p k M where "tabled s bt p k M" unfolding fresh_table_def by blast
    moreover have "check (assertis (PAGE_ALIGNMENT mod alignof_header = 0)) s = ret s"
      by (simp add: PAGE_ALIGNMENT_def alignof_header_def)
    ultimately show "\<exists>s' bt p k M. check (assertis (PAGE_ALIGNMENT mod alignof_header = 0)) s = ret s' \<and> tabled s' bt p k M"
      by blast
  qed
  then show ?thesis using assms(2)
    unfolding btree_blocks_def it_def parallel_def
    using insert_and_lookup [OF assms(1)] fill_root_leaf [OF assms(1)] split_root_leaf [OF assms(1)] split_inner_node [OF assms(1)]
    by (simp only: list.set insert_iff empty_iff block.distinct block.inject) (elim disjE conjE FalseE, simp_all only: simp_thms)
qed

lemma btree_counters: "unat c < 2 ^ 32 \<Longrightarrow> counters_ok (btree_blocks m c)"
  by (rule counters_ok_upt [where k = 5]) (simp_all add: btree_blocks_def it_def parallel_def upt_numeral)

text \<open>
  C5: The tests of btree.c. On a machine whose allocator serves all requests, every test of the
  suite passes: a root leaf takes 63 ids and has no right neighbour; the 64th id makes the
  root an inner page with one key and a right child; and of the 9072 ids of the last test each
  insertion succeeds and each lookup returns the value, across all the splits of leaves, inner
  pages and the root.
\<close>

theorem btree_tests_pass:
  assumes "table_machine m" and "unat c < 2 ^ 32" and "error_wf (errors s)" and "error_code (errors s) = 0"
  shows "\<forall>t \<in> set (block_tests (btree_blocks m c)).
    child_status (winter_process_entry os (btree_blocks m c) t s) = Exited 0"
proof
  fix t
  assume "t \<in> set (block_tests (btree_blocks m c))"
  then obtain n i tm body where m: "Test n i (test_threads t) tm body \<in> set (btree_blocks m c)"
    and t: "t = \<lparr>test_name = n, test_id = i + 6, test_threads = test_threads t, test_timeout = tm\<rparr>" by (rule block_of_test [OF _ refl])
  from btree_bodies [OF assms(1) m] have b: "test_threads t = 1" "leaves_table m (body 0)" by simp_all
  obtain s1 where s1: "btree_before m s = ret s1" "fresh_table m s1" using btree_before_fresh [OF assms(1,3,4)] by blast
  from b(2) s1(2) obtain s2 bt p k M where s2: "body 0 s1 = ret s2" "tabled s2 bt p k M" unfolding leaves_table_def by blast
  obtain s3 where s3: "btree_after s2 = ret s3" using btree_after_tabled [OF s2(2)] by blast
  have "run_bodies (before_bodies (btree_blocks m c)) 0 s = ret s1" "run_bodies (after_bodies (btree_blocks m c)) 0 s2 = ret s3"
    using s1(1) s3 by (simp_all add: btree_blocks_def it_def parallel_def)
  from test_passes [OF btree_counters [OF assms(2)] m [unfolded b(1)] this(1) s2(1) this(2)]
  show "child_status (winter_process_entry os (btree_blocks m c) t s) = Exited 0" using t b(1) by metis
qed

lemma sample_table_machine: "table_machine sample_machine"
  by (simp add: table_machine_def sample_machine_def buffers_ok_def)

theorem btree_tests_pass_witness:
  "child_status (winter_process_entry no_threads (btree_blocks sample_machine 5)
    \<lparr>test_name = ''split inner node'', test_id = 15, test_threads = 1, test_timeout = 2000000\<rparr> initial_process) = Exited 0"
proof -
  have "unat (5 :: u64) < 2 ^ 32" by simp
  note P = btree_tests_pass [OF sample_table_machine this initial_errors, of no_threads]
  have "\<lparr>test_name = ''split inner node'', test_id = 15, test_threads = 1, test_timeout = 2000000\<rparr> \<in> set (block_tests (btree_blocks sample_machine 5))"
    by (simp add: btree_blocks_def it_def parallel_def WINTER_DEFAULT_TIMEOUT_MS_def)
  from bspec [OF P this] show ?thesis .
qed

end
